(* ===== verification/Prelude.thy ===== *)
theory Prelude
  imports Main "HOL-Library.Word" "HOL-Library.Monad_Syntax" "HOL-Library.Code_Target_Nat"
begin

text \<open>
  Shared ground of the development: the machine types of the C sources, the memory model, and
  the generic lemmas on lists, bytes and buffers that the component theories use.

  \<^item> Memory model. A C array is the list of its bytes. Reading or writing outside it is undefined
    behaviour, and the model makes it visible: every access returns an option whose
    \<open>None\<close> is undefined behaviour, so a function that "never returns \<open>None\<close>" is memory safe.
    Offsets and lengths are natural numbers; every buffer of the program is at most a few times
    64 KiB long, so the \<open>int\<close> arithmetic of the sources cannot overflow on them.
  \<^item> Return codes. A C function that returns \<open>-1\<close> or a non-negative value returns
    \<open>Err\<close> or \<open>Ok v\<close>.
\<close>

unbundle bit_operations_syntax

section \<open>Types\<close>

type_synonym u8 = "8 word"
type_synonym u16 = "16 word"
type_synonym u32 = "32 word"
type_synonym u64 = "64 word"
type_synonym bytes = "u8 list"

text \<open>A C string: the bytes before the terminating NUL.\<close>

type_synonym cstr = "u8 list"

text \<open>The return value of a C function that reports failure as \<open>-1\<close>.\<close>

datatype 'a cres = Err | Ok 'a

text \<open>Facts that unfold the model's primitive operations, and facts about buffer writes.\<close>

named_theorems mem_defs \<open>definitions of the memory primitives\<close>
named_theorems buf_simps \<open>rewriting of lengths and contents of buffers\<close>

section \<open>Memory accesses\<close>

definition rd8 :: "bytes \<Rightarrow> nat \<Rightarrow> u8 option" where
  [mem_defs]: "rd8 b i = (if i < length b then Some (b ! i) else None)"

definition wr8 :: "bytes \<Rightarrow> nat \<Rightarrow> u8 \<Rightarrow> bytes option" where
  [mem_defs]: "wr8 b i v = (if i < length b then Some (b[i := v]) else None)"

definition rdn :: "bytes \<Rightarrow> nat \<Rightarrow> nat \<Rightarrow> bytes option" where
  [mem_defs]: "rdn b i n = (if i + n \<le> length b then Some (take n (drop i b)) else None)"

definition patch :: "bytes \<Rightarrow> nat \<Rightarrow> bytes \<Rightarrow> bytes" where
  "patch b i xs = take i b @ xs @ drop (i + length xs) b"

definition wrn :: "bytes \<Rightarrow> nat \<Rightarrow> bytes \<Rightarrow> bytes option" where
  [mem_defs]: "wrn b i xs = (if i + length xs \<le> length b then Some (patch b i xs) else None)"

text \<open>Appending to an output array of capacity \<open>cap\<close> that is written from its start.\<close>

definition app :: "nat \<Rightarrow> bytes \<Rightarrow> bytes \<Rightarrow> bytes option" where
  [mem_defs]: "app cap out xs = (if length out + length xs \<le> cap then Some (out @ xs) else None)"

lemma length_patch [simp, buf_simps]: "i + length xs \<le> length b \<Longrightarrow> length (patch b i xs) = length b"
  by (simp add: patch_def)

lemma take_patch [simp]: "k \<le> i \<Longrightarrow> i \<le> length b \<Longrightarrow> take k (patch b i xs) = take k b"
  by (simp add: patch_def)

lemma take_patch_end: "i \<le> length b \<Longrightarrow> take (i + length xs) (patch b i xs) = take i b @ xs"
  by (simp add: patch_def)

lemma drop_patch [simp]:
  assumes "i + length xs \<le> k" and "i + length xs \<le> length b"
  shows "drop k (patch b i xs) = drop k b"
proof -
  have "drop (k - (i + length xs)) (drop (i + length xs) b) = drop k b"
    using assms by simp
  then show ?thesis using assms by (simp add: patch_def)
qed

lemma patch_Nil [simp]: "patch b i [] = b"
  by (simp add: patch_def)

lemma patch_patch:
  assumes "i + length xs + length ys \<le> length b"
  shows "patch (patch b i xs) (i + length xs) ys = patch b i (xs @ ys)"
proof -
  have "take (i + length xs) (patch b i xs) = take i b @ xs"
    using assms by (intro take_patch_end) simp
  moreover have "drop (i + length xs + length ys) (patch b i xs) = drop (i + length xs + length ys) b"
    using assms by (intro drop_patch) simp_all
  ultimately show ?thesis
    by (subst patch_def) (simp add: patch_def [of b i "xs @ ys"] add.assoc)
qed

lemma upd_patch: "i < length b \<Longrightarrow> b[i := v] = patch b i [v]"
  by (simp add: patch_def upd_conv_take_nth_drop)

lemma wr8_patch: "wr8 b i v = wrn b i [v]"
  by (simp add: wr8_def wrn_def upd_patch)

lemma wr8_ok: "i < length b \<Longrightarrow> wr8 b i v = Some (patch b i [v])"
  by (simp add: wr8_def upd_patch)

lemma wrn_ok: "i + length xs \<le> length b \<Longrightarrow> wrn b i xs = Some (patch b i xs)"
  by (simp add: wrn_def)

lemma rd8_ok: "i < length b \<Longrightarrow> rd8 b i = Some (b ! i)"
  by (simp add: rd8_def)

lemma rdn_ok: "i + n \<le> length b \<Longrightarrow> rdn b i n = Some (take n (drop i b))"
  by (simp add: rdn_def)

lemma nth_patch:
  assumes "i + length xs \<le> length b" "j < length b"
  shows "patch b i xs ! j = (if i \<le> j \<and> j < i + length xs then xs ! (j - i) else b ! j)"
proof -
  consider (before) "j < i" | (inside) "i \<le> j" "j < i + length xs" | (after) "i + length xs \<le> j"
    by linarith
  then show ?thesis
  proof cases
    case before
    then show ?thesis using assms by (simp add: patch_def nth_append)
  next
    case inside
    then have "j - i < length xs" by simp
    then show ?thesis using assms inside by (simp add: patch_def nth_append)
  next
    case after
    then have "\<not> j - i < length xs" "i + length xs + (j - i - length xs) = j" by simp_all
    then show ?thesis using assms after by (simp add: patch_def nth_append)
  qed
qed

text \<open>
  The frame of a function that may write only the bytes \<open>lo \<le> i < hi\<close> of a buffer.
\<close>

definition same_outside :: "nat \<Rightarrow> nat \<Rightarrow> bytes \<Rightarrow> bytes \<Rightarrow> bool" where
  "same_outside lo hi b b' \<longleftrightarrow> length b' = length b \<and> take lo b' = take lo b \<and> drop hi b' = drop hi b"

lemma same_outside_refl [simp]: "same_outside lo hi b b"
  by (simp add: same_outside_def)

lemma same_outside_trans [trans]:
  "same_outside lo hi a b \<Longrightarrow> same_outside lo hi b c \<Longrightarrow> same_outside lo hi a c"
  by (simp add: same_outside_def)

lemma same_outside_patch [intro]:
  "lo \<le> i \<Longrightarrow> i + length xs \<le> hi \<Longrightarrow> hi \<le> length b \<Longrightarrow> same_outside lo hi b (patch b i xs)"
  by (simp add: same_outside_def)

lemma same_outside_length: "same_outside lo hi b b' \<Longrightarrow> length b' = length b"
  by (simp add: same_outside_def)

lemma same_outside_mono:
  assumes "same_outside lo hi b b'" "lo' \<le> lo" "hi \<le> hi'"
  shows "same_outside lo' hi' b b'"
proof -
  have "take lo' x = take lo' (take lo x)" "drop hi' x = drop (hi' - hi) (drop hi x)" for x :: bytes
    using assms(2,3) by (simp_all add: min_absorb1)
  then show ?thesis using assms(1) unfolding same_outside_def by metis
qed

lemma same_outside_nth:
  assumes "same_outside lo hi b b'" "j < lo \<or> hi \<le> j" "j < length b"
  shows "b' ! j = b ! j"
proof (cases "j < lo")
  case True
  have "take lo b' = take lo b" using assms(1) by (simp add: same_outside_def)
  then have "take lo b' ! j = take lo b ! j" by simp
  then show ?thesis using True by simp
next
  case False
  then have hi: "hi \<le> j" using assms(2) by simp
  have "drop hi b' = drop hi b" "length b' = length b"
    using assms(1) by (simp_all add: same_outside_def)
  then have "drop hi b' ! (j - hi) = drop hi b ! (j - hi)" and "hi \<le> length b'" and "hi \<le> length b"
    using hi assms(3) by simp_all
  then show ?thesis using hi by simp
qed

section \<open>Bytes\<close>

text \<open>
  A property of one byte is decided by its 256 instances. Writing them over \<open>int\<close> keeps the
  numerals binary, so \<open>code_simp\<close> decides the premise in the kernel.
\<close>

lemma u8_all:
  assumes "list_all (\<lambda>i. P (word_of_int i)) [0..255]"
  shows "\<forall>c :: u8. P c"
proof
  fix c :: u8
  have "0 \<le> uint c" "uint c < 256" using uint_lt2p [of c] by simp_all
  then have "uint c \<in> {0..255}" by simp
  with assms have "P (word_of_int (uint c))" unfolding list_all_iff set_upto by (rule bspec)
  then show "P c" by simp
qed

lemma u8_eqI:
  fixes a b :: u8
  assumes "bit a 0 = bit b 0" "bit a 1 = bit b 1" "bit a 2 = bit b 2" "bit a 3 = bit b 3"
    "bit a 4 = bit b 4" "bit a 5 = bit b 5" "bit a 6 = bit b 6" "bit a 7 = bit b 7"
  shows "a = b"
proof (rule bit_word_eqI)
  fix n assume "n < LENGTH(8)"
  then have "n \<in> {0, 1, 2, 3, 4, 5, 6, 7}" by auto
  then show "bit a n = bit b n" using assms by auto
qed

lemma bit_u8_ge [simp]: "8 \<le> n \<Longrightarrow> \<not> bit (c :: u8) n"
  using bit_imp_le_length [of c n] by auto

lemma unat_u8 [simp]: "unat (c :: u8) < 256"
  using unsigned_less [of c, where ?'a = nat] by simp

lemma unat_u16 [simp]: "unat (c :: u16) < 65536"
  using unsigned_less [of c, where ?'a = nat] by simp

lemma unat_of_nat_u8: "n < 256 \<Longrightarrow> unat (of_nat n :: u8) = n"
  by (simp add: unat_of_nat)

lemma unat_of_nat_u16: "n < 65536 \<Longrightarrow> unat (of_nat n :: u16) = n"
  by (simp add: unat_of_nat)

text \<open>The tag test of a compression pointer and the two masks used on it.\<close>

lemma and_C0_eq: "((c :: u8) AND 0xC0 = 0xC0) = (192 \<le> unat c)"
proof -
  have "\<forall>c :: u8. (c AND 0xC0 = 0xC0) = (0xC0 \<le> c)"
    by (rule u8_all) code_simp
  then show ?thesis by (simp add: word_le_nat_alt)
qed

lemma and_C0_eq_0: "((c :: u8) AND 0xC0 = 0) = (unat c < 64)"
proof -
  have "\<forall>c :: u8. (c AND 0xC0 = 0) = (c < 64)"
    by (rule u8_all) code_simp
  then show ?thesis by (simp add: word_less_nat_alt)
qed

section \<open>Case conversion\<close>

definition lower8 :: "u8 \<Rightarrow> u8" where
  "lower8 c = (if 65 \<le> c \<and> c \<le> 90 then c + 32 else c)"

lemma lower8_facts:
  "\<forall>c. lower8 (lower8 c) = lower8 c \<and> (lower8 c = 0) = (c = 0) \<and> (lower8 c = 46) = (c = 46)"
  by (rule u8_all) code_simp

lemma lower8_simps [simp]:
  "lower8 (lower8 c) = lower8 c" "(lower8 c = 0) = (c = 0)" "(lower8 c = 46) = (c = 46)"
  using lower8_facts by simp_all

end
