(* ===== verification/CString.thy ===== *)
theory CString
  imports Prelude
begin

text \<open>
  The part of the C library the sources call on strings: \<open>strtok_r\<close>, \<open>strcasecmp\<close>, \<open>strtol\<close>,
  \<open>atoi\<close>, and the two helpers \<open>strlower\<close> and \<open>safe_strcpy\<close> of \<open>dns_wire.c\<close>. A C string is the
  list of its bytes before the NUL; \<open>cstr_of\<close> reads the string that a byte array holds.
\<close>

section \<open>Literals and strings in arrays\<close>

definition str :: "string \<Rightarrow> cstr" where
  "str s = map of_char s"

definition cstr_of :: "bytes \<Rightarrow> cstr" where
  "cstr_of b = takeWhile (\<lambda>c. c \<noteq> 0) b"

lemma cstr_of_no_nul: "0 \<notin> set (cstr_of b)"
  by (auto simp: cstr_of_def dest: set_takeWhileD)

lemma cstr_of_id: "0 \<notin> set b \<Longrightarrow> cstr_of b = b"
  by (auto simp: cstr_of_def takeWhile_eq_all_conv)

lemma cstr_of_append_nul: "0 \<notin> set a \<Longrightarrow> cstr_of (a @ 0 # r) = a"
  by (induction a) (auto simp: cstr_of_def)

lemma length_cstr_of: "length (cstr_of b) \<le> length b"
  by (simp add: cstr_of_def length_takeWhile_le)

section \<open>Small string helpers\<close>

text \<open>
  \<open>strlower\<close> walks an array up to its first NUL, so it leaves the bytes after it alone.
\<close>

fun strlower :: "bytes \<Rightarrow> bytes" where
  "strlower [] = []"
| "strlower (c # s) = (if c = 0 then c # s else lower8 c # strlower s)"

lemma length_strlower [simp]: "length (strlower s) = length s"
  by (induction s) auto

lemma strlower_map: "0 \<notin> set s \<Longrightarrow> strlower s = map lower8 s"
  by (induction s) auto

lemma cstr_of_strlower: "cstr_of (strlower s) = map lower8 (cstr_of s)"
  by (induction s) (auto simp: cstr_of_def)

lemma strlower_idem [simp]: "strlower (strlower s) = strlower s"
  by (induction s) auto

text \<open>
  \<open>safe_strcpy dst src n\<close>: at most \<open>n - 1\<close> characters, always terminated; a zero size leaves the
  destination as it was.
\<close>

definition safe_strcpy :: "cstr \<Rightarrow> cstr \<Rightarrow> nat \<Rightarrow> cstr" where
  "safe_strcpy dst src dstsz = (if dstsz = 0 then dst else take (dstsz - 1) src)"

lemma safe_strcpy_bound: "0 < n \<Longrightarrow> length (safe_strcpy d s n) < n"
  by (simp add: safe_strcpy_def)

lemma safe_strcpy_id: "length s < n \<Longrightarrow> safe_strcpy d s n = s"
  by (simp add: safe_strcpy_def)

lemma set_safe_strcpy: "0 < n \<Longrightarrow> set (safe_strcpy d s n) \<subseteq> set s"
  by (auto simp: safe_strcpy_def dest: in_set_takeD)

section \<open>Case-insensitive comparison\<close>

definition strcaseeq :: "cstr \<Rightarrow> cstr \<Rightarrow> bool" where
  "strcaseeq a b \<longleftrightarrow> map lower8 a = map lower8 b"

lemma strcaseeq_refl [simp]: "strcaseeq a a"
  by (simp add: strcaseeq_def)

lemma strcaseeq_sym: "strcaseeq a b = strcaseeq b a"
  by (auto simp: strcaseeq_def)

lemma strcaseeq_trans: "strcaseeq a b \<Longrightarrow> strcaseeq b c \<Longrightarrow> strcaseeq a c"
  by (simp add: strcaseeq_def)

lemma strcaseeq_length: "strcaseeq a b \<Longrightarrow> length a = length b"
  unfolding strcaseeq_def by (drule map_eq_imp_length_eq)

lemma strcaseeq_map [simp]: "strcaseeq (map lower8 a) b = strcaseeq a b"
  "strcaseeq a (map lower8 b) = strcaseeq a b"
  by (simp_all add: strcaseeq_def comp_def)

section \<open>Tokenising\<close>

text \<open>
  The sequence of tokens that repeated calls of \<open>strtok_r\<close> return: the maximal non-empty runs of
  characters that are not delimiters.
\<close>

function toks :: "u8 list \<Rightarrow> cstr \<Rightarrow> cstr list" where
  "toks ds s =
     (case dropWhile (\<lambda>c. c \<in> set ds) s of
        [] \<Rightarrow> []
      | c # r \<Rightarrow> (c # takeWhile (\<lambda>c. c \<notin> set ds) r) # toks ds (dropWhile (\<lambda>c. c \<notin> set ds) r))"
  by auto
termination
proof (relation "measure (length \<circ> snd)", simp_all)
  fix ds :: "u8 list" and s c r
  assume "dropWhile (\<lambda>c. c \<in> set ds) s = c # r"
  then have "length (c # r) \<le> length s" using length_dropWhile_le by metis
  then show "length (dropWhile (\<lambda>c. c \<notin> set ds) r) < length s"
    using length_dropWhile_le [of "\<lambda>c. c \<notin> set ds" r] by simp
qed

declare toks.simps [simp del]

lemma toks_Nil [simp]: "toks ds [] = []"
  by (simp add: toks.simps)

lemma toks_delim [simp]: "c \<in> set ds \<Longrightarrow> toks ds (c # s) = toks ds s"
  by (simp add: toks.simps [of ds "c # s"] toks.simps [of ds s])

lemma toks_token:
  assumes "t \<noteq> []" "set t \<inter> set ds = {}" "r = [] \<or> hd r \<in> set ds"
  shows "toks ds (t @ r) = t # toks ds r"
proof -
  obtain c t' where t: "t = c # t'" using assms(1) by (cases t) auto
  have nd: "\<forall>x \<in> set t'. x \<notin> set ds" and c: "c \<notin> set ds" using assms(2) t by auto
  have "takeWhile (\<lambda>c. c \<notin> set ds) r = []" "dropWhile (\<lambda>c. c \<notin> set ds) r = r"
    using assms(3) by (cases r; auto)+
  then have "takeWhile (\<lambda>c. c \<notin> set ds) (t' @ r) = t'" "dropWhile (\<lambda>c. c \<notin> set ds) (t' @ r) = r"
    using nd by (simp_all add: takeWhile_append2 dropWhile_append2)
  then show ?thesis using c t by (simp add: toks.simps [of ds "c # t' @ r"])
qed

text \<open>Induction over the shape of a string as \<open>strtok_r\<close> sees it.\<close>

lemma toks_shape_induct [case_names Nil delim token]:
  assumes nil: "P []"
    and delim: "\<And>c s. c \<in> set ds \<Longrightarrow> P s \<Longrightarrow> P (c # s)"
    and token: "\<And>t r. t \<noteq> [] \<Longrightarrow> set t \<inter> set ds = {} \<Longrightarrow> r = [] \<or> hd r \<in> set ds \<Longrightarrow> P r \<Longrightarrow> P (t @ r)"
  shows "P s"
proof (induction s rule: length_induct)
  case (1 s)
  show ?case
  proof (cases s)
    case Nil
    then show ?thesis using nil by simp
  next
    case (Cons c r)
    show ?thesis
    proof (cases "c \<in> set ds")
      case True
      then show ?thesis using 1 Cons delim by simp
    next
      case False
      define p where "p = (\<lambda>c. c \<notin> set ds)"
      have "set (takeWhile p s) \<inter> set ds = {}" by (auto simp: p_def dest: set_takeWhileD)
      moreover have "takeWhile p s \<noteq> []" using Cons False by (simp add: p_def)
      moreover have "dropWhile p s = [] \<or> hd (dropWhile p s) \<in> set ds"
        using hd_dropWhile [of p s] p_def by auto
      moreover have "length (dropWhile p s) < length s"
        using Cons False length_dropWhile_le [of p r] by (simp add: p_def)
      ultimately have "P (takeWhile p s @ dropWhile p s)" using 1 token by blast
      then show ?thesis by simp
    qed
  qed
qed

lemma toks_wf: "t \<in> set (toks ds s) \<Longrightarrow> t \<noteq> [] \<and> set t \<inter> set ds = {} \<and> set t \<subseteq> set s"
proof (induction s rule: toks_shape_induct [where ds = ds])
  case (token t r)
  then show ?case by (auto simp: toks_token)
qed auto

text \<open>The total size of the tokens: each takes at least one separator, the last one apart.\<close>

lemma toks_size_aux:
  "(\<Sum>t \<leftarrow> toks ds s. length t + 1) \<le> length s + (if s = [] \<or> hd s \<in> set ds then 0 else 1)"
proof (induction s rule: toks_shape_induct [where ds = ds])
  case (token t r)
  then have "hd (t @ r) \<notin> set ds" by (cases t) auto
  then show ?case using token by (simp add: toks_token)
qed (auto split: if_splits)

lemma toks_size: "(\<Sum>t \<leftarrow> toks ds s. length t + 1) \<le> length s + 1"
  using toks_size_aux [of ds s] by (simp split: if_splits)

text \<open>Joining tokens with one separator, and the round trip through \<open>strtok_r\<close>.\<close>

fun join :: "u8 \<Rightarrow> cstr list \<Rightarrow> cstr" where
  "join d [] = []"
| "join d [t] = t"
| "join d (t # ts) = t @ d # join d ts"

lemma toks_join:
  assumes "\<forall>t \<in> set ts. t \<noteq> [] \<and> d \<notin> set t"
  shows "toks [d] (join d ts) = ts" "toks [d] (join d ts @ [d]) = ts"
  using assms
proof (induction d ts rule: join.induct)
  case (2 d t)
  { case 1 then show ?case using toks_token [of t "[d]" "[]"] by simp }
  { case 2 then show ?case using toks_token [of t "[d]" "[d]"] by simp }
next
  case (3 d t t' ts)
  { case 1
    then show ?case using 3 toks_token [of t "[d]" "d # join d (t' # ts)"] by simp }
  { case 2
    then show ?case using 3 toks_token [of t "[d]" "d # join d (t' # ts) @ [d]"] by simp }
qed auto

lemma length_join: "ts \<noteq> [] \<Longrightarrow> length (join d ts) + 1 = (\<Sum>t \<leftarrow> ts. length t + 1)"
  by (induction d ts rule: join.induct) auto

lemma join_append: "ts \<noteq> [] \<Longrightarrow> join d (ts @ [t]) = join d ts @ d # t"
  by (induction d ts rule: join.induct) auto

lemma set_join: "set (join d ts) \<subseteq> insert d (\<Union>t \<in> set ts. set t)"
  by (induction d ts rule: join.induct) auto

lemma map_join: "f d = d \<Longrightarrow> map f (join d ts) = join d (map (map f) ts)"
  by (induction d ts rule: join.induct) auto

section \<open>Numbers\<close>

definition isspace :: "u8 \<Rightarrow> bool" where
  "isspace c \<longleftrightarrow> c = 32 \<or> 9 \<le> c \<and> c \<le> 13"

definition isdigit :: "u8 \<Rightarrow> bool" where
  "isdigit c \<longleftrightarrow> 48 \<le> c \<and> c \<le> 57"

text \<open>The value of a digit in the bases the sources use (10 and 16).\<close>

definition digit_val :: "nat \<Rightarrow> u8 \<Rightarrow> nat option" where
  "digit_val base c =
     (let v = (if isdigit c then unat c - 48
               else if 97 \<le> c \<and> c \<le> 122 then unat c - 87
               else if 65 \<le> c \<and> c \<le> 90 then unat c - 55 else 255)
      in if v < base then Some v else None)"

fun digits_val :: "nat \<Rightarrow> nat \<Rightarrow> cstr \<Rightarrow> nat \<times> cstr" where
  "digits_val base acc [] = (acc, [])"
| "digits_val base acc (c # s) =
     (case digit_val base c of None \<Rightarrow> (acc, c # s) | Some v \<Rightarrow> digits_val base (acc * base + v) s)"

definition LONG_MAX :: int where "LONG_MAX = 0x7FFFFFFFFFFFFFFF"

text \<open>
  \<open>strtol\<close>: white space, an optional sign, in base 16 an optional \<open>0x\<close> that a digit follows, then
  digits; out of range values saturate. The result is the value and the rest at \<open>*endptr\<close>, which is
  the whole string when there is no digit.
\<close>

definition strtol :: "nat \<Rightarrow> cstr \<Rightarrow> int \<times> cstr" where
  "strtol base s =
     (let t = dropWhile isspace s;
          neg = (t \<noteq> [] \<and> hd t = 45);
          u = (if t \<noteq> [] \<and> (hd t = 45 \<or> hd t = 43) then tl t else t);
          w = (if base = 16 \<and> 2 < length u \<and> u ! 0 = 48 \<and> lower8 (u ! 1) = 120 \<and> digit_val 16 (u ! 2) \<noteq> None
               then drop 2 u else u)
      in if w = [] \<or> digit_val base (hd w) = None then (0, s)
         else (let (v, r) = digits_val base 0 w;
                   i = (if neg then - int v else int v)
               in (max (- LONG_MAX - 1) (min LONG_MAX i), r)))"

text \<open>\<open>atoi\<close> is the conversion of \<open>strtol\<close> in base 10 to a 32-bit \<open>int\<close>.\<close>

definition to_int32 :: "int \<Rightarrow> int" where
  "to_int32 v = sint (word_of_int v :: 32 word)"

definition atoi :: "cstr \<Rightarrow> int" where
  "atoi s = to_int32 (fst (strtol 10 s))"

text \<open>The decimal digits that \<open>printf\<close> writes for \<open>%u\<close>, and that \<open>strtol\<close> reads them back.\<close>

fun dec :: "nat \<Rightarrow> cstr" where
  "dec n = (if n < 10 then [of_nat (48 + n)] else dec (n div 10) @ [of_nat (48 + n mod 10)])"

declare dec.simps [simp del]

lemma digit_val_dec: "d < 10 \<Longrightarrow> digit_val 10 (of_nat (48 + d)) = Some d"
proof -
  assume d: "d < 10"
  then have "unat (of_nat (48 + d) :: u8) = 48 + d" by (intro unat_of_nat_u8) simp
  then show ?thesis using d
    by (simp add: digit_val_def isdigit_def word_le_nat_alt)
qed

lemma digits_val_dec: "digits_val 10 acc (dec n @ r) = digits_val 10 (acc * 10 ^ length (dec n) + n) r"
proof (induction n arbitrary: acc r rule: dec.induct)
  case (1 n)
  show ?case
  proof (cases "n < 10")
    case True
    then show ?thesis using digit_val_dec [of n] by (simp add: dec.simps [of n])
  next
    case False
    have "digits_val 10 acc (dec n @ r)
        = digits_val 10 (acc * 10 ^ length (dec (n div 10)) + n div 10) (of_nat (48 + n mod 10) # r)"
      using False 1 by (simp add: dec.simps [of n])
    also have "\<dots> = digits_val 10 (acc * 10 ^ length (dec n) + n) r"
      using False digit_val_dec [of "n mod 10"]
      by (simp add: dec.simps [of n] algebra_simps)
    finally show ?thesis .
  qed
qed

lemma dec_hd: "\<exists>d r. d < 10 \<and> dec n = of_nat (48 + d) # r"
proof (induction n rule: dec.induct)
  case (1 n)
  then show ?case by (cases "n < 10") (auto simp: dec.simps [of n])
qed

lemma dec_nonempty [simp]: "dec n \<noteq> []"
  using dec_hd [of n] by auto

lemma dec_digits: "list_all isdigit (dec n)"
proof (induction n rule: dec.induct)
  case (1 n)
  have "isdigit (of_nat (48 + d))" if "d < 10" for d
    using that unat_of_nat_u8 [of "48 + d"] by (simp add: isdigit_def word_le_nat_alt)
  then show ?case using 1 by (cases "n < 10") (auto simp: dec.simps [of n])
qed

lemma digit_not_space_sign: "isdigit c \<Longrightarrow> \<not> isspace c \<and> c \<noteq> 43 \<and> c \<noteq> 45 \<and> c \<noteq> 0 \<and> c \<noteq> 46"
  by (auto simp: isdigit_def isspace_def word_le_nat_alt)

text \<open>Reading back a printed number, with anything that is not a digit behind it.\<close>

lemma strtol_dec:
  assumes "int n \<le> LONG_MAX" and "r = [] \<or> digit_val 10 (hd r) = None"
  shows "strtol 10 (dec n @ r) = (int n, r)"
proof -
  obtain d q where d: "d < 10" "dec n = of_nat (48 + d) # q" using dec_hd by blast
  have c: "isdigit (of_nat (48 + d))" using dec_digits [of n] d by simp
  have v: "digit_val 10 (of_nat (48 + d)) \<noteq> None" using digit_val_dec [OF d(1)] by simp
  have "digits_val 10 n r = (n, r)"
    using assms(2) by (cases r) auto
  then have "digits_val 10 0 (dec n @ r) = (n, r)" by (simp add: digits_val_dec)
  then show ?thesis
    using assms(1) d(2) c v digit_not_space_sign [OF c]
    by (auto simp: strtol_def Let_def LONG_MAX_def simp del: of_nat_add)
qed

lemma dec_plain: "0 \<notin> set (dec n)" "10 \<notin> set (dec n)"
proof -
  have d: "isdigit c" if "c \<in> set (dec n)" for c using dec_digits [of n] that by (simp add: list_all_iff)
  show "0 \<notin> set (dec n)" using d [of 0] by (auto simp: isdigit_def)
  show "10 \<notin> set (dec n)" using d [of 10] by (auto simp: isdigit_def)
qed

lemma length_dec: "n < 10 ^ k \<Longrightarrow> 0 < k \<Longrightarrow> length (dec n) \<le> k"
proof (induction k arbitrary: n)
  case (Suc k)
  show ?case
  proof (cases "n < 10")
    case True
    then show ?thesis by (simp add: dec.simps [of n])
  next
    case False
    then have "0 < k" using Suc.prems by (cases k) auto
    moreover have "n div 10 < 10 ^ k" using Suc.prems by auto
    ultimately show ?thesis using Suc.IH [of "n div 10"] False by (simp add: dec.simps [of n])
  qed
qed simp

lemma strtol_dec_all: "n < 2 ^ 63 \<Longrightarrow> fst (strtol 10 (dec n)) = int n"
  using strtol_dec [of n "[]"] by (simp add: LONG_MAX_def)

lemma atoi_dec_int: "n < 2 ^ 31 \<Longrightarrow> atoi (dec n) = int n"
proof -
  assume n: "n < 2 ^ 31"
  then have "fst (strtol 10 (dec n)) = int n" by (intro strtol_dec_all) simp
  moreover have "sint (word_of_int (int n) :: 32 word) = int n"
    using n unfolding signed_of_int by (simp add: signed_take_bit_int_eq_self)
  ultimately show ?thesis by (simp add: atoi_def to_int32_def)
qed

end
