(* ===== verification/Codec.thy ===== *)
theory Codec
  imports CString
begin

text \<open>
  The text encodings of \<open>dns_wire.c\<close>: hex (\<open>hex_enc\<close>, \<open>hex_dec\<close>), base64 and base64url
  (\<open>b64std_dec\<close>, \<open>b64url_dec\<close>, \<open>b64url_enc\<close>) and base32hex (\<open>base32hex_enc\<close>, \<open>base32hex_dec\<close>),
  and the big-endian accessors \<open>put16\<close>, \<open>put32\<close>, \<open>get16\<close>, \<open>get32\<close>. Each encoder is shown to be
  inverted by its decoder, the accessors to be inverse to each other; the locale \<open>text_codec\<close> names
  what the users of an encoding rely on, and the three encodings are interpretations of it.
\<close>

section \<open>Hex\<close>

definition hex_H :: cstr where
  "hex_H = str ''0123456789abcdef''"

fun hex_enc :: "bytes \<Rightarrow> cstr" where
  "hex_enc [] = []"
| "hex_enc (b # bs) = hex_H ! unat (drop_bit 4 b) # hex_H ! unat (b AND 0xF) # hex_enc bs"

fun hex_dec :: "cstr \<Rightarrow> nat \<Rightarrow> bytes" where
  "hex_dec (a # b # s) maxlen =
     (if 0 < maxlen then word_of_int (fst (strtol 16 [a, b])) # hex_dec s (maxlen - 1) else [])"
| "hex_dec _ maxlen = []"

lemma length_hex_enc [simp]: "length (hex_enc bs) = 2 * length bs"
  by (induction bs) auto

lemma hex_dec_bound: "length (hex_dec s m) \<le> m"
  by (induction s m rule: hex_dec.induct) auto

lemma hex_digit:
  assumes "n < 16"
  shows "digit_val 16 (hex_H ! n) = Some n \<and> \<not> isspace (hex_H ! n) \<and> hex_H ! n \<notin> {43, 45, 0}
    \<and> lower8 (hex_H ! n) \<noteq> 120"
proof -
  have "list_all (\<lambda>n. digit_val 16 (hex_H ! n) = Some n \<and> \<not> isspace (hex_H ! n)
      \<and> hex_H ! n \<notin> {43, 45, 0} \<and> lower8 (hex_H ! n) \<noteq> 120) [0..<16]"
    by (simp add: hex_H_def str_def upt_rec digit_val_def isdigit_def isspace_def lower8_def)
  then show ?thesis using assms by (simp add: list_all_iff)
qed

lemma nibbles: "unat (drop_bit 4 (c :: u8)) = unat c div 16" "unat (c AND 0xF) = unat c mod 16"
proof -
  have "\<forall>c :: u8. uint (drop_bit 4 c) = uint c div 16 \<and> uint (c AND 0xF) = uint c mod 16"
    by (rule u8_all) code_simp
  then have "uint (drop_bit 4 c) = uint c div 16" "uint (c AND 0xF) = uint c mod 16" by auto
  then show "unat (drop_bit 4 c) = unat c div 16" "unat (c AND 0xF) = unat c mod 16"
    by (metis nat_div_distrib nat_uint_eq unsigned_greater_eq zero_le_numeral nat_numeral,
        metis nat_mod_distrib nat_uint_eq unsigned_greater_eq zero_le_numeral nat_numeral)
qed

lemma hex_pair:
  "word_of_int (fst (strtol 16 [hex_H ! unat (drop_bit 4 c), hex_H ! unat (c AND 0xF)])) = (c :: u8)"
proof -
  define h l where "h = unat c div 16" and "l = unat c mod 16"
  have "h < 16" "l < 16" using unat_u8 [of c] by (simp_all add: h_def l_def less_mult_imp_div_less)
  then have d: "digit_val 16 (hex_H ! h) = Some h" "digit_val 16 (hex_H ! l) = Some l"
    "\<not> isspace (hex_H ! h)" "hex_H ! h \<noteq> 43" "hex_H ! h \<noteq> 45"
    using hex_digit by auto
  have "h * 16 + l = unat c" by (simp add: h_def l_def)
  moreover have "uint c \<le> 9223372036854775807" using uint_lt2p [of c] by simp
  ultimately have "fst (strtol 16 [hex_H ! h, hex_H ! l]) = int (unat c)"
    using d by (auto simp: strtol_def LONG_MAX_def Let_def)
  then show ?thesis by (simp add: nibbles h_def l_def)
qed

lemma hex_dec_enc: "hex_dec (hex_enc bs) m = take m bs"
proof (induction bs arbitrary: m)
  case (Cons b bs)
  then show ?case using hex_pair by (cases m) simp_all
qed simp

lemma hex_enc_no_nul: "0 \<notin> set (hex_enc bs)"
  by (induction bs) (use hex_digit in \<open>auto simp: nibbles less_mult_imp_div_less\<close>)

section \<open>base64 and base64url\<close>

definition b64_rev :: "int list" where
  "b64_rev = replicate 43 (-1) @ [62, -1, -1, -1, 63, 52, 53, 54, 55, 56, 57, 58, 59, 60, 61]
     @ replicate 7 (-1) @ [0..25] @ replicate 6 (-1) @ [26..51] @ replicate 133 (-1)"

fun b64std_loop :: "cstr \<Rightarrow> bytes \<Rightarrow> nat \<Rightarrow> bytes" where
  "b64std_loop (c0 # c1 # c2 # c3 # s) out olen =
     (if length out < olen then
        (let a = b64_rev ! unat c0; b = b64_rev ! unat c1;
             c = b64_rev ! unat c2; d = b64_rev ! unat c3
         in if a < 0 \<or> b < 0 then out
            else (let out1 = out @ [word_of_int (push_bit 2 a OR drop_bit 4 b)];
                      out2 = (if 0 \<le> c \<and> length out1 < olen
                              then out1 @ [word_of_int (push_bit 4 b OR drop_bit 2 c)] else out1);
                      out3 = (if 0 \<le> d \<and> length out2 < olen
                              then out2 @ [word_of_int (push_bit 6 c OR d)] else out2)
                  in b64std_loop s out3 olen))
      else out)"
| "b64std_loop _ out olen = out"

definition b64std_dec :: "cstr \<Rightarrow> nat \<Rightarrow> bytes" where
  "b64std_dec inp olen = b64std_loop inp [] olen"

definition b64url_tr :: "u8 \<Rightarrow> u8" where
  "b64url_tr c = (if c = 45 then 43 else if c = 95 then 47 else c)"

text \<open>The \<open>=\<close> signs that bring a length to a multiple of four.\<close>

definition b64_pad :: "nat \<Rightarrow> cstr" where
  "b64_pad n = replicate ((4 - n mod 4) mod 4) 61"

definition b64url_dec :: "cstr \<Rightarrow> nat \<Rightarrow> bytes cres" where
  "b64url_dec inp olen =
     (if length inp \<ge> 4096 - 4 then Err
      else Ok (b64std_dec (map b64url_tr inp @ b64_pad (length inp)) olen))"

definition B64U :: cstr where
  "B64U = str ''ABCDEFGHIJKLMNOPQRSTUVWXYZabcdefghijklmnopqrstuvwxyz0123456789-_''"

fun b64url_enc_loop :: "bytes \<Rightarrow> cstr \<Rightarrow> nat \<Rightarrow> bytes \<times> cstr" where
  "b64url_enc_loop (x # y # z # r) out olen =
     (if length out + 3 < olen then
        b64url_enc_loop r
          (out @ [B64U ! unat (drop_bit 2 x), B64U ! unat (push_bit 4 (x AND 3) OR drop_bit 4 y),
                  B64U ! unat (push_bit 2 (y AND 0xF) OR drop_bit 6 z), B64U ! unat (z AND 0x3F)]) olen
      else (x # y # z # r, out))"
| "b64url_enc_loop r out olen = (r, out)"

text \<open>
  The result of \<open>b64url_enc\<close>; the terminating NUL is written only when there is room for it.
\<close>

definition b64url_enc :: "bytes \<Rightarrow> nat \<Rightarrow> cstr" where
  "b64url_enc inp olen =
     (case b64url_enc_loop inp [] olen of
        ([], out) \<Rightarrow> out
      | (x # r, out) \<Rightarrow>
          (if length out + 1 < olen then
             (let out1 = out @ [B64U ! unat (drop_bit 2 x)] in
              case r of
                y # _ \<Rightarrow>
                  if length out1 + 1 < olen then
                    (let out2 = out1 @ [B64U ! unat (push_bit 4 (x AND 3) OR drop_bit 4 y)]
                     in if length out2 < olen then out2 @ [B64U ! unat (push_bit 2 (y AND 0xF))] else out2)
                  else if length out1 < olen then out1 @ [B64U ! unat (push_bit 4 (x AND 3))] else out1
              | [] \<Rightarrow> if length out1 < olen then out1 @ [B64U ! unat (push_bit 4 (x AND 3))] else out1)
           else out))"

text \<open>The encoding of RFC 4648 section 5 without padding, on which no capacity bears.\<close>

fun b64u :: "bytes \<Rightarrow> cstr" where
  "b64u (x # y # z # r) =
     [B64U ! unat (drop_bit 2 x), B64U ! unat (push_bit 4 (x AND 3) OR drop_bit 4 y),
      B64U ! unat (push_bit 2 (y AND 0xF) OR drop_bit 6 z), B64U ! unat (z AND 0x3F)] @ b64u r"
| "b64u [x, y] = [B64U ! unat (drop_bit 2 x), B64U ! unat (push_bit 4 (x AND 3) OR drop_bit 4 y),
                  B64U ! unat (push_bit 2 (y AND 0xF))]"
| "b64u [x] = [B64U ! unat (drop_bit 2 x), B64U ! unat (push_bit 4 (x AND 3))]"
| "b64u [] = []"

lemma b64std_dec_bound: "length out \<le> olen \<Longrightarrow> length (b64std_loop s out olen) \<le> olen"
  by (induction s out olen rule: b64std_loop.induct) (auto simp: Let_def)

lemma b64url_enc_loop_b64u:
  "length out + 4 * ((length inp + 2) div 3) \<le> olen \<Longrightarrow>
   \<exists>r out'. b64url_enc_loop inp out olen = (r, out') \<and> length r < 3 \<and> out' @ b64u r = out @ b64u inp
     \<and> length out' + 4 * ((length r + 2) div 3) \<le> olen"
proof (induction inp out olen rule: b64url_enc_loop.induct)
  case (1 x y z r out olen)
  have "(length (x # y # z # r) + 2) div 3 = Suc ((length r + 2) div 3)" by simp
  then show ?case using 1 by (simp del: push_bit_and)
qed auto

lemma b64url_enc_eq:
  assumes "4 * ((length inp + 2) div 3) \<le> olen"
  shows "b64url_enc inp olen = b64u inp"
proof -
  obtain r out' where r: "b64url_enc_loop inp [] olen = (r, out')" "length r < 3" "out' @ b64u r = b64u inp"
    "length out' + 4 * ((length r + 2) div 3) \<le> olen"
    using b64url_enc_loop_b64u [of "[]" inp olen] assms by auto
  consider "r = []" | x where "r = [x]" | x y where "r = [x, y]"
    using r(2) by (cases r rule: b64u.cases) auto
  then show ?thesis
    using r by cases (auto simp: b64url_enc_def Let_def)
qed

lemma b64_digit:
  assumes "w < (64 :: u8)"
  shows "b64_rev ! unat (b64url_tr (B64U ! unat w)) = uint w" "B64U ! unat w \<noteq> 0"
proof -
  have "list_all (\<lambda>n. b64_rev ! unat (b64url_tr (B64U ! n)) = int n \<and> B64U ! n \<noteq> 0) [0..<64]"
    by (simp add: B64U_def str_def upt_rec b64url_tr_def b64_rev_def nth_append)
  moreover have "unat w < 64" using assms by (simp add: word_less_nat_alt)
  ultimately show "b64_rev ! unat (b64url_tr (B64U ! unat w)) = uint w" "B64U ! unat w \<noteq> 0"
    by (simp_all add: list_all_iff)
qed

lemma u8_less_64: "(w :: u8) AND 0x3F = w \<Longrightarrow> w < 64"
proof -
  have "\<forall>w :: u8. w AND 0x3F = w \<longrightarrow> w < 64" by (rule u8_all) code_simp
  then show "w AND 0x3F = w \<Longrightarrow> w < 64" by blast
qed

text \<open>The six-bit pieces of a group, and that the decoder's shifts put them together again.\<close>

lemma b64_pieces:
  "drop_bit 2 (x :: u8) < 64" "push_bit 4 (x AND 3) OR drop_bit 4 y < 64"
  "push_bit 2 (y AND 0xF) OR drop_bit 6 (z :: u8) < 64" "z AND 0x3F < 64"
  "push_bit 4 (x AND 3) < 64" "push_bit 2 (y AND 0xF) < 64"
  by (rule u8_less_64, rule u8_eqI; simp add: bit_simps)+

lemma b64_join:
  fixes x y z :: u8
  shows "word_of_int (push_bit 2 (uint (drop_bit 2 x)) OR drop_bit 4 (uint (push_bit 4 (x AND 3) OR drop_bit 4 y))) = x"
    "word_of_int (push_bit 4 (uint (push_bit 4 (x AND 3) OR drop_bit 4 y))
       OR drop_bit 2 (uint (push_bit 2 (y AND 0xF) OR drop_bit 6 z))) = y"
    "word_of_int (push_bit 6 (uint (push_bit 2 (y AND 0xF) OR drop_bit 6 z)) OR uint (z AND 0x3F)) = z"
    "word_of_int (push_bit 2 (uint (drop_bit 2 x)) OR drop_bit 4 (uint (push_bit 4 (x AND 3)))) = x"
    "word_of_int (push_bit 4 (uint (push_bit 4 (x AND 3) OR drop_bit 4 y))
       OR drop_bit 2 (uint (push_bit 2 (y AND 0xF)))) = y"
  by (rule u8_eqI; simp add: bit_simps)+

lemma b64_pad_3_2: "b64_pad (Suc (Suc (Suc 0))) = [61]" "b64_pad (Suc (Suc 0)) = [61, 61]"
  by (simp_all add: b64_pad_def numeral_2_eq_2)

lemma b64_rev_pad [simp]: "b64_rev ! 61 = -1"
  by (simp add: b64_rev_def nth_append)

lemma b64std_loop_b64u:
  "length out + length x \<le> olen \<Longrightarrow>
   b64std_loop (map b64url_tr (b64u x) @ b64_pad (length (b64u x))) out olen = out @ x"
proof (induction x arbitrary: out rule: b64u.induct)
  case (1 x y z r)
  have "b64_pad (length (b64u (x # y # z # r))) = b64_pad (length (b64u r))" by (simp add: b64_pad_def)
  then show ?case using 1
    by (simp add: b64_digit b64_pieces b64_join Let_def del: push_bit_and)
next
  case (2 x y)
  then show ?case
    by (simp add: b64_digit b64_pieces b64_join b64_pad_3_2 Let_def del: push_bit_and)
next
  case (3 x)
  then show ?case
    by (simp add: b64_digit b64_pieces b64_join b64_pad_3_2 Let_def del: push_bit_and)
qed (simp add: b64_pad_def)

lemma length_b64u: "length (b64u x) = (4 * length x + 2) div 3"
  by (induction x rule: b64u.induct) auto

lemma b64u_no_nul: "0 \<notin> set (b64u x)"
  by (induction x rule: b64u.induct) (simp_all add: b64_digit b64_pieces del: push_bit_and)

lemma b64url_dec_b64u:
  "(4 * length x + 2) div 3 < 4092 \<Longrightarrow> length x \<le> olen \<Longrightarrow> b64url_dec (b64u x) olen = Ok x"
  using b64std_loop_b64u [of "[]" x olen] by (simp add: b64url_dec_def b64std_dec_def length_b64u)

section \<open>base32hex\<close>

definition B32H :: cstr where
  "B32H = str ''0123456789ABCDEFGHIJKLMNOPQRSTUV''"

text \<open>The 40-bit accumulator of a group of bytes, and its characters while bits are left.\<close>

fun b32_acc :: "u64 \<Rightarrow> nat \<Rightarrow> bytes \<Rightarrow> u64" where
  "b32_acc v j [] = v"
| "b32_acc v j (b # bs) = b32_acc (v OR push_bit (32 - j * 8) (ucast b)) (Suc j) bs"

fun b32_chars :: "u64 \<Rightarrow> nat list \<Rightarrow> nat \<Rightarrow> cstr" where
  "b32_chars v [] bits = []"
| "b32_chars v (j # js) bits =
     (if 0 < bits then B32H ! unat (drop_bit (35 - j * 5) v AND 0x1F) # b32_chars v js (bits - 5) else [])"

text \<open>
  \<open>base32hex_enc\<close>: the loop stops when fewer than eight characters of room are left, and the final
  NUL is stored without a test, so \<open>None\<close> is the store one past an array of \<open>olen\<close> bytes.
\<close>

function b32_enc_loop :: "bytes \<Rightarrow> cstr \<Rightarrow> nat \<Rightarrow> cstr" where
  "b32_enc_loop inp out olen =
     (if inp \<noteq> [] \<and> length out + 7 < olen then
        (let tk = min 5 (length inp); v = b32_acc 0 0 (take tk inp)
         in b32_enc_loop (drop tk inp) (out @ b32_chars v [0..<8] (tk * 8)) olen)
      else out)"
  by auto
termination by (relation "measure (\<lambda>(inp, out, olen). length inp)") (auto simp: min_def)

declare b32_enc_loop.simps [simp del]

definition base32hex_enc :: "bytes \<Rightarrow> nat \<Rightarrow> cstr option" where
  "base32hex_enc inp olen =
     (let out = b32_enc_loop inp [] olen in if length out < olen then Some out else None)"

definition b32h_val :: "u8 \<Rightarrow> int" where
  "b32h_val c =
     (if 48 \<le> c \<and> c \<le> 57 then uint c - 48
      else if 65 \<le> c \<and> c \<le> 86 then uint c - 65 + 10
      else if 97 \<le> c \<and> c \<le> 118 then uint c - 97 + 10 else -1)"

fun b32_dec_acc :: "u64 \<Rightarrow> nat \<Rightarrow> cstr \<Rightarrow> u64 option" where
  "b32_dec_acc v j [] = Some v"
| "b32_dec_acc v j (c # cs) =
     (let val = b32h_val c in
      if val < 0 then None
      else b32_dec_acc (v OR push_bit (35 - j * 5) (word_of_int val)) (Suc j) cs)"

definition b32_obytes :: "nat \<Rightarrow> nat option" where
  "b32_obytes tk = (if tk = 8 then Some 5 else if tk = 7 then Some 4 else if tk = 5 then Some 3
     else if tk = 4 then Some 2 else if tk = 2 then Some 1 else None)"

function b32_dec_loop :: "cstr \<Rightarrow> bytes \<Rightarrow> nat \<Rightarrow> bytes cres" where
  "b32_dec_loop inp out outlen =
     (if inp \<noteq> [] then
        (let tk = min 8 (length inp) in
         case b32_dec_acc 0 0 (take tk inp) of
           None \<Rightarrow> Err
         | Some v \<Rightarrow>
             (case b32_obytes tk of
                None \<Rightarrow> Err
              | Some ob \<Rightarrow>
                  if length out + ob > outlen then Err
                  else b32_dec_loop (drop tk inp)
                         (out @ map (\<lambda>j. ucast (drop_bit (32 - j * 8) v AND 0xFF)) [0..<ob]) outlen))
      else Ok out)"
  by auto
termination by (relation "measure (\<lambda>(inp, out, outlen). length inp)") (auto simp: min_def)

declare b32_dec_loop.simps [simp del]

definition base32hex_dec :: "cstr \<Rightarrow> nat \<Rightarrow> bytes cres" where
  "base32hex_dec inp outlen = b32_dec_loop inp [] outlen"

lemma b32_digit:
  assumes "n < 32"
  shows "b32h_val (B32H ! n) = int n" "B32H ! n \<noteq> 0"
proof -
  have "list_all (\<lambda>n. b32h_val (B32H ! n) = int n \<and> B32H ! n \<noteq> 0) [0..<32]"
    by (simp add: B32H_def str_def upt_rec b32h_val_def)
  then show "b32h_val (B32H ! n) = int n" "B32H ! n \<noteq> 0" using assms by (simp_all add: list_all_iff)
qed

lemma unat_and_1F: "unat ((v :: u64) AND 0x1F) < 32"
  using word_and_le1 [of v "0x1F"] by (simp add: word_le_nat_alt)

text \<open>One group: the characters of one to five bytes decode to those bytes.\<close>

lemma b32_group_bits:
  "\<exists>w. b32_dec_acc 0 0 (b32_chars (b32_acc 0 0 [a]) [0..<8] (1 * 8)) = Some w
    \<and> map (\<lambda>j. ucast (drop_bit (32 - j * 8) w AND 0xFF)) [0..<1] = [a]"
  "\<exists>w. b32_dec_acc 0 0 (b32_chars (b32_acc 0 0 [a, b]) [0..<8] (2 * 8)) = Some w
    \<and> map (\<lambda>j. ucast (drop_bit (32 - j * 8) w AND 0xFF)) [0..<2] = [a, b]"
  "\<exists>w. b32_dec_acc 0 0 (b32_chars (b32_acc 0 0 [a, b, c]) [0..<8] (3 * 8)) = Some w
    \<and> map (\<lambda>j. ucast (drop_bit (32 - j * 8) w AND 0xFF)) [0..<3] = [a, b, c]"
  "\<exists>w. b32_dec_acc 0 0 (b32_chars (b32_acc 0 0 [a, b, c, d]) [0..<8] (4 * 8)) = Some w
    \<and> map (\<lambda>j. ucast (drop_bit (32 - j * 8) w AND 0xFF)) [0..<4] = [a, b, c, d]"
  "\<exists>w. b32_dec_acc 0 0 (b32_chars (b32_acc 0 0 [a, b, c, d, e]) [0..<8] (5 * 8)) = Some w
    \<and> map (\<lambda>j. ucast (drop_bit (32 - j * 8) w AND 0xFF)) [0..<5] = [a, b, c, d, e]"
  by (simp_all add: upt_rec unat_and_1F b32_digit Let_def,
      (rule u8_eqI; simp add: bit_simps), (intro conjI; rule u8_eqI; simp add: bit_simps)+)

lemma length_1_to_5:
  assumes "xs \<noteq> []" "length xs \<le> 5"
  obtains a where "xs = [a]" "length xs = 1" | a b where "xs = [a, b]" "length xs = 2"
    | a b c where "xs = [a, b, c]" "length xs = 3" | a b c d where "xs = [a, b, c, d]" "length xs = 4"
    | a b c d e where "xs = [a, b, c, d, e]" "length xs = 5"
proof -
  have "0 < length xs" using assms(1) by simp
  then consider "length xs = 1" | "length xs = 2" | "length xs = 3" | "length xs = 4" | "length xs = 5"
    using assms(2) by linarith
  then show ?thesis using that by cases (auto simp: length_Suc_conv numeral_eq_Suc)
qed

lemma b32_group:
  assumes "xs \<noteq> []" "length xs \<le> 5"
  shows "\<exists>w. b32_dec_acc 0 0 (b32_chars (b32_acc 0 0 xs) [0..<8] (length xs * 8)) = Some w
    \<and> map (\<lambda>j. ucast (drop_bit (32 - j * 8) w AND 0xFF)) [0..<length xs] = xs"
  using assms
proof (cases rule: length_1_to_5)
  case (1 a)
  show ?thesis unfolding 1(2) unfolding 1(1) by (rule b32_group_bits)
next
  case (2 a b)
  show ?thesis unfolding 2(2) unfolding 2(1) by (rule b32_group_bits)
next
  case (3 a b c)
  show ?thesis unfolding 3(2) unfolding 3(1) by (rule b32_group_bits)
next
  case (4 a b c d)
  show ?thesis unfolding 4(2) unfolding 4(1) by (rule b32_group_bits)
next
  case (5 a b c d e)
  show ?thesis unfolding 5(2) unfolding 5(1) by (rule b32_group_bits)
qed

lemma b32_chars_length:
  assumes "0 < k" "k \<le> 5"
  shows "b32_obytes (length (b32_chars v [0..<8] (k * 8))) = Some k"
    "length (b32_chars v [0..<8] (k * 8)) \<le> 8"
    "k = 5 \<Longrightarrow> length (b32_chars v [0..<8] (k * 8)) = 8"
    "0 \<notin> set (b32_chars v [0..<8] (k * 8))" "b32_chars v [0..<8] (k * 8) \<noteq> []"
proof -
  have nz: "0 \<noteq> B32H ! unat ((w :: u64) AND 0x1F)" for w
    using b32_digit(2) [OF unat_and_1F] by metis
  have k: "k = 1 \<or> k = 2 \<or> k = 3 \<or> k = 4 \<or> k = 5" using assms by linarith
  show "b32_obytes (length (b32_chars v [0..<8] (k * 8))) = Some k"
    using k by (elim disjE) (simp_all add: upt_rec b32_obytes_def)
  show "length (b32_chars v [0..<8] (k * 8)) \<le> 8" "b32_chars v [0..<8] (k * 8) \<noteq> []"
    using k by (elim disjE; simp add: upt_rec)+
  show "0 \<notin> set (b32_chars v [0..<8] (k * 8))"
    using k by (elim disjE) (simp_all add: upt_rec nz)
  show "k = 5 \<Longrightarrow> length (b32_chars v [0..<8] (k * 8)) = 8" by (simp add: upt_rec)
qed

lemma b32_dec_step:
  assumes "b32_dec_acc 0 0 cs = Some v" "b32_obytes (length cs) = Some ob" "length cs = 8 \<or> r = []"
    "length out + ob \<le> outlen" "cs \<noteq> []" "length cs \<le> 8"
  shows "b32_dec_loop (cs @ r) out outlen
    = b32_dec_loop r (out @ map (\<lambda>j. ucast (drop_bit (32 - j * 8) v AND 0xFF)) [0..<ob]) outlen"
proof -
  have "min 8 (length (cs @ r)) = length cs" using assms(3,6) by auto
  then show ?thesis
    using assms by (subst b32_dec_loop.simps) (simp add: Let_def)
qed

text \<open>The encoder with room for every group, and the round trip.\<close>

lemma b32_roundtrip_loop:
  "length pre + 8 * ((length inp + 4) div 5) \<le> olen \<Longrightarrow> length out + length inp \<le> outlen \<Longrightarrow>
   \<exists>s. b32_enc_loop inp pre olen = pre @ s \<and> length s \<le> 8 * ((length inp + 4) div 5) \<and> 0 \<notin> set s
     \<and> b32_dec_loop s out outlen = Ok (out @ inp)"
proof (induction "length inp" arbitrary: inp pre out rule: less_induct)
  case less
  show ?case
  proof (cases "inp = []")
    case True
    then show ?thesis by (simp add: b32_enc_loop.simps [of "[]"] b32_dec_loop.simps [of "[]"])
  next
    case False
    define xs where "xs = take 5 inp"
    define cs where "cs = b32_chars (b32_acc 0 0 xs) [0..<8] (length xs * 8)"
    have xs: "xs \<noteq> []" "length xs \<le> 5" "min 5 (length inp) = length xs" "take (length xs) inp = xs"
      "inp = xs @ drop (length xs) inp"
      using False by (auto simp: xs_def min_def)
    obtain w where w: "b32_dec_acc 0 0 cs = Some w"
      "map (\<lambda>j. ucast (drop_bit (32 - j * 8) w AND 0xFF)) [0..<length xs] = xs"
      using b32_group [OF xs(1,2)] cs_def by blast
    have k: "0 < length xs" using xs(1) by simp
    note cl = b32_chars_length [OF k xs(2), of "b32_acc 0 0 xs", folded cs_def]
    have groups: "(length inp + 4) div 5 = Suc ((length (drop (length xs) inp) + 4) div 5)"
    proof (cases "length inp \<le> 5")
      case True
      then have "length xs = length inp" by (simp add: xs_def)
      moreover have "(length inp + 4) div 5 = 1" using True k calculation by (intro div_nat_eqI) (auto simp: Suc_le_eq)
      ultimately show ?thesis by simp
    next
      case 2: False
      then have "length xs = 5" by (simp add: xs_def)
      moreover obtain m where "length inp = m + 5" using 2 by (metis le_add_diff_inverse2 nat_le_linear)
      ultimately show ?thesis by simp
    qed
    have enc: "b32_enc_loop inp pre olen = b32_enc_loop (drop (length xs) inp) (pre @ cs) olen"
      using False less.prems(1) groups xs(3,4)
      by (subst b32_enc_loop.simps) (simp add: Let_def cs_def)
    have "length (drop (length xs) inp) < length inp" using k False by simp
    moreover have "length (pre @ cs) + 8 * ((length (drop (length xs) inp) + 4) div 5) \<le> olen"
      using less.prems(1) groups cl(2) by simp
    moreover have "length (out @ xs) + length (drop (length xs) inp) \<le> outlen"
      using less.prems(2) xs(5) by (metis append.assoc length_append)
    ultimately obtain s where s: "b32_enc_loop (drop (length xs) inp) (pre @ cs) olen = (pre @ cs) @ s"
      "length s \<le> 8 * ((length (drop (length xs) inp) + 4) div 5)" "0 \<notin> set s"
      "b32_dec_loop s (out @ xs) outlen = Ok ((out @ xs) @ drop (length xs) inp)"
      using less.hyps by blast
    have "length cs = 8 \<or> s = []"
    proof (cases "length xs = 5")
      case False
      then have "length inp < 5" using xs(3) by (simp add: min_def split: if_splits)
      then have "drop (length xs) inp = []" by (simp add: xs_def)
      then show ?thesis using s(1) by (simp add: b32_enc_loop.simps [of "[]"])
    qed (use cl(3) in simp)
    then have "b32_dec_loop (cs @ s) out outlen = b32_dec_loop s (out @ xs) outlen"
      using b32_dec_step [OF w(1) cl(1) _ _ cl(5,2), of s out outlen] less.prems(2) xs(3) w(2) by simp
    then have "b32_dec_loop (cs @ s) out outlen = Ok (out @ inp)" using s(4) xs(5) by simp
    moreover have "b32_enc_loop inp pre olen = pre @ (cs @ s)" using enc s(1) by simp
    moreover have "length (cs @ s) \<le> 8 * ((length inp + 4) div 5)" using s(2) cl(2) groups by simp
    ultimately show ?thesis using s(3) cl(4) by (metis Un_iff set_append)
  qed
qed

lemma base32hex_roundtrip:
  assumes "8 * ((length x + 4) div 5) < olen" "length x \<le> outlen"
  shows "\<exists>s. base32hex_enc x olen = Some s \<and> 0 \<notin> set s \<and> base32hex_dec s outlen = Ok x"
  using b32_roundtrip_loop [of "[]" x olen "[]" outlen] assms
  by (auto simp: base32hex_enc_def base32hex_dec_def)

section \<open>Fixed-width big-endian accessors\<close>

definition put16 :: "bytes \<Rightarrow> nat \<Rightarrow> u16 \<Rightarrow> bytes option" where
  "put16 b off v = do { b \<leftarrow> wr8 b off (ucast (drop_bit 8 v)); wr8 b (off + 1) (ucast (v AND 0xFF)) }"

definition put32 :: "bytes \<Rightarrow> nat \<Rightarrow> u32 \<Rightarrow> bytes option" where
  "put32 b off v = do {
     b \<leftarrow> wr8 b off (ucast (drop_bit 24 v));
     b \<leftarrow> wr8 b (off + 1) (ucast (drop_bit 16 v AND 0xFF));
     b \<leftarrow> wr8 b (off + 2) (ucast (drop_bit 8 v AND 0xFF));
     wr8 b (off + 3) (ucast (v AND 0xFF)) }"

definition get16 :: "bytes \<Rightarrow> nat \<Rightarrow> u16 option" where
  "get16 b off = do {
     h \<leftarrow> rd8 b off; l \<leftarrow> rd8 b (off + 1);
     Some (push_bit 8 (ucast h) OR ucast l) }"

definition get32 :: "bytes \<Rightarrow> nat \<Rightarrow> u32 option" where
  "get32 b off = do {
     b0 \<leftarrow> rd8 b off; b1 \<leftarrow> rd8 b (off + 1); b2 \<leftarrow> rd8 b (off + 2); b3 \<leftarrow> rd8 b (off + 3);
     Some (push_bit 24 (ucast b0) OR push_bit 16 (ucast b1) OR push_bit 8 (ucast b2) OR ucast b3) }"

text \<open>The network byte order encodings as lists, and the accessors in terms of them.\<close>

definition be16 :: "u16 \<Rightarrow> bytes" where
  "be16 v = [ucast (drop_bit 8 v), ucast (v AND 0xFF)]"

definition be32 :: "u32 \<Rightarrow> bytes" where
  "be32 v = [ucast (drop_bit 24 v), ucast (drop_bit 16 v AND 0xFF), ucast (drop_bit 8 v AND 0xFF),
             ucast (v AND 0xFF)]"

lemma length_be [simp]: "length (be16 v) = 2" "length (be32 w) = 4"
  by (simp_all add: be16_def be32_def)

lemma put16_ok: "off + 2 \<le> length b \<Longrightarrow> put16 b off v = Some (patch b off (be16 v))"
  using patch_patch [of off "[ucast (drop_bit 8 v)]" "[ucast (v AND 0xFF)]" b]
  by (simp add: put16_def wr8_ok be16_def)

lemma put32_ok:
  assumes "off + 4 \<le> length b"
  shows "put32 b off v = Some (patch b off (be32 v))"
proof -
  let ?x = "\<lambda>k. ucast (drop_bit k v AND 0xFF) :: u8"
  have "patch (patch (patch (patch b off [ucast (drop_bit 24 v)]) (off + 1) [?x 16]) (off + 2) [?x 8]) (off + 3) [ucast (v AND 0xFF)]
      = patch b off (be32 v)"
    using assms patch_patch [of off "[ucast (drop_bit 24 v)]" "[?x 16]" b]
      patch_patch [of off "[ucast (drop_bit 24 v), ?x 16]" "[?x 8]" b]
      patch_patch [of off "[ucast (drop_bit 24 v), ?x 16, ?x 8]" "[ucast (v AND 0xFF)]" b]
    by (simp add: be32_def numeral_2_eq_2 numeral_3_eq_3)
  then show ?thesis using assms by (simp add: put32_def wr8_ok)
qed

lemma get16_ok: "off + 2 \<le> length b \<Longrightarrow> get16 b off = Some (push_bit 8 (ucast (b ! off)) OR ucast (b ! (off + 1)))"
  by (simp add: get16_def rd8_ok)

lemma ucast_and_FF: "ucast ((v :: 'a::len word) AND 0xFF) = (ucast v :: u8)"
proof -
  have m: "(0xFF :: 'a word) = mask 8" by (simp add: mask_eq_exp_minus_1)
  show ?thesis unfolding m by (rule bit_word_eqI) (auto simp: bit_simps dest: bit_imp_le_length)
qed

lemma get16_be: "push_bit 8 (ucast (ucast (drop_bit 8 v) :: u8)) OR ucast (ucast (v AND 0xFF) :: u8) = (v :: u16)"
  unfolding ucast_and_FF
proof (rule bit_word_eqI)
  fix n assume "n < LENGTH(16)"
  then show "bit (push_bit 8 (ucast (ucast (drop_bit 8 v) :: u8)) OR ucast (ucast v :: u8) :: u16) n = bit v n"
    by (cases "n < 8") (auto simp: bit_simps)
qed

lemma get32_be:
  "push_bit 24 (ucast (ucast (drop_bit 24 v) :: u8)) OR push_bit 16 (ucast (ucast (drop_bit 16 v AND 0xFF) :: u8))
     OR push_bit 8 (ucast (ucast (drop_bit 8 v AND 0xFF) :: u8)) OR ucast (ucast (v AND 0xFF) :: u8) = (v :: u32)"
  unfolding ucast_and_FF
proof (rule bit_word_eqI)
  fix n assume "n < LENGTH(32)"
  then consider "n < 8" | "8 \<le> n" "n < 16" | "16 \<le> n" "n < 24" | "24 \<le> n" "n < 32" by (simp; linarith)
  then show "bit (push_bit 24 (ucast (ucast (drop_bit 24 v) :: u8)) OR push_bit 16 (ucast (ucast (drop_bit 16 v) :: u8))
     OR push_bit 8 (ucast (ucast (drop_bit 8 v) :: u8)) OR ucast (ucast v :: u8) :: u32) n = bit v n"
    by cases (auto simp: bit_simps)
qed

lemma be16_inj: "be16 v = [h, l] \<Longrightarrow> push_bit 8 (ucast h) OR ucast l = v"
  using get16_be [of v] by (auto simp: be16_def)

lemma get16_at:
  assumes "off + 2 \<le> length b" "take 2 (drop off b) = be16 v"
  shows "get16 b off = Some v"
proof -
  have "take 2 (drop off b) = [b ! off, b ! (off + 1)]"
    using assms(1) by (simp add: take_Suc_conv_app_nth numeral_2_eq_2 hd_drop_conv_nth nth_via_drop)
  then show ?thesis using assms be16_inj [of v] by (simp add: get16_ok)
qed

lemma get32_at:
  assumes "off + 4 \<le> length b" "take 4 (drop off b) = be32 v"
  shows "get32 b off = Some v"
proof -
  have e: "b ! (off + i) = be32 v ! i" if "i < 4" for i
  proof -
    have "take 4 (drop off b) ! i = b ! (off + i)" using that assms(1) by simp
    then show ?thesis using assms(2) by simp
  qed
  show ?thesis
    using assms(1) get32_be [of v] e [of 0] e [of 1] e [of 2] e [of 3] by (simp add: get32_def rd8_ok be32_def)
qed

lemma get16_put16:
  assumes "put16 b off v = Some b'"
  shows "get16 b' off = Some v"
proof -
  have "off + 2 \<le> length b" using assms by (auto simp: put16_def wr8_def split: if_splits Option.bind_splits)
  then show ?thesis using assms
    by (intro get16_at) (auto simp: put16_ok patch_def)
qed

lemma get32_put32:
  assumes "put32 b off v = Some b'"
  shows "get32 b' off = Some v"
proof -
  have l: "off + 4 \<le> length b" using assms by (auto simp: put32_def wr8_def split: if_splits Option.bind_splits)
  then have b': "b' = patch b off (be32 v)" using assms by (simp add: put32_ok)
  show ?thesis using l get32_be [of v]
    by (simp add: b' get32_def rd8_ok nth_patch) (simp add: be32_def)
qed

section \<open>What the users of an encoding rely on\<close>

text \<open>
  The stored records, the cookie secret and the owner names of the NSEC3 chain travel as text. Their
  users rely on three things: the decoder gives back what was encoded, the text holds no NUL, and
  so the text survives being stored in a C string and distinct values stay distinct.
\<close>

locale text_codec =
  fixes enc :: "bytes \<Rightarrow> cstr" and decode :: "cstr \<Rightarrow> bytes option" and fits :: "bytes \<Rightarrow> bool"
  assumes decode_enc: "fits x \<Longrightarrow> decode (enc x) = Some x"
    and enc_no_nul: "fits x \<Longrightarrow> 0 \<notin> set (enc x)"
begin

lemma enc_eq_iff: "fits x \<Longrightarrow> fits y \<Longrightarrow> enc x = enc y \<longleftrightarrow> x = y"
  using decode_enc by (metis option.inject)

lemma decode_stored: "fits x \<Longrightarrow> decode (cstr_of (enc x @ 0 # junk)) = Some x"
  using enc_no_nul decode_enc by (simp add: cstr_of_append_nul)

end

interpretation hex: text_codec hex_enc "\<lambda>s. Some (hex_dec s cap)" "\<lambda>x. length x \<le> cap" for cap
  by unfold_locales (simp_all add: hex_dec_enc hex_enc_no_nul)

definition ok_of :: "'a cres \<Rightarrow> 'a option" where
  "ok_of r = (case r of Err \<Rightarrow> None | Ok v \<Rightarrow> Some v)"

interpretation b64url: text_codec "\<lambda>x. b64url_enc x elen" "\<lambda>s. ok_of (b64url_dec s cap)"
    "\<lambda>x. 4 * ((length x + 2) div 3) \<le> elen \<and> (4 * length x + 2) div 3 < 4092 \<and> length x \<le> cap" for elen cap
  by unfold_locales (auto simp: ok_of_def b64url_dec_b64u b64url_enc_eq b64u_no_nul)

interpretation b32hex: text_codec "\<lambda>x. the (base32hex_enc x elen)" "\<lambda>s. ok_of (base32hex_dec s cap)"
    "\<lambda>x. 8 * ((length x + 4) div 5) < elen \<and> length x \<le> cap" for elen cap
  by unfold_locales (auto simp: ok_of_def dest: base32hex_roundtrip)

section \<open>Properties\<close>

text \<open>
  Hex text. Whatever \<open>hex_enc\<close> writes for a byte string, read back as a C string from an array with
  anything behind the NUL, \<open>hex_dec\<close> returns that byte string when its output array is large enough.
\<close>

theorem hex_stored_roundtrip:
  assumes "length x \<le> cap"
  shows "hex_dec (cstr_of (hex_enc x @ 0 # junk)) cap = x"
  using hex.decode_stored [of x cap junk] assms by simp

theorem hex_stored_roundtrip_witness:
  "hex_dec (cstr_of (hex_enc [0xDE, 0x00, 0x0A] @ 0 # [0x31, 0x32])) 16 = [0xDE, 0x00, 0x0A]"
  by (rule hex_stored_roundtrip) simp

text \<open>
  base64url (RFC 4648 section 5, used for DoH and ACME). With an output array of four characters per
  started group of three bytes \<open>b64url_enc\<close> produces exactly the unpadded encoding, and \<open>b64url_dec\<close>
  returns the original bytes, never writing more than its output array holds.
\<close>

theorem b64url_enc_dec:
  assumes "4 * ((length x + 2) div 3) \<le> elen" "(4 * length x + 2) div 3 < 4092" "length x \<le> olen"
  shows "b64url_enc x elen = b64u x \<and> b64url_dec (b64url_enc x elen) olen = Ok x
    \<and> length (b64url_enc x elen) = (4 * length x + 2) div 3"
  using b64url_enc_eq [OF assms(1)] b64url_dec_b64u [OF assms(2,3)] length_b64u by metis

theorem b64url_enc_dec_witness:
  "b64url_enc [0x66, 0x6F, 0x6F, 0xFF] 8 = str ''Zm9v_w'' \<and> b64url_dec (str ''Zm9v_w'') 4 = Ok [0x66, 0x6F, 0x6F, 0xFF]"
proof -
  have "b64u [0x66, 0x6F, 0x6F, 0xFF] = str ''Zm9v_w''" by (simp add: B64U_def str_def)
  moreover have "b64url_enc [0x66, 0x6F, 0x6F, 0xFF] 8 = b64u [0x66, 0x6F, 0x6F, 0xFF]
      \<and> b64url_dec (b64url_enc [0x66, 0x6F, 0x6F, 0xFF] 8) 4 = Ok [0x66, 0x6F, 0x6F, 0xFF]
      \<and> length (b64url_enc [0x66, 0x6F, 0x6F, 0xFF] 8) = (4 * length [0x66, 0x6F, 0x6F, 0xFF :: u8] + 2) div 3"
    by (rule b64url_enc_dec) simp_all
  ultimately show ?thesis by metis
qed

text \<open>
  base32hex (NSEC3 owner names). With strictly more than eight characters of room per started group
  of five bytes \<open>base32hex_enc\<close> stays inside its output array, its text holds no NUL, and
  \<open>base32hex_dec\<close> returns the original bytes.
\<close>

theorem base32hex_enc_dec:
  assumes "8 * ((length x + 4) div 5) < elen" "length x \<le> olen"
  shows "\<exists>s. base32hex_enc x elen = Some s \<and> 0 \<notin> set s \<and> base32hex_dec s olen = Ok x"
  using assms by (rule base32hex_roundtrip)

theorem base32hex_enc_dec_witness:
  "\<exists>s. base32hex_enc (replicate 20 0xA5) 64 = Some s \<and> 0 \<notin> set s \<and> base32hex_dec s 20 = Ok (replicate 20 0xA5)"
  by (rule base32hex_enc_dec) simp_all

text \<open>
  The bound of \<open>base32hex_enc\<close> is off by one: an output array that the text fills exactly, which
  the loop's guard accepts, makes the final store of the NUL land one byte past its end.
\<close>

theorem base32hex_enc_off_by_one: "base32hex_enc [a, b, c, d, e] 8 = None"
proof -
  have "length (b32_enc_loop [a, b, c, d, e] [] 8) = 8"
    using b32_chars_length(3) [of 5 "b32_acc 0 0 [a, b, c, d, e]"]
    by (simp add: b32_enc_loop.simps [of "[a, b, c, d, e]"] b32_enc_loop.simps [of "[]"] Let_def)
  then show ?thesis by (simp add: base32hex_enc_def Let_def)
qed

end
