(* ===== verification/Names.thy ===== *)
theory Names
  imports Codec
begin

text \<open>
  DNS names on the wire (\<open>dns_wire.c\<close>): \<open>name_to_wire\<close>, \<open>name_from_wire\<close>, \<open>skip_name\<close>, \<open>txt_encode\<close>
  and the NSEC3 owner hash \<open>nsec3_hash_raw\<close>. The meaning of a wire name is the inductive relation
  \<open>walk\<close>: from an offset, through labels and backward pointers, to another offset. The parser is
  shown to be memory safe, to return exactly what \<open>walk\<close> spells, and to invert the encoder.
\<close>

section \<open>Encoding\<close>

text \<open>The labels of a dotted name, as the encoders see them: at most 255 characters are read.\<close>

definition labels_of :: "cstr \<Rightarrow> cstr list" where
  "labels_of name = toks [46] (safe_strcpy [] name 256)"

text \<open>
  \<open>name_to_wire(name, b + base, blen)\<close>: the array is returned with what was written to it, also when
  the call fails.
\<close>

fun name_to_wire_loop :: "cstr list \<Rightarrow> bytes \<Rightarrow> nat \<Rightarrow> nat \<Rightarrow> nat \<Rightarrow> (bytes \<times> nat cres) option" where
  "name_to_wire_loop [] b base blen pos =
     (if pos \<ge> blen then Some (b, Err)
      else do { b \<leftarrow> wr8 b (base + pos) 0; Some (b, Ok (pos + 1)) })"
| "name_to_wire_loop (lbl # ls) b base blen pos =
     (let ll = length lbl in
      if ll > 63 then Some (b, Err)
      else if pos + ll + 1 \<ge> blen then Some (b, Err)
      else do {
        b \<leftarrow> wr8 b (base + pos) (of_nat ll);
        b \<leftarrow> wrn b (base + pos + 1) lbl;
        name_to_wire_loop ls b base blen (pos + 1 + ll) })"

definition name_to_wire :: "cstr \<Rightarrow> bytes \<Rightarrow> nat \<Rightarrow> nat \<Rightarrow> (bytes \<times> nat cres) option" where
  "name_to_wire name b base blen = name_to_wire_loop (labels_of name) b base blen 0"

text \<open>The copy of a name into an array of \<open>cap\<close> bytes that several functions write out: nothing is checked.\<close>

fun label_loop :: "nat \<Rightarrow> cstr list \<Rightarrow> bytes \<Rightarrow> bytes option" where
  "label_loop cap [] out = app cap out [0]"
| "label_loop cap (lbl # ls) out = do { out \<leftarrow> app cap out (of_nat (length lbl) # lbl); label_loop cap ls out }"

section \<open>Decoding\<close>

definition ptr_of :: "u8 \<Rightarrow> u8 \<Rightarrow> nat" where
  "ptr_of c d = unat (push_bit 8 (ucast (c AND 0x3F)) OR ucast d :: u16)"

text \<open>
  The loop of \<open>name_from_wire\<close>; \<open>steps\<close> counts down the 128 rounds, \<open>jret\<close> is \<open>None\<close> until the first
  pointer is followed. Leaving the loop by the step count ends in the same epilogue as the root
  label, as in the source. The output array of \<open>olen\<close> characters is written from its start.
\<close>

definition nfw_finish :: "nat \<Rightarrow> nat \<Rightarrow> bytes \<Rightarrow> nat option \<Rightarrow> (nat \<times> bytes) cres option" where
  "nfw_finish olen pos out jret = do {
     _ \<leftarrow> app olen out [0];
     Some (Ok (case jret of None \<Rightarrow> pos | Some r \<Rightarrow> r, strlower out)) }"

fun nfw_loop ::
  "bytes \<Rightarrow> nat \<Rightarrow> nat \<Rightarrow> nat \<Rightarrow> nat \<Rightarrow> bytes \<Rightarrow> nat option \<Rightarrow> (nat \<times> bytes) cres option" where
  "nfw_loop pkt plen olen 0 pos out jret = nfw_finish olen pos out jret"
| "nfw_loop pkt plen olen (Suc steps) pos out jret =
     (if pos \<ge> plen then Some Err
      else do {
        c \<leftarrow> rd8 pkt pos;
        if c AND 0xC0 = 0xC0 then
          (if pos + 1 \<ge> plen then Some Err
           else do {
             d \<leftarrow> rd8 pkt (pos + 1);
             let t = ptr_of c d;
             if t \<ge> pos then Some Err
             else nfw_loop pkt plen olen steps t out
                    (case jret of None \<Rightarrow> Some (pos + 2) | Some r \<Rightarrow> Some r) })
        else if c = 0 then nfw_finish olen (pos + 1) out jret
        else
          (let ll = unat c; pos = pos + 1 in
           if pos + ll > plen \<or> length out + ll + 1 \<ge> olen then Some Err
           else do {
             out \<leftarrow> (if out \<noteq> [] then app olen out [46] else Some out);
             l \<leftarrow> rdn pkt pos ll;
             out \<leftarrow> app olen out l;
             nfw_loop pkt plen olen steps (pos + ll) out jret }) })"

definition name_from_wire :: "bytes \<Rightarrow> nat \<Rightarrow> nat \<Rightarrow> nat \<Rightarrow> (nat \<times> bytes) cres option" where
  "name_from_wire pkt plen off olen = nfw_loop pkt plen olen 128 off [] None"

fun skip_name_loop :: "bytes \<Rightarrow> nat \<Rightarrow> nat \<Rightarrow> nat \<Rightarrow> nat cres option" where
  "skip_name_loop pkt plen 0 off = Some Err"
| "skip_name_loop pkt plen (Suc steps) off =
     (if off \<ge> plen then Some Err
      else do {
        c \<leftarrow> rd8 pkt off;
        if c AND 0xC0 = 0xC0 then Some (if off + 2 \<le> plen then Ok (off + 2) else Err)
        else if c = 0 then Some (Ok (off + 1))
        else skip_name_loop pkt plen steps (off + unat c + 1) })"

definition skip_name :: "bytes \<Rightarrow> nat \<Rightarrow> nat \<Rightarrow> nat cres option" where
  "skip_name pkt plen off = skip_name_loop pkt plen 128 off"

section \<open>Character strings of TXT records\<close>

function txt_encode_loop :: "cstr \<Rightarrow> bytes \<Rightarrow> nat \<Rightarrow> nat \<Rightarrow> (bytes \<times> nat cres) option" where
  "txt_encode_loop s rd maxlen out =
     (if s \<noteq> [] then
        (let chunk = (if length s > 255 then 255 else length s) in
         if out + 1 + chunk > maxlen then Some (rd, Err)
         else do {
           rd \<leftarrow> wr8 rd out (of_nat chunk);
           rd \<leftarrow> wrn rd (out + 1) (take chunk s);
           txt_encode_loop (drop chunk s) rd maxlen (out + 1 + chunk) })
      else Some (rd, Ok out))"
  by auto
termination by (relation "measure (\<lambda>(s, rd, maxlen, out). length s)") auto

declare txt_encode_loop.simps [simp del]

definition txt_encode :: "cstr \<Rightarrow> bytes \<Rightarrow> nat \<Rightarrow> (bytes \<times> nat cres) option" where
  "txt_encode s rd maxlen = txt_encode_loop s rd maxlen 0"

section \<open>The meaning of a wire name\<close>

text \<open>
  \<open>decodes p off k ls e\<close>: at offset \<open>off\<close> of the message \<open>p\<close> stands a name with the labels \<open>ls\<close>,
  spelt by \<open>k\<close> labels and pointers and a root label; \<open>e\<close> is the offset behind it, the one behind the
  first pointer if there is one. Pointers go strictly backwards. A length octet is below 192, which
  is what the parser takes.
\<close>

inductive decodes :: "bytes \<Rightarrow> nat \<Rightarrow> nat \<Rightarrow> bytes list \<Rightarrow> nat \<Rightarrow> bool" for p :: bytes where
  root: "off < length p \<Longrightarrow> p ! off = 0 \<Longrightarrow> decodes p off 0 [] (off + 1)"
| label: "off < length p \<Longrightarrow> unat (p ! off) = c \<Longrightarrow> 0 < c \<Longrightarrow> c < 192 \<Longrightarrow> off + 1 + c \<le> length p \<Longrightarrow>
    decodes p (off + 1 + c) k ls e \<Longrightarrow> decodes p off (Suc k) (take c (drop (off + 1) p) # ls) e"
| ptr: "off + 1 < length p \<Longrightarrow> 192 \<le> unat (p ! off) \<Longrightarrow> ptr_of (p ! off) (p ! (off + 1)) = t \<Longrightarrow> t < off \<Longrightarrow>
    decodes p t k ls e' \<Longrightarrow> decodes p off (Suc k) ls (off + 2)"


inductive_cases decodes_elim: "decodes p off k ls e"

lemma decodes_nonempty: "decodes p off k ls e \<Longrightarrow> l \<in> set ls \<Longrightarrow> l \<noteq> [] \<and> length l < 192"
  by (induction rule: decodes.induct) auto

lemma decodes_end_bound: "decodes p off k ls e \<Longrightarrow> off < e \<and> e \<le> length p"
  by (induction rule: decodes.induct) auto

lemma decodes_append: "decodes p off k ls e \<Longrightarrow> decodes (p @ r) off k ls e"
proof (induction rule: decodes.induct)
  case (root off)
  then show ?case by (intro decodes.root) (auto simp: nth_append)
next
  case (label off c k ls e)
  have "decodes (p @ r) off (Suc k) (take c (drop (off + 1) (p @ r)) # ls) e"
    using label by (intro decodes.label) (auto simp: nth_append)
  then show ?case using label by simp
next
  case (ptr off t k ls e')
  then show ?case by (intro decodes.ptr [where t = t]) (auto simp: nth_append)
qed

lemma decodes_mono: "decodes (take n p) off k ls e \<Longrightarrow> n \<le> m \<Longrightarrow> decodes (take m p) off k ls e"
  using decodes_append [of "take n p" off k ls e "drop n (take m p)"] append_take_drop_id [of n "take m p"]
  by (simp add: min_absorb1)

text \<open>A name spells one list of labels only.\<close>

lemma decodes_det: "decodes p off k ls e \<Longrightarrow> decodes p off k' ls' e' \<Longrightarrow> k' = k \<and> ls' = ls \<and> e' = e"
proof (induction arbitrary: k' ls' e' rule: decodes.induct)
  case (root off)
  from root(3) show ?case by cases (use root in auto)
next
  case (label off c k ls e)
  from label.prems show ?case
  proof cases
    case (label c' k'' ls'')
    then show ?thesis using label.IH local.label.hyps by metis
  qed (use label.hyps in auto)
next
  case (ptr off t k ls e1)
  from ptr.prems show ?case
  proof cases
    case (ptr t' k'' e2)
    then show ?thesis using ptr.IH local.ptr.hyps by metis
  qed (use ptr.hyps in auto)
qed

lemma take_drop_take: "i + n \<le> m \<Longrightarrow> take n (drop i (take m xs)) = take n (drop i xs)"
  by (simp add: drop_take min_def)

section \<open>The encoder\<close>

text \<open>The wire form of a list of labels.\<close>

definition wire :: "cstr list \<Rightarrow> bytes" where
  "wire ls = concat (map (\<lambda>l. of_nat (length l) # l) ls) @ [0]"

lemma wire_simps [simp]: "wire [] = [0]" "wire (l # ls) = of_nat (length l) # l @ wire ls"
  by (simp_all add: wire_def)

lemma length_wire: "length (wire ls) = (\<Sum>l \<leftarrow> ls. length l + 1) + 1"
  by (induction ls) auto

lemma labels_of_wf: "l \<in> set (labels_of name) \<Longrightarrow> l \<noteq> [] \<and> 46 \<notin> set l \<and> length l \<le> 255"
proof -
  assume l: "l \<in> set (labels_of name)"
  have "length l + 1 \<le> (\<Sum>t \<leftarrow> labels_of name. length t + 1)"
    using l by (simp add: member_le_sum_list)
  also have "\<dots> \<le> length (safe_strcpy [] name 256) + 1" unfolding labels_of_def by (rule toks_size)
  finally have "length l \<le> 255" using safe_strcpy_bound [of 256 "[]" name] by simp
  then show ?thesis using toks_wf [of l "[46]"] l by (simp add: labels_of_def)
qed

lemma labels_of_size: "(\<Sum>l \<leftarrow> labels_of name. length l + 1) \<le> 256"
  using toks_size [of "[46]" "safe_strcpy [] name 256"] safe_strcpy_bound [of 256 "[]" name]
  by (simp add: labels_of_def)

lemma labels_of_join:
  assumes "\<forall>l \<in> set ls. l \<noteq> [] \<and> 46 \<notin> set l" "length (join 46 ls) \<le> 255"
  shows "labels_of (join 46 ls) = ls"
  using assms by (simp add: labels_of_def safe_strcpy_id toks_join)

text \<open>Every branch of the encoder: what it needs, what it writes, and what it leaves alone.\<close>

lemma name_to_wire_loop_ok:
  assumes "base + blen \<le> length b" "\<forall>l \<in> set ls. length l \<le> 63" "pos + length (wire ls) \<le> blen"
  shows "name_to_wire_loop ls b base blen pos
    = Some (patch b (base + pos) (wire ls), Ok (pos + length (wire ls)))"
  using assms
proof (induction ls arbitrary: b pos)
  case Nil
  then show ?case by (simp add: wr8_ok)
next
  case (Cons l ls)
  define b' where "b' = patch b (base + pos) (of_nat (length l) # l)"
  have b': "patch (patch b (base + pos) [of_nat (length l)]) (Suc (base + pos)) l = b'"
    using Cons.prems patch_patch [of "base + pos" "[of_nat (length l)]" l b] by (simp add: b'_def)
  have w: "length (wire ls) \<ge> 1" by (cases ls) auto
  have len: "length b' = length b" using Cons.prems unfolding b'_def by (intro length_patch) auto
  have "name_to_wire_loop ls b' base blen (pos + 1 + length l)
      = Some (patch b' (base + (pos + 1 + length l)) (wire ls), Ok (pos + 1 + length l + length (wire ls)))"
    using Cons.prems len by (intro Cons.IH) auto
  moreover have "patch b' (base + (pos + 1 + length l)) (wire ls) = patch b (base + pos) (wire (l # ls))"
    using Cons.prems patch_patch [of "base + pos" "of_nat (length l) # l" "wire ls" b]
    by (simp add: b'_def ac_simps)
  ultimately show ?case
    using Cons.prems w b' by (simp add: Let_def wr8_ok wrn_ok)
qed

lemma name_to_wire_loop_err:
  assumes "base + blen \<le> length b" "\<not> (\<forall>l \<in> set ls. length l \<le> 63) \<or> blen < pos + length (wire ls)"
  shows "\<exists>b'. name_to_wire_loop ls b base blen pos = Some (b', Err) \<and> same_outside base (base + blen) b b'"
  using assms
proof (induction ls arbitrary: b pos)
  case Nil
  then show ?case by simp
next
  case (Cons l ls)
  show ?case
  proof (cases "length l > 63 \<or> pos + length l + 1 \<ge> blen")
    case True
    then show ?thesis by (auto simp: Let_def)
  next
    case False
    define b' where "b' = patch (patch b (base + pos) [of_nat (length l)]) (Suc (base + pos)) l"
    have s: "same_outside base (base + blen) b b'"
      unfolding b'_def using False Cons.prems(1)
      by (intro same_outside_trans [OF same_outside_patch same_outside_patch]) auto
    then have "length b' = length b" by (rule same_outside_length)
    then obtain b'' where "name_to_wire_loop ls b' base blen (pos + 1 + length l) = Some (b'', Err)"
      "same_outside base (base + blen) b' b''"
      using Cons.IH [of b' "pos + 1 + length l"] Cons.prems False by auto
    moreover have "name_to_wire_loop (l # ls) b base blen pos
        = name_to_wire_loop ls b' base blen (pos + 1 + length l)"
      using False Cons.prems(1) by (simp add: Let_def wr8_ok wrn_ok b'_def)
    ultimately show ?thesis using s same_outside_trans by metis
  qed
qed

lemma name_to_wire_ok:
  assumes "base + blen \<le> length b" "\<forall>l \<in> set (labels_of name). length l \<le> 63"
    "length (wire (labels_of name)) \<le> blen"
  shows "name_to_wire name b base blen
    = Some (patch b base (wire (labels_of name)), Ok (length (wire (labels_of name))))"
  using name_to_wire_loop_ok [OF assms(1,2), of 0] assms(3) by (simp add: name_to_wire_def)

lemma name_to_wire_err:
  assumes "base + blen \<le> length b"
    "\<not> (\<forall>l \<in> set (labels_of name). length l \<le> 63) \<or> blen < length (wire (labels_of name))"
  shows "\<exists>b'. name_to_wire name b base blen = Some (b', Err) \<and> same_outside base (base + blen) b b'"
  using name_to_wire_loop_err [OF assms(1), of "labels_of name" 0] assms(2) by (simp add: name_to_wire_def)

lemma label_loop_ok: "length out + length (wire ls) \<le> cap \<Longrightarrow> label_loop cap ls out = Some (out @ wire ls)"
proof (induction ls arbitrary: out)
  case (Cons l ls)
  have "1 \<le> length (wire ls)" by (simp add: length_wire)
  then show ?case using Cons by (simp add: app_def)
qed (simp add: app_def)

lemma label_loop_overflow: "cap < length out + length (wire ls) \<Longrightarrow> label_loop cap ls out = None"
proof (induction ls arbitrary: out)
  case (Cons l ls)
  then show ?case by (simp add: app_def)
qed (simp add: app_def)

section \<open>The parser\<close>



text \<open>The dotted text that the parser builds up from \<open>out\<close>.\<close>

definition dot_app :: "bytes \<Rightarrow> bytes \<Rightarrow> bytes" where
  "dot_app out l = out @ (if out \<noteq> [] then [46] else []) @ l"

lemma foldl_dot_app_length: "length out \<le> length (foldl dot_app out ls)"
proof (induction ls arbitrary: out)
  case (Cons l ls)
  have "length out \<le> length (dot_app out l)" by (simp add: dot_app_def)
  then show ?case using Cons [of "dot_app out l"] by simp
qed simp

lemma foldl_dot_app_ne: "out \<noteq> [] \<Longrightarrow> \<forall>l \<in> set ls. l \<noteq> [] \<Longrightarrow> ls \<noteq> [] \<Longrightarrow> foldl dot_app out ls = out @ 46 # join 46 ls"
proof (induction ls arbitrary: out)
  case (Cons l ls)
  have "dot_app out l = out @ 46 # l" using Cons.prems(1) by (simp add: dot_app_def)
  then show ?case using Cons.IH [of "out @ 46 # l"] Cons.prems by (cases ls) auto
qed simp

lemma foldl_dot_app: "\<forall>l \<in> set ls. l \<noteq> [] \<Longrightarrow> foldl dot_app [] ls = join 46 ls"
proof (cases ls)
  case (Cons l ls')
  moreover assume "\<forall>l \<in> set ls. l \<noteq> []"
  ultimately show ?thesis using foldl_dot_app_ne [of l ls'] by (cases ls') (auto simp: dot_app_def)
qed simp

definition the_jump :: "nat option \<Rightarrow> nat \<Rightarrow> nat option" where
  "the_jump jret r = (case jret of None \<Rightarrow> Some r | Some j \<Rightarrow> Some j)"

lemma nfw_label:
  assumes "plen \<le> length pkt" "pos < plen" "unat (pkt ! pos) = c" "0 < c" "c < 192" "pos + 1 + c \<le> plen"
    "length out + c + 1 < olen"
  shows "nfw_loop pkt plen olen (Suc s) pos out jret
    = nfw_loop pkt plen olen s (pos + 1 + c) (dot_app out (take c (drop (pos + 1) pkt))) jret"
proof -
  have "pkt ! pos \<noteq> 0" using assms(3,4) by auto
  moreover have "\<not> pkt ! pos AND 0xC0 = 0xC0" using assms(3,5) by (simp add: and_C0_eq)
  ultimately show ?thesis
    using assms by (auto simp: rd8_ok rdn_ok app_def Let_def dot_app_def min_def)
qed

lemma nfw_ptr:
  assumes "plen \<le> length pkt" "pos + 1 < plen" "192 \<le> unat (pkt ! pos)"
    "ptr_of (pkt ! pos) (pkt ! (pos + 1)) = t" "t < pos"
  shows "nfw_loop pkt plen olen (Suc s) pos out jret
    = nfw_loop pkt plen olen s t out (the_jump jret (pos + 2))"
  using assms by (simp add: rd8_ok and_C0_eq the_jump_def Let_def split: option.splits)

lemma nfw_root:
  assumes "plen \<le> length pkt" "pos < plen" "pkt ! pos = 0" "length out < olen"
  shows "nfw_loop pkt plen olen (Suc s) pos out jret
    = Some (Ok (case jret of None \<Rightarrow> pos + 1 | Some r \<Rightarrow> r, strlower out))"
  using assms by (simp add: rd8_ok nfw_finish_def app_def split: option.splits)

text \<open>A name that decodes within the step count, with room for its text, is returned.\<close>

lemma nfw_decodes:
  assumes "decodes (take plen pkt) pos k ls e" "plen \<le> length pkt" "length (foldl dot_app out ls) + 1 < olen" "k < s"
  shows "nfw_loop pkt plen olen s pos out jret
    = Some (Ok (case jret of None \<Rightarrow> e | Some r \<Rightarrow> r, strlower (foldl dot_app out ls)))"
  using assms
proof (induction arbitrary: out jret s rule: decodes.induct)
  case (root off)
  then obtain s' where "s = Suc s'" by (cases s) auto
  then show ?case using root nfw_root [of plen pkt off out olen s' jret] by simp
next
  case (label off c k ls e)
  obtain s' where s: "s = Suc s'" "k < s'" using label.prems(3) by (cases s) auto
  let ?l = "take c (drop (off + 1) pkt)"
  have l: "take c (drop (off + 1) (take plen pkt)) = ?l"
    using label.hyps(5) label.prems(1) by (intro take_drop_take) simp
  have "length (dot_app out ?l) \<le> length (foldl dot_app (dot_app out ?l) ls)" by (rule foldl_dot_app_length)
  moreover have "length out + c \<le> length (dot_app out ?l)" using label.hyps label.prems(1) by (simp add: dot_app_def)
  ultimately have "length out + c + 1 < olen" using label.prems(2) l by simp
  then have "nfw_loop pkt plen olen s off out jret = nfw_loop pkt plen olen s' (off + 1 + c) (dot_app out ?l) jret"
    unfolding s using label.hyps label.prems(1) by (intro nfw_label) auto
  then show ?case using label.IH [of "dot_app out ?l" s' jret] label.prems l s by simp
next
  case (ptr off t k ls e')
  obtain s' where s: "s = Suc s'" "k < s'" using ptr.prems(3) by (cases s) auto
  have "nfw_loop pkt plen olen s off out jret = nfw_loop pkt plen olen s' t out (the_jump jret (off + 2))"
    unfolding s using ptr.hyps ptr.prems(1) by (intro nfw_ptr) auto
  then show ?case
    using ptr.IH [of out s' "the_jump jret (off + 2)"] ptr.prems s by (auto simp: the_jump_def split: option.splits)
qed

lemma name_from_wire_decodes:
  assumes "decodes (take plen pkt) off k ls e" "plen \<le> length pkt" "k < 128" "length (join 46 ls) + 1 < olen"
  shows "name_from_wire pkt plen off olen = Some (Ok (e, strlower (join 46 ls)))"
proof -
  have "foldl dot_app [] ls = join 46 ls" using decodes_nonempty [OF assms(1)] by (intro foldl_dot_app) auto
  then show ?thesis using nfw_decodes [OF assms(1,2), of "[]" olen 128 None] assms(3,4)
    by (simp add: name_from_wire_def del: nfw_loop.simps)
qed


section \<open>Round trip\<close>

lemma decodes_wire:
  assumes "\<forall>l \<in> set ls. l \<noteq> [] \<and> length l \<le> 63"
  shows "decodes (pre @ wire ls) (length pre) (length ls) ls (length pre + length (wire ls))"
  using assms
proof (induction ls arbitrary: pre)
  case Nil
  then show ?case using decodes.root [of "length pre" "pre @ [0]"] by simp
next
  case (Cons l ls)
  let ?p = "pre @ wire (l # ls)"
  have c: "unat (?p ! length pre) = length l" "0 < length l" "length l < 192"
    using Cons.prems by (auto simp: unat_of_nat_u8)
  have "decodes ((pre @ of_nat (length l) # l) @ wire ls) (length (pre @ of_nat (length l) # l)) (length ls) ls
    (length (pre @ of_nat (length l) # l) + length (wire ls))"
    by (rule Cons.IH) (use Cons.prems in auto)
  then have "decodes ?p (length pre + 1 + length l) (length ls) ls (length pre + length (wire (l # ls)))"
    by (simp add: ac_simps)
  then have "decodes ?p (length pre) (Suc (length ls)) (take (length l) (drop (length pre + 1) ?p) # ls)
      (length pre + length (wire (l # ls)))"
    using c by (intro decodes.label) auto
  then show ?case by simp
qed

lemma decodes_patch_wire:
  assumes "\<forall>l \<in> set ls. l \<noteq> [] \<and> length l \<le> 63" "base + length (wire ls) \<le> length b" "base + length (wire ls) \<le> plen"
  shows "decodes (take plen (patch b base (wire ls))) base (length ls) ls (base + length (wire ls))"
proof -
  have "take (base + length (wire ls)) (patch b base (wire ls)) = take base b @ wire ls"
    using assms(2) by (intro take_patch_end) simp
  moreover have "length (take base b) = base" using assms(2) by simp
  ultimately have "decodes (take (base + length (wire ls)) (patch b base (wire ls))) base (length ls) ls (base + length (wire ls))"
    using decodes_wire [OF assms(1), of "take base b"] by simp
  then show ?thesis using decodes_mono assms(3) by blast
qed

lemma length_labels_of: "2 * length (labels_of name) \<le> length (safe_strcpy [] name 256) + 1"
proof -
  have "2 * length (labels_of name) = (\<Sum>l \<leftarrow> labels_of name. 2)" by (simp add: sum_list_triv)
  also have "\<dots> \<le> (\<Sum>l \<leftarrow> labels_of name. length l + 1)"
    by (rule sum_list_mono) (use labels_of_wf in \<open>fastforce simp: Suc_le_eq\<close>)
  also have "\<dots> \<le> length (safe_strcpy [] name 256) + 1" unfolding labels_of_def by (rule toks_size)
  finally show ?thesis .
qed

lemma length_join_labels: "length (join 46 (labels_of name)) \<le> length (safe_strcpy [] name 256)"
proof (cases "labels_of name = []")
  case False
  then have "length (join 46 (labels_of name)) + 1 = (\<Sum>l \<leftarrow> labels_of name. length l + 1)" by (rule length_join)
  then show ?thesis using toks_size [of "[46]" "safe_strcpy [] name 256"] by (simp add: labels_of_def)
qed simp

section \<open>The NSEC3 owner hash\<close>

text \<open>
  \<open>nsec3_hash_raw\<close>; \<open>sha1\<close> stands for the digest of OpenSSL. \<open>wire\<close> has 257 bytes and \<open>ibuf\<close> 320.
\<close>

fun nsec3_wire_loop :: "cstr list \<Rightarrow> bytes \<Rightarrow> bytes option" where
  "nsec3_wire_loop [] w = Some w"
| "nsec3_wire_loop (lbl # ls) w =
     (let ll = length lbl in
      if ll > 63 \<or> length w + ll + 1 > 255 then Some w
      else do { w \<leftarrow> app 257 w [of_nat ll]; w \<leftarrow> app 257 w lbl; nsec3_wire_loop ls w })"

fun nsec3_iter :: "(bytes \<Rightarrow> bytes) \<Rightarrow> bytes \<Rightarrow> nat \<Rightarrow> bytes \<Rightarrow> bytes option" where
  "nsec3_iter sha1 salt 0 h = Some h"
| "nsec3_iter sha1 salt (Suc n) h =
     do { ibuf \<leftarrow> app 320 h salt; nsec3_iter sha1 salt n (sha1 ibuf) }"

definition nsec3_hash_raw :: "(bytes \<Rightarrow> bytes) \<Rightarrow> cstr \<Rightarrow> bytes \<Rightarrow> nat \<Rightarrow> nat \<Rightarrow> bytes option" where
  "nsec3_hash_raw sha1 name salt saltlen iters = do {
     let lname = strlower (safe_strcpy [] name 256);
     w \<leftarrow> nsec3_wire_loop (toks [46] lname) [];
     w \<leftarrow> (if length w < 256 then app 257 w [0] else Some w);
     s \<leftarrow> rdn salt 0 saltlen;
     ibuf \<leftarrow> app 320 w s;
     nsec3_iter sha1 s iters (sha1 ibuf) }"

lemma toks_lower: "toks [46] (map lower8 s) = map (map lower8) (toks [46] s)"
proof (induction s rule: toks_shape_induct [where ds = "[46]"])
  case (token t r)
  have "toks [46] (map lower8 t @ map lower8 r) = map lower8 t # toks [46] (map lower8 r)"
  proof (rule toks_token)
    show "map lower8 r = [] \<or> hd (map lower8 r) \<in> set [46]" using token by (cases r) auto
  qed (use token in \<open>auto simp: image_iff eq_commute [of "46 :: u8" "lower8 _"]\<close>)
  then show ?case using token by (simp add: toks_token)
qed auto

lemma nsec3_wire_loop_ok:
  assumes "\<forall>l \<in> set ls. length l \<le> 63" "length w + length (wire ls) \<le> 256"
  shows "\<exists>w'. nsec3_wire_loop ls w = Some w' \<and> w' @ [0] = w @ wire ls"
  using assms
proof (induction ls arbitrary: w)
  case (Cons l ls)
  have "1 \<le> length (wire ls)" by (cases ls) auto
  then have "\<not> length w + length l + 1 > 255" using Cons.prems by auto
  then show ?case using Cons.IH [of "w @ of_nat (length l) # l"] Cons.prems by (simp add: Let_def app_def)
qed (simp add: Let_def)

lemma nsec3_wire_loop_safe:
  assumes "length w \<le> 255"
  shows "\<exists>w'. nsec3_wire_loop ls w = Some w' \<and> length w' \<le> 255"
  using assms by (induction ls arbitrary: w) (auto simp: Let_def app_def)

lemma nsec3_iter_ok:
  assumes "\<forall>x. length (sha1 x) = 20" "length salt \<le> 300" "length h = 20"
  shows "nsec3_iter sha1 salt n h = Some (((\<lambda>x. sha1 (x @ salt)) ^^ n) h)"
  using assms(3)
proof (induction n arbitrary: h)
  case (Suc n)
  then show ?case using assms(1,2) funpow_swap1 [of "\<lambda>x. sha1 (x @ salt)" n h] by (simp add: app_def)
qed simp

text \<open>The iterated hash of RFC 5155 section 5.\<close>

definition IH :: "(bytes \<Rightarrow> bytes) \<Rightarrow> bytes \<Rightarrow> bytes \<Rightarrow> nat \<Rightarrow> bytes" where
  "IH sha1 salt x k = ((\<lambda>y. sha1 (y @ salt)) ^^ k) (sha1 (x @ salt))"

lemma nsec3_hash_raw_ok:
  assumes "\<forall>x. length (sha1 x) = 20" "saltlen \<le> 64" "saltlen \<le> length salt" "0 \<notin> set name"
    "\<forall>l \<in> set (labels_of name). length l \<le> 63" "length (wire (labels_of name)) \<le> 255"
  shows "nsec3_hash_raw sha1 name salt saltlen iters
    = Some (IH sha1 (take saltlen salt) (wire (map (map lower8) (labels_of name))) iters)"
proof -
  let ?ls = "map (map lower8) (labels_of name)"
  have "0 \<notin> set (safe_strcpy [] name 256)" using assms(4) set_safe_strcpy [of 256 "[]" name] by auto
  then have t: "toks [46] (strlower (safe_strcpy [] name 256)) = ?ls"
    by (simp add: strlower_map toks_lower labels_of_def)
  have l: "length (wire ?ls) = length (wire (labels_of name))" by (simp add: length_wire comp_def)
  then obtain w where w: "nsec3_wire_loop ?ls [] = Some w" "w @ [0] = wire ?ls"
    using nsec3_wire_loop_ok [of ?ls "[]"] assms(5,6) by auto
  then have lw: "length w < 255" using l assms(6) by (metis Suc_le_lessD length_append_singleton)
  have salt: "length (take saltlen salt) \<le> 64" using assms(2) by simp
  have "length (wire ?ls) + saltlen \<le> 320" using l assms(2,6) by simp
  then show ?thesis
    using w lw assms(1-3) salt
    by (simp add: nsec3_hash_raw_def Let_def t app_def rdn_def nsec3_iter_ok IH_def del: append_assoc)
qed

lemma nsec3_hash_raw_safe:
  assumes "\<forall>x. length (sha1 x) = 20" "saltlen \<le> 64" "saltlen \<le> length salt"
  shows "nsec3_hash_raw sha1 name salt saltlen iters \<noteq> None"
proof -
  obtain w where w: "nsec3_wire_loop (toks [46] (strlower (safe_strcpy [] name 256))) [] = Some w" "length w \<le> 255"
    using nsec3_wire_loop_safe [of "[]"] by auto
  then show ?thesis
    using assms by (simp add: nsec3_hash_raw_def Let_def app_def rdn_def nsec3_iter_ok)
qed

section \<open>Skipping names, and character strings\<close>

lemma skip_name_loop_decodes:
  assumes "decodes (take plen pkt) off k ls e" "plen \<le> length pkt" "k < s"
  shows "skip_name_loop pkt plen s off = Some (Ok e)"
  using assms
proof (induction arbitrary: s rule: decodes.induct)
  case (root off)
  then show ?case by (cases s) (auto simp: rd8_ok)
next
  case (label off c k ls e)
  obtain s' where s: "s = Suc s'" "k < s'" using label.prems(2) by (cases s) auto
  have "pkt ! off \<noteq> 0" "\<not> pkt ! off AND 0xC0 = 0xC0" using label.hyps by (auto simp: and_C0_eq)
  then show ?case using label.hyps label.prems label.IH [of s'] s by (auto simp: rd8_ok ac_simps)
next
  case (ptr off t k ls e')
  obtain s' where s: "s = Suc s'" using ptr.prems(2) by (cases s) auto
  have "pkt ! off AND 0xC0 = 0xC0" using ptr.hyps by (auto simp: and_C0_eq)
  then show ?case using ptr.hyps ptr.prems s by (auto simp: rd8_ok)
qed

text \<open>The character strings of a TXT value, and the text they hold.\<close>

function txt_wire :: "cstr \<Rightarrow> bytes" where
  "txt_wire s = (if s = [] then [] else of_nat (length (take 255 s)) # take 255 s @ txt_wire (drop 255 s))"
  by auto
termination by (relation "measure length") auto

declare txt_wire.simps [simp del]

function txt_text :: "bytes \<Rightarrow> cstr" where
  "txt_text [] = []"
| "txt_text (n # r) = take (unat n) r @ txt_text (drop (unat n) r)"
  by pat_completeness auto
termination by (relation "measure length") auto

lemma txt_chunk: "(if length s > 255 then 255 else length s) = length (take 255 s)"
  "take (length (take 255 s)) s = take 255 s" "drop (length (take 255 s)) s = drop 255 s"
  by (auto simp: min_def)

lemma txt_text_chunk: "length c < 256 \<Longrightarrow> txt_text (of_nat (length c) # c @ r) = c @ txt_text r"
  by (simp add: unat_of_nat_u8)

lemma txt_text_wire: "txt_text (txt_wire s) = s"
proof (induction s rule: txt_wire.induct)
  case (1 s)
  have "txt_text (of_nat (length (take 255 s)) # take 255 s @ txt_wire (drop 255 s)) = take 255 s @ txt_text (txt_wire (drop 255 s))"
    by (rule txt_text_chunk) simp
  then show ?case using 1 by (cases "s = []") (simp_all add: txt_wire.simps [of s] txt_wire.simps [of "[]"] del: txt_text.simps(2))
qed

lemma txt_encode_loop_spec:
  assumes "maxlen \<le> length rd" "out \<le> maxlen"
  shows "\<exists>rd' r. txt_encode_loop s rd maxlen out = Some (rd', r) \<and> same_outside out maxlen rd rd'
    \<and> (if out + length (txt_wire s) \<le> maxlen then rd' = patch rd out (txt_wire s) \<and> r = Ok (out + length (txt_wire s))
       else r = Err)"
  using assms
proof (induction s arbitrary: rd out rule: txt_wire.induct)
  case (1 s)
  show ?case
  proof (cases "s = []")
    case True
    then show ?thesis using 1 by (simp add: txt_encode_loop.simps [of "[]"] txt_wire.simps [of "[]"])
  next
    case False
    let ?c = "take 255 s"
    let ?h = "of_nat (length ?c) # ?c :: bytes"
    have w: "txt_wire s = ?h @ txt_wire (drop 255 s)" using False by (subst txt_wire.simps) simp
    show ?thesis
    proof (cases "out + 1 + length ?c > maxlen")
      case True
      then have "txt_encode_loop s rd maxlen out = Some (rd, Err)"
        using False by (subst txt_encode_loop.simps) (simp add: txt_chunk Let_def del: length_take)
      moreover have "\<not> out + length (txt_wire s) \<le> maxlen" using True w by simp
      ultimately show ?thesis by simp
    next
      case fit: False
      have p: "patch (patch rd out [of_nat (length ?c)]) (out + 1) ?c = patch rd out ?h"
        using patch_patch [of out "[of_nat (length ?c)]" ?c rd] fit 1(2) by simp
      have step: "txt_encode_loop s rd maxlen out = txt_encode_loop (drop 255 s) (patch rd out ?h) maxlen (out + 1 + length ?c)"
        using False fit 1(2) p by (subst txt_encode_loop.simps) (simp add: txt_chunk Let_def wr8_ok wrn_ok del: length_take)
      have len: "length (patch rd out ?h) = length rd" using fit 1(2) by (intro length_patch) auto
      obtain rd' r where ih: "txt_encode_loop (drop 255 s) (patch rd out ?h) maxlen (out + 1 + length ?c) = Some (rd', r)"
        "same_outside (out + 1 + length ?c) maxlen (patch rd out ?h) rd'"
        "if out + 1 + length ?c + length (txt_wire (drop 255 s)) \<le> maxlen
         then rd' = patch (patch rd out ?h) (out + 1 + length ?c) (txt_wire (drop 255 s)) \<and> r = Ok (out + 1 + length ?c + length (txt_wire (drop 255 s)))
         else r = Err"
        using 1(1) [OF False, of "patch rd out ?h" "out + 1 + length ?c"] 1(2) fit len by auto
      have "same_outside out maxlen rd (patch rd out ?h)" using fit 1(2) by (intro same_outside_patch) auto
      moreover have "same_outside out maxlen (patch rd out ?h) rd'"
        using ih(2) by (rule same_outside_mono) auto
      ultimately have "same_outside out maxlen rd rd'" by (rule same_outside_trans)
      moreover have "patch (patch rd out ?h) (out + 1 + length ?c) (txt_wire (drop 255 s)) = patch rd out (txt_wire s)"
        if "out + 1 + length ?c + length (txt_wire (drop 255 s)) \<le> maxlen"
        using that patch_patch [of out ?h "txt_wire (drop 255 s)" rd] 1(2) w by simp
      moreover have "out + 1 + length ?c + length (txt_wire (drop 255 s)) = out + length (txt_wire s)" using w by simp
      ultimately show ?thesis using ih step by auto
    qed
  qed
qed

text \<open>A packet of \<open>n\<close> labels of one byte each, and the parser on its last \<open>k\<close> labels.\<close>

lemma nth_ones: "i < n \<Longrightarrow> concat (replicate n [a, b]) ! (2 * i) = a"
proof (induction n arbitrary: i)
  case (Suc n)
  then show ?case by (cases i) auto
qed simp

lemma length_ones: "length (concat (replicate n [a, b])) = 2 * n"
  by (induction n) auto

lemma nfw_ones:
  assumes "k \<le> 128" "length out \<le> 255 - 2 * k"
  shows "\<exists>name. nfw_loop (concat (replicate 128 [1, 97])) 256 256 k (256 - 2 * k) out None = Some (Ok (256, name))"
  using assms
proof (induction k arbitrary: out)
  case 0
  then show ?case by (simp add: nfw_finish_def app_def)
next
  case (Suc k)
  let ?p = "concat (replicate 128 [1, 97]) :: bytes"
  have pos: "256 - 2 * Suc k = 2 * (127 - k)" "256 - 2 * Suc k + 1 + 1 = 256 - 2 * k" using Suc.prems(1) by auto
  have "?p ! (256 - 2 * Suc k) = 1" unfolding pos by (rule nth_ones) (use Suc.prems in simp)
  then have "nfw_loop ?p 256 256 (Suc k) (256 - 2 * Suc k) out None
      = nfw_loop ?p 256 256 k (256 - 2 * Suc k + 1 + 1) (dot_app out (take 1 (drop (256 - 2 * Suc k + 1) ?p))) None"
    using Suc.prems by (intro nfw_label) (auto simp: length_ones)
  moreover have "length (dot_app out l) \<le> 255 - 2 * k" if "length l \<le> 1" for l
  proof (cases "out = []")
    case False
    then have "1 \<le> length out" by (cases out) auto
    then show ?thesis using Suc.prems that False by (simp add: dot_app_def)
  qed (use Suc.prems that in \<open>simp add: dot_app_def\<close>)
  then have "length (dot_app out (take 1 (drop (256 - 2 * Suc k + 1) ?p))) \<le> 255 - 2 * k" by simp
  ultimately show ?case using Suc.IH Suc.prems(1) pos by (metis Suc_leD)
qed



section \<open>Properties\<close>



text \<open>
  C13: Encoding and decoding a name. When the labels of the name have at most 63 bytes and the wire form
  fits, \<open>name_to_wire\<close> writes exactly the wire form, returns its length and touches nothing else; the
  parser then reads the name back, lower-cased and without redundant dots, and ends right behind it.
  Otherwise \<open>name_to_wire\<close> fails and writes only inside the window it was given.
\<close>

theorem name_wire_roundtrip:
  assumes "base + blen \<le> length b" "length name \<le> 253"
  shows "if (\<forall>l \<in> set (labels_of name). length l \<le> 63) \<and> length (wire (labels_of name)) \<le> blen
    then \<exists>b'. name_to_wire name b base blen = Some (b', Ok (length (wire (labels_of name))))
      \<and> same_outside base (base + length (wire (labels_of name))) b b'
      \<and> name_from_wire b' (length b') base 256
        = Some (Ok (base + length (wire (labels_of name)), strlower (join 46 (labels_of name))))
    else \<exists>b'. name_to_wire name b base blen = Some (b', Err) \<and> same_outside base (base + blen) b b'"
proof (cases "(\<forall>l \<in> set (labels_of name). length l \<le> 63) \<and> length (wire (labels_of name)) \<le> blen")
  case True
  let ?ls = "labels_of name" and ?b' = "patch b base (wire (labels_of name))"
  have len: "base + length (wire ?ls) \<le> length b" using True assms(1) by simp
  have cp: "safe_strcpy [] name 256 = name" using assms(2) by (intro safe_strcpy_id) simp
  have "decodes (take (length ?b') ?b') base (length ?ls) ?ls (base + length (wire ?ls))"
    using True labels_of_wf len by (intro decodes_patch_wire) auto
  moreover have "length ?ls < 128" "length (join 46 ?ls) + 1 < 256"
    using length_labels_of [of name] length_join_labels [of name] cp assms(2) by simp_all
  ultimately have "name_from_wire ?b' (length ?b') base 256
      = Some (Ok (base + length (wire ?ls), strlower (join 46 ?ls)))"
    by (intro name_from_wire_decodes) auto
  then show ?thesis using True name_to_wire_ok [OF assms(1)] len by auto
next
  case False
  then show ?thesis using name_to_wire_err [OF assms(1), of name] by auto
qed

theorem name_wire_roundtrip_witness:
  "\<exists>b'. name_to_wire (str ''aB..c.'') (replicate 10 7) 1 9 = Some (b', Ok 6)
    \<and> name_from_wire b' (length b') 1 256 = Some (Ok (7, str ''ab.c''))"
proof -
  have l: "labels_of (str ''aB..c.'') = [str ''aB'', str ''c'']"
    by (simp add: labels_of_def safe_strcpy_def str_def toks.simps)
  have j: "strlower (join 46 [str ''aB'', str ''c'']) = str ''ab.c''"
    by (simp add: str_def lower8_def)
  have "wire [str ''aB'', str ''c''] = [2, 97, 66, 1, 99, 0]" by (simp add: str_def)
  then show ?thesis
    using name_wire_roundtrip [of 1 9 "replicate 10 7" "str ''aB..c.''"] l j by (auto simp: str_def)
qed

text \<open>
  \<open>skip_name\<close> steps over exactly the names the parser reads: wherever a name decodes within the step
  count, it returns the offset that \<open>name_from_wire\<close> returns.
\<close>

theorem skip_name_agrees:
  assumes "decodes (take plen pkt) off k ls e" "plen \<le> length pkt" "k < 128" "length (join 46 ls) + 1 < olen"
  shows "skip_name pkt plen off = Some (Ok e) \<and> name_from_wire pkt plen off olen = Some (Ok (e, strlower (join 46 ls)))"
  using skip_name_loop_decodes [OF assms(1-3)] name_from_wire_decodes [OF assms] by (simp add: skip_name_def)

theorem skip_name_agrees_witness: "skip_name [1, 0x61, 0, 9] 4 0 = Some (Ok 3)"
proof -
  have "decodes [1, 0x61, 0, 9] 2 0 [] 3" using decodes.root [of 2 "[1, 0x61, 0, 9]"] by simp
  then have "decodes (take 4 [1, 0x61, 0, 9]) 0 1 [[0x61]] 3"
    using decodes.label [of 0 "[1, 0x61, 0, 9]" 1 0 "[]" 3] by (simp add: numeral_2_eq_2)
  then show ?thesis using skip_name_agrees [of 4 "[1, 0x61, 0, 9]" 0 1 "[[0x61]]" 3 256] by simp
qed

text \<open>
  \<open>txt_encode\<close> never writes past \<open>maxlen\<close>; when the character strings fit it writes them and
  nothing else, and their contents in order are the text; when they do not fit it fails.
\<close>

theorem txt_encode_correct:
  assumes "maxlen \<le> length rd"
  shows "\<exists>rd' r. txt_encode s rd maxlen = Some (rd', r) \<and> same_outside 0 maxlen rd rd'
    \<and> (if length (txt_wire s) \<le> maxlen
       then r = Ok (length (txt_wire s)) \<and> txt_text (take (length (txt_wire s)) rd') = s else r = Err)"
proof -
  have "take (length (txt_wire s)) (patch rd 0 (txt_wire s)) = txt_wire s" for rd
    using take_patch_end [of 0 rd "txt_wire s"] by simp
  then show ?thesis
    using txt_encode_loop_spec [OF assms, of 0 s]
    by (cases "length (txt_wire s) \<le> maxlen") (auto simp: txt_encode_def txt_text_wire)
qed

theorem txt_encode_correct_witness:
  "\<exists>rd' r. txt_encode (replicate 300 65) (replicate 310 0) 310 = Some (rd', r) \<and> r = Ok 302"
proof -
  have "txt_wire (replicate 300 65) = 255 # replicate 255 65 @ 45 # replicate 45 65"
    by (simp add: txt_wire.simps)
  then have "length (txt_wire (replicate 300 65)) = 302" by simp
  then show ?thesis using txt_encode_correct [of 310 "replicate 310 0" "replicate 300 65"] by auto
qed

text \<open>
  The NSEC3 owner hash. For every digest of 20 bytes and every salt of at most 64 bytes,
  \<open>nsec3_hash_raw\<close> stays inside its arrays, and for a name whose wire form is valid it is the iterated
  hash of RFC 5155 section 5 over the lower-cased wire form of the name.
\<close>

theorem nsec3_hash_raw_correct:
  assumes "\<forall>x. length (sha1 x) = 20" "saltlen \<le> 64" "saltlen \<le> length salt"
  shows "\<exists>h. nsec3_hash_raw sha1 name salt saltlen iters = Some h
    \<and> (0 \<notin> set name \<longrightarrow> (\<forall>l \<in> set (labels_of name). length l \<le> 63) \<longrightarrow> length (wire (labels_of name)) \<le> 255
       \<longrightarrow> h = IH sha1 (take saltlen salt) (wire (map (map lower8) (labels_of name))) iters)"
  using nsec3_hash_raw_safe [OF assms] nsec3_hash_raw_ok [OF assms] by fastforce

theorem nsec3_hash_raw_correct_witness:
  "nsec3_hash_raw (\<lambda>x. take 20 (x @ replicate 20 0)) (str ''Ab'') [9] 1 2
     = Some (IH (\<lambda>x. take 20 (x @ replicate 20 0)) [9] [2, 97, 98, 0] 2)"
proof -
  have "labels_of (str ''Ab'') = [str ''Ab'']"
    by (simp add: labels_of_def safe_strcpy_def str_def toks.simps)
  then show ?thesis
    using nsec3_hash_raw_correct [of "\<lambda>x. take 20 (x @ replicate 20 0)" 1 "[9]" "str ''Ab''" 2]
    by (auto simp: str_def lower8_def min_def)
qed

text \<open>
  The step limit fails open: 128 labels without a root label, cut off at the end of the packet, are
  accepted as a complete name that ends there.
\<close>

theorem name_from_wire_accepts_unterminated:
  "\<exists>name. name_from_wire (concat (replicate 128 [1, 97])) 256 0 256 = Some (Ok (256, name))"
  using nfw_ones [of 128 "[]"] by (simp add: name_from_wire_def del: nfw_loop.simps)

text \<open>
  A length octet between 64 and 191, which RFC 1035 reserves, is read as a label of that many bytes.
\<close>

theorem name_from_wire_accepts_oversized:
  assumes "64 \<le> n" "n < 192" "length l = n" "0 \<notin> set l"
  shows "name_from_wire (of_nat n # l @ [0]) (n + 2) 0 256 = Some (Ok (n + 2, map lower8 l))"
proof -
  let ?p = "of_nat n # l @ [0]"
  have "decodes ?p (0 + 1 + n) 0 [] (n + 2)"
    using decodes.root [of "n + 1" ?p] assms by (simp add: nth_append)
  then have "decodes ?p 0 1 [l] (n + 2)"
    using decodes.label [of 0 ?p n 0 "[]" "n + 2"] assms by (simp add: unat_of_nat_u8)
  then show ?thesis
    using name_from_wire_decodes [of "n + 2" ?p 0 1 "[l]" "n + 2" 256] assms by (simp add: strlower_map)
qed

theorem name_from_wire_accepts_oversized_witness:
  "name_from_wire (64 # replicate 64 65 @ [0]) 66 0 256 = Some (Ok (66, replicate 64 97))"
  using name_from_wire_accepts_oversized [of 64 "replicate 64 65"] by (simp add: lower8_def)

end
