(* ===== verification/Compress.thy ===== *)
theory Compress
  imports Names
begin

text \<open>
  Name compression and resource records (\<open>dns_wire.c\<close>): \<open>compress_reset\<close>, \<open>name_to_wire_c\<close>,
  \<open>append_rr\<close> and \<open>append_rr_plain\<close>. The compression context says which suffix was written at which
  offset; its invariant is that every entry is true of the message so far, and the main result is
  that a message built by successful calls reads back, record by record.
\<close>

section \<open>The compression context\<close>

text \<open>
  The entries of \<open>compress_ctx_t\<close> in order of registration; \<open>count\<close> is the length of the list.
\<close>

type_synonym compress_ctx = "(cstr \<times> u16) list"

definition compress_reset :: "compress_ctx \<Rightarrow> compress_ctx" where
  "compress_reset cc = []"

fun cc_lookup :: "compress_ctx \<Rightarrow> cstr \<Rightarrow> u16 option" where
  "cc_lookup [] suffix = None"
| "cc_lookup ((n, off) # cc) suffix = (if strcaseeq n suffix then Some off else cc_lookup cc suffix)"

definition cc_register :: "compress_ctx \<Rightarrow> cstr \<Rightarrow> nat \<Rightarrow> compress_ctx" where
  "cc_register cc suffix suffix_abs =
     (if length cc < 128 \<and> suffix_abs < 0x4000
      then cc @ [(safe_strcpy [] suffix 256, of_nat suffix_abs)] else cc)"

text \<open>The text of the labels from one on, cut where the next label would not fit 256 characters.\<close>

fun compose_suffix :: "cstr \<Rightarrow> bool \<Rightarrow> cstr list \<Rightarrow> cstr" where
  "compose_suffix sp first [] = sp"
| "compose_suffix sp first (l # ls) =
     (if length sp + length l + 1 \<ge> 256 then sp
      else compose_suffix ((if first then sp else sp @ [46]) @ l) False ls)"

text \<open>
  \<open>name_to_wire_c\<close>: the result is the context, the array and the return value.
\<close>

fun ntwc_loop ::
  "nat \<Rightarrow> nat \<Rightarrow> nat \<Rightarrow> cstr list \<Rightarrow> compress_ctx \<Rightarrow> bytes \<Rightarrow> nat \<Rightarrow> (compress_ctx \<times> bytes \<times> nat cres) option" where
  "ntwc_loop blen abs_off start [] cc b pos =
     (if pos \<ge> blen then Some (cc, b, Err)
      else do { b \<leftarrow> wr8 b pos 0; Some (cc, b, Ok (pos + 1 - start)) })"
| "ntwc_loop blen abs_off start (lbl # ls) cc b pos =
     (let suffix = compose_suffix [] True (lbl # ls) in
      case cc_lookup cc suffix of
        Some off \<Rightarrow>
          if pos + 2 > blen then Some (cc, b, Err)
          else do {
            b \<leftarrow> wr8 b pos (0xC0 OR ucast (drop_bit 8 off));
            b \<leftarrow> wr8 b (pos + 1) (ucast (off AND 0xFF));
            Some (cc, b, Ok (pos + 2 - start)) }
      | None \<Rightarrow>
          (let cc = cc_register cc suffix (abs_off + (pos - start)); ll = length lbl in
           if ll > 63 then Some (cc, b, Err)
           else if pos + ll + 1 \<ge> blen then Some (cc, b, Err)
           else do {
             b \<leftarrow> wr8 b pos (of_nat ll);
             b \<leftarrow> wrn b (pos + 1) lbl;
             ntwc_loop blen abs_off start ls cc b (pos + 1 + ll) }))"

definition name_to_wire_c ::
  "compress_ctx \<Rightarrow> cstr \<Rightarrow> bytes \<Rightarrow> nat \<Rightarrow> nat \<Rightarrow> nat \<Rightarrow> (compress_ctx \<times> bytes \<times> nat cres) option" where
  "name_to_wire_c cc name b pos blen abs_off =
     ntwc_loop blen abs_off pos (take 64 (labels_of name)) cc b pos"

section \<open>Resource records\<close>

text \<open>The fixed part and the data of a record, written behind its owner name.\<close>

definition rr_body :: "bytes \<Rightarrow> nat \<Rightarrow> u16 \<Rightarrow> u16 \<Rightarrow> u32 \<Rightarrow> bytes \<Rightarrow> u16 \<Rightarrow> (bytes \<times> nat) option" where
  "rr_body b off type cls ttl rdata rdlen = do {
     b \<leftarrow> put16 b off type;
     b \<leftarrow> put16 b (off + 2) cls;
     b \<leftarrow> put32 b (off + 4) ttl;
     b \<leftarrow> put16 b (off + 8) rdlen;
     d \<leftarrow> rdn rdata 0 (unat rdlen);
     b \<leftarrow> (if rdlen \<noteq> 0 then wrn b (off + 10) d else Some b);
     Some (b, off + 10 + unat rdlen) }"

definition append_rr ::
  "compress_ctx \<Rightarrow> bytes \<Rightarrow> nat \<Rightarrow> nat \<Rightarrow> cstr \<Rightarrow> u16 \<Rightarrow> u16 \<Rightarrow> u32 \<Rightarrow> bytes \<Rightarrow> u16
     \<Rightarrow> (compress_ctx \<times> bytes \<times> nat cres) option" where
  "append_rr cc b off blen name type cls ttl rdata rdlen = do {
     (cc, b, n) \<leftarrow> name_to_wire_c cc name b off blen off;
     case n of
       Err \<Rightarrow> Some (cc, b, Err)
     | Ok n \<Rightarrow>
         if off + n + 10 + unat rdlen > blen then Some (cc, b, Err)
         else do {
           (b, off) \<leftarrow> rr_body b (off + n) type cls ttl rdata rdlen;
           Some (cc, b, Ok off) } }"

definition append_rr_plain ::
  "bytes \<Rightarrow> nat \<Rightarrow> nat \<Rightarrow> cstr \<Rightarrow> u16 \<Rightarrow> u16 \<Rightarrow> u32 \<Rightarrow> bytes \<Rightarrow> u16 \<Rightarrow> (bytes \<times> nat cres) option" where
  "append_rr_plain b off blen name type cls ttl rdata rdlen = do {
     (b, n) \<leftarrow> name_to_wire name b off (blen - off);
     case n of
       Err \<Rightarrow> Some (b, Err)
     | Ok n \<Rightarrow>
         if off + n + 10 + unat rdlen > blen then Some (b, Err)
         else do {
           (b, off) \<leftarrow> rr_body b (off + n) type cls ttl rdata rdlen;
           Some (b, Ok off) } }"

section \<open>Suffixes and pointers\<close>

lemma compose_suffix_acc:
  assumes "length sp + (\<Sum>l \<leftarrow> ls. length l + 1) \<le> 255"
  shows "compose_suffix sp False ls = sp @ concat (map (\<lambda>l. 46 # l) ls)"
  using assms by (induction ls arbitrary: sp) auto

lemma join_Cons: "join d (l # ls) = l @ concat (map (\<lambda>l. d # l) ls)"
  by (induction ls arbitrary: l) auto

lemma compose_suffix_join:
  assumes "(\<Sum>l \<leftarrow> l # ls. length l + 1) \<le> 256" "length l \<le> 63"
  shows "compose_suffix [] True (l # ls) = join 46 (l # ls)"
  using assms compose_suffix_acc [of l ls] by (simp add: join_Cons)

lemma cc_lookup_Some: "cc_lookup cc s = Some off \<Longrightarrow> \<exists>n. (n, off) \<in> set cc \<and> strcaseeq n s"
  by (induction cc s rule: cc_lookup.induct) (auto split: if_splits)

lemma small_u16_bits:
  assumes "unat (off :: u16) < 0x4000"
  shows "\<not> bit off 14" "\<not> bit off 15"
proof -
  have "unat (take_bit 14 off) = unat off"
    using assms take_bit_nat_eq_self [of "unat off" 14] by (simp only: unsigned_take_bit_eq) simp
  then have t: "take_bit 14 off = off" by (simp add: word_unat_eq_iff)
  have "\<not> bit (take_bit 14 off) 14" "\<not> bit (take_bit 14 off) 15" by (simp_all add: bit_simps)
  then show "\<not> bit off 14" "\<not> bit off 15" unfolding t by auto
qed

lemma ptr_of_roundtrip:
  assumes "unat (off :: u16) < 0x4000"
  shows "ptr_of (0xC0 OR ucast (drop_bit 8 off)) (ucast (off AND 0xFF)) = unat off"
    "192 \<le> unat (0xC0 OR ucast (drop_bit 8 off) :: u8)"
proof -
  have "(0xC0 OR ucast (drop_bit 8 off) :: u8) AND 0x3F = ucast (drop_bit 8 off)"
    by (rule u8_eqI) (use small_u16_bits [OF assms] in \<open>simp_all add: bit_simps\<close>)
  then show "ptr_of (0xC0 OR ucast (drop_bit 8 off)) (ucast (off AND 0xFF)) = unat off"
    unfolding ptr_of_def by (simp only: get16_be)
  have "(0xC0 OR ucast (drop_bit 8 off) :: u8) AND 0xC0 = 0xC0"
    by (rule u8_eqI; simp add: bit_simps)
  then show "192 \<le> unat (0xC0 OR ucast (drop_bit 8 off) :: u8)" by (simp only: and_C0_eq)
qed

section \<open>The context is true of the message\<close>

text \<open>
  An entry is true of a message when the name at its offset spells the registered suffix. Between a
  registered label and the next there is at most one pointer, which bounds the steps.
\<close>

definition entry_ok :: "bytes \<Rightarrow> cstr \<times> u16 \<Rightarrow> bool" where
  "entry_ok p x \<longleftrightarrow> unat (snd x) < 0x4000
     \<and> (\<exists>k ls e. decodes p (unat (snd x)) k ls e \<and> k < 2 * length ls \<and> (\<forall>l \<in> set ls. 46 \<notin> set l)
          \<and> strcaseeq (join 46 ls) (fst x))"

definition cc_ok :: "compress_ctx \<Rightarrow> bytes \<Rightarrow> nat \<Rightarrow> bool" where
  "cc_ok cc b n \<longleftrightarrow> (\<forall>x \<in> set cc. entry_ok (take n b) x)"

lemma entry_ok_append: "entry_ok p x \<Longrightarrow> entry_ok (p @ r) x"
  unfolding entry_ok_def using decodes_append by blast

lemma entry_ok_mono: "entry_ok (take n b) x \<Longrightarrow> n \<le> m \<Longrightarrow> take n b' = take n b \<Longrightarrow> entry_ok (take m b') x"
  using entry_ok_append [of "take n b'" x "drop n (take m b')"] append_take_drop_id [of n "take m b'"]
  by (simp add: min_absorb1)

lemma cc_ok_mono: "cc_ok cc b n \<Longrightarrow> n \<le> m \<Longrightarrow> take n b' = take n b \<Longrightarrow> cc_ok cc b' m"
  unfolding cc_ok_def using entry_ok_mono by blast

lemma strcaseeq_join:
  assumes "strcaseeq (join 46 ls) (join 46 ls')" "\<forall>l \<in> set ls. l \<noteq> [] \<and> 46 \<notin> set l" "\<forall>l \<in> set ls'. l \<noteq> [] \<and> 46 \<notin> set l"
  shows "map (map lower8) ls = map (map lower8) ls'"
proof -
  have "toks [46] (map lower8 (join 46 ls)) = toks [46] (map lower8 (join 46 ls'))"
    using assms(1) by (simp add: strcaseeq_def)
  then have "map (map lower8) (toks [46] (join 46 ls)) = map (map lower8) (toks [46] (join 46 ls'))"
    by (simp only: toks_lower)
  then show ?thesis using toks_join(1) [OF assms(2)] toks_join(1) [OF assms(3)] by simp
qed

definition labels_wf :: "cstr list \<Rightarrow> bool" where
  "labels_wf ls \<longleftrightarrow> (\<forall>l \<in> set ls. l \<noteq> [] \<and> 46 \<notin> set l \<and> length l \<le> 63) \<and> (\<Sum>l \<leftarrow> ls. length l + 1) \<le> 256"

lemma labels_wf_tl: "labels_wf (l # ls) \<Longrightarrow> labels_wf ls"
  by (simp add: labels_wf_def)

lemma labels_wf_suffix: "labels_wf (l # ls) \<Longrightarrow> compose_suffix [] True (l # ls) = join 46 (l # ls)"
  by (rule compose_suffix_join) (auto simp: labels_wf_def)

lemma length_join_labels_wf: "labels_wf ls \<Longrightarrow> length (join 46 ls) \<le> 255"
  using length_join [of ls 46] by (cases "ls = []") (auto simp: labels_wf_def)

lemma length_join_tl: "l \<noteq> [] \<Longrightarrow> length (join 46 ls) < length (join 46 (l # ls))"
  by (cases ls) auto

section \<open>Emitting a name\<close>

text \<open>Safety and frame, on every branch.\<close>

lemma ntwc_loop_frame:
  assumes "blen \<le> length b" "start \<le> pos"
  shows "\<exists>cc' b' r. ntwc_loop blen abs_off start ls cc b pos = Some (cc', b', r) \<and> same_outside pos blen b b'
    \<and> (\<forall>n. r = Ok n \<longrightarrow> pos < start + n \<and> start + n \<le> blen)"
  using assms
proof (induction ls arbitrary: cc b pos)
  case Nil
  then show ?case by (auto simp: wr8_ok)
next
  case (Cons l ls)
  let ?suffix = "compose_suffix [] True (l # ls)"
  show ?case
  proof (cases "cc_lookup cc ?suffix")
    case (Some off)
    have "same_outside pos blen b (patch (patch b pos [x]) (Suc pos) [y])" if "pos + 2 \<le> blen" for x y
      using that Cons.prems by (intro same_outside_trans [OF same_outside_patch same_outside_patch]) auto
    then show ?thesis using Some Cons.prems by (auto simp: wr8_ok Let_def)
  next
    case None
    let ?cc = "cc_register cc ?suffix (abs_off + (pos - start))"
    show ?thesis
    proof (cases "length l > 63 \<or> pos + length l + 1 \<ge> blen")
      case True
      then show ?thesis using None by (auto simp: Let_def)
    next
      case False
      define b1 where "b1 = patch (patch b pos [of_nat (length l)]) (Suc pos) l"
      have s: "same_outside pos blen b b1"
        unfolding b1_def using False Cons.prems
        by (intro same_outside_trans [OF same_outside_patch same_outside_patch]) auto
      have e: "ntwc_loop blen abs_off start (l # ls) cc b pos = ntwc_loop blen abs_off start ls ?cc b1 (pos + 1 + length l)"
        using False Cons.prems None by (auto simp: Let_def wr8_ok wrn_ok b1_def)
      obtain cc' b' r where ih: "ntwc_loop blen abs_off start ls ?cc b1 (pos + 1 + length l) = Some (cc', b', r)"
        "same_outside (pos + 1 + length l) blen b1 b'" "\<forall>n. r = Ok n \<longrightarrow> pos + 1 + length l < start + n \<and> start + n \<le> blen"
        using Cons.IH [of b1 "pos + 1 + length l" ?cc] Cons.prems same_outside_length [OF s] by auto
      have "same_outside pos blen b1 b'" using ih(2) by (rule same_outside_mono) auto
      then have "same_outside pos blen b b'" using s same_outside_trans by blast
      then show ?thesis using e ih(1,3) by auto
    qed
  qed
qed

lemma ntwc_pointer_decodes:
  assumes "entry_ok (take pos b) (n, off)" "pos + 2 \<le> length b" "ls \<noteq> []" "labels_wf ls" "strcaseeq n (join 46 ls)"
  shows "\<exists>k ls'. decodes (take (pos + 2) (patch b pos [0xC0 OR ucast (drop_bit 8 off), ucast (off AND 0xFF)])) pos k ls' (pos + 2)
    \<and> map (map lower8) ls' = map (map lower8) ls \<and> k \<le> 2 * length ls \<and> (\<forall>l \<in> set ls'. 46 \<notin> set l)"
proof -
  let ?q = "[0xC0 OR ucast (drop_bit 8 off), ucast (off AND 0xFF)] :: bytes"
  have p: "take (pos + 2) (patch b pos ?q) = take pos b @ ?q"
    using take_patch_end [of pos b ?q] assms(2) by simp
  have lp: "length (take pos b) = pos" using assms(2) by simp
  from assms(1) obtain k ls' e where d: "decodes (take pos b) (unat off) k ls' e" "k < 2 * length ls'"
    "\<forall>l \<in> set ls'. 46 \<notin> set l" "strcaseeq (join 46 ls') n" and o: "unat off < 0x4000"
    by (auto simp: entry_ok_def)
  have "unat off < pos" using decodes_end_bound [OF d(1)] lp by simp
  then have "decodes (take pos b @ ?q) pos (Suc k) ls' (pos + 2)"
    using decodes_append [OF d(1), of ?q] ptr_of_roundtrip [OF o] lp
    by (intro decodes.ptr [where t = "unat off"]) (auto simp: nth_append)
  moreover have m: "map (map lower8) ls' = map (map lower8) ls"
    using d(3,4) assms(4,5) decodes_nonempty [OF d(1)] strcaseeq_trans
    by (intro strcaseeq_join) (auto simp: labels_wf_def)
  moreover have "length ls' = length ls" using m by (metis length_map)
  ultimately show ?thesis using p d(2,3) by (intro exI [of _ "Suc k"] exI [of _ ls']) auto
qed

lemma decodes_label_patch:
  assumes "decodes (take e b') (pos + 1 + length l) k ls' e" "take (pos + 1 + length l) b' = take pos b @ of_nat (length l) # l"
    "0 < length l" "length l \<le> 63" "pos \<le> length b" "pos + 1 + length l \<le> e"
  shows "decodes (take e b') pos (Suc k) (l # ls') e"
proof -
  define p where "p = take e b'"
  have t: "take (pos + 1 + length l) p = take pos b @ of_nat (length l) # l"
    using assms(2,6) by (simp add: p_def min_absorb1)
  have len: "pos + 1 + length l \<le> length p" using arg_cong [OF t, of length] assms(5) by simp
  have "p ! pos = take (pos + 1 + length l) p ! pos" by simp
  also have "\<dots> = of_nat (length l)" unfolding t using assms(5) by (simp add: nth_append)
  finally have c: "unat (p ! pos) = length l" using assms(4) by (simp add: unat_of_nat_u8)
  have "take (length l) (drop (pos + 1) p) = drop (pos + 1) (take (pos + 1 + length l) p)"
    by (simp add: drop_take)
  also have "\<dots> = l" unfolding t using assms(5) by simp
  finally have "take (length l) (drop (pos + 1) p) = l" .
  then show ?thesis using decodes.label [of pos p "length l" k ls' e] assms(1,3,4) len c by (simp add: p_def)
qed

text \<open>
  What registration adds is true once the name is complete, and until then no shorter suffix can
  match it.
\<close>

lemma cc_register_pending:
  assumes "labels_wf (l # ls)" "\<forall>x \<in> set cc. length (fst x) \<le> length (join 46 (l # ls)) \<longrightarrow> entry_ok (take pos b) x"
    "take pos b' = take pos b" "pos \<le> m" "x \<in> set (cc_register cc (join 46 (l # ls)) pos)"
    "length (fst x) \<le> length (join 46 ls)"
  shows "entry_ok (take m b') x"
proof -
  have lt: "length (join 46 ls) < length (join 46 (l # ls))"
    using assms(1) by (intro length_join_tl) (auto simp: labels_wf_def)
  have "safe_strcpy [] (join 46 (l # ls)) 256 = join 46 (l # ls)"
    using length_join_labels_wf [OF assms(1)] by (intro safe_strcpy_id) simp
  then have "x \<in> set cc" using assms(5,6) lt by (auto simp: cc_register_def split: if_splits)
  then have "entry_ok (take pos b) x" using assms(2,6) lt by auto
  then show ?thesis by (rule entry_ok_mono [OF _ assms(4,3)])
qed

lemma cc_register_entry:
  assumes "labels_wf (l # ls)" "decodes p pos (Suc k) (l # ls') e" "map (map lower8) ls' = map (map lower8) ls"
    "k \<le> 2 * length ls" "\<forall>l \<in> set ls'. 46 \<notin> set l"
  shows "\<exists>new. cc_register cc (join 46 (l # ls)) pos = cc @ new \<and> (\<forall>x \<in> set new. entry_ok p x)"
proof (cases "length cc < 128 \<and> pos < 0x4000")
  case True
  let ?j = "join 46 (l # ls)"
  have "unat (of_nat pos :: u16) = pos" using True by (intro unat_of_nat_u16) simp
  moreover have "strcaseeq (join 46 (l # ls')) ?j"
    unfolding strcaseeq_def using assms(3) by (simp add: map_join)
  moreover have "safe_strcpy [] ?j 256 = ?j" using length_join_labels_wf [OF assms(1)] by (intro safe_strcpy_id) simp
  moreover have "length ls' = length ls" using assms(3) by (metis length_map)
  ultimately have "entry_ok p (safe_strcpy [] ?j 256, of_nat pos)" unfolding entry_ok_def
    using True assms by (intro conjI exI [of _ "Suc k"] exI [of _ "l # ls'"] exI [of _ e]) (auto simp: labels_wf_def)
  then show ?thesis using True by (simp add: cc_register_def)
qed (auto simp: cc_register_def)

lemma ntwc_loop_ok:
  assumes "blen \<le> length b" "start \<le> pos" "labels_wf ls"
    "\<forall>x \<in> set cc. length (fst x) \<le> length (join 46 ls) \<longrightarrow> entry_ok (take pos b) x"
    "ntwc_loop blen start start ls cc b pos = Some (cc', b', Ok n)"
  shows "\<exists>new k ls'. cc' = cc @ new \<and> (\<forall>x \<in> set new. entry_ok (take (start + n) b') x)
    \<and> decodes (take (start + n) b') pos k ls' (start + n) \<and> map (map lower8) ls' = map (map lower8) ls
    \<and> k \<le> 2 * length ls \<and> (\<forall>l \<in> set ls'. 46 \<notin> set l)"
  using assms
proof (induction ls arbitrary: cc b pos)
  case Nil
  then have "pos < blen" "cc' = cc" "b' = patch b pos [0]" "n = pos + 1 - start"
    by (auto simp: wr8_ok split: if_splits)
  moreover have "decodes (take (pos + 1) (patch b pos (wire []))) pos 0 [] (pos + 1)"
    using decodes_patch_wire [of "[]" pos b "pos + 1"] Nil.prems(1) calculation by simp
  ultimately show ?case using Nil.prems(2) by (intro exI [of _ "[]"] exI [of _ 0]) simp
next
  case (Cons l ls)
  let ?j = "join 46 (l # ls)"
  have suffix: "compose_suffix [] True (l # ls) = ?j" using Cons.prems(3) by (rule labels_wf_suffix)
  have l: "l \<noteq> []" "46 \<notin> set l" "length l \<le> 63" using Cons.prems(3) by (auto simp: labels_wf_def)
  show ?case
  proof (cases "cc_lookup cc ?j")
    case (Some off)
    then obtain m where m: "(m, off) \<in> set cc" "strcaseeq m ?j" using cc_lookup_Some by blast
    have "entry_ok (take pos b) (m, off)" using Cons.prems(4) m strcaseeq_length [OF m(2)] by auto
    moreover have res: "pos + 2 \<le> blen" "cc' = cc" "n = pos + 2 - start"
      "b' = patch (patch b pos [0xC0 OR ucast (drop_bit 8 off)]) (Suc pos) [ucast (off AND 0xFF)]"
      using Cons.prems(1,5) Some suffix by (auto simp: wr8_ok Let_def split: if_splits)
    moreover have "b' = patch b pos [0xC0 OR ucast (drop_bit 8 off), ucast (off AND 0xFF)]"
      using res patch_patch [of pos "[0xC0 OR ucast (drop_bit 8 off)]" "[ucast (off AND 0xFF)]" b] Cons.prems(1) by simp
    ultimately show ?thesis
      using ntwc_pointer_decodes [of pos b m off "l # ls"] m(2) Cons.prems(1,2,3)
      by (intro exI [of _ "[]"]) simp
  next
    case None
    define cc1 where "cc1 = cc_register cc ?j pos"
    define b1 where "b1 = patch b pos (of_nat (length l) # l)"
    have fit: "pos + 1 + length l < blen"
      using Cons.prems(5) None suffix l(3) by (auto simp: Let_def split: if_splits)
    have b1: "patch (patch b pos [of_nat (length l)]) (Suc pos) l = b1"
      using patch_patch [of pos "[of_nat (length l)]" l b] fit Cons.prems(1) by (simp add: b1_def)
    have len1: "length b1 = length b" unfolding b1_def using fit Cons.prems(1) by (intro length_patch) simp
    have rec: "ntwc_loop blen start start ls cc1 b1 (pos + 1 + length l) = Some (cc', b', Ok n)"
      using Cons.prems(1,2,5) None suffix l(3) fit b1 by (simp add: Let_def wr8_ok wrn_ok cc1_def)
    have "take pos b1 = take pos b" unfolding b1_def using fit Cons.prems(1) by simp
    then have old: "\<forall>x \<in> set cc1. length (fst x) \<le> length (join 46 ls) \<longrightarrow> entry_ok (take (pos + 1 + length l) b1) x"
      unfolding cc1_def using cc_register_pending [OF Cons.prems(3,4)] by simp
    obtain new k ls' where ih: "cc' = cc1 @ new" "\<forall>x \<in> set new. entry_ok (take (start + n) b') x"
      "decodes (take (start + n) b') (pos + 1 + length l) k ls' (start + n)" "map (map lower8) ls' = map (map lower8) ls"
      "k \<le> 2 * length ls" "\<forall>l \<in> set ls'. 46 \<notin> set l"
      using Cons.IH [OF _ _ labels_wf_tl [OF Cons.prems(3)] old rec] Cons.prems(1,2) len1 by auto
    have fr: "same_outside (pos + 1 + length l) blen b1 b'" "pos + 1 + length l < start + n"
      using ntwc_loop_frame [of blen b1 start "pos + 1 + length l" start ls cc1] rec Cons.prems(1,2) len1 by auto
    have "take (pos + 1 + length l) b' = take pos b @ of_nat (length l) # l"
      using fr(1) take_patch_end [of pos b "of_nat (length l) # l"] fit Cons.prems(1)
      by (simp add: same_outside_def b1_def)
    then have dec: "decodes (take (start + n) b') pos (Suc k) (l # ls') (start + n)"
      using ih(3) l fr(2) fit Cons.prems(1) by (intro decodes_label_patch) auto
    obtain add where "cc1 = cc @ add" "\<forall>x \<in> set add. entry_ok (take (start + n) b') x"
      unfolding cc1_def using cc_register_entry [OF Cons.prems(3) dec ih(4-6)] by blast
    then show ?thesis
      using ih dec l(2) by (intro exI [of _ "add @ new"] exI [of _ "Suc k"] exI [of _ "l # ls'"]) auto
  qed
qed

text \<open>
  A name the encoder takes whole: labels of at most 63 bytes, at most 63 of them, 253 characters, and
  no NUL, as in every C string.
\<close>

definition name_ok :: "cstr \<Rightarrow> bool" where
  "name_ok name \<longleftrightarrow> length name \<le> 253 \<and> 0 \<notin> set name \<and> length (labels_of name) \<le> 63
     \<and> (\<forall>l \<in> set (labels_of name). length l \<le> 63)"

definition norm_name :: "cstr \<Rightarrow> cstr" where
  "norm_name name = strlower (join 46 (labels_of name))"

lemma name_ok_wf: "name_ok name \<Longrightarrow> labels_wf (labels_of name)"
  using labels_of_wf [of _ name] labels_of_size [of name] by (simp add: labels_wf_def name_ok_def)

lemma nul_lower: "0 \<in> set (map lower8 l) \<longleftrightarrow> 0 \<in> set l"
proof (induction l)
  case (Cons c l)
  have "0 = lower8 c \<longleftrightarrow> 0 = c" using lower8_simps(2) [of c] by metis
  then show ?case using Cons by simp
qed simp

lemma strlower_join_lower:
  assumes "map (map lower8) ls = map (map lower8) ls'" "\<forall>l \<in> set ls. 0 \<notin> set l"
  shows "strlower (join 46 ls') = strlower (join 46 ls)"
proof -
  have "\<forall>l \<in> set ls'. 0 \<notin> set l"
  proof
    fix l assume "l \<in> set ls'"
    then have "map lower8 l \<in> set (map (map lower8) ls)" using assms(1) by simp
    then obtain m where "m \<in> set ls" "map lower8 m = map lower8 l" by auto
    then show "0 \<notin> set l" using assms(2) nul_lower [of l] nul_lower [of m] by simp
  qed
  then have "0 \<notin> set (join 46 ls')" "0 \<notin> set (join 46 ls)"
    using set_join [of 46 ls'] set_join [of 46 ls] assms(2) by auto
  then show ?thesis using assms(1) by (simp add: strlower_map map_join)
qed

lemma labels_of_no_nul: "0 \<notin> set name \<Longrightarrow> l \<in> set (labels_of name) \<Longrightarrow> 0 \<notin> set l"
  using toks_wf [of l "[46]" "safe_strcpy [] name 256"] set_safe_strcpy [of 256 "[]" name]
  by (auto simp: labels_of_def)

lemma name_to_wire_c_ok:
  assumes "cc_ok cc b pos" "blen \<le> length b" "name_ok name"
    "name_to_wire_c cc name b pos blen pos = Some (cc', b', Ok n)"
    "take (pos + n) b'' = take (pos + n) b'" "pos + n \<le> plen" "plen \<le> length b''"
  shows "cc_ok cc' b' (pos + n) \<and> name_from_wire b'' plen pos 256 = Some (Ok (pos + n, norm_name name))"
proof -
  let ?ls = "labels_of name"
  have loop: "ntwc_loop blen pos pos ?ls cc b pos = Some (cc', b', Ok n)"
    using assms(3,4) by (simp add: name_to_wire_c_def name_ok_def)
  have cc: "\<forall>x \<in> set cc. entry_ok (take pos b) x" using assms(1) by (simp add: cc_ok_def)
  have fr: "same_outside pos blen b b'" using ntwc_loop_frame [OF assms(2), of pos pos pos ?ls cc] loop by auto
  obtain new k ls' where n: "cc' = cc @ new" "\<forall>x \<in> set new. entry_ok (take (pos + n) b') x"
    "decodes (take (pos + n) b') pos k ls' (pos + n)" "map (map lower8) ls' = map (map lower8) ?ls" "k \<le> 2 * length ?ls"
    using ntwc_loop_ok [OF assms(2) _ name_ok_wf [OF assms(3)] _ loop] cc by auto
  have "\<forall>x \<in> set cc. entry_ok (take (pos + n) b') x"
    using cc fr entry_ok_mono [of pos b _ "pos + n" b'] by (simp add: same_outside_def)
  then have ok: "cc_ok cc' b' (pos + n)" using n(1,2) by (auto simp: cc_ok_def)
  have j: "length (join 46 ls') = length (join 46 ?ls)"
    by (metis length_map lower8_simps(3) map_join n(4))
  have "safe_strcpy [] name 256 = name" using assms(3) by (intro safe_strcpy_id) (simp add: name_ok_def)
  then have "length (join 46 ls') + 1 < 256" using length_join_labels [of name] assms(3) j by (simp add: name_ok_def)
  moreover have "decodes (take plen b'') pos k ls' (pos + n)"
    using n(3) decodes_mono [OF _ assms(6)] assms(5) by simp
  ultimately have "name_from_wire b'' plen pos 256 = Some (Ok (pos + n, strlower (join 46 ls')))"
    using n(5) assms(3,7) by (intro name_from_wire_decodes) (auto simp: name_ok_def)
  moreover have "strlower (join 46 ls') = norm_name name"
    unfolding norm_name_def using n(4) assms(3) labels_of_no_nul
    by (intro strlower_join_lower) (auto simp: name_ok_def)
  ultimately show ?thesis using ok by simp
qed

lemma name_to_wire_c_frame:
  assumes "blen \<le> length b"
  shows "\<exists>cc' b' r. name_to_wire_c cc name b pos blen abs_off = Some (cc', b', r) \<and> same_outside pos blen b b'
    \<and> (\<forall>n. r = Ok n \<longrightarrow> 0 < n \<and> pos + n \<le> blen)"
  using ntwc_loop_frame [OF assms, of pos pos abs_off "take 64 (labels_of name)" cc]
  by (auto simp: name_to_wire_c_def)

section \<open>Records\<close>

definition rr_bytes :: "u16 \<Rightarrow> u16 \<Rightarrow> u32 \<Rightarrow> u16 \<Rightarrow> bytes \<Rightarrow> bytes" where
  "rr_bytes type cls ttl rdlen d = be16 type @ be16 cls @ be32 ttl @ be16 rdlen @ d"

lemma rr_body_ok:
  assumes "off + 10 + unat rdlen \<le> length b" "unat rdlen \<le> length rdata"
  shows "rr_body b off type cls ttl rdata rdlen
    = Some (patch b off (rr_bytes type cls ttl rdlen (take (unat rdlen) rdata)), off + 10 + unat rdlen)"
proof -
  define b1 where "b1 = patch b off (be16 type)"
  define b2 where "b2 = patch b off (be16 type @ be16 cls)"
  define b3 where "b3 = patch b off (be16 type @ be16 cls @ be32 ttl)"
  define b4 where "b4 = patch b off (be16 type @ be16 cls @ be32 ttl @ be16 rdlen)"
  have l: "length b1 = length b" "length b2 = length b" "length b3 = length b" "length b4 = length b"
    using assms(1) by (auto simp: b1_def b2_def b3_def b4_def intro!: length_patch)
  have p: "put16 b off type = Some b1" "put16 b1 (off + 2) cls = Some b2" "put32 b2 (off + 4) ttl = Some b3"
    "put16 b3 (off + 8) rdlen = Some b4"
    using assms(1) l patch_patch [of off "be16 type" "be16 cls" b] patch_patch [of off "be16 type @ be16 cls" "be32 ttl" b]
      patch_patch [of off "be16 type @ be16 cls @ be32 ttl" "be16 rdlen" b]
    by (simp_all add: put16_ok put32_ok b1_def b2_def b3_def b4_def ac_simps del: add_2_eq_Suc add_2_eq_Suc')
  have b4: "length (be16 type @ be16 cls @ be32 ttl @ be16 rdlen) = 10" by simp
  have "wrn b4 (off + 10) (take (unat rdlen) rdata)
      = Some (patch b off (rr_bytes type cls ttl rdlen (take (unat rdlen) rdata)))"
    using assms l patch_patch [of off "be16 type @ be16 cls @ be32 ttl @ be16 rdlen" "take (unat rdlen) rdata" b]
    unfolding b4 by (simp add: wrn_ok b4_def rr_bytes_def min_absorb2)
  moreover have "b4 = patch b off (rr_bytes type cls ttl rdlen (take (unat rdlen) rdata))" if "rdlen = 0"
    using that by (simp add: b4_def rr_bytes_def)
  ultimately show ?thesis using assms p by (auto simp: rr_body_def rdn_ok simp del: add_2_eq_Suc')
qed

text \<open>What a reader of the message finds at an offset.\<close>

record rr =
  rr_owner :: cstr
  rr_type :: u16
  rr_class :: u16
  rr_ttl :: u32
  rr_data :: bytes

definition rr_at :: "bytes \<Rightarrow> nat \<Rightarrow> nat \<Rightarrow> rr \<Rightarrow> nat \<Rightarrow> bool" where
  "rr_at b plen off r e \<longleftrightarrow>
     (\<exists>n. name_from_wire b plen off 256 = Some (Ok (n, rr_owner r)) \<and> get16 b n = Some (rr_type r)
        \<and> get16 b (n + 2) = Some (rr_class r) \<and> get32 b (n + 4) = Some (rr_ttl r)
        \<and> get16 b (n + 8) = Some (of_nat (length (rr_data r))) \<and> rdn b (n + 10) (length (rr_data r)) = Some (rr_data r)
        \<and> e = n + 10 + length (rr_data r) \<and> e \<le> plen)"

lemma rr_at_patch:
  assumes "name_from_wire b plen off 256 = Some (Ok (n, owner))" "n + 10 + length d \<le> plen" "plen \<le> length b"
    "length d < 65536" "take (10 + length d) (drop n b) = rr_bytes type cls ttl (of_nat (length d)) d"
  shows "rr_at b plen off \<lparr>rr_owner = owner, rr_type = type, rr_class = cls, rr_ttl = ttl, rr_data = d\<rparr> (n + 10 + length d)"
proof -
  let ?x = "rr_bytes type cls ttl (of_nat (length d)) d"
  have l: "length ?x = 10 + length d" by (simp add: rr_bytes_def)
  have tk: "take k (drop (n + i) b) = take k (drop i ?x)" if "i + k \<le> 10 + length d" for i k
  proof -
    have "take k (drop i ?x) = take k (drop i (take (10 + length d) (drop n b)))" using assms(5) by simp
    also have "\<dots> = take k (drop i (drop n b))" using that by (rule take_drop_take)
    finally show ?thesis by (simp add: add.commute)
  qed
  have "get16 b n = Some type" "get16 b (n + 2) = Some cls" "get16 b (n + 8) = Some (of_nat (length d))"
    using tk [of 0 2] tk [of 2 2] tk [of 8 2] assms(2,3)
    by (auto intro!: get16_at simp: rr_bytes_def drop_append)
  moreover have "get32 b (n + 4) = Some ttl"
    using tk [of 4 4] assms(2,3) by (intro get32_at) (auto simp: rr_bytes_def)
  moreover have "rdn b (n + 10) (length d) = Some d"
    using tk [of 10 "length d"] assms(2,3) by (simp add: rdn_def rr_bytes_def)
  ultimately show ?thesis using assms(1,2) by (simp add: rr_at_def)
qed
section \<open>Appending records\<close>

text \<open>
  \<open>reads_at b e off r\<close>: the record \<open>r\<close> is read at \<open>off\<close> and ends at \<open>e\<close>, in the message \<open>b\<close> and in every
  message that agrees with it up to \<open>e\<close>.
\<close>

definition reads_at :: "bytes \<Rightarrow> nat \<Rightarrow> rr \<Rightarrow> nat \<Rightarrow> bool" where
  "reads_at b off r e \<longleftrightarrow> (\<forall>b' plen. take e b' = take e b \<longrightarrow> e \<le> plen \<longrightarrow> plen \<le> length b' \<longrightarrow> rr_at b' plen off r e)"

lemma reads_at_mono:
  assumes "reads_at b off r e" "take m b' = take m b" "e \<le> m"
  shows "reads_at b' off r e"
proof -
  have "take e b' = take e b" using arg_cong [OF assms(2), of "take e"] assms(3) by (simp add: min_absorb1)
  then show ?thesis using assms(1) by (simp add: reads_at_def)
qed

lemma append_rr_frame:
  assumes "blen \<le> length b" "unat rdlen \<le> length rdata"
  shows "\<exists>cc' b' r. append_rr cc b off blen name type cls ttl rdata rdlen = Some (cc', b', r)
    \<and> same_outside off blen b b' \<and> (\<forall>e. r = Ok e \<longrightarrow> off + 10 + unat rdlen < e \<and> e \<le> blen)"
proof -
  obtain cc1 b1 r1 where n: "name_to_wire_c cc name b off blen off = Some (cc1, b1, r1)" "same_outside off blen b b1"
    "\<forall>n. r1 = Ok n \<longrightarrow> 0 < n \<and> off + n \<le> blen"
    using name_to_wire_c_frame [OF assms(1)] by blast
  have l: "length b1 = length b" using n(2) by (rule same_outside_length)
  have "same_outside off blen b (patch b1 (off + k) (rr_bytes type cls ttl rdlen (take (unat rdlen) rdata)))"
    if "off + k + 10 + unat rdlen \<le> blen" for k
    using that assms l n(2)
    by (intro same_outside_trans [OF n(2) same_outside_patch]) (auto simp: rr_bytes_def)
  then show ?thesis using n assms l
    by (cases r1) (auto simp: append_rr_def rr_body_ok)
qed

lemma append_rr_ok:
  assumes "cc_ok cc b off" "blen \<le> length b" "name_ok name" "unat rdlen \<le> length rdata"
    "append_rr cc b off blen name type cls ttl rdata rdlen = Some (cc', b', Ok e)"
  shows "cc_ok cc' b' e \<and> reads_at b' off
    \<lparr>rr_owner = norm_name name, rr_type = type, rr_class = cls, rr_ttl = ttl, rr_data = take (unat rdlen) rdata\<rparr> e"
proof -
  let ?d = "take (unat rdlen) rdata"
  let ?x = "rr_bytes type cls ttl rdlen ?d"
  obtain cc1 b1 r1 where nm: "name_to_wire_c cc name b off blen off = Some (cc1, b1, r1)" "same_outside off blen b b1"
    using name_to_wire_c_frame [OF assms(2)] by blast
  have l1: "length b1 = length b" using nm(2) by (rule same_outside_length)
  obtain n where n: "r1 = Ok n" "off + n + 10 + unat rdlen \<le> blen"
    using assms(5) nm(1) by (cases r1) (auto simp: append_rr_def split: if_splits)
  have r: "cc' = cc1" "b' = patch b1 (off + n) ?x" "e = off + n + 10 + unat rdlen"
    using assms(2,4,5) nm(1) n l1 by (auto simp: append_rr_def rr_body_ok)
  have lx: "length ?x = 10 + unat rdlen" using assms(4) by (simp add: rr_bytes_def)
  have tn: "take (off + n) b' = take (off + n) b1" using r(2) n(2) assms(2) l1 by simp
  have te: "take e b' = take (off + n) b1 @ ?x"
    using take_patch_end [of "off + n" b1 ?x] r lx n(2) assms(2) l1 by (simp add: add.assoc)
  have "cc_ok cc1 b1 (off + n)"
    using name_to_wire_c_ok [OF assms(1,2,3), of cc1 b1 n b1 "off + n"] nm(1) n l1 assms(2) by auto
  then have cc: "cc_ok cc' b' e" using cc_ok_mono [OF _ _ tn, of cc1 e] r by simp
  have ld: "length ?d = unat rdlen" "of_nat (length ?d) = rdlen" using assms(4) by simp_all
  have "rr_at b'' plen off \<lparr>rr_owner = norm_name name, rr_type = type, rr_class = cls, rr_ttl = ttl, rr_data = ?d\<rparr> e"
    if h: "take e b'' = take e b'" "e \<le> plen" "plen \<le> length b''" for b'' plen
  proof -
    have "take (off + n) b'' = take (off + n) b1"
      using arg_cong [OF h(1), of "take (off + n)"] tn r(3) by (simp add: min_absorb1)
    then have "name_from_wire b'' plen off 256 = Some (Ok (off + n, norm_name name))"
      using name_to_wire_c_ok [OF assms(1,2,3), of cc1 b1 n b'' plen] nm(1) n h r(3) by auto
    moreover have "take (10 + length ?d) (drop (off + n) b'') = ?x"
    proof -
      have "take (10 + unat rdlen) (drop (off + n) b'') = drop (off + n) (take e b'')"
        unfolding r(3) by (simp add: drop_take add.assoc)
      also have "\<dots> = ?x" unfolding h(1) te using n(2) assms(2) l1 by simp
      finally show ?thesis using ld by simp
    qed
    ultimately show ?thesis
      using rr_at_patch [of b'' plen off "off + n" "norm_name name" ?d type cls ttl] h ld r(3) unat_u16 [of rdlen] by simp
  qed
  then show ?thesis using cc by (simp add: reads_at_def)
qed

section \<open>Whole messages\<close>

text \<open>
  A sequence of calls of \<open>append_rr\<close> that stops at the first failure, and the records that a reader finds
  one behind the other.
\<close>

fun append_all :: "compress_ctx \<Rightarrow> bytes \<Rightarrow> nat \<Rightarrow> nat \<Rightarrow> rr list \<Rightarrow> (compress_ctx \<times> bytes \<times> nat cres) option" where
  "append_all cc b off blen [] = Some (cc, b, Ok off)"
| "append_all cc b off blen (r # rs) = do {
     (cc, b, res) \<leftarrow> append_rr cc b off blen (rr_owner r) (rr_type r) (rr_class r) (rr_ttl r) (rr_data r)
                      (of_nat (length (rr_data r)));
     case res of Err \<Rightarrow> Some (cc, b, Err) | Ok off \<Rightarrow> append_all cc b off blen rs }"

fun reads_all :: "bytes \<Rightarrow> nat \<Rightarrow> rr list \<Rightarrow> nat \<Rightarrow> bool" where
  "reads_all b off [] e \<longleftrightarrow> e = off"
| "reads_all b off (r # rs) e \<longleftrightarrow> (\<exists>m. rr_at b e off r m \<and> reads_all b m rs e)"

definition norm_rr :: "rr \<Rightarrow> rr" where
  "norm_rr r = r\<lparr>rr_owner := norm_name (rr_owner r)\<rparr>"

definition rr_ok :: "rr \<Rightarrow> bool" where
  "rr_ok r \<longleftrightarrow> name_ok (rr_owner r) \<and> length (rr_data r) < 65536"

lemma append_all_frame:
  assumes "blen \<le> length b" "\<forall>r \<in> set rs. length (rr_data r) < 65536"
  shows "\<exists>cc' b' r. append_all cc b off blen rs = Some (cc', b', r) \<and> take off b' = take off b \<and> length b' = length b
    \<and> (\<forall>e. r = Ok e \<longrightarrow> off \<le> e \<and> (rs \<noteq> [] \<longrightarrow> e \<le> blen))"
  using assms
proof (induction rs arbitrary: cc b off)
  case (Cons x rs)
  let ?n = "of_nat (length (rr_data x)) :: u16"
  have n: "unat ?n \<le> length (rr_data x)" using Cons.prems(2) by (simp add: unat_of_nat_u16)
  obtain cc1 b1 r1 where a: "append_rr cc b off blen (rr_owner x) (rr_type x) (rr_class x) (rr_ttl x) (rr_data x) ?n = Some (cc1, b1, r1)"
    "same_outside off blen b b1" "\<forall>e. r1 = Ok e \<longrightarrow> off + 10 + unat ?n < e \<and> e \<le> blen"
    using append_rr_frame [OF Cons.prems(1) n] by blast
  have l: "length b1 = length b" "take off b1 = take off b" using a(2) by (auto simp: same_outside_def)
  show ?case
  proof (cases r1)
    case (Ok m)
    obtain cc' b' r where ih: "append_all cc1 b1 m blen rs = Some (cc', b', r)" "take m b' = take m b1" "length b' = length b1"
      "\<forall>e. r = Ok e \<longrightarrow> m \<le> e \<and> (rs \<noteq> [] \<longrightarrow> e \<le> blen)"
      using Cons.IH [of b1 cc1 m] Cons.prems l by auto
    have m: "off \<le> m" "m \<le> blen" using a(3) Ok by auto
    have "take off b' = take off b" using arg_cong [OF ih(2), of "take off"] m l by (simp add: min_absorb1)
    moreover have "r = cres.Ok e \<Longrightarrow> off \<le> e \<and> e \<le> blen" for e using ih(1,4) m by (cases "rs = []") auto
    ultimately show ?thesis using a(1) Ok ih l by auto
  qed (use a l in auto)
qed simp

lemma append_all_reads:
  assumes "cc_ok cc b off" "blen \<le> length b" "\<forall>r \<in> set rs. rr_ok r" "append_all cc b off blen rs = Some (cc', b', Ok e)"
    "off \<le> blen"
  shows "reads_all b' off (map norm_rr rs) e"
  using assms
proof (induction rs arbitrary: cc b off)
  case (Cons x rs)
  let ?n = "of_nat (length (rr_data x)) :: u16"
  have n: "unat ?n = length (rr_data x)" "name_ok (rr_owner x)" using Cons.prems(3) by (auto simp: unat_of_nat_u16 rr_ok_def)
  obtain cc1 b1 r1 where a: "append_rr cc b off blen (rr_owner x) (rr_type x) (rr_class x) (rr_ttl x) (rr_data x) ?n = Some (cc1, b1, r1)"
    "same_outside off blen b b1" "\<forall>e. r1 = Ok e \<longrightarrow> off + 10 + unat ?n < e \<and> e \<le> blen"
    using append_rr_frame [OF Cons.prems(2) eq_imp_le [OF n(1)]] by blast
  obtain m where m: "r1 = Ok m" "append_all cc1 b1 m blen rs = Some (cc', b', Ok e)"
    using Cons.prems(4) a(1) by (cases r1) auto
  have l: "blen \<le> length b1" using Cons.prems(2) a(2) by (simp add: same_outside_def)
  have nx: "norm_rr x = \<lparr>rr_owner = norm_name (rr_owner x), rr_type = rr_type x, rr_class = rr_class x, rr_ttl = rr_ttl x,
      rr_data = take (unat ?n) (rr_data x)\<rparr>"
    using n(1) by (cases x) (simp add: norm_rr_def)
  have ok: "cc_ok cc1 b1 m" "reads_at b1 off (norm_rr x) m"
    unfolding nx using append_rr_ok [OF Cons.prems(1,2) n(2) eq_imp_le [OF n(1)] a(1) [unfolded m(1)]] by blast+
  have fr: "take m b' = take m b1" "m \<le> e" "e \<le> length b'"
    using append_all_frame [OF l, of rs cc1 m] m a(3) Cons.prems(3) l by (auto simp: rr_ok_def)
  have "rr_at b' e off (norm_rr x) m" using reads_at_mono [OF ok(2) fr(1)] fr by (simp add: reads_at_def)
  moreover have "reads_all b' m (map norm_rr rs) e"
    using Cons.IH [OF ok(1) l _ m(2)] Cons.prems(3) a(3) m(1) by auto
  ultimately show ?case by auto
qed simp

lemma name_ok_join: "name_ok name \<Longrightarrow> length (join 46 (labels_of name)) + 1 < 256"
  using length_join_labels [of name] safe_strcpy_id [of name 256 "[]"] by (simp add: name_ok_def)

lemma plain_name_reads:
  assumes "name_ok name" "off + length (wire (labels_of name)) + length x \<le> length b"
    "off + length (wire (labels_of name)) \<le> plen" "plen \<le> length b"
  shows "name_from_wire (patch b off (wire (labels_of name) @ x)) plen off 256
    = Some (Ok (off + length (wire (labels_of name)), norm_name name))"
proof -
  let ?w = "wire (labels_of name)" and ?b = "patch b off (wire (labels_of name) @ x)"
  have "take (off + length ?w) ?b = take off b @ ?w" using assms(2) by (simp add: patch_def)
  moreover have "decodes (take off b @ ?w) (length (take off b)) (length (labels_of name)) (labels_of name) (length (take off b) + length ?w)"
    using name_ok_wf [OF assms(1)] by (intro decodes_wire) (auto simp: labels_wf_def)
  ultimately have "decodes (take (off + length ?w) ?b) off (length (labels_of name)) (labels_of name) (off + length ?w)"
    using assms(2) by simp
  then have "decodes (take plen ?b) off (length (labels_of name)) (labels_of name) (off + length ?w)"
    using assms(3) by (rule decodes_mono)
  then show ?thesis
    using name_from_wire_decodes [of plen ?b off "length (labels_of name)" "labels_of name" "off + length ?w" 256]
      name_ok_join [OF assms(1)] assms by (simp add: norm_name_def name_ok_def)
qed

section \<open>Properties\<close>

text \<open>
  C1: A message built by a sequence of successful \<open>append_rr\<close> calls after \<open>compress_reset\<close> reads back: every
  owner name, however it was compressed against the names before it, decodes to the name that was
  given (lower-cased), and type, class, TTL and data of each record follow it, in order and without a
  gap. What stood before the first record is untouched.
\<close>

theorem message_reads_back:
  assumes "blen \<le> length b" "off \<le> blen" "\<forall>r \<in> set rs. rr_ok r"
    "append_all (compress_reset cc) b off blen rs = Some (cc', b', Ok e)"
  shows "reads_all b' off (map norm_rr rs) e \<and> take off b' = take off b \<and> length b' = length b"
proof -
  have "cc_ok (compress_reset cc) b off" by (simp add: cc_ok_def compress_reset_def)
  then have "reads_all b' off (map norm_rr rs) e" using assms append_all_reads by blast
  then show ?thesis using append_all_frame [OF assms(1), of rs "compress_reset cc" off] assms(3,4) by (auto simp: rr_ok_def)
qed

theorem message_reads_back_witness:
  "reads_all (replicate 12 0 @ [1, 97, 2, 69, 120, 0, 0, 1, 0, 1, 0, 0, 0, 60, 0, 4, 10, 0, 0, 1,
       1, 98, 192, 14, 0, 1, 0, 1, 0, 0, 0, 60, 0, 4, 10, 0, 0, 2]) 12
     [\<lparr>rr_owner = str ''a.ex'', rr_type = 1, rr_class = 1, rr_ttl = 60, rr_data = [10, 0, 0, 1]\<rparr>,
      \<lparr>rr_owner = str ''b.ex'', rr_type = 1, rr_class = 1, rr_ttl = 60, rr_data = [10, 0, 0, 2]\<rparr>] 50"
proof -
  let ?r1 = "\<lparr>rr_owner = str ''a.Ex'', rr_type = 1, rr_class = 1, rr_ttl = 60, rr_data = [10, 0, 0, 1]\<rparr>"
  let ?r2 = "\<lparr>rr_owner = str ''b.eX'', rr_type = 1, rr_class = 1, rr_ttl = 60, rr_data = [10, 0, 0, 2]\<rparr>"
  have "append_all (compress_reset []) (replicate 50 0) 12 50 [?r1, ?r2]
      = Some ([([97, 46, 69, 120], 12), ([69, 120], 14), ([98, 46, 101, 88], 32)],
         replicate 12 0 @ [1, 97, 2, 69, 120, 0, 0, 1, 0, 1, 0, 0, 0, 60, 0, 4, 10, 0, 0, 1,
           1, 98, 192, 14, 0, 1, 0, 1, 0, 0, 0, 60, 0, 4, 10, 0, 0, 2], Ok 50)"
    by code_simp
  moreover have "name_ok (str ''a.Ex'')" "name_ok (str ''b.eX'')" by code_simp+
  then have "rr_ok ?r1" "rr_ok ?r2" by (simp_all add: rr_ok_def)
  moreover have "norm_rr ?r1 = \<lparr>rr_owner = str ''a.ex'', rr_type = 1, rr_class = 1, rr_ttl = 60, rr_data = [10, 0, 0, 1]\<rparr>"
    "norm_rr ?r2 = \<lparr>rr_owner = str ''b.ex'', rr_type = 1, rr_class = 1, rr_ttl = 60, rr_data = [10, 0, 0, 2]\<rparr>"
    by code_simp+
  ultimately show ?thesis
    using message_reads_back [of 50 "replicate 50 0" 12 "[?r1, ?r2]" "[]"] by simp
qed




text \<open>
  \<open>append_rr_plain\<close> on a valid name: it succeeds exactly when the uncompressed record fits, writes the
  record and nothing else, and the record reads back.
\<close>

theorem append_rr_plain_reads_back:
  assumes "blen \<le> length b" "off \<le> blen" "name_ok name" "unat rdlen \<le> length rdata"
  shows "if off + length (wire (labels_of name)) + 10 + unat rdlen \<le> blen
    then \<exists>b' e. append_rr_plain b off blen name type cls ttl rdata rdlen = Some (b', Ok e) \<and> same_outside off e b b'
      \<and> rr_at b' e off \<lparr>rr_owner = norm_name name, rr_type = type, rr_class = cls, rr_ttl = ttl,
          rr_data = take (unat rdlen) rdata\<rparr> e
    else \<exists>b'. append_rr_plain b off blen name type cls ttl rdata rdlen = Some (b', Err) \<and> same_outside off blen b b'"
proof -
  let ?w = "wire (labels_of name)" and ?d = "take (unat rdlen) rdata"
  let ?b1 = "patch b off ?w"
  have ls: "\<forall>l \<in> set (labels_of name). length l \<le> 63" using assms(3) by (simp add: name_ok_def)
  have win: "off + (blen - off) \<le> length b" using assms(1,2) by simp
  show ?thesis
  proof (cases "off + length ?w \<le> blen")
    case False
    then have "\<exists>b'. name_to_wire name b off (blen - off) = Some (b', Err) \<and> same_outside off (off + (blen - off)) b b'"
      by (intro name_to_wire_err [OF win] disjI2) (use assms(2) in linarith)
    then show ?thesis using False assms(2) by (auto simp: append_rr_plain_def)
  next
    case fit: True
    have nw: "name_to_wire name b off (blen - off) = Some (?b1, Ok (length ?w))"
      using fit by (intro name_to_wire_ok [OF win ls]) simp
    have l1: "length ?b1 = length b" using fit assms(1) by simp
    have so: "same_outside off blen b ?b1" using fit assms(1) by (intro same_outside_patch) auto
    show ?thesis
    proof (cases "off + length ?w + 10 + unat rdlen \<le> blen")
      case False
      then show ?thesis using nw so by (auto simp: append_rr_plain_def)
    next
      case True
      let ?x = "rr_bytes type cls ttl rdlen ?d" and ?e = "off + length ?w + 10 + unat rdlen"
      let ?b2 = "patch ?b1 (off + length ?w) ?x"
      have lx: "length ?x = 10 + unat rdlen" using assms(4) by (simp add: rr_bytes_def)
      have pp: "?b2 = patch b off (?w @ ?x)" using True lx assms(1) by (intro patch_patch) simp
      have res: "append_rr_plain b off blen name type cls ttl rdata rdlen = Some (?b2, Ok ?e)"
        using nw True assms(1,4) l1 by (simp add: append_rr_plain_def rr_body_ok)
      have so: "same_outside off ?e b ?b2" unfolding pp using True assms(1) lx by (intro same_outside_patch) auto
      have nf: "name_from_wire ?b2 ?e off 256 = Some (Ok (off + length ?w, norm_name name))"
        unfolding pp using True assms(1) lx by (intro plain_name_reads assms(3)) auto
      have dr: "take (10 + length ?d) (drop (off + length ?w) ?b2) = ?x"
        using True assms(1,4) l1 lx by (simp add: patch_def)
      show ?thesis
        using res so True l1 assms(1,4) unat_u16 [of rdlen] rr_at_patch [OF nf, of ?d type cls ttl] dr lx by auto
    qed
  qed
qed

theorem append_rr_plain_reads_back_witness:
  "\<exists>b' e. append_rr_plain (replicate 20 0) 0 20 (str ''A'') 1 1 60 [9] 1 = Some (b', Ok e)
    \<and> rr_at b' e 0 \<lparr>rr_owner = str ''a'', rr_type = 1, rr_class = 1, rr_ttl = 60, rr_data = [9]\<rparr> e"
proof -
  have "name_ok (str ''A'')" by code_simp
  moreover have "norm_name (str ''A'') = str ''a''" "length (wire (labels_of (str ''A''))) = 3" by code_simp+
  ultimately show ?thesis
    using append_rr_plain_reads_back [of 20 "replicate 20 0" 0 "str ''A''" 1 "[9]" 1 1 60] by auto
qed

text \<open>
  A failed \<open>append_rr\<close> leaves the suffixes of its owner name in the compression context although no such
  name was written. When the caller goes on at the same offset, as \<open>emit_rr\<close> does, the next record with
  that owner gets a pointer to itself, which the parser rejects.
\<close>

theorem append_rr_stale_context:
  "\<exists>cc b. append_rr [] (replicate 30 0) 12 30 (str ''a'') 16 1 60 (replicate 50 7) 50 = Some (cc, b, Err)
    \<and> (\<exists>cc' b'. append_rr cc b 12 30 (str ''a'') 1 1 60 [1, 2, 3, 4] 4 = Some (cc', b', Ok 28)
         \<and> name_from_wire b' 28 12 256 = Some Err)"
proof -
  have "append_rr [] (replicate 30 0) 12 30 (str ''a'') 16 1 60 (replicate 50 7) 50
      = Some ([([97], 12)], [0, 0, 0, 0, 0, 0, 0, 0, 0, 0, 0, 0, 1, 97, 0] @ replicate 15 0, Err)"
    by code_simp
  moreover have "append_rr [([97], 12)] ([0, 0, 0, 0, 0, 0, 0, 0, 0, 0, 0, 0, 1, 97, 0] @ replicate 15 0) 12 30 (str ''a'') 1 1 60 [1, 2, 3, 4] 4
      = Some ([([97], 12)], replicate 12 0 @ [0xC0, 12, 0, 1, 0, 1, 0, 0, 0, 60, 0, 4, 1, 2, 3, 4, 0, 0], Ok 28)"
    by code_simp
  moreover have "name_from_wire (replicate 12 0 @ [0xC0, 12, 0, 1, 0, 1, 0, 0, 0, 60, 0, 4, 1, 2, 3, 4, 0, 0]) 28 12 256 = Some Err"
    by code_simp
  ultimately show ?thesis by blast
qed

end
