(* ===== verification/Inet.thy ===== *)
theory Inet
  imports CString
begin

text \<open>
  The address conversion of the C library that the sources call: \<open>inet_pton\<close> and \<open>inet_ntop\<close> for both address
  families. The functions follow the parser of the C library character by character; the results
  have four and sixteen bytes, and the dotted quad that \<open>printf\<close> writes is read back.
\<close>

section \<open>IPv4\<close>

text \<open>
  The state of the scan: the octets before the current one, the current one, and whether a digit of
  it was seen.
\<close>

fun pton4_loop :: "cstr \<Rightarrow> bytes \<Rightarrow> nat \<Rightarrow> bool \<Rightarrow> bytes option" where
  "pton4_loop [] done cur saw =
     (if length done + (if saw then 1 else 0) < 4 then None else Some (done @ [of_nat cur]))"
| "pton4_loop (c # s) done cur saw =
     (if isdigit c then
        (let new = cur * 10 + (unat c - 48) in
         if saw \<and> cur = 0 then None
         else if new > 255 then None
         else if \<not> saw \<and> length done + 1 > 4 then None
         else pton4_loop s done new True)
      else if c = 46 \<and> saw then
        (if length done + 1 = 4 then None else pton4_loop s (done @ [of_nat cur]) 0 False)
      else None)"

definition inet_pton4 :: "cstr \<Rightarrow> bytes option" where
  "inet_pton4 s = pton4_loop s [] 0 False"

lemma pton4_loop_length: "pton4_loop s d cur saw = Some a \<Longrightarrow> length d < 4 \<Longrightarrow> length a = 4"
  by (induction s d cur saw rule: pton4_loop.induct) (auto simp: Let_def split: if_splits)

lemma inet_pton4_length: "inet_pton4 s = Some a \<Longrightarrow> length a = 4"
  unfolding inet_pton4_def by (erule pton4_loop_length) simp

section \<open>IPv6\<close>

record pton6 =
  p6_tp :: bytes
  p6_colon :: "nat option"
  p6_val :: nat
  p6_xd :: nat

definition p6_emit :: "pton6 \<Rightarrow> pton6 option" where
  "p6_emit st =
     (if length (p6_tp st) + 2 > 16 then None
      else Some (st\<lparr>p6_tp := p6_tp st @ [of_nat (p6_val st div 256), of_nat (p6_val st mod 256)],
                    p6_val := 0, p6_xd := 0\<rparr>))"

text \<open>\<open>tok\<close> is the text from the start of the current group on, for an embedded dotted quad.\<close>

fun pton6_loop :: "cstr \<Rightarrow> cstr \<Rightarrow> pton6 \<Rightarrow> pton6 option" where
  "pton6_loop tok [] st = Some st"
| "pton6_loop tok (c # s) st =
     (case digit_val 16 c of
        Some d \<Rightarrow>
          if p6_xd st = 4 then None
          else pton6_loop tok s (st\<lparr>p6_val := p6_val st * 16 + d, p6_xd := p6_xd st + 1\<rparr>)
      | None \<Rightarrow>
          if c = 58 then
            (if p6_xd st = 0 then
               (if p6_colon st \<noteq> None then None
                else pton6_loop s s (st\<lparr>p6_colon := Some (length (p6_tp st))\<rparr>))
             else if s = [] then None
             else (case p6_emit st of None \<Rightarrow> None | Some st \<Rightarrow> pton6_loop s s st))
          else if c = 46 \<and> length (p6_tp st) + 4 \<le> 16 then
            (case inet_pton4 tok of
               Some a \<Rightarrow> Some (st\<lparr>p6_tp := p6_tp st @ a, p6_xd := 0\<rparr>)
             | None \<Rightarrow> None)
          else None)"

definition inet_pton6 :: "cstr \<Rightarrow> bytes option" where
  "inet_pton6 src =
     (let s = (if src \<noteq> [] \<and> hd src = 58 then tl src else src) in
      if src = [] \<or> hd src = 58 \<and> (s = [] \<or> hd s \<noteq> 58) then None
      else case pton6_loop s s \<lparr>p6_tp = [], p6_colon = None, p6_val = 0, p6_xd = 0\<rparr> of
        None \<Rightarrow> None
      | Some st \<Rightarrow>
          (case (if p6_xd st > 0 then p6_emit st else Some st) of
             None \<Rightarrow> None
           | Some st \<Rightarrow>
               (case p6_colon st of
                  None \<Rightarrow> if length (p6_tp st) = 16 then Some (p6_tp st) else None
                | Some k \<Rightarrow>
                    if length (p6_tp st) = 16 then None
                    else Some (take k (p6_tp st) @ replicate (16 - length (p6_tp st)) 0 @ drop k (p6_tp st)))))"

lemma p6_emit_le: "p6_emit st = Some st' \<Longrightarrow> length (p6_tp st') \<le> 16 \<and> p6_colon st' = p6_colon st"
  by (auto simp: p6_emit_def split: if_splits)

lemma pton6_loop_le: "pton6_loop tok s st = Some st' \<Longrightarrow> length (p6_tp st) \<le> 16 \<Longrightarrow> length (p6_tp st') \<le> 16"
proof (induction tok s st arbitrary: st' rule: pton6_loop.induct)
  case (2 tok c s st)
  then show ?case
    by (auto split: option.splits if_splits dest: inet_pton4_length p6_emit_le)
qed simp

lemma inet_pton6_length: "inet_pton6 s = Some a \<Longrightarrow> length a = 16"
proof -
  assume "inet_pton6 s = Some a"
  then obtain t st st' where t: "pton6_loop t t \<lparr>p6_tp = [], p6_colon = None, p6_val = 0, p6_xd = 0\<rparr> = Some st"
    "(if p6_xd st > 0 then p6_emit st else Some st) = Some st'"
    "(case p6_colon st' of None \<Rightarrow> if length (p6_tp st') = 16 then Some (p6_tp st') else None
      | Some k \<Rightarrow> if length (p6_tp st') = 16 then None
         else Some (take k (p6_tp st') @ replicate (16 - length (p6_tp st')) 0 @ drop k (p6_tp st'))) = Some a"
    by (auto simp: inet_pton6_def Let_def split: if_splits option.splits)
  have "length (p6_tp st) \<le> 16" using pton6_loop_le [OF t(1)] by simp
  then have "length (p6_tp st') \<le> 16" using t(2) p6_emit_le by (auto split: if_splits)
  then show "length a = 16" using t(3) by (auto split: option.splits if_splits simp: min_def)
qed

lemma digit_byte: "d < 10 \<Longrightarrow> isdigit (of_nat (48 + d)) \<and> unat (of_nat (48 + d) :: u8) - 48 = d"
  using unat_of_nat_u8 [of "48 + d"] by (simp add: isdigit_def word_le_nat_alt del: of_nat_add)

lemma pton4_digit:
  assumes "d < 10" "cur * 10 + d \<le> 255" "saw \<longrightarrow> 0 < cur" "length dn < 4"
  shows "pton4_loop (of_nat (48 + d) # s) dn cur saw = pton4_loop s dn (cur * 10 + d) True"
  using assms digit_byte [OF assms(1)] by (auto simp: Let_def simp del: of_nat_add)

lemma pton4_dec:
  assumes "n \<le> 255" "length dn < 4"
  shows "pton4_loop (dec n @ r) dn 0 False = pton4_loop r dn n True"
proof -
  have d1: "dec m = [of_nat (48 + m)]" if "m < 10" for m using that by (simp add: dec.simps [of m])
  have d2: "dec m = dec (m div 10) @ [of_nat (48 + m mod 10)]" if "\<not> m < 10" for m using that by (subst dec.simps) simp
  consider "n < 10" | "10 \<le> n" "n < 100" | "100 \<le> n" using assms(1) by linarith
  then show ?thesis
  proof cases
    case 1
    then show ?thesis using d1 [OF 1] pton4_digit [of n 0 False dn r] assms by (simp del: pton4_loop.simps of_nat_add)
  next
    case 2
    then have "dec n @ r = of_nat (48 + n div 10) # of_nat (48 + n mod 10) # r"
      using d2 [of n] d1 [of "n div 10"] by simp
    then show ?thesis
      using 2 assms pton4_digit [of "n div 10" 0 False dn] pton4_digit [of "n mod 10" "n div 10" True dn r]
      by (simp del: pton4_loop.simps of_nat_add)
  next
    case 3
    let ?m = "n div 10"
    have m: "10 \<le> ?m" "?m < 100" "?m div 10 < 10" "0 < ?m div 10" "?m div 10 * 10 + ?m mod 10 = ?m" using 3 assms(1) by auto
    have "dec n @ r = of_nat (48 + ?m div 10) # of_nat (48 + ?m mod 10) # of_nat (48 + n mod 10) # r"
      using d2 [of n] d2 [of ?m] d1 [of "?m div 10"] 3 m by simp
    then show ?thesis
      using 3 assms m pton4_digit [of "?m div 10" 0 False dn] pton4_digit [of "?m mod 10" "?m div 10" True dn]
        pton4_digit [of "n mod 10" ?m True dn r]
      by (simp del: pton4_loop.simps of_nat_add)
  qed
qed

text \<open>The dotted quad of an address, and that it is read back.\<close>

definition dotted :: "bytes \<Rightarrow> cstr" where
  "dotted a = join 46 (map (\<lambda>b. dec (unat b)) a)"

lemma pton4_dot: "length dn < 3 \<Longrightarrow> pton4_loop (46 # s) dn cur True = pton4_loop s (dn @ [of_nat cur]) 0 False"
  by (simp add: isdigit_def)

lemma inet_pton4_dotted: "inet_pton4 (dotted [a, b, c, d]) = Some [a, b, c, d]"
proof -
  have le: "unat x \<le> 255" for x :: u8 using unat_u8 [of x] by linarith
  have "dotted [a, b, c, d] = dec (unat a) @ 46 # dec (unat b) @ 46 # dec (unat c) @ 46 # dec (unat d) @ []"
    by (simp add: dotted_def)
  moreover have "pton4_loop [] [a, b, c] (unat d) True = Some [a, b, c, d]" by simp
  ultimately show ?thesis
    by (simp add: inet_pton4_def pton4_dec pton4_dot le del: pton4_loop.simps append_Nil2)
qed

section \<open>Printing addresses\<close>

text \<open>
  \<open>inet_ntop\<close> for IPv6: eight groups in hexadecimal, the longest run of at least two zero groups (the
  first of several) written as two colons, and a dotted quad at the end of the mapped and compatible
  IPv4 addresses.
\<close>

definition hexdig :: "nat \<Rightarrow> u8" where
  "hexdig d = (if d < 10 then of_nat (48 + d) else of_nat (87 + d))"

fun hexs :: "nat \<Rightarrow> cstr" where
  "hexs n = (if n < 16 then [hexdig n] else hexs (n div 16) @ [hexdig (n mod 16)])"

declare hexs.simps [simp del]

fun groups :: "bytes \<Rightarrow> nat list" where
  "groups (h # l # a) = (unat h * 256 + unat l) # groups a"
| "groups _ = []"

definition longer_run :: "(nat \<times> nat) option \<Rightarrow> (nat \<times> nat) option \<Rightarrow> (nat \<times> nat) option" where
  "longer_run best cur =
     (case (best, cur) of
        (_, None) \<Rightarrow> best
      | (None, _) \<Rightarrow> cur
      | (Some (b, l), Some (b', l')) \<Rightarrow> if l' > l then cur else best)"

fun zero_run :: "nat \<Rightarrow> (nat \<times> nat) option \<Rightarrow> (nat \<times> nat) option \<Rightarrow> nat list \<Rightarrow> (nat \<times> nat) option" where
  "zero_run i best cur [] = longer_run best cur"
| "zero_run i best cur (w # ws) =
     (if w = 0 then zero_run (i + 1) best (Some (case cur of None \<Rightarrow> (i, 1) | Some (b, l) \<Rightarrow> (b, l + 1))) ws
      else zero_run (i + 1) (longer_run best cur) None ws)"

fun ntop6_loop :: "bytes \<Rightarrow> (nat \<times> nat) option \<Rightarrow> nat list \<Rightarrow> nat \<Rightarrow> nat list \<Rightarrow> cstr" where
  "ntop6_loop a run ws i [] = (case run of Some (b, l) \<Rightarrow> if b + l = 8 then [58] else [] | None \<Rightarrow> [])"
| "ntop6_loop a run ws i (w # r) =
     (let inside = (case run of Some (b, l) \<Rightarrow> b \<le> i \<and> i < b + l | None \<Rightarrow> False);
          colon = (if i \<noteq> 0 then [58] else []);
          quad = (case run of Some (b, l) \<Rightarrow> i = 6 \<and> b = 0 \<and> (l = 6 \<or> l = 5 \<and> ws ! 5 = 0xffff) | None \<Rightarrow> False)
      in if inside then (if Some i = map_option fst run then [58] else []) @ ntop6_loop a run ws (i + 1) r
         else if quad then colon @ dotted (drop 12 a)
         else colon @ hexs w @ ntop6_loop a run ws (i + 1) r)"

definition inet_ntop6 :: "bytes \<Rightarrow> cstr" where
  "inet_ntop6 a =
     (let ws = groups a;
          run = (case zero_run 0 None None ws of Some (b, l) \<Rightarrow> if l < 2 then None else Some (b, l) | None \<Rightarrow> None)
      in ntop6_loop a run ws 0 ws)"

text \<open>The three shapes.\<close>

lemma inet_ntop6_examples:
  "inet_ntop6 [0x20, 0x01, 0x0d, 0xb8, 0, 0, 0, 0, 0, 0, 0, 0, 0, 0, 0, 1] = str ''2001:db8::1''"
  "inet_ntop6 [0, 0, 0, 0, 0, 0, 0, 0, 0, 0, 255, 255, 192, 0, 2, 33] = str ''::ffff:192.0.2.33''"
  "inet_ntop6 (replicate 16 0) = str ''::''"
  by code_simp+

end
