(* ===== verification/Tlv.thy ===== *)
theory Tlv
  imports Names Inet
begin

text \<open>
  The versioned tag-length-value codec of \<open>dns_wire.c\<close> (\<open>tlv_begin\<close>, \<open>tlv_put\<close>, \<open>tlv_next\<close> and their
  variants) and its two users in the library: SVCB and HTTPS records (\<open>svcb_present_to_tlv\<close>,
  \<open>svcb_tlv_to_wire\<close>) and ZONEMD records (\<open>zonemd_build_tlv\<close>, \<open>zonemd_tlv_to_wire\<close>). The locale
  \<open>tlv_format\<close> is the contract of the codec: what was put is what is read, in order.
\<close>

section \<open>The codec\<close>

definition tlv_begin :: "bytes \<Rightarrow> nat \<Rightarrow> u8 \<Rightarrow> (bytes \<times> nat cres) option" where
  "tlv_begin buf buflen version =
     (if buflen < 1 then Some (buf, Err)
      else do { buf \<leftarrow> wr8 buf 0 version; Some (buf, Ok 1) })"

definition tlv_put :: "bytes \<Rightarrow> nat \<Rightarrow> nat \<Rightarrow> u8 \<Rightarrow> bytes \<Rightarrow> (bytes \<times> nat cres) option" where
  "tlv_put buf buflen off tag val =
     (let vlen = length val in
      if vlen > 0xFFFF then Some (buf, Err)
      else if off + 3 + vlen > buflen then Some (buf, Err)
      else do {
        buf \<leftarrow> wr8 buf off tag;
        buf \<leftarrow> put16 buf (off + 1) (of_nat vlen);
        buf \<leftarrow> (if vlen > 0 then wrn buf (off + 3) val else Some buf);
        Some (buf, Ok (off + 3 + vlen)) })"

definition tlv_put_u8 :: "bytes \<Rightarrow> nat \<Rightarrow> nat \<Rightarrow> u8 \<Rightarrow> u8 \<Rightarrow> (bytes \<times> nat cres) option" where
  "tlv_put_u8 buf buflen off tag v = tlv_put buf buflen off tag [v]"

definition tlv_put_u16 :: "bytes \<Rightarrow> nat \<Rightarrow> nat \<Rightarrow> u8 \<Rightarrow> u16 \<Rightarrow> (bytes \<times> nat cres) option" where
  "tlv_put_u16 buf buflen off tag v = do { b \<leftarrow> put16 [0, 0] 0 v; tlv_put buf buflen off tag b }"

definition tlv_put_u32 :: "bytes \<Rightarrow> nat \<Rightarrow> nat \<Rightarrow> u8 \<Rightarrow> u32 \<Rightarrow> (bytes \<times> nat cres) option" where
  "tlv_put_u32 buf buflen off tag v = do { b \<leftarrow> put32 [0, 0, 0, 0] 0 v; tlv_put buf buflen off tag b }"

definition tlv_version :: "bytes \<Rightarrow> nat \<Rightarrow> u8 cres option" where
  "tlv_version buf buflen = (if buflen < 1 then Some Err else do { v \<leftarrow> rd8 buf 0; Some (Ok v) })"

text \<open>The results 0, -1 and 1 of \<open>tlv_next\<close>; an item comes with the offset behind it.\<close>

datatype tlv_res = TlvEnd | TlvBad | TlvItem u8 bytes nat

definition tlv_next :: "bytes \<Rightarrow> nat \<Rightarrow> nat \<Rightarrow> tlv_res option" where
  "tlv_next buf buflen off =
     (if off = buflen then Some TlvEnd
      else if off + 3 > buflen then Some TlvBad
      else do {
        t \<leftarrow> rd8 buf off;
        l \<leftarrow> get16 buf (off + 1);
        if off + 3 + unat l > buflen then Some TlvBad
        else do { v \<leftarrow> rdn buf (off + 3) (unat l); Some (TlvItem t v (off + 3 + unat l)) } })"

text \<open>
  A loop over \<open>tlv_next\<close> that hands every item to \<open>f\<close>; \<open>f\<close> may stop with \<open>Err\<close>, as the loops of the
  sources return \<open>-1\<close>. This is the shape of every reader of the format.
\<close>

function tlv_fold :: "('s \<Rightarrow> u8 \<Rightarrow> bytes \<Rightarrow> 's cres) \<Rightarrow> bytes \<Rightarrow> nat \<Rightarrow> nat \<Rightarrow> 's \<Rightarrow> 's cres option" where
  "tlv_fold f buf buflen off s =
     (case tlv_next buf buflen off of
        None \<Rightarrow> None
      | Some TlvEnd \<Rightarrow> Some (Ok s)
      | Some TlvBad \<Rightarrow> Some Err
      | Some (TlvItem t v off') \<Rightarrow>
          (case f s t v of Err \<Rightarrow> Some Err | Ok s \<Rightarrow> tlv_fold f buf buflen off' s))"
  by pat_completeness auto
termination
proof (relation "measure (\<lambda>(f, buf, buflen, off, s). buflen - off)", simp)
  fix f :: "'s \<Rightarrow> u8 \<Rightarrow> bytes \<Rightarrow> 's cres" and buf :: bytes and buflen off :: nat and s s' :: 's and r t v off'
  assume "tlv_next buf buflen off = Some r" "r = TlvItem t v off'"
  then have "off + 3 \<le> off'" "off' \<le> buflen" by (auto simp: tlv_next_def split: if_splits Option.bind_splits)
  then show "((f, buf, buflen, off', s'), f, buf, buflen, off, s) \<in> measure (\<lambda>(f, buf, buflen, off, s). buflen - off)"
    by simp
qed

declare tlv_fold.simps [simp del]

section \<open>What the codec promises\<close>

text \<open>The items of a blob, as bytes.\<close>

fun tlv_enc :: "(u8 \<times> bytes) list \<Rightarrow> bytes" where
  "tlv_enc [] = []"
| "tlv_enc ((t, v) # is) = t # be16 (of_nat (length v)) @ v @ tlv_enc is"

lemma length_tlv_enc: "length (tlv_enc is) = (\<Sum>(t, v) \<leftarrow> is. 3 + length v)"
  by (induction "is" rule: tlv_enc.induct) auto

lemma tlv_enc_append: "tlv_enc (is @ js) = tlv_enc is @ tlv_enc js"
  by (induction "is" rule: tlv_enc.induct) auto

lemma tlv_put_spec:
  assumes "buflen \<le> length buf"
  shows "tlv_put buf buflen off tag val =
    Some (if length val \<le> 0xFFFF \<and> off + 3 + length val \<le> buflen
          then (patch buf off (tlv_enc [(tag, val)]), Ok (off + 3 + length val)) else (buf, Err))"
proof (cases "length val \<le> 0xFFFF \<and> off + 3 + length val \<le> buflen")
  case True
  let ?h = "tag # be16 (of_nat (length val))"
  have p: "patch (patch buf off [tag]) (off + 1) (be16 (of_nat (length val))) = patch buf off ?h"
    using True assms patch_patch [of off "[tag]" "be16 (of_nat (length val))" buf] by simp
  have q: "patch (patch buf off ?h) (off + 3) val = patch buf off (?h @ val)"
    using True assms patch_patch [of off ?h val buf] by (simp add: numeral_3_eq_3)
  have l: "length (patch buf off [tag]) = length buf" "length (patch buf off ?h) = length buf"
    using True assms by simp_all
  then show ?thesis
    using True assms p q by (auto simp: tlv_put_def Let_def wr8_ok put16_ok wrn_ok)
qed (auto simp: tlv_put_def Let_def)

lemma tlv_next_item:
  assumes "buflen \<le> length buf" "take (3 + length v) (drop off buf) = tlv_enc [(t, v)]" "off + 3 + length v \<le> buflen"
    "length v \<le> 0xFFFF"
  shows "tlv_next buf buflen off = Some (TlvItem t v (off + 3 + length v))"
proof -
  have d: "take k (drop (off + i) buf) = take k (drop i (tlv_enc [(t, v)]))" if "i + k \<le> 3 + length v" for i k
    using take_drop_take [OF that, of "drop off buf"] assms(2) by (simp add: add.commute)
  have "take 1 (drop (off + 0) buf) = [t]" using d [of 0 1] by simp
  then have t: "buf ! off = t" using assms(1,3) by (simp add: take_Suc_conv_app_nth hd_drop_conv_nth)
  have "take 2 (drop (off + 1) buf) = be16 (of_nat (length v))" using d [of 1 2] by simp
  then have g: "get16 buf (off + 1) = Some (of_nat (length v))" using assms(1,3) by (intro get16_at) auto
  have "take (length v) (drop (off + 3) buf) = v" using d [of 3 "length v"] by simp
  moreover have "unat (of_nat (length v) :: u16) = length v" using assms(4) by (intro unat_of_nat_u16) simp
  ultimately show ?thesis using assms(1,3) t g by (auto simp: tlv_next_def rd8_ok rdn_ok)
qed

lemma tlv_next_safe: "buflen \<le> length buf \<Longrightarrow> tlv_next buf buflen off \<noteq> None"
  by (auto simp: tlv_next_def rd8_def get16_def rdn_def)

lemma be16_get16: "be16 (push_bit 8 (ucast h) OR ucast l) = [h, l]"
proof -
  have "ucast (drop_bit 8 (push_bit 8 (ucast h) OR ucast l) :: u16) = h"
    "ucast (push_bit 8 (ucast h) OR ucast l :: u16) = l"
    by (rule u8_eqI; simp add: bit_simps)+
  then show ?thesis unfolding be16_def ucast_and_FF by simp
qed

lemma split_take:
  assumes "take n xs = h @ r"
  shows "take (length h) xs = h" "take (n - length h) (drop (length h) xs) = r"
proof -
  have "length h + length r \<le> n" using arg_cong [OF assms, of length] by simp
  then show "take (length h) xs = h" using arg_cong [OF assms, of "take (length h)"] by (simp add: min_absorb1)
  show "take (n - length h) (drop (length h) xs) = r" using arg_cong [OF assms, of "drop (length h)"] by (simp add: drop_take)
qed

fun fold_res :: "('s \<Rightarrow> u8 \<Rightarrow> bytes \<Rightarrow> 's cres) \<Rightarrow> 's \<Rightarrow> (u8 \<times> bytes) list \<Rightarrow> 's cres" where
  "fold_res f s [] = Ok s"
| "fold_res f s ((t, v) # is) = (case f s t v of Err \<Rightarrow> Err | Ok s \<Rightarrow> fold_res f s is)"

lemma tlv_fold_enc:
  assumes "buflen \<le> length buf" "off \<le> buflen" "take (buflen - off) (drop off buf) = tlv_enc is"
    "\<forall>(t, v) \<in> set is. length v \<le> 0xFFFF"
  shows "tlv_fold f buf buflen off s = Some (fold_res f s is)"
  using assms
proof (induction "is" arbitrary: off s rule: tlv_enc.induct)
  case 1
  have "length (take (buflen - off) (drop off buf)) = buflen - off" using 1(1) by simp
  then have "off = buflen" using 1(2,3) by simp
  then show ?case by (subst tlv_fold.simps) (simp add: tlv_next_def)
next
  case (2 t v "is")
  have "length (take (buflen - off) (drop off buf)) = 3 + length v + length (tlv_enc is)" using 2(4) by simp
  then have len: "buflen - off = 3 + length v + length (tlv_enc is)" using 2(2,3) by simp
  let ?h = "tlv_enc [(t, v)]"
  have h: "length ?h = 3 + length v" by simp
  have all: "take (buflen - off) (drop off buf) = ?h @ tlv_enc is" using 2(4) by simp
  have hd: "take (3 + length v) (drop off buf) = ?h" using split_take(1) [OF all] unfolding h .
  have tl: "take (buflen - (off + 3 + length v)) (drop (off + 3 + length v) buf) = tlv_enc is"
    using split_take(2) [OF all] unfolding h by (simp add: ac_simps)
  have "tlv_next buf buflen off = Some (TlvItem t v (off + 3 + length v))"
    using tlv_next_item [OF 2(2) hd] len 2(3,5) by auto
  then show ?case
    using 2(1) [OF 2(2) _ tl] 2(5) len by (subst tlv_fold.simps) (auto split: cres.splits)
qed

text \<open>Reading all items; the reader accepts exactly the encodings of item lists.\<close>

definition tlv_items :: "bytes \<Rightarrow> nat \<Rightarrow> nat \<Rightarrow> (u8 \<times> bytes) list cres option" where
  "tlv_items buf buflen off = tlv_fold (\<lambda>is t v. Ok (is @ [(t, v)])) buf buflen off []"

lemma fold_res_collect: "fold_res (\<lambda>is t v. Ok (is @ [(t, v)])) js is = Ok (js @ is)"
  by (induction "\<lambda>is t v. Ok (is @ [(t, v)]) :: (u8 \<times> bytes) list cres" js "is" rule: fold_res.induct) auto

lemma tlv_next_inv:
  assumes "buflen \<le> length buf" "tlv_next buf buflen off = Some (TlvItem t v off')"
  shows "off' = off + 3 + length v \<and> off' \<le> buflen \<and> length v \<le> 0xFFFF
    \<and> take (3 + length v) (drop off buf) = tlv_enc [(t, v)]"
proof -
  obtain l where l: "get16 buf (off + 1) = Some l" "off + 3 + unat l \<le> buflen" "t = buf ! off"
    "v = take (unat l) (drop (off + 3) buf)" "off' = off + 3 + unat l"
    using assms by (auto simp: tlv_next_def rd8_def rdn_def split: if_splits Option.bind_splits)
  have le: "unat l \<le> 0xFFFF" using unat_u16 [of l] by linarith
  have len: "length v = unat l" using l assms(1) by simp
  have "take (3 + unat l) (drop off buf) = take 3 (drop off buf) @ take (unat l) (drop 3 (drop off buf))" by (rule take_add)
  then have a: "take (3 + unat l) (drop off buf) = take 3 (drop off buf) @ v" using l(4) by (simp add: add.commute)
  have b: "take 3 (drop off buf) = [buf ! off, buf ! (off + 1), buf ! (off + 2)]"
    using l(2) assms(1) by (simp add: numeral_3_eq_3 take_Suc_conv_app_nth nth_append)
  have "be16 l = [buf ! (off + 1), buf ! (off + 2)]"
    using l(1,2) assms(1) be16_get16 [of "buf ! (off + 1)" "buf ! (off + 2)"] by (simp add: get16_ok)
  then show ?thesis
    using l len a b assms(1) le by auto
qed

lemma tlv_fold_collect_sound:
  assumes "buflen \<le> length buf" "off \<le> buflen"
    "tlv_fold (\<lambda>is t v. Ok (is @ [(t, v)])) buf buflen off js = Some (Ok ks)"
  shows "\<exists>is. ks = js @ is \<and> take (buflen - off) (drop off buf) = tlv_enc is \<and> (\<forall>(t, v) \<in> set is. length v \<le> 0xFFFF)"
  using assms
proof (induction "buflen - off" arbitrary: off js rule: less_induct)
  case less
  note step = less.prems(3) [unfolded tlv_fold.simps [of _ buf buflen off js]]
  show ?case
  proof (cases "tlv_next buf buflen off")
    case None
    then show ?thesis using step by simp
  next
    case (Some r)
    show ?thesis
    proof (cases r)
      case TlvEnd
      then have "off = buflen" using Some by (auto simp: tlv_next_def split: if_splits Option.bind_splits)
      then show ?thesis using step Some TlvEnd by (intro exI [of _ "[]"]) simp
    next
      case TlvBad
      then show ?thesis using step Some by simp
    next
      case (TlvItem t v off')
      have i: "off' = off + 3 + length v" "off' \<le> buflen" "length v \<le> 0xFFFF"
        "take (3 + length v) (drop off buf) = tlv_enc [(t, v)]"
        using tlv_next_inv [OF less.prems(1)] Some TlvItem by auto
      have lt: "buflen - off' < buflen - off" using i(1,2) by simp
      obtain "is" where ih: "ks = (js @ [(t, v)]) @ is" "take (buflen - off') (drop off' buf) = tlv_enc is"
        "\<forall>(t, v) \<in> set is. length v \<le> 0xFFFF"
        using less.hyps [OF lt, of "js @ [(t, v)]"] less.prems(1) i step Some TlvItem by auto
      have "take (buflen - off) (drop off buf) = take (3 + length v) (drop off buf) @ take (buflen - off') (drop (3 + length v) (drop off buf))"
        using take_add [of "3 + length v" "buflen - off'" "drop off buf"] i(1,2) by (simp add: ac_simps)
      then have "take (buflen - off) (drop off buf) = tlv_enc ((t, v) # is)"
        using i ih(2) by (simp add: ac_simps)
      then show ?thesis using ih i(3) by (intro exI [of _ "(t, v) # is"]) auto
    qed
  qed
qed

section \<open>The contract of the format\<close>

text \<open>
  Writers put items one behind the other and stop at the first that does not fit; readers see the
  items in the order they were put. \<open>holds\<close> relates a blob to its items.
\<close>

fun tlv_puts :: "('b \<Rightarrow> u8 \<Rightarrow> bytes \<Rightarrow> 'b option) \<Rightarrow> 'b \<Rightarrow> (u8 \<times> bytes) list \<Rightarrow> 'b option" where
  "tlv_puts put b [] = Some b"
| "tlv_puts put b ((t, v) # is) = do { b \<leftarrow> put b t v; tlv_puts put b is }"

locale tlv_format =
  fixes holds :: "'b \<Rightarrow> (u8 \<times> bytes) list \<Rightarrow> bool"
    and put :: "'b \<Rightarrow> u8 \<Rightarrow> bytes \<Rightarrow> 'b option"
    and items :: "'b \<Rightarrow> (u8 \<times> bytes) list option"
  assumes put_holds: "holds b is \<Longrightarrow> put b t v = Some b' \<Longrightarrow> holds b' (is @ [(t, v)])"
    and items_holds: "holds b is \<Longrightarrow> items b = Some is"
begin

lemma puts_holds: "holds b js \<Longrightarrow> tlv_puts put b is = Some b' \<Longrightarrow> holds b' (js @ is)"
proof (induction "is" arbitrary: b js)
  case (Cons x "is")
  obtain t v where x: "x = (t, v)" by (cases x)
  with Cons.prems(2) obtain b1 where "put b t v = Some b1" "tlv_puts put b1 is = Some b'" by (cases "put b t v") auto
  then show ?case using Cons.IH [of b1 "js @ [(t, v)]"] put_holds Cons.prems(1) x by auto
qed simp

lemma items_puts: "holds b [] \<Longrightarrow> tlv_puts put b is = Some b' \<Longrightarrow> items b' = Some is"
  using puts_holds [of b "[]"] items_holds by auto

end

text \<open>The codec itself is an instance: a blob is an array with the offset behind its last item.\<close>

definition tlv_holds :: "nat \<Rightarrow> bytes \<times> nat \<Rightarrow> (u8 \<times> bytes) list \<Rightarrow> bool" where
  "tlv_holds cap b is \<longleftrightarrow> cap \<le> length (fst b) \<and> 1 \<le> snd b \<and> snd b \<le> cap
     \<and> take (snd b - 1) (drop 1 (fst b)) = tlv_enc is \<and> (\<forall>(t, v) \<in> set is. length v \<le> 0xFFFF)"

definition tlv_write :: "nat \<Rightarrow> bytes \<times> nat \<Rightarrow> u8 \<Rightarrow> bytes \<Rightarrow> (bytes \<times> nat) option" where
  "tlv_write cap b t v =
     (case tlv_put (fst b) cap (snd b) t v of Some (buf, Ok off) \<Rightarrow> Some (buf, off) | _ \<Rightarrow> None)"

definition tlv_read :: "bytes \<times> nat \<Rightarrow> (u8 \<times> bytes) list option" where
  "tlv_read b = (case tlv_items (fst b) (snd b) 1 of Some (Ok is) \<Rightarrow> Some is | _ \<Rightarrow> None)"

lemma tlv_write_holds:
  assumes "tlv_holds cap b is" "tlv_write cap b t v = Some b'"
  shows "tlv_holds cap b' (is @ [(t, v)])"
proof -
  obtain buf off where b: "b = (buf, off)" by (cases b)
  have h: "cap \<le> length buf" "1 \<le> off" "off \<le> cap" "take (off - 1) (drop 1 buf) = tlv_enc is"
    "\<forall>(t, v) \<in> set is. length v \<le> 0xFFFF"
    using assms(1) by (auto simp: tlv_holds_def b)
  let ?x = "tlv_enc [(t, v)]"
  have r: "length v \<le> 0xFFFF" "off + 3 + length v \<le> cap" "b' = (patch buf off ?x, off + 3 + length v)"
    using assms(2) h(1) by (auto simp: tlv_write_def b tlv_put_spec split: if_splits)
  have lx: "length ?x = 3 + length v" by simp
  have "take (off + length ?x) (patch buf off ?x) = take off buf @ ?x"
    using r(2) h(1) by (intro take_patch_end) simp
  then have "drop 1 (take (off + 3 + length v) (patch buf off ?x)) = drop 1 (take off buf) @ ?x"
    using h(2) r(2) h(1) unfolding lx by (simp add: add.assoc)
  moreover have "drop 1 (take off buf) = tlv_enc is" using h(4) by (simp add: drop_take)
  ultimately have "take (off + 3 + length v - 1) (drop 1 (patch buf off ?x)) = tlv_enc (is @ [(t, v)])"
    by (simp add: drop_take tlv_enc_append)
  then show ?thesis using r h by (auto simp: tlv_holds_def)
qed

lemma tlv_items_enc:
  assumes "tlv_holds cap (buf, off) is"
  shows "tlv_fold f buf off 1 s = Some (fold_res f s is)"
  using assms by (intro tlv_fold_enc) (auto simp: tlv_holds_def)

interpretation blob: tlv_format "tlv_holds cap" "tlv_write cap" tlv_read for cap
proof
  show "tlv_holds cap b' (is @ [(t, v)])" if "tlv_holds cap b is" "tlv_write cap b t v = Some b'" for b "is" t v b'
    using that by (rule tlv_write_holds)
  show "tlv_read b = Some is" if "tlv_holds cap b is" for b "is"
    using that tlv_items_enc [of cap "fst b" "snd b" "is" "\<lambda>is t v. Ok (is @ [(t, v)])" "[]"]
    by (simp add: tlv_read_def tlv_items_def fold_res_collect)
qed

lemma tlv_begin_holds:
  assumes "cap \<le> length buf" "tlv_begin buf cap ver = Some (buf', Ok off)"
  shows "off = 1 \<and> tlv_holds cap (buf', 1) [] \<and> buf' ! 0 = ver \<and> length buf' = length buf"
  using assms by (auto simp: tlv_begin_def wr8_def tlv_holds_def split: if_splits)

text \<open>The pattern \<open>off = f(...); if (off < 0) return -1;\<close>.\<close>

definition and_then :: "(bytes \<times> nat cres) option \<Rightarrow> (bytes \<Rightarrow> nat \<Rightarrow> (bytes \<times> nat cres) option) \<Rightarrow> (bytes \<times> nat cres) option" where
  "and_then r f = (case r of None \<Rightarrow> None | Some (b, Err) \<Rightarrow> Some (b, Err) | Some (b, Ok off) \<Rightarrow> f b off)"

lemma and_then_Ok: "and_then r f = Some (b', Ok n) \<longleftrightarrow> (\<exists>b off. r = Some (b, Ok off) \<and> f b off = Some (b', Ok n))"
  by (auto simp: and_then_def split: option.splits prod.splits cres.splits)

lemma tlv_put_write: "tlv_put buf cap off t v = Some (buf', Ok off') \<longleftrightarrow> tlv_write cap (buf, off) t v = Some (buf', off')"
  by (auto simp: tlv_write_def split: option.splits prod.splits cres.splits)

lemma tlv_put_u16_write: "tlv_put_u16 buf cap off t v = tlv_put buf cap off t (be16 v)"
  by (simp add: tlv_put_u16_def put16_ok patch_def)

lemma tlv_put_u32_write: "tlv_put_u32 buf cap off t v = tlv_put buf cap off t (be32 v)"
  by (simp add: tlv_put_u32_def put32_ok patch_def)

lemma tlv_write_version:
  assumes "tlv_write cap (buf, off) t v = Some (buf', off')" "cap \<le> length buf" "1 \<le> off"
  shows "buf' ! 0 = buf ! 0 \<and> length buf' = length buf \<and> 1 \<le> off' \<and> off' \<le> cap"
proof -
  have r: "off + 3 + length v \<le> cap" "buf' = patch buf off (tlv_enc [(t, v)])" "off' = off + 3 + length v"
    using assms by (auto simp: tlv_write_def tlv_put_spec split: if_splits)
  then have "0 < length buf" using assms(2) by linarith
  then show ?thesis using r assms(2,3) by (simp add: nth_patch)
qed

lemma tlv_puts_version:
  assumes "tlv_puts (tlv_write cap) (buf, off) is = Some (buf', off')" "cap \<le> length buf" "1 \<le> off" "off \<le> cap"
  shows "buf' ! 0 = buf ! 0 \<and> length buf' = length buf \<and> 1 \<le> off' \<and> off' \<le> cap"
  using assms
proof (induction "is" arbitrary: buf off)
  case (Cons x "is")
  obtain t v where x: "x = (t, v)" by (cases x)
  with Cons.prems(1) obtain b1 o1 where w: "tlv_write cap (buf, off) t v = Some (b1, o1)" "tlv_puts (tlv_write cap) (b1, o1) is = Some (buf', off')"
    by (cases "tlv_write cap (buf, off) t v") auto
  then show ?case using tlv_write_version [OF w(1) Cons.prems(2,3)] Cons.IH [of b1 o1] Cons.prems(2) by auto
qed simp

section \<open>ZONEMD\<close>

definition zonemd_build_tlv :: "u32 \<Rightarrow> u8 \<Rightarrow> u8 \<Rightarrow> bytes \<Rightarrow> bytes \<Rightarrow> nat \<Rightarrow> (bytes \<times> nat cres) option" where
  "zonemd_build_tlv serial scheme hashalg digest tlv cap =
     and_then (tlv_begin tlv cap 1) (\<lambda>tlv off.
     and_then (tlv_put_u32 tlv cap off 1 serial) (\<lambda>tlv off.
     and_then (tlv_put_u8 tlv cap off 2 scheme) (\<lambda>tlv off.
     and_then (tlv_put_u8 tlv cap off 3 hashalg) (\<lambda>tlv off.
     tlv_put tlv cap off 4 digest))))"

text \<open>The fields found so far; \<open>None\<close> is a cleared \<open>have_\<close> flag.\<close>

record zonemd_st =
  zm_serial :: "u32 option"
  zm_scheme :: "u8 option"
  zm_hashalg :: "u8 option"
  zm_digest :: "bytes option"

definition zonemd_item :: "zonemd_st \<Rightarrow> u8 \<Rightarrow> bytes \<Rightarrow> zonemd_st cres" where
  "zonemd_item st tag val =
     (if tag = 1 then
        (case val of
           [b0, b1, b2, b3] \<Rightarrow>
             Ok (st\<lparr>zm_serial := Some (push_bit 24 (ucast b0) OR push_bit 16 (ucast b1) OR push_bit 8 (ucast b2) OR ucast b3)\<rparr>)
         | _ \<Rightarrow> Err)
      else if tag = 2 then (case val of [b] \<Rightarrow> Ok (st\<lparr>zm_scheme := Some b\<rparr>) | _ \<Rightarrow> Err)
      else if tag = 3 then (case val of [b] \<Rightarrow> Ok (st\<lparr>zm_hashalg := Some b\<rparr>) | _ \<Rightarrow> Err)
      else if tag = 4 then Ok (st\<lparr>zm_digest := Some val\<rparr>)
      else Ok st)"

definition zonemd_tlv_to_wire :: "bytes \<Rightarrow> nat \<Rightarrow> bytes \<Rightarrow> nat \<Rightarrow> (bytes \<times> nat cres) option" where
  "zonemd_tlv_to_wire tlv tlvlen out outcap = do {
     ver \<leftarrow> tlv_version tlv tlvlen;
     if ver \<noteq> Ok 1 then Some (out, Err)
     else do {
       r \<leftarrow> tlv_fold zonemd_item tlv tlvlen 1
             \<lparr>zm_serial = None, zm_scheme = None, zm_hashalg = None, zm_digest = None\<rparr>;
       case r of
         Err \<Rightarrow> Some (out, Err)
       | Ok st \<Rightarrow>
         (case (zm_serial st, zm_scheme st, zm_hashalg st, zm_digest st) of
            (Some serial, Some scheme, Some hashalg, Some digest) \<Rightarrow>
           if 6 + length digest > outcap then Some (out, Err)
           else do {
             out \<leftarrow> put32 out 0 serial;
             out \<leftarrow> wr8 out 4 scheme;
             out \<leftarrow> wr8 out 5 hashalg;
             out \<leftarrow> (if length digest > 0 then wrn out 6 digest else Some out);
             Some (out, Ok (6 + length digest)) }
          | _ \<Rightarrow> Some (out, Err)) } }"

lemma zonemd_build_puts:
  assumes "zonemd_build_tlv serial scheme hashalg digest tlv cap = Some (tlv', Ok n)" "cap \<le> length tlv"
  shows "\<exists>b. tlv_holds cap (b, 1) [] \<and> b ! 0 = 1 \<and> length b = length tlv
    \<and> tlv_puts (tlv_write cap) (b, 1) [(1, be32 serial), (2, [scheme]), (3, [hashalg]), (4, digest)] = Some (tlv', n)"
proof -
  obtain b off where b: "tlv_begin tlv cap 1 = Some (b, Ok off)"
    using assms(1) by (auto simp: zonemd_build_tlv_def and_then_Ok)
  have "off = 1" using tlv_begin_holds [OF assms(2) b] by simp
  then show ?thesis
    using assms(1) b tlv_begin_holds [OF assms(2) b]
    by (auto simp: zonemd_build_tlv_def and_then_Ok tlv_put_u32_write tlv_put_u8_def tlv_put_write)
qed

lemma be32_item: "zonemd_item st 1 (be32 v) = Ok (st\<lparr>zm_serial := Some v\<rparr>)"
  using get32_be [of v] by (simp add: zonemd_item_def be32_def)

text \<open>
  ZONEMD: what \<open>zonemd_build_tlv\<close> stored is what \<open>zonemd_tlv_to_wire\<close> writes as rdata of RFC 8976,
  serial, scheme, hash algorithm and digest in this order, whenever the output array has room, and
  it fails without writing when it has not.
\<close>

theorem zonemd_roundtrip:
  assumes "zonemd_build_tlv serial scheme hashalg digest tlv cap = Some (tlv', Ok n)" "cap \<le> length tlv" "outcap \<le> length out"
  shows "zonemd_tlv_to_wire tlv' n out outcap = Some (if 6 + length digest \<le> outcap
    then (patch out 0 (be32 serial @ [scheme, hashalg] @ digest), Ok (6 + length digest)) else (out, Err))"
proof -
  let ?is = "[(1, be32 serial), (2, [scheme]), (3, [hashalg]), (4, digest)]"
  obtain b where b: "tlv_holds cap (b, 1) []" "b ! 0 = 1" "length b = length tlv"
    "tlv_puts (tlv_write cap) (b, 1) ?is = Some (tlv', n)"
    using zonemd_build_puts [OF assms(1,2)] by blast
  have h: "tlv_holds cap (tlv', n) ?is" using blob.puts_holds [OF b(1,4)] by simp
  then have "1 \<le> n" "n \<le> length tlv'" by (auto simp: tlv_holds_def)
  moreover have "tlv' ! 0 = 1" using tlv_puts_version [OF b(4)] b(1-3) by (simp add: tlv_holds_def)
  ultimately have v: "tlv_version tlv' n = Some (Ok 1)" by (auto simp: tlv_version_def rd8_def)
  have p: "patch (patch (patch (patch out 0 (be32 serial)) 4 [scheme]) 5 [hashalg]) 6 digest = patch out 0 (be32 serial @ [scheme, hashalg] @ digest)"
    if "6 + length digest \<le> outcap"
    using that assms(3) patch_patch [of 0 "be32 serial" "[scheme]" out] patch_patch [of 0 "be32 serial @ [scheme]" "[hashalg]" out]
      patch_patch [of 0 "be32 serial @ [scheme, hashalg]" digest out] by simp
  show ?thesis
    using v tlv_items_enc [OF h, of zonemd_item "\<lparr>zm_serial = None, zm_scheme = None, zm_hashalg = None, zm_digest = None\<rparr>"] p assms(3)
    by (auto simp: zonemd_tlv_to_wire_def be32_item zonemd_item_def [of _ 2] zonemd_item_def [of _ 3] zonemd_item_def [of _ 4] put32_ok wr8_ok wrn_ok)
qed

theorem zonemd_roundtrip_witness:
  "\<exists>tlv' n. zonemd_build_tlv 7 1 1 [0xAA, 0xBB] (replicate 30 0) 30 = Some (tlv', Ok n)
    \<and> zonemd_tlv_to_wire tlv' n (replicate 8 0) 8 = Some ([0, 0, 0, 7, 1, 1, 0xAA, 0xBB], Ok 8)"
proof -
  have "zonemd_build_tlv 7 1 1 [0xAA, 0xBB] (replicate 30 0) 30
      = Some ([1, 1, 0, 4, 0, 0, 0, 7, 2, 0, 1, 1, 3, 0, 1, 1, 4, 0, 2, 0xAA, 0xBB] @ replicate 9 0, Ok 21)"
    by code_simp
  moreover have "patch (replicate 8 0) 0 (be32 7 @ [1, 1] @ [0xAA, 0xBB]) = [0, 0, 0, 7, 1, 1, 0xAA, 0xBB]"
    by code_simp
  ultimately show ?thesis
    using zonemd_roundtrip [of 7 1 1 "[0xAA, 0xBB]" "replicate 30 0" 30 _ 21 8 "replicate 8 0"] by force
qed

section \<open>SVCB and HTTPS\<close>

definition svcb_keyname :: "cstr \<Rightarrow> nat option" where
  "svcb_keyname s =
     (if strcaseeq s (str ''mandatory'') then Some 0
      else if strcaseeq s (str ''alpn'') then Some 1
      else if strcaseeq s (str ''no-default-alpn'') then Some 2
      else if strcaseeq s (str ''port'') then Some 3
      else if strcaseeq s (str ''ipv4hint'') then Some 4
      else if strcaseeq s (str ''ech'') then Some 5
      else if strcaseeq s (str ''ipv6hint'') then Some 6
      else None)"

text \<open>The loops over the comma separated parts of a value; the value array has 512 bytes.\<close>

fun svcb_alpn :: "cstr list \<Rightarrow> bytes \<Rightarrow> bytes cres" where
  "svcb_alpn [] v = Ok v"
| "svcb_alpn (t # ts) v =
     (let l = length t in
      if l < 1 \<or> l > 255 \<or> length v + 1 + l > 512 then Err else svcb_alpn ts (v @ of_nat l # t))"

fun svcb_addrs :: "nat \<Rightarrow> (cstr \<Rightarrow> bytes option) \<Rightarrow> cstr list \<Rightarrow> bytes \<Rightarrow> bytes cres" where
  "svcb_addrs n pton [] v = Ok v"
| "svcb_addrs n pton (t # ts) v =
     (if length v + n > 512 then Err
      else case pton t of None \<Rightarrow> Err | Some a \<Rightarrow> svcb_addrs n pton ts (v @ a))"

fun svcb_mandatory :: "cstr list \<Rightarrow> bytes \<Rightarrow> bytes cres" where
  "svcb_mandatory [] v = Ok v"
| "svcb_mandatory (t # ts) v =
     (case svcb_keyname t of
        None \<Rightarrow> Err
      | Some mk \<Rightarrow>
          if length v + 2 > 512 then Err
          else svcb_mandatory ts (v @ [of_nat (mk div 256), of_nat (mk mod 256)]))"

definition nonempty_res :: "bytes cres \<Rightarrow> bytes cres" where
  "nonempty_res r = (case r of Err \<Rightarrow> Err | Ok v \<Rightarrow> if v = [] then Err else Ok v)"

definition svcb_value :: "nat \<Rightarrow> cstr option \<Rightarrow> bytes cres" where
  "svcb_value key val =
     (if key = 2 then Ok []
      else case val of
        None \<Rightarrow> Err
      | Some val \<Rightarrow>
          (let parts = toks [44] (safe_strcpy [] val 512) in
           if key = 1 then nonempty_res (svcb_alpn parts [])
           else if key = 3 then
             (let (p, rest) = strtol 10 val in
              if rest = val \<or> rest \<noteq> [] \<or> p < 0 \<or> p > 65535 then Err
              else Ok [word_of_int (p div 256), word_of_int (p mod 256)])
           else if key = 4 then nonempty_res (svcb_addrs 4 inet_pton4 parts [])
           else if key = 6 then nonempty_res (svcb_addrs 16 inet_pton6 parts [])
           else if key = 5 then Ok (b64std_dec val 512)
           else if key = 0 then nonempty_res (svcb_mandatory parts [])
           else Err))"

definition svcb_param_to_tlv :: "bytes \<Rightarrow> nat \<Rightarrow> nat \<Rightarrow> nat \<Rightarrow> cstr option \<Rightarrow> (bytes \<times> nat cres) option" where
  "svcb_param_to_tlv tlv cap off key val =
     (case svcb_value key val of
        Err \<Rightarrow> Some (tlv, Err)
      | Ok v \<Rightarrow> tlv_put tlv cap off (of_nat (0x10 + key)) v)"

text \<open>\<open>strchr(kv, '=')\<close>: the key and the value, if there is an equals sign.\<close>

definition split_eq :: "cstr \<Rightarrow> cstr \<times> cstr option" where
  "split_eq kv =
     (case dropWhile (\<lambda>c. c \<noteq> 61) kv of
        [] \<Rightarrow> (kv, None) | _ # v \<Rightarrow> (takeWhile (\<lambda>c. c \<noteq> 61) kv, Some v))"

fun svcb_params :: "int \<Rightarrow> nat \<Rightarrow> cstr list \<Rightarrow> nat list \<Rightarrow> bytes \<Rightarrow> nat \<Rightarrow> (bytes \<times> nat cres) option" where
  "svcb_params prio cap [] seen tlv off = Some (tlv, Ok off)"
| "svcb_params prio cap (kv # kvs) seen tlv off =
     (let (k, val) = split_eq kv in
      case svcb_keyname k of
        None \<Rightarrow> Some (tlv, Err)
      | Some key \<Rightarrow>
          if key \<in> set seen then Some (tlv, Err)
          else if prio = 0 then Some (tlv, Err)
          else and_then (svcb_param_to_tlv tlv cap off key val)
                 (\<lambda>tlv off. svcb_params prio cap kvs (key # seen) tlv off))"

definition svcb_present_to_tlv :: "cstr \<Rightarrow> bytes \<Rightarrow> nat \<Rightarrow> (bytes \<times> nat cres) option" where
  "svcb_present_to_tlv present tlv cap =
     (case toks [32, 9] (safe_strcpy [] present 1024) of
        [] \<Rightarrow> Some (tlv, Err)
      | tok # r \<Rightarrow>
          (let (prio, rest) = strtol 10 tok in
           if rest = tok \<or> rest \<noteq> [] \<or> prio < 0 \<or> prio > 65535 then Some (tlv, Err)
           else (case r of
              [] \<Rightarrow> Some (tlv, Err)
            | target # kvs \<Rightarrow>
                and_then (tlv_begin tlv cap 1) (\<lambda>tlv off.
                and_then (tlv_put_u16 tlv cap off 1 (word_of_int prio)) (\<lambda>tlv off.
                and_then (tlv_put tlv cap off 2 target) (\<lambda>tlv off.
                svcb_params prio cap kvs [] tlv off))))))"

text \<open>
  The reader: the priority, the target and the value of each of the seven keys, if present.
\<close>

record svcb_st =
  sv_prio :: "nat option"
  sv_target :: cstr
  sv_params :: "bytes option list"

definition svcb_item :: "svcb_st \<Rightarrow> u8 \<Rightarrow> bytes \<Rightarrow> svcb_st cres" where
  "svcb_item st tag val =
     (if tag = 1 then
        (case val of [h, l] \<Rightarrow> Ok (st\<lparr>sv_prio := Some (unat h * 256 + unat l)\<rparr>) | _ \<Rightarrow> Err)
      else if tag = 2 then
        (if length val \<ge> 256 then Err else Ok (st\<lparr>sv_target := cstr_of val\<rparr>))
      else if 0x10 \<le> tag \<and> tag \<le> 0x16 then
        Ok (st\<lparr>sv_params := (sv_params st)[unat tag - 0x10 := Some val]\<rparr>)
      else Ok st)"

fun svcb_emit :: "nat \<Rightarrow> bytes option list \<Rightarrow> nat \<Rightarrow> bytes \<Rightarrow> nat \<Rightarrow> (bytes \<times> nat cres) option" where
  "svcb_emit outcap [] key out off = Some (out, Ok off)"
| "svcb_emit outcap (None # ps) key out off = svcb_emit outcap ps (Suc key) out off"
| "svcb_emit outcap (Some v # ps) key out off =
     (if off + 4 + length v > outcap then Some (out, Err)
      else do {
        out \<leftarrow> put16 out off (of_nat key);
        out \<leftarrow> put16 out (off + 2) (of_nat (length v));
        out \<leftarrow> (if length v > 0 then wrn out (off + 4) v else Some out);
        svcb_emit outcap ps (Suc key) out (off + 4 + length v) })"

definition svcb_tlv_to_wire :: "bytes \<Rightarrow> nat \<Rightarrow> bytes \<Rightarrow> nat \<Rightarrow> (bytes \<times> nat cres) option" where
  "svcb_tlv_to_wire tlv tlvlen out outcap = do {
     ver \<leftarrow> tlv_version tlv tlvlen;
     if ver \<noteq> Ok 1 then Some (out, Err)
     else do {
       r \<leftarrow> tlv_fold svcb_item tlv tlvlen 1 \<lparr>sv_prio = None, sv_target = [], sv_params = replicate 7 None\<rparr>;
       case r of
         Err \<Rightarrow> Some (out, Err)
       | Ok st \<Rightarrow>
           (case sv_prio st of
              None \<Rightarrow> Some (out, Err)
            | Some prio \<Rightarrow>
                if 2 > outcap then Some (out, Err)
                else do {
                  out \<leftarrow> put16 out 0 (of_nat prio);
                  and_then (name_to_wire (if sv_target st \<noteq> [] then sv_target st else [46]) out 2 (outcap - 2))
                    (\<lambda>out n. svcb_emit outcap (sv_params st) 0 out (2 + n)) }) } }"

definition svcb_tag :: "nat \<times> bytes \<Rightarrow> u8 \<times> bytes" where
  "svcb_tag p = (of_nat (0x10 + fst p), snd p)"

definition svcparam_wire :: "nat \<times> bytes \<Rightarrow> bytes" where
  "svcparam_wire p = be16 (of_nat (fst p)) @ be16 (of_nat (length (snd p))) @ snd p"

text \<open>What a parameter of the presentation form means.\<close>

definition svcb_param_of :: "cstr \<Rightarrow> nat \<times> bytes \<Rightarrow> bool" where
  "svcb_param_of kv p \<longleftrightarrow> svcb_keyname (fst (split_eq kv)) = Some (fst p)
     \<and> svcb_value (fst p) (snd (split_eq kv)) = Ok (snd p)"

lemma svcb_keyname_le: "svcb_keyname s = Some k \<Longrightarrow> k \<le> 6"
  by (auto simp: svcb_keyname_def split: if_splits)

lemma svcb_params_puts:
  assumes "svcb_params prio cap kvs seen tlv off = Some (tlv', Ok n)"
  shows "\<exists>ps. tlv_puts (tlv_write cap) (tlv, off) (map svcb_tag ps) = Some (tlv', n) \<and> distinct (map fst ps)
    \<and> (\<forall>p \<in> set ps. fst p \<le> 6 \<and> fst p \<notin> set seen) \<and> (ps \<noteq> [] \<longrightarrow> prio \<noteq> 0) \<and> list_all2 svcb_param_of kvs ps"
  using assms
proof (induction prio cap kvs seen tlv off rule: svcb_params.induct)
  case (2 prio cap kv kvs seen tlv off)
  obtain k val where kv: "split_eq kv = (k, val)" by (cases "split_eq kv")
  with 2(2) obtain key where key: "svcb_keyname k = Some key" "key \<notin> set seen" "prio \<noteq> 0"
    by (auto split: option.splits if_splits)
  with 2(2) kv obtain b1 o1 where s: "svcb_param_to_tlv tlv cap off key val = Some (b1, Ok o1)"
    "svcb_params prio cap kvs (key # seen) b1 o1 = Some (tlv', Ok n)"
    by (auto simp: and_then_Ok)
  then obtain v where v: "svcb_value key val = Ok v" "tlv_write cap (tlv, off) (of_nat (0x10 + key)) v = Some (b1, o1)"
    by (auto simp: svcb_param_to_tlv_def tlv_put_write split: cres.splits)
  obtain ps where ps: "tlv_puts (tlv_write cap) (b1, o1) (map svcb_tag ps) = Some (tlv', n)" "distinct (map fst ps)"
    "\<forall>p \<in> set ps. fst p \<le> 6 \<and> fst p \<notin> set (key # seen)" "list_all2 svcb_param_of kvs ps"
    using 2(1) [OF kv [symmetric] refl key(1,2,3) s(2)] by blast
  have "svcb_param_of kv (key, v)" using kv key(1) v(1) by (simp add: svcb_param_of_def)
  moreover have "key \<le> 6" using key(1) by (rule svcb_keyname_le)
  ultimately show ?case
    using v(2) ps key by (intro exI [of _ "(key, v) # ps"]) (auto simp: svcb_tag_def [of "(key, v)"])
qed auto

fun params_wire :: "bytes option list \<Rightarrow> nat \<Rightarrow> bytes" where
  "params_wire [] key = []"
| "params_wire (None # ps) key = params_wire ps (Suc key)"
| "params_wire (Some v # ps) key = svcparam_wire (key, v) @ params_wire ps (Suc key)"

lemma length_svcparam_wire: "length (svcparam_wire (key, v)) = 4 + length v"
  by (simp add: svcparam_wire_def)

lemma svcb_emit_param:
  assumes "off + 4 + length v \<le> outcap" "outcap \<le> length out"
  shows "svcb_emit outcap (Some v # ps) key out off
    = svcb_emit outcap ps (Suc key) (patch out off (svcparam_wire (key, v))) (off + 4 + length v)"
proof -
  let ?h = "be16 (of_nat key) @ be16 (of_nat (length v))"
  have h: "length ?h = 4" by simp
  define o1 where "o1 = patch out off (be16 (of_nat key))"
  define o2 where "o2 = patch out off ?h"
  have l: "length o1 = length out" "length o2 = length out"
    using assms by (auto simp: o1_def o2_def intro!: length_patch)
  have p: "put16 out off (of_nat key) = Some o1" "put16 o1 (off + 2) (of_nat (length v)) = Some o2"
    using assms l patch_patch [of off "be16 (of_nat key)" "be16 (of_nat (length v))" out]
    by (auto simp: put16_ok o1_def o2_def)
  have "(if length v > 0 then wrn o2 (off + 4) v else Some o2) = Some (patch out off (svcparam_wire (key, v)))"
    using assms l patch_patch [of off ?h v out] unfolding h
    by (auto simp: wrn_ok o2_def svcparam_wire_def)
  then show ?thesis using assms p by simp
qed

lemma svcb_emit_spec:
  assumes "outcap \<le> length out" "off \<le> outcap"
  shows "if off + length (params_wire ps key) \<le> outcap
    then svcb_emit outcap ps key out off = Some (patch out off (params_wire ps key), Ok (off + length (params_wire ps key)))
    else \<exists>out'. svcb_emit outcap ps key out off = Some (out', Err)"
  using assms
proof (induction ps arbitrary: key out off)
  case (Cons x ps)
  show ?case
  proof (cases x)
    case (Some v)
    let ?w = "svcparam_wire (key, v)" and ?r = "params_wire ps (Suc key)"
    show ?thesis
    proof (cases "off + 4 + length v \<le> outcap")
      case True
      let ?o = "patch out off ?w"
      have l: "length ?o = length out" using True Cons.prems(1) by (intro length_patch) (simp add: length_svcparam_wire)
      have "patch ?o (off + 4 + length v) ?r = patch out off (?w @ ?r)" if "off + 4 + length v + length ?r \<le> outcap"
        using that Cons.prems(1) patch_patch [of off ?w ?r out] by (simp add: length_svcparam_wire add.assoc)
      then show ?thesis
        using Cons.IH [of ?o "off + 4 + length v" "Suc key"] Cons.prems(1) True l Some svcb_emit_param [OF True Cons.prems(1)]
        by (auto simp: length_svcparam_wire add.assoc simp del: svcb_emit.simps)
    qed (use Some in \<open>auto simp: length_svcparam_wire\<close>)
  qed (use Cons in auto)
qed auto

lemma svcb_item_param:
  assumes "k \<le> 6"
  shows "svcb_item st (of_nat (0x10 + k)) v = Ok (st\<lparr>sv_params := (sv_params st)[k := Some v]\<rparr>)"
proof -
  have "unat (of_nat (0x10 + k) :: u8) = 0x10 + k" using assms by (intro unat_of_nat_u8) simp
  then show ?thesis using assms
    by (auto simp: svcb_item_def word_le_nat_alt word_unat_eq_iff simp del: of_nat_add)
qed

lemma fold_svcb_params:
  assumes "\<forall>p \<in> set ps. fst p \<le> 6"
  shows "fold_res svcb_item st (map svcb_tag ps)
    = Ok (st\<lparr>sv_params := foldl (\<lambda>l p. l[fst p := Some (snd p)]) (sv_params st) ps\<rparr>)"
  using assms by (induction ps arbitrary: st) (auto simp: svcb_tag_def svcb_item_param simp del: of_nat_add)

lemma foldl_upd_nth:
  assumes "distinct (map fst ps)" "i < length l"
  shows "foldl (\<lambda>l p. l[fst p := Some (snd p)]) l ps ! i = (case map_of ps i of Some v \<Rightarrow> Some v | None \<Rightarrow> l ! i)"
  using assms
proof (induction ps arbitrary: l)
  case (Cons p ps)
  have "map_of ps (fst p) = None" using Cons.prems(1) by (simp add: map_of_eq_None_iff)
  then show ?case using Cons by (cases p) (auto split: option.splits)
qed simp

lemma length_foldl_upd: "length (foldl (\<lambda>l p. l[fst p := Some (snd p)]) l ps) = length l"
  by (induction ps arbitrary: l) auto

text \<open>The parameters that are present, in the order of their keys.\<close>

fun present :: "bytes option list \<Rightarrow> nat \<Rightarrow> (nat \<times> bytes) list" where
  "present [] k = []"
| "present (None # l) k = present l (Suc k)"
| "present (Some v # l) k = (k, v) # present l (Suc k)"

lemma params_wire_present: "params_wire l k = concat (map svcparam_wire (present l k))"
  by (induction l k rule: present.induct) auto

lemma present_ge: "p \<in> set (present l k) \<Longrightarrow> k \<le> fst p"
  by (induction l k rule: present.induct) (auto dest: Suc_leD)

lemma present_sorted: "sorted_wrt (<) (map fst (present l k))"
  by (induction l k rule: present.induct) (use present_ge in \<open>fastforce simp: Suc_le_eq\<close>)+

lemma present_iff: "p \<in> set (present l k) \<longleftrightarrow> k \<le> fst p \<and> fst p < k + length l \<and> l ! (fst p - k) = Some (snd p)"
proof (induction l k rule: present.induct)
  case (2 l k)
  then show ?case by (cases "fst p = k") (auto simp: nth_Cons' Suc_le_eq)
next
  case (3 v l k)
  then show ?case by (cases "fst p = k"; cases p) (auto simp: nth_Cons' Suc_le_eq)
qed simp

lemma present_params:
  assumes "distinct (map fst ps)" "\<forall>p \<in> set ps. fst p \<le> 6"
  shows "set (present (foldl (\<lambda>l p. l[fst p := Some (snd p)]) (replicate 7 None) ps) 0) = set ps"
proof -
  have "p \<in> set ps \<longleftrightarrow> fst p < 7 \<and> map_of ps (fst p) = Some (snd p)" for p
    using assms map_of_eq_Some_iff [OF assms(1), of "fst p" "snd p"] by (auto simp: less_Suc_eq_le)
  moreover have "foldl (\<lambda>l p. l[fst p := Some (snd p)]) (replicate 7 None) ps ! i = map_of ps i" if "i < 7" for i
    using foldl_upd_nth [OF assms(1), of i "replicate 7 None"] that by (simp split: option.splits)
  ultimately show ?thesis by (auto simp: present_iff length_foldl_upd)
qed

lemma svcb_present_puts:
  assumes "svcb_present_to_tlv pres tlv cap = Some (tlv', Ok n)" "cap \<le> length tlv"
  shows "\<exists>b ptok target kvs prio ps. tlv_holds cap (b, 1) [] \<and> b ! 0 = 1 \<and> length b = length tlv
    \<and> toks [32, 9] (safe_strcpy [] pres 1024) = ptok # target # kvs \<and> strtol 10 ptok = (prio, []) \<and> 0 \<le> prio \<and> prio \<le> 65535
    \<and> tlv_puts (tlv_write cap) (b, 1) ([(1, be16 (word_of_int prio)), (2, target)] @ map svcb_tag ps) = Some (tlv', n)
    \<and> distinct (map fst ps) \<and> (\<forall>p \<in> set ps. fst p \<le> 6) \<and> (ps \<noteq> [] \<longrightarrow> prio \<noteq> 0) \<and> list_all2 svcb_param_of kvs ps"
proof -
  obtain ptok r prio where t: "toks [32, 9] (safe_strcpy [] pres 1024) = ptok # r" "strtol 10 ptok = (prio, [])" "0 \<le> prio" "prio \<le> 65535"
    using assms(1) by (auto simp: svcb_present_to_tlv_def Let_def split: list.splits prod.splits if_splits)
  then obtain target kvs where r: "r = target # kvs"
    using assms(1) by (cases r) (auto simp: svcb_present_to_tlv_def split: if_splits)
  obtain b off b1 o1 b2 o2 where s: "tlv_begin tlv cap 1 = Some (b, Ok off)"
    "tlv_put_u16 b cap off 1 (word_of_int prio) = Some (b1, Ok o1)" "tlv_put b1 cap o1 2 target = Some (b2, Ok o2)"
    "svcb_params prio cap kvs [] b2 o2 = Some (tlv', Ok n)"
    using assms(1) t r by (auto simp: svcb_present_to_tlv_def and_then_Ok split: if_splits)
  have b: "off = 1" "tlv_holds cap (b, 1) []" "b ! 0 = 1" "length b = length tlv"
    using tlv_begin_holds [OF assms(2) s(1)] by auto
  obtain ps where ps: "tlv_puts (tlv_write cap) (b2, o2) (map svcb_tag ps) = Some (tlv', n)" "distinct (map fst ps)"
    "\<forall>p \<in> set ps. fst p \<le> 6" "ps \<noteq> [] \<longrightarrow> prio \<noteq> 0" "list_all2 svcb_param_of kvs ps"
    using svcb_params_puts [OF s(4)] by auto
  have "tlv_puts (tlv_write cap) (b, 1) ([(1, be16 (word_of_int prio)), (2, target)] @ map svcb_tag ps) = Some (tlv', n)"
    using s(2,3) b(1) ps(1) by (simp add: tlv_put_u16_write tlv_put_write)
  then show ?thesis using b t r ps by blast
qed

lemma be16_nat: "unat (ucast (drop_bit 8 w) :: u8) * 256 + unat (ucast (w AND 0xFF) :: u8) = unat (w :: u16)"
proof -
  have "unat (ucast (drop_bit 8 w) :: u8) = unat w div 256" "unat (ucast w :: u8) = unat w mod 256"
    using unat_u16 [of w] less_mult_imp_div_less [of "unat w" 256 256]
    by (simp_all only: unsigned_ucast_eq unsigned_drop_bit_eq) (simp_all add: take_bit_eq_mod drop_bit_eq_div)
  then show ?thesis by (simp add: ucast_and_FF)
qed

lemma unat_word_of_int_u16: "0 \<le> i \<Longrightarrow> i \<le> 65535 \<Longrightarrow> unat (word_of_int i :: u16) = nat i"
  by (simp add: unat_eq_nat_uint uint_word_of_int)

lemma svcb_fold:
  assumes "0 \<le> prio" "prio \<le> 65535" "length target < 256" "0 \<notin> set target" "\<forall>p \<in> set ps. fst p \<le> 6"
  shows "fold_res svcb_item \<lparr>sv_prio = None, sv_target = [], sv_params = replicate 7 None\<rparr>
      ([(1, be16 (word_of_int prio)), (2, target)] @ map svcb_tag ps)
    = Ok \<lparr>sv_prio = Some (nat prio), sv_target = target,
          sv_params = foldl (\<lambda>l p. l[fst p := Some (snd p)]) (replicate 7 None) ps\<rparr>"
proof -
  let ?w = "word_of_int prio :: u16"
  have p: "svcb_item st 1 (be16 ?w) = Ok (st\<lparr>sv_prio := Some (nat prio)\<rparr>)" for st
    using be16_nat [of ?w] assms(1,2) by (simp add: svcb_item_def be16_def unat_word_of_int_u16)
  moreover have "svcb_item st 2 target = Ok (st\<lparr>sv_target := target\<rparr>)" for st
    using assms(3,4) by (simp add: svcb_item_def cstr_of_id)
  ultimately show ?thesis by (simp add: fold_svcb_params [OF assms(5)])
qed

lemma svcb_fold_long:
  assumes "256 \<le> length target"
  shows "fold_res svcb_item \<lparr>sv_prio = None, sv_target = [], sv_params = replicate 7 None\<rparr>
      ([(1, be16 (word_of_int prio)), (2, target)] @ map svcb_tag ps) = Err"
  using assms by (simp add: svcb_item_def be16_def)

text \<open>The last part of \<open>svcb_tlv_to_wire\<close>, once the fields are known.\<close>

definition svcb_write :: "nat \<Rightarrow> bytes \<Rightarrow> int \<Rightarrow> cstr \<Rightarrow> bytes option list \<Rightarrow> (bytes \<times> nat cres) option" where
  "svcb_write outcap out prio target params =
     (if 2 > outcap then Some (out, Err)
      else do {
        out \<leftarrow> put16 out 0 (of_nat (nat prio));
        and_then (name_to_wire target out 2 (outcap - 2)) (\<lambda>out n. svcb_emit outcap params 0 out (2 + n)) })"

lemma svcb_write_spec:
  assumes "outcap \<le> length out" "0 \<le> prio"
  shows "let w = be16 (word_of_int prio) @ wire (labels_of target) @ params_wire params 0 in
    if (\<forall>l \<in> set (labels_of target). length l \<le> 63) \<and> length w \<le> outcap
    then svcb_write outcap out prio target params = Some (patch out 0 w, Ok (length w))
    else \<exists>out'. svcb_write outcap out prio target params = Some (out', Err)"
proof (cases "2 > outcap")
  case False
  let ?p = "be16 (word_of_int prio)" and ?n = "wire (labels_of target)" and ?r = "params_wire params 0"
  let ?o = "patch out 0 ?p"
  have pr: "put16 out 0 (of_nat (nat prio)) = Some ?o" using False assms by (simp add: put16_ok)
  have l: "length ?o = length out" using False assms(1) by simp
  have win: "2 + (outcap - 2) \<le> length ?o" using False assms(1) l by simp
  show ?thesis
  proof (cases "(\<forall>l \<in> set (labels_of target). length l \<le> 63) \<and> length ?n \<le> outcap - 2")
    case True
    let ?o2 = "patch ?o 2 ?n"
    have nw: "name_to_wire target ?o 2 (outcap - 2) = Some (?o2, Ok (length ?n))"
      using True by (intro name_to_wire_ok [OF win]) auto
    have fit: "2 + length ?n \<le> length out" using True False assms(1) by linarith
    have pp: "?o2 = patch out 0 (?p @ ?n)" using fit patch_patch [of 0 ?p ?n out] by (simp add: numeral_2_eq_2)
    have l2: "length ?o2 = length out" unfolding pp using fit by (intro length_patch) simp
    have "patch ?o2 (2 + length ?n) ?r = patch out 0 (?p @ ?n @ ?r)" if "2 + length ?n + length ?r \<le> outcap"
      unfolding pp using that assms(1) patch_patch [of 0 "?p @ ?n" ?r out] by simp
    then show ?thesis
      using svcb_emit_spec [of outcap ?o2 "2 + length ?n" params 0] assms(1) l2 True False pr nw
      by (auto simp: svcb_write_def and_then_def Let_def add.assoc)
  next
    case bad: False
    then have "\<exists>b'. name_to_wire target ?o 2 (outcap - 2) = Some (b', Err) \<and> same_outside 2 (2 + (outcap - 2)) ?o b'"
      by (intro name_to_wire_err [OF win]) auto
    then show ?thesis using bad False pr by (auto simp: svcb_write_def and_then_def Let_def)
  qed
qed (auto simp: svcb_write_def Let_def)

text \<open>
  C17: SVCB and HTTPS records end to end. When \<open>svcb_present_to_tlv\<close> accepts a presentation text, its first
  word is the priority and its second the target, every further word is a known key with a valid value,
  no key occurs twice, and there is none when the priority is 0. The rdata that \<open>svcb_tlv_to_wire\<close> then
  writes is the priority, the uncompressed target and exactly these parameters in strictly ascending
  key order; it fails when the target is no valid name or the rdata does not fit.
\<close>

theorem svcb_end_to_end:
  assumes "svcb_present_to_tlv pres tlv cap = Some (tlv', Ok n)" "0 \<notin> set pres" "cap \<le> length tlv" "outcap \<le> length out"
  shows "\<exists>ptok target kvs prio ps qs.
    toks [32, 9] (safe_strcpy [] pres 1024) = ptok # target # kvs \<and> strtol 10 ptok = (prio, []) \<and> 0 \<le> prio \<and> prio \<le> 65535
    \<and> list_all2 svcb_param_of kvs ps \<and> distinct (map fst ps) \<and> (ps \<noteq> [] \<longrightarrow> prio \<noteq> 0)
    \<and> set qs = set ps \<and> sorted_wrt (<) (map fst qs)
    \<and> (let w = be16 (word_of_int prio) @ wire (labels_of target) @ concat (map svcparam_wire qs) in
       if length target < 256 \<and> (\<forall>l \<in> set (labels_of target). length l \<le> 63) \<and> length w \<le> outcap
       then svcb_tlv_to_wire tlv' n out outcap = Some (patch out 0 w, Ok (length w))
       else \<exists>out'. svcb_tlv_to_wire tlv' n out outcap = Some (out', Err))"
proof -
  obtain b ptok target kvs prio ps where p: "tlv_holds cap (b, 1) []" "b ! 0 = 1" "length b = length tlv"
    "toks [32, 9] (safe_strcpy [] pres 1024) = ptok # target # kvs" "strtol 10 ptok = (prio, [])" "0 \<le> prio" "prio \<le> 65535"
    "tlv_puts (tlv_write cap) (b, 1) ([(1, be16 (word_of_int prio)), (2, target)] @ map svcb_tag ps) = Some (tlv', n)"
    "distinct (map fst ps)" "\<forall>p \<in> set ps. fst p \<le> 6" "ps \<noteq> [] \<longrightarrow> prio \<noteq> 0" "list_all2 svcb_param_of kvs ps"
    using svcb_present_puts [OF assms(1,3)] by blast
  have "target \<in> set (toks [32, 9] (safe_strcpy [] pres 1024))" using p(4) by simp
  then have t: "target \<noteq> []" "0 \<notin> set target"
    using toks_wf [of target "[32, 9]"] set_safe_strcpy [of 1024 "[]" pres] assms(2) by auto
  define sp where "sp = foldl (\<lambda>l p. l[fst p := Some (snd p)]) (replicate 7 None) ps"
  define qs where "qs = present sp 0"
  have q: "set qs = set ps" "sorted_wrt (<) (map fst qs)"
    unfolding qs_def sp_def using present_params [OF p(9,10)] present_sorted by auto
  have h: "tlv_holds cap (tlv', n) ([(1, be16 (word_of_int prio)), (2, target)] @ map svcb_tag ps)"
    using blob.puts_holds [OF p(1,8)] by simp
  then have "1 \<le> n" "n \<le> length tlv'" by (auto simp: tlv_holds_def)
  moreover have "tlv' ! 0 = 1" using tlv_puts_version [OF p(8)] p(1-3) by (simp add: tlv_holds_def)
  ultimately have v: "tlv_version tlv' n = Some (Ok 1)" by (auto simp: tlv_version_def rd8_def)
  note fold = tlv_items_enc [OF h, of svcb_item "\<lparr>sv_prio = None, sv_target = [], sv_params = replicate 7 None\<rparr>"]
  have "svcb_tlv_to_wire tlv' n out outcap = (if length target < 256 then svcb_write outcap out prio target sp else Some (out, Err))"
    using v fold svcb_fold [OF p(6,7) _ t(2) p(10)] t(1) svcb_fold_long by (auto simp: svcb_tlv_to_wire_def svcb_write_def sp_def)
  then have "let w = be16 (word_of_int prio) @ wire (labels_of target) @ concat (map svcparam_wire qs) in
       if length target < 256 \<and> (\<forall>l \<in> set (labels_of target). length l \<le> 63) \<and> length w \<le> outcap
       then svcb_tlv_to_wire tlv' n out outcap = Some (patch out 0 w, Ok (length w))
       else \<exists>out'. svcb_tlv_to_wire tlv' n out outcap = Some (out', Err)"
    using svcb_write_spec [OF assms(4) p(6), of target sp] by (auto simp: qs_def params_wire_present Let_def)
  then show ?thesis using p q by blast
qed

theorem svcb_end_to_end_witness:
  "\<exists>tlv'. svcb_present_to_tlv (str ''1 a port=853 alpn=h2'') (replicate 40 0) 40 = Some (tlv', Ok 21)
    \<and> (\<exists>ps qs. set qs = set ps \<and> sorted_wrt (<) (map fst qs) \<and> list_all2 svcb_param_of [str ''port=853'', str ''alpn=h2''] ps)"
proof -
  have e: "svcb_present_to_tlv (str ''1 a port=853 alpn=h2'') (replicate 40 0) 40
      = Some ([1, 1, 0, 2, 0, 1, 2, 0, 1, 97, 0x13, 0, 2, 3, 85, 0x11, 0, 3, 2, 104, 50] @ replicate 19 0, Ok 21)"
    by code_simp
  have k: "toks [32, 9] (safe_strcpy [] (str ''1 a port=853 alpn=h2'') 1024) = [str ''1'', str ''a'', str ''port=853'', str ''alpn=h2'']"
    by code_simp
  have "0 \<notin> set (str ''1 a port=853 alpn=h2'')" by code_simp
  from svcb_end_to_end [OF e this, of 0 "[]"] k e show ?thesis by auto
qed

lemma tlv_fold_safe:
  assumes "buflen \<le> length buf"
  shows "tlv_fold f buf buflen off s \<noteq> None"
proof (induction "buflen - off" arbitrary: off s rule: less_induct)
  case less
  obtain r where r: "tlv_next buf buflen off = Some r" using tlv_next_safe [OF assms] by blast
  have "tlv_fold f buf buflen off' s' \<noteq> None" if "r = TlvItem t v off'" for t v off' s'
  proof (rule less)
    have "off' = off + 3 + length v \<and> off' \<le> buflen" using tlv_next_inv [OF assms] r that by blast
    then show "buflen - off' < buflen - off" by linarith
  qed
  then show ?case using r by (subst tlv_fold.simps) (auto split: tlv_res.splits cres.splits)
qed

lemma tlv_items_iff:
  assumes "buflen \<le> length buf" "off \<le> buflen"
  shows "tlv_items buf buflen off = Some (Ok is) \<longleftrightarrow>
    take (buflen - off) (drop off buf) = tlv_enc is \<and> (\<forall>(t, v) \<in> set is. length v \<le> 0xFFFF)"
proof
  assume "tlv_items buf buflen off = Some (Ok is)"
  then show "take (buflen - off) (drop off buf) = tlv_enc is \<and> (\<forall>(t, v) \<in> set is. length v \<le> 0xFFFF)"
    using tlv_fold_collect_sound [OF assms, of "[]" "is"] unfolding tlv_items_def by force
next
  assume "take (buflen - off) (drop off buf) = tlv_enc is \<and> (\<forall>(t, v) \<in> set is. length v \<le> 0xFFFF)"
  then show "tlv_items buf buflen off = Some (Ok is)"
    using tlv_fold_enc [OF assms, of "is" "\<lambda>is t v. Ok (is @ [(t, v)])" "[]"] unfolding tlv_items_def
    by (simp add: fold_res_collect)
qed

section \<open>Properties of the codec\<close>

text \<open>
  The reader of a TLV blob is exact and memory safe: on any bytes, walking the items from \<open>off\<close> either
  reports malformed framing or yields the one list of items whose encoding the bytes are; no byte
  outside the blob is read.
\<close>

theorem tlv_items_exact:
  assumes "buflen \<le> length buf" "off \<le> buflen"
  shows "tlv_items buf buflen off \<noteq> None
    \<and> (tlv_items buf buflen off = Some (Ok is) \<longleftrightarrow>
       take (buflen - off) (drop off buf) = tlv_enc is \<and> (\<forall>(t, v) \<in> set is. length v \<le> 0xFFFF))"
  using tlv_fold_safe [OF assms(1)] tlv_items_iff [OF assms] by (simp add: tlv_items_def)

theorem tlv_items_exact_witness:
  "tlv_items [1, 5, 0, 1, 9, 6, 0, 0] 8 1 = Some (Ok [(5, [9]), (6, [])])"
  using tlv_items_exact [of 8 "[1, 5, 0, 1, 9, 6, 0, 0]" 1 "[(5, [9]), (6, [])]"]
  by (simp add: be16_def)

text \<open>
  Appending with \<open>tlv_put\<close>: it writes only the new item, refuses one that does not fit or is longer than
  65535 bytes, and afterwards the blob reads as the old items followed by the new one.
\<close>

theorem tlv_put_appends:
  assumes "cap \<le> length buf" "1 \<le> off" "off \<le> cap" "tlv_items buf off 1 = Some (Ok is)"
  shows "\<exists>buf' r. tlv_put buf cap off t v = Some (buf', r) \<and> same_outside off (off + 3 + length v) buf buf'
    \<and> (if length v \<le> 0xFFFF \<and> off + 3 + length v \<le> cap
       then r = Ok (off + 3 + length v) \<and> tlv_items buf' (off + 3 + length v) 1 = Some (Ok (is @ [(t, v)]))
       else r = Err)"
proof (cases "length v \<le> 0xFFFF \<and> off + 3 + length v \<le> cap")
  case True
  let ?b = "patch buf off (tlv_enc [(t, v)])"
  have p: "tlv_put buf cap off t v = Some (?b, Ok (off + 3 + length v))" using True assms(1) by (simp add: tlv_put_spec)
  have "tlv_holds cap (buf, off) is"
    using assms tlv_items_iff [THEN iffD1, OF _ assms(2,4)] by (auto simp: tlv_holds_def)
  then have "tlv_holds cap (?b, off + 3 + length v) (is @ [(t, v)])"
    using p by (intro tlv_write_holds [of cap "(buf, off)"]) (simp_all add: tlv_write_def)
  then have "tlv_items ?b (off + 3 + length v) 1 = Some (Ok (is @ [(t, v)]))"
    using tlv_items_iff [of "off + 3 + length v" ?b 1] by (simp add: tlv_holds_def)
  moreover have "same_outside off (off + 3 + length v) buf ?b" using True assms(1) by (intro same_outside_patch) auto
  ultimately show ?thesis using p True by auto
qed (use assms(1) in \<open>auto simp: tlv_put_spec\<close>)

theorem tlv_put_appends_witness:
  "\<exists>buf'. tlv_put [1, 0, 0, 0, 0, 7] 5 1 9 [4] = Some (buf', Ok 5) \<and> tlv_items buf' 5 1 = Some (Ok [(9, [4])])"
proof -
  have "tlv_items [1, 0, 0, 0, 0, 7] 1 1 = Some (Ok [])" by code_simp
  then show ?thesis using tlv_put_appends [of 5 "[1, 0, 0, 0, 0, 7]" 1 "[]" 9 "[4]"] by auto
qed

end
