(* ===== verification/Types.thy ===== *)
theory Types
  imports Names
begin

text \<open>
  Record types and serial numbers (\<open>dns_wire.c\<close>): \<open>type2str\<close> and \<open>str2type\<close>, the serial arithmetic of
  RFC 1982 (\<open>serial_lt\<close>, \<open>serial_ge\<close>), the CSYNC rdata (\<open>csync_encode_rdata\<close>), and the reader of type
  bitmaps in \<open>resolverd.c\<close> (\<open>nsec_bitmap_has_type\<close>).
\<close>

section \<open>Mnemonics\<close>

text \<open>The rows of the two functions: the code point and the name, in the order of the source.\<close>

definition type_table :: "(u16 \<times> cstr) list" where
  "type_table =
     [(1, str ''A''), (2, str ''NS''), (5, str ''CNAME''), (6, str ''SOA''), (12, str ''PTR''), (15, str ''MX''),
      (16, str ''TXT''), (24, str ''SIG''), (25, str ''KEY''), (28, str ''AAAA''), (29, str ''LOC''), (33, str ''SRV''),
      (35, str ''NAPTR''), (39, str ''DNAME''), (44, str ''SSHFP''), (43, str ''DS''), (46, str ''RRSIG''),
      (47, str ''NSEC''), (48, str ''DNSKEY''), (50, str ''NSEC3''), (51, str ''NSEC3PARAM''), (52, str ''TLSA''),
      (59, str ''CDS''), (60, str ''CDNSKEY''), (62, str ''CSYNC''), (63, str ''ZONEMD''), (64, str ''SVCB''),
      (65, str ''HTTPS''), (256, str ''URI''), (257, str ''CAA''), (251, str ''IXFR''), (252, str ''AXFR''), (255, str ''ANY'')]"

definition type2str :: "u16 \<Rightarrow> cstr" where
  "type2str t =
     (case map_of type_table t of
        Some s \<Rightarrow> s
      | None \<Rightarrow> safe_strcpy [] (str ''TYPE'' @ dec (unat t)) 12)"

fun str2type_rows :: "(u16 \<times> cstr) list \<Rightarrow> cstr \<Rightarrow> u16 option" where
  "str2type_rows [] s = None"
| "str2type_rows ((t, n) # rows) s = (if strcaseeq s n then Some t else str2type_rows rows s)"

definition str2type :: "cstr \<Rightarrow> u16" where
  "str2type s =
     (case str2type_rows type_table s of
        Some t \<Rightarrow> t
      | None \<Rightarrow>
          if strcaseeq (take 4 s) (str ''TYPE'') \<and> 4 < length s \<and> isdigit (s ! 4) then word_of_int (atoi (drop 4 s))
          else if s \<noteq> [] \<and> isdigit (hd s) then word_of_int (atoi s)
          else 0)"

section \<open>Serial numbers\<close>

definition serial_lt :: "u32 \<Rightarrow> u32 \<Rightarrow> bool" where
  "serial_lt a b \<longleftrightarrow> a \<noteq> b \<and> (b - a) AND 0x80000000 = 0"

definition serial_ge :: "u32 \<Rightarrow> u32 \<Rightarrow> bool" where
  "serial_ge a b \<longleftrightarrow> \<not> serial_lt a b"

section \<open>Type bitmaps\<close>

text \<open>The reader of \<open>resolverd.c\<close>: \<open>None\<close> is a read outside the bitmap.\<close>

function nsec_bitmap_loop :: "bytes \<Rightarrow> nat \<Rightarrow> nat \<Rightarrow> nat \<Rightarrow> nat \<Rightarrow> bool option" where
  "nsec_bitmap_loop bm bmlen win b off =
     (if off + 2 \<le> bmlen then do {
        w \<leftarrow> rd8 bm off;
        wl \<leftarrow> rd8 bm (off + 1);
        if off + 2 + unat wl > bmlen then Some False
        else if unat w = win \<and> b div 8 < unat wl then do {
          c \<leftarrow> rd8 bm (off + 2 + b div 8);
          Some (c AND drop_bit (b mod 8) 0x80 \<noteq> 0) }
        else nsec_bitmap_loop bm bmlen win b (off + 2 + unat wl) }
      else Some False)"
  by pat_completeness auto
termination by (relation "measure (\<lambda>(bm, bmlen, win, b, off). bmlen - off)") auto

declare nsec_bitmap_loop.simps [simp del]

definition nsec_bitmap_has_type :: "bytes \<Rightarrow> nat \<Rightarrow> u16 \<Rightarrow> bool option" where
  "nsec_bitmap_has_type bm bmlen type = nsec_bitmap_loop bm bmlen (unat type div 256) (unat type mod 256) 0"

text \<open>
  The writer's loop: the bits of the types below 256 in a 32-byte map, and the highest type.
\<close>

definition set_bit8 :: "bytes \<Rightarrow> nat \<Rightarrow> bytes" where
  "set_bit8 bm t = bm[t div 8 := bm ! (t div 8) OR drop_bit (t mod 8) 0x80]"

fun csync_types :: "cstr list \<Rightarrow> bytes \<Rightarrow> int \<Rightarrow> bytes \<times> int" where
  "csync_types [] bm mx = (bm, mx)"
| "csync_types (tn # ts) bm mx =
     (let t = str2type tn in
      if t = 0 \<or> 256 \<le> t then csync_types ts bm mx
      else csync_types ts (set_bit8 bm (unat t)) (if uint t > mx then uint t else mx))"

definition csync_encode_rdata :: "u32 \<Rightarrow> u16 \<Rightarrow> cstr \<Rightarrow> bytes \<Rightarrow> nat \<Rightarrow> (bytes \<times> nat cres) option" where
  "csync_encode_rdata serial flags types_csv out outsz =
     (if outsz < 6 then Some (out, Err)
      else do {
        out \<leftarrow> put32 out 0 serial;
        out \<leftarrow> put16 out 4 flags;
        let (bm, mx) = csync_types (toks [44] (safe_strcpy [] types_csv 256)) (replicate 32 0) (-1);
        let blen = (if mx \<ge> 0 then nat mx div 8 + 1 else 0);
        if outsz < 6 + (if blen > 0 then 2 + blen else 0) then Some (out, Err)
        else if blen > 0 then do {
          out \<leftarrow> wr8 out 6 0;
          out \<leftarrow> wr8 out 7 (of_nat blen);
          bs \<leftarrow> rdn bm 0 blen;
          out \<leftarrow> wrn out 8 bs;
          Some (out, Ok (8 + blen)) }
        else Some (out, Ok 6) })"

text \<open>
  The NSEC rdata of \<open>dns_server.c\<close>: the next owner is the apex of the zone, the bitmap a fixed list of types.
\<close>

definition nsec_types :: "u16 list" where
  "nsec_types = [1, 2, 5, 6, 15, 16, 28, 33, 48, 47, 46, 0]"

fun nsec_types_loop :: "u16 list \<Rightarrow> bytes \<Rightarrow> nat \<Rightarrow> bytes \<times> nat" where
  "nsec_types_loop [] bm mx = (bm, mx)"
| "nsec_types_loop (t # ts) bm mx =
     (if t = 0 then (bm, mx)
      else (let b = unat (t AND 0xFF) in nsec_types_loop ts (set_bit8 bm b) (if b > mx then b else mx)))"

definition nsec_rdata :: "cstr \<Rightarrow> bytes \<Rightarrow> nat \<Rightarrow> (bytes \<times> nat cres) option" where
  "nsec_rdata zone_name rd rdlen = do {
     (rd, r) \<leftarrow> name_to_wire zone_name rd 0 rdlen;
     case r of
       Err \<Rightarrow> Some (rd, Err)
     | Ok pos \<Rightarrow>
         let (bm, mx) = nsec_types_loop nsec_types (replicate 32 0) 0;
             blen = mx div 8 + 1
         in if pos + 2 + blen > rdlen then Some (rd, Err)
            else do {
              rd \<leftarrow> wr8 rd pos 0;
              rd \<leftarrow> wr8 rd (pos + 1) (of_nat blen);
              bs \<leftarrow> rdn bm 0 blen;
              rd \<leftarrow> wrn rd (pos + 2) bs;
              Some (rd, Ok (pos + 2 + blen)) } }"

section \<open>Reading the mnemonics back\<close>

lemma str2type_rows_none:
  "list_all (\<lambda>(t, n). \<not> strcaseeq s n) rows \<Longrightarrow> str2type_rows rows s = None"
  by (induction rows) auto

lemma str2type_rows_some:
  assumes "distinct (map (\<lambda>(t, n). map (\<lambda>c. uint (lower8 c)) n) rows)" "(t, s) \<in> set rows"
  shows "str2type_rows rows s = Some t"
  using assms
proof (induction rows)
  case (Cons r rows)
  obtain t' n where r: "r = (t', n)" by force
  have "\<not> strcaseeq s n" if "(t, s) \<in> set rows"
  proof
    assume "strcaseeq s n"
    then have "map uint (map lower8 s) = map uint (map lower8 n)" by (simp add: strcaseeq_def)
    then have "map (\<lambda>c. uint (lower8 c)) n \<in> set (map (\<lambda>(t, n). map (\<lambda>c. uint (lower8 c)) n) rows)"
      using that by (force simp: comp_def)
    then show False using Cons.prems(1) by (simp add: r)
  qed
  then show ?case using Cons by (auto simp: r)
qed simp

lemma rows_distinct: "distinct (map (\<lambda>(t, n). map (\<lambda>c. uint (lower8 c)) n) type_table)"
  by code_simp

lemma no_row_is_generic: "list_all (\<lambda>(t, n). \<not> strcaseeq (str ''TYPE'' @ d) n) type_table"
proof -
  have "list_all (\<lambda>(t, n). map lower8 (take 4 n) \<noteq> map lower8 (str ''TYPE'')) type_table"
    by code_simp
  moreover have "map lower8 (take 4 n) = map lower8 (str ''TYPE'')"
    if "strcaseeq (str ''TYPE'' @ d) n" for n
  proof -
    have "take 4 (map lower8 (str ''TYPE'') @ map lower8 d) = take 4 (map lower8 n)"
      using that by (simp add: strcaseeq_def)
    then show ?thesis by (simp add: str_def take_map)
  qed
  ultimately show ?thesis by (auto simp: list_all_iff)
qed

lemma dec_shape:
  assumes "n < 65536"
  shows "dec n \<noteq> [] \<and> isdigit (hd (dec n)) \<and> length (dec n) \<le> 5"
proof -
  have "length (dec n) \<le> 5" using assms by (intro length_dec) simp_all
  moreover have "isdigit (hd (dec n))" using dec_digits [of n] dec_nonempty [of n] by (cases "dec n") simp_all
  ultimately show ?thesis by simp
qed

text \<open>
  \<open>str2type\<close> inverts \<open>type2str\<close> on all 65536 record types: those with a mnemonic, and those written in
  the generic notation \<open>TYPE<n>\<close> of RFC 3597, which fits the 12-byte static buffer.
\<close>

theorem type_names_roundtrip: "str2type (type2str t) = t"
proof (cases "map_of type_table t")
  case (Some s)
  then have "str2type_rows type_table s = Some t"
    by (intro str2type_rows_some rows_distinct map_of_SomeD)
  then show ?thesis by (simp add: type2str_def str2type_def Some)
next
  case None
  define s where "s = str ''TYPE'' @ dec (unat t)"
  have d: "dec (unat t) \<noteq> []" "isdigit (hd (dec (unat t)))" "length (dec (unat t)) \<le> 5"
    using dec_shape [of "unat t"] by simp_all
  have "type2str t = s" using None d by (simp add: type2str_def s_def safe_strcpy_id str_def)
  moreover have "str2type_rows type_table s = None"
    unfolding s_def by (intro str2type_rows_none no_row_is_generic)
  moreover have "take 4 s = str ''TYPE''" "drop 4 s = dec (unat t)" "4 < length s" "s ! 4 = hd (dec (unat t))"
    using d by (simp_all add: s_def str_def nth_append hd_conv_nth)
  ultimately show ?thesis using d by (simp add: str2type_def atoi_dec_int less_trans [OF unat_u16])
qed

section \<open>Serial number arithmetic\<close>

lemma msb_u32: fixes c :: u32 shows "(c AND 0x80000000 = 0) = (uint c < 2 ^ 31)"
proof -
  have e: "0x80000000 = (push_bit 31 1 :: u32)" by simp
  have "(c AND push_bit 31 1 = 0) = (\<not> bit c 31)"
    using bit_iff_and_push_bit_not_eq_0 [of c 31] by blast
  also have "\<dots> = (\<not> bit (uint c) 31)" by (simp add: bit_uint_iff)
  also have "\<dots> = (uint c < 2 ^ 31)"
  proof -
    have "0 \<le> uint c" "uint c < 2 ^ 32" using uint_lt2p [of c] by simp_all
    then have "uint c div 2 ^ 31 = (if uint c < 2 ^ 31 then 0 else 1)" by auto
    then show ?thesis by (auto simp: bit_iff_odd)
  qed
  finally show ?thesis unfolding e .
qed
lemma serial_lt_uint: "serial_lt a b \<longleftrightarrow> 0 < uint (b - a) \<and> uint (b - a) < 2 ^ 31"
proof -
  have "(a \<noteq> b) = (0 < uint (b - a))"
    using uint_0_iff [of "b - a"] uint_ge_0 [of "b - a"] by (auto simp: order_less_le)
  then show ?thesis by (simp add: serial_lt_def msb_u32)
qed


lemma uint_u32: "0 \<le> uint (c :: u32)" "uint (c :: u32) < 2 ^ 32"
  using uint_lt2p [of c] by simp_all

lemma serial_lt_ints:
  "serial_lt a b \<longleftrightarrow> (uint a < uint b \<and> uint b - uint a < 2 ^ 31) \<or> (uint b < uint a \<and> uint a - uint b > 2 ^ 31)"
proof (cases "uint a \<le> uint b")
  case True
  then show ?thesis using uint_u32 [of a] uint_u32 [of b] by (auto simp: serial_lt_uint uint_sub_if')
next
  case False
  then have e: "uint (b - a) = uint b - uint a + 2 ^ 32" by (simp add: uint_sub_if')
  have "(0 < y - x + 2 ^ 32 \<and> y - x + 2 ^ 32 < 2 ^ 31) = (x - y > 2 ^ 31)"
    if "0 \<le> y" "x < 2 ^ 32" for x y :: int using that by auto
  from this [OF uint_u32(1) uint_u32(2)] show ?thesis using False unfolding serial_lt_uint e by simp
qed

text \<open>
  The comparisons of serial numbers are those of RFC 1982 on 32 bits, wrap-around included: \<open>serial_lt a b\<close> when
  \<open>b\<close> is ahead of \<open>a\<close> by less than half the ring. Two serials that are not comparable either way are equal or
  exactly half the ring apart, the pair the RFC leaves undefined.
\<close>

theorem serial_rfc1982:
  "(serial_lt a b \<longleftrightarrow>
      uint a < uint b \<and> uint b - uint a < 2 ^ 31 \<or> uint b < uint a \<and> uint a - uint b > 2 ^ 31) \<and>
   (serial_ge a b \<and> serial_ge b a \<longleftrightarrow> a = b \<or> \<bar>uint a - uint b\<bar> = 2 ^ 31)"
proof -
  have "a = b \<longleftrightarrow> uint a = uint b" by (rule word_uint_eq_iff)
  then show ?thesis
    using uint_u32 [of a] uint_u32 [of b] unfolding serial_ge_def serial_lt_ints by presburger
qed

section \<open>Writing and reading bitmaps\<close>

definition bit_at :: "bytes \<Rightarrow> nat \<Rightarrow> bool" where
  "bit_at bm t \<longleftrightarrow> bm ! (t div 8) AND drop_bit (t mod 8) 0x80 \<noteq> 0"

lemma byte_bits:
  assumes "i < 8" "j < 8"
  shows "((c :: u8) OR drop_bit i 0x80) AND drop_bit j 0x80 \<noteq> 0 \<longleftrightarrow> i = j \<or> c AND drop_bit j 0x80 \<noteq> 0"
proof -
  have "drop_bit k (0x80 :: u8) = push_bit (7 - k) 1" if "k < 8" for k
  proof -
    have "k \<in> {0, 1, 2, 3, 4, 5, 6, 7}" using that by auto
    then show ?thesis by auto
  qed
  then have "drop_bit i (0x80 :: u8) = push_bit (7 - i) 1" "drop_bit j (0x80 :: u8) = push_bit (7 - j) 1"
    using assms by simp_all
  then show ?thesis
    using assms by (simp only: bit_iff_and_push_bit_not_eq_0 [symmetric]) (auto simp: bit_simps)
qed

lemma bit_at_set_bit8:
  assumes "length bm = 32" "t < 256" "u < 256"
  shows "bit_at (set_bit8 bm t) u \<longleftrightarrow> u = t \<or> bit_at bm u"
proof (cases "u div 8 = t div 8")
  case True
  then have "u = t \<longleftrightarrow> t mod 8 = u mod 8" by (metis div_mult_mod_eq)
  then show ?thesis using True assms by (simp add: bit_at_def set_bit8_def byte_bits)
next
  case False
  then show ?thesis by (auto simp: bit_at_def set_bit8_def)
qed

lemma length_set_bit8 [simp]: "length (set_bit8 bm t) = length bm"
  by (simp add: set_bit8_def)

text \<open>What both loops establish: the bits of the map are a set of types, whose maximum is known.\<close>

definition is_bitmap :: "bytes \<Rightarrow> nat set \<Rightarrow> bool" where
  "is_bitmap bm T \<longleftrightarrow> length bm = 32 \<and> (\<forall>u < 256. bit_at bm u \<longleftrightarrow> u \<in> T)"

lemma is_bitmap_empty: "is_bitmap (replicate 32 0) {}"
  by (simp add: is_bitmap_def bit_at_def)

lemma is_bitmap_set: "is_bitmap bm T \<Longrightarrow> t < 256 \<Longrightarrow> is_bitmap (set_bit8 bm t) (insert t T)"
  by (simp add: is_bitmap_def bit_at_set_bit8)

definition low_types :: "u16 list \<Rightarrow> nat set" where
  "low_types ts = {unat t | t. t \<in> set ts \<and> t \<noteq> 0 \<and> t < 256}"

lemma low_types_Cons:
  "low_types (t # ts) = (if t = 0 \<or> 256 \<le> t then low_types ts else insert (unat t) (low_types ts))"
  by (auto simp: low_types_def)

definition max_type :: "nat set \<Rightarrow> int" where
  "max_type T = (if T = {} then -1 else int (Max T))"

lemma max_type_insert:
  "finite T \<Longrightarrow> max_type (insert t T) = (if int t > max_type T then int t else max_type T)"
  by (cases "T = {}") (simp_all add: max_type_def max_def del: Max_less_iff Max_le_iff)

lemma csync_types_bitmap:
  assumes "is_bitmap bm T" "finite T"
  shows "\<exists>bm'. csync_types ts bm (max_type T) = (bm', max_type (low_types (map str2type ts) \<union> T))
    \<and> is_bitmap bm' (low_types (map str2type ts) \<union> T)"
  using assms
proof (induction ts arbitrary: bm T)
  case Nil
  then show ?case by (auto simp: low_types_def)
next
  case (Cons tn ts)
  let ?t = "str2type tn"
  show ?case
  proof (cases "?t = 0 \<or> 256 \<le> ?t")
    case True
    then have "csync_types (tn # ts) bm (max_type T) = csync_types ts bm (max_type T)"
      "low_types (map str2type (tn # ts)) = low_types (map str2type ts)"
      by (simp_all add: low_types_Cons Let_def)
    then show ?thesis using Cons.IH [OF Cons.prems] by presburger
  next
    case False
    then have t: "unat ?t < 256" by (simp add: word_less_nat_alt not_le)
    have "max_type (insert (unat ?t) T) = (if uint ?t > max_type T then uint ?t else max_type T)"
      using Cons.prems(2) by (simp add: max_type_insert)
    then have "csync_types (tn # ts) bm (max_type T)
        = csync_types ts (set_bit8 bm (unat ?t)) (max_type (insert (unat ?t) T))"
      using False by (simp add: Let_def)
    moreover have "low_types (map str2type (tn # ts)) \<union> T = low_types (map str2type ts) \<union> insert (unat ?t) T"
      using False by (simp add: low_types_Cons)
    ultimately show ?thesis
      using Cons.IH [OF is_bitmap_set [OF Cons.prems(1) t]] Cons.prems(2) by simp
  qed
qed

text \<open>The reader on one window of number 0, of the length the writers choose.\<close>

lemma nsec_bitmap_window:
  assumes "is_bitmap bm T" "T \<noteq> {}" "T \<subseteq> {..<256}" "blen = Max T div 8 + 1"
  shows "nsec_bitmap_has_type (0 # of_nat blen # take blen bm) (2 + blen) t = Some (unat t \<in> T)"
proof -
  have f: "finite T" using assms(3) by (rule finite_subset) simp
  have M: "Max T < 256" using Max_in [OF f assms(2)] assms(3) by auto
  then have b: "blen \<le> 32" using assms(4) by simp
  then have u: "unat (of_nat blen :: u8) = blen" by (simp add: unat_of_nat_u8)
  have l: "length bm = 32" using assms(1) by (simp add: is_bitmap_def)
  let ?m = "0 # of_nat blen # take blen bm" and ?w = "unat t div 256" and ?b = "unat t mod 256"
  have stop: "nsec_bitmap_loop ?m (2 + blen) ?w ?b (2 + blen) = Some False"
    by (simp add: nsec_bitmap_loop.simps)
  show ?thesis
  proof (cases "?w = 0 \<and> ?b div 8 < blen")
    case True
    then have "unat t = ?b" "unat t < 256" by (simp_all add: div_eq_0_iff)
    then have "bit_at bm ?b \<longleftrightarrow> unat t \<in> T" using assms(1) by (simp add: is_bitmap_def)
    moreover have "nsec_bitmap_has_type ?m (2 + blen) t = Some (bit_at bm ?b)"
      using True l b u
      by (simp add: nsec_bitmap_has_type_def nsec_bitmap_loop.simps rd8_def bit_at_def)
    ultimately show ?thesis by simp
  next
    case False
    have "unat t \<notin> T"
    proof
      assume T: "unat t \<in> T"
      then have "unat t \<le> Max T" using f by simp
      then have "unat t < 256" "unat t div 8 < blen" using M assms(4) by (auto intro: div_le_mono le_less_trans simp: less_Suc_eq_le)
      then show False using False by simp
    qed
    moreover have "nsec_bitmap_has_type ?m (2 + blen) t = Some False"
      using False b l u stop
      by (auto simp: nsec_bitmap_has_type_def nsec_bitmap_loop.simps [of _ _ _ _ 0] rd8_def)
    ultimately show ?thesis by simp
  qed
qed

definition window :: "bytes \<Rightarrow> nat set \<Rightarrow> bytes" where
  "window bm T = (if T = {} then [] else 0 # of_nat (Max T div 8 + 1) # take (Max T div 8 + 1) bm)"

lemma nsec_bitmap_reads_window:
  assumes "is_bitmap bm T" "T \<subseteq> {..<256}"
  shows "nsec_bitmap_has_type (window bm T) (length (window bm T)) t = Some (unat t \<in> T)"
proof (cases "T = {}")
  case True
  then show ?thesis by (simp add: window_def nsec_bitmap_has_type_def nsec_bitmap_loop.simps)
next
  case False
  have f: "finite T" using assms(2) by (rule finite_subset) simp
  have "Max T < 256" using Max_in [OF f False] assms(2) by auto
  then have "Max T div 8 + 1 \<le> length bm" using assms(1) by (simp add: is_bitmap_def)
  then have "window bm T = 0 # of_nat (Max T div 8 + 1) # take (Max T div 8 + 1) bm"
    "length (window bm T) = 2 + (Max T div 8 + 1)"
    using False by (simp_all add: window_def)
  then show ?thesis using nsec_bitmap_window [OF assms(1) False assms(2) refl] by simp
qed

lemma length_window: "is_bitmap bm T \<Longrightarrow> T \<subseteq> {..<256} \<Longrightarrow> length (window bm T) = (if T = {} then 0 else 2 + (Max T div 8 + 1)) \<and> length (window bm T) \<le> 34"
proof -
  assume a: "is_bitmap bm T" "T \<subseteq> {..<256}"
  have "Max T < 256" if "T \<noteq> {}" using Max_in [OF finite_subset [OF a(2)] that] a(2) by auto
  then show ?thesis using a(1) by (cases "T = {}") (simp_all add: window_def is_bitmap_def)
qed

lemma csync_encode_eq:
  assumes "40 \<le> outsz" "outsz \<le> length out"
    "csync_types (toks [44] (safe_strcpy [] csv 256)) (replicate 32 0) (-1) = (bm, max_type T)" "is_bitmap bm T" "T \<subseteq> {..<256}"
  shows "csync_encode_rdata serial flags csv out outsz
    = Some (patch out 0 (be32 serial @ be16 flags @ window bm T), Ok (6 + length (window bm T)))"
proof -
  let ?h = "be32 serial @ be16 flags"
  have h: "patch (patch out 0 (be32 serial)) 4 (be16 flags) = patch out 0 ?h"
    using patch_patch [of 0 "be32 serial" "be16 flags" out] assms(1,2) by simp
  show ?thesis
  proof (cases "T = {}")
    case True
    then show ?thesis using assms h
      by (simp add: csync_encode_rdata_def put32_ok put16_ok max_type_def window_def)
  next
    case False
    let ?n = "Max T div 8 + 1"
    have n: "?n \<le> 32" "length bm = 32" using length_window [OF assms(4,5)] False assms(4) by (simp_all add: is_bitmap_def)
    have "patch (patch (patch (patch out 0 ?h) 6 [0]) 7 [of_nat ?n]) 8 (take ?n bm) = patch out 0 (?h @ window bm T)"
      using patch_patch [of 0 ?h "[0]" out] patch_patch [of 0 "?h @ [0]" "[of_nat ?n]" out]
        patch_patch [of 0 "?h @ [0, of_nat ?n]" "take ?n bm" out] n assms(1,2) False
      by (simp add: window_def del: of_nat_add of_nat_Suc)
    then show ?thesis using assms(1-3) h n False length_window [OF assms(4,5)]
      by (simp add: csync_encode_rdata_def put32_ok put16_ok max_type_def wr8_ok wrn_ok rdn_ok length_patch del: of_nat_add of_nat_Suc)
  qed
qed

text \<open>
  \<open>csync_encode_rdata\<close> never writes outside its array, and, when the array has room for the largest rdata (40 bytes), writes
  the serial, the flags and a bitmap in which the resolver's \<open>nsec_bitmap_has_type\<close> finds exactly the types of
  the list: a type is found if and only if some item of the list names it and it is below 256. The list is cut
  at 255 characters, the size of the source's buffer.
\<close>

theorem csync_bitmap_reads_back:
  assumes "40 \<le> outsz" "outsz \<le> length out"
  shows "\<exists>out' n. csync_encode_rdata serial flags csv out outsz = Some (out', Ok n) \<and> 6 \<le> n \<and> n \<le> outsz
    \<and> same_outside 0 n out out' \<and> get32 out' 0 = Some serial \<and> get16 out' 4 = Some flags
    \<and> (\<forall>t. nsec_bitmap_has_type (take (n - 6) (drop 6 out')) (n - 6) t
          = Some (t \<noteq> 0 \<and> t < 256 \<and> (\<exists>tn \<in> set (toks [44] (take 255 csv)). str2type tn = t)))"
proof -
  define T where "T = low_types (map str2type (toks [44] (take 255 csv)))"
  have f: "finite T" by (simp add: T_def low_types_def)
  have sub: "T \<subseteq> {..<256}" by (auto simp: T_def low_types_def word_less_nat_alt)
  have mem: "unat t \<in> T \<longleftrightarrow> t \<noteq> 0 \<and> t < 256 \<and> (\<exists>tn \<in> set (toks [44] (take 255 csv)). str2type tn = t)" for t
    by (auto simp: T_def low_types_def simp flip: word_unat_eq_iff)
  obtain bm where bm: "csync_types (toks [44] (safe_strcpy [] csv 256)) (replicate 32 0) (-1) = (bm, max_type T)" "is_bitmap bm T"
    using csync_types_bitmap [OF is_bitmap_empty, of "toks [44] (take 255 csv)"]
    by (auto simp: T_def safe_strcpy_def max_type_def)
  let ?w = "window bm T" and ?h = "be32 serial @ be16 flags"
  let ?o = "patch out 0 (be32 serial @ be16 flags @ ?w)"
  have l: "length ?w \<le> 34" using length_window [OF bm(2) sub] by simp
  have "get32 ?o 0 = Some serial" "get16 ?o 4 = Some flags"
    using l assms by (auto intro!: get32_at get16_at simp: patch_def)
  moreover have "take (length ?w) (drop 6 ?o) = ?w" by (simp add: patch_def)
  moreover have "same_outside 0 (6 + length ?w) out ?o"
    using l assms by (intro same_outside_patch) simp_all
  ultimately show ?thesis
    using csync_encode_eq [OF assms bm sub] nsec_bitmap_reads_window [OF bm(2) sub] l assms mem by simp
qed

theorem csync_bitmap_reads_back_witness:
  "\<exists>out' n. csync_encode_rdata 7 3 (str ''A,NS,CAA,x'') (replicate 40 9) 40 = Some (out', Ok n)
     \<and> nsec_bitmap_has_type (take (n - 6) (drop 6 out')) (n - 6) 2 = Some True
     \<and> nsec_bitmap_has_type (take (n - 6) (drop 6 out')) (n - 6) 257 = Some False"
proof -
  have "toks [44] (take 255 (str ''A,NS,CAA,x'')) = [str ''A'', str ''NS'', str ''CAA'', str ''x'']" by code_simp
  moreover have "str2type_rows type_table (str ''NS'') = Some 2"
    by (intro str2type_rows_some rows_distinct) (simp add: type_table_def)
  then have "str2type (str ''NS'') = 2" by (simp add: str2type_def)
  ultimately show ?thesis
    using csync_bitmap_reads_back [of 40 "replicate 40 9" 7 3 "str ''A,NS,CAA,x''"] by force
qed

lemma nsec_types_bitmap:
  "\<exists>bm. nsec_types_loop nsec_types (replicate 32 0) 0 = (bm, 48)
    \<and> is_bitmap bm {46, 47, 48, 33, 28, 16, 15, 6, 5, 2, 1}"
proof -
  let ?bm = "foldr (\<lambda>t bm. set_bit8 bm t) [46, 47, 48, 33, 28, 16, 15, 6, 5, 2, 1] (replicate 32 0)"
  have "nsec_types_loop nsec_types (replicate 32 0) 0 = (?bm, 48)"
    by (simp add: nsec_types_def Let_def)
  moreover have "is_bitmap ?bm {46, 47, 48, 33, 28, 16, 15, 6, 5, 2, 1}"
    by (simp add: is_bitmap_set is_bitmap_empty)
  ultimately show ?thesis by blast
qed

lemma name_from_wire_wire:
  assumes "length name \<le> 253" "\<forall>l \<in> set (labels_of name). length l \<le> 63"
    "take n b = wire (labels_of name) @ r" "n \<le> length b"
  shows "name_from_wire b n 0 256 = Some (Ok (length (wire (labels_of name)), strlower (join 46 (labels_of name))))"
proof -
  have cp: "safe_strcpy [] name 256 = name" using assms(1) by (intro safe_strcpy_id) simp
  have "decodes (wire (labels_of name) @ r) 0 (length (labels_of name)) (labels_of name) (length (wire (labels_of name)))"
    using decodes_append [OF decodes_wire [of "labels_of name" "[]"]] labels_of_wf assms(2) by auto
  moreover have "length (labels_of name) < 128" "length (join 46 (labels_of name)) + 1 < 256"
    using length_labels_of [of name] length_join_labels [of name] cp assms(1) by simp_all
  ultimately show ?thesis using assms(3,4) by (intro name_from_wire_decodes) auto
qed

text \<open>
  The NSEC record of the server is read back by the resolver. When the labels of the zone name and the array have the
  sizes DNS allows, \<open>nsec_rdata\<close> writes the zone apex as next owner, which \<open>name_from_wire\<close> returns in lower case,
  followed by a bitmap in which \<open>nsec_bitmap_has_type\<close> finds exactly the eleven types of the server's list.
\<close>

theorem nsec_rdata_reads_back:
  assumes "rdlen \<le> length rd" "length zone \<le> 253" "\<forall>l \<in> set (labels_of zone). length l \<le> 63"
    "length (wire (labels_of zone)) + 9 \<le> rdlen"
  shows "\<exists>rd' n e. nsec_rdata zone rd rdlen = Some (rd', Ok n) \<and> n \<le> rdlen \<and> same_outside 0 n rd rd'
    \<and> name_from_wire rd' n 0 256 = Some (Ok (e, strlower (join 46 (labels_of zone)))) \<and> e \<le> n
    \<and> (\<forall>t. nsec_bitmap_has_type (take (n - e) (drop e rd')) (n - e) t
          = Some (t \<in> {1, 2, 5, 6, 15, 16, 28, 33, 46, 47, 48}))"
proof -
  let ?T = "{46, 47, 48, 33, 28, 16, 15, 6, 5, 2, 1} :: nat set" and ?w = "wire (labels_of zone)"
  obtain bm where bm: "nsec_types_loop nsec_types (replicate 32 0) 0 = (bm, 48)" "is_bitmap bm ?T"
    using nsec_types_bitmap by blast
  have mx: "Max ?T = 48" by simp
  have l: "length (window bm ?T) = 9" using bm(2) by (simp add: window_def is_bitmap_def)
  let ?o = "patch rd 0 (?w @ window bm ?T)"
  have n: "name_to_wire zone rd 0 rdlen = Some (patch rd 0 ?w, Ok (length ?w))"
    using assms by (intro name_to_wire_ok) simp_all
  have w: "window bm ?T = 0 # 7 # take 7 bm" by (simp add: window_def)
  have "nsec_rdata zone rd rdlen = Some (?o, Ok (length ?w + 9))"
    using patch_patch [of 0 ?w "[0]" rd] patch_patch [of 0 "?w @ [0]" "[7]" rd]
      patch_patch [of 0 "?w @ [0, 7]" "take 7 bm" rd] n bm l w assms(1,4)
    by (simp add: nsec_rdata_def wr8_ok wrn_ok rdn_ok is_bitmap_def)
  moreover have "take (length ?w + 9) ?o = ?w @ window bm ?T" using l by (simp add: patch_def)
  moreover have "same_outside 0 (length ?w + 9) rd ?o"
    using l assms by (intro same_outside_patch) simp_all
  moreover have "take 9 (drop (length ?w) ?o) = window bm ?T" using l by (simp add: patch_def)
  moreover have "unat t \<in> ?T \<longleftrightarrow> t \<in> {1, 2, 5, 6, 15, 16, 28, 33, 46, 47, 48}" for t :: u16
    by (auto simp: word_unat_eq_iff)
  ultimately show ?thesis
    using nsec_bitmap_reads_window [OF bm(2)] l assms name_from_wire_wire [OF assms(2,3), of "length ?w + 9" ?o "window bm ?T"]
    by (auto simp: length_patch)
qed

theorem nsec_rdata_reads_back_witness:
  "\<exists>rd' n e. nsec_rdata (str ''A.b'') (replicate 20 1) 20 = Some (rd', Ok n)
    \<and> name_from_wire rd' n 0 256 = Some (Ok (e, str ''a.b''))
    \<and> nsec_bitmap_has_type (take (n - e) (drop e rd')) (n - e) 47 = Some True"
proof -
  have l: "labels_of (str ''A.b'') = [str ''A'', str ''b'']"
    by (simp add: labels_of_def safe_strcpy_def str_def toks.simps)
  have j: "strlower (join 46 [str ''A'', str ''b'']) = str ''a.b''" by (simp add: str_def lower8_def)
  have "wire [str ''A'', str ''b''] = [1, 65, 1, 98, 0]" by (simp add: str_def)
  then show ?thesis
    using nsec_rdata_reads_back [of 20 "replicate 20 1" "str ''A.b''"] l j by (fastforce simp: str_def)
qed

end
