(* ===== verification/Canon.thy ===== *)
theory Canon
  imports Compress Types "HOL-Library.List_Lexorder"
begin

text \<open>
  Canonical forms of RFC 4034 (\<open>dns_wire.c\<close>): the order of names (\<open>canon_name_cmp\<close>), of records in a set
  (\<open>canon_rr_cmp\<close>), and the canonical rdata (\<open>canon_rdata\<close>), which the signer, the validator and the zone digest
  hash. The comparison functions are used as sorting keys, so what their users rely on is a total preorder; the
  locale \<open>cmp_order\<close> states it once.
\<close>

section \<open>Definitions\<close>

text \<open>\<open>memcmp\<close> on two arrays of the same length; its users look at the sign only.\<close>

fun memcmp :: "bytes \<Rightarrow> bytes \<Rightarrow> int" where
  "memcmp (x # xs) (y # ys) = (if x < y then -1 else if y < x then 1 else memcmp xs ys)"
| "memcmp _ _ = 0"

definition canon_labels :: "cstr \<Rightarrow> cstr list" where
  "canon_labels a = take 128 (toks [46] (strlower (safe_strcpy [] a 256)))"

text \<open>The loop from the rightmost label; \<open>d\<close> is \<open>ca - cb\<close>, returned when one list ends.\<close>

fun canon_cmp_loop :: "cstr list \<Rightarrow> cstr list \<Rightarrow> int \<Rightarrow> int" where
  "canon_cmp_loop (sa # la) (sb # lb) d =
     (let n = min (length sa) (length sb); c = memcmp (take n sa) (take n sb)
      in if c \<noteq> 0 then c
         else if length sa \<noteq> length sb then (if length sa < length sb then -1 else 1)
         else canon_cmp_loop la lb d)"
| "canon_cmp_loop _ _ d = d"

definition canon_name_cmp :: "cstr \<Rightarrow> cstr \<Rightarrow> int" where
  "canon_name_cmp a b =
     (let la = canon_labels a; lb = canon_labels b
      in canon_cmp_loop (rev la) (rev lb) (int (length la) - int (length lb)))"

record canon_rr =
  cr_buf :: bytes
  cr_len :: nat

definition canon_rr_cmp :: "canon_rr \<Rightarrow> canon_rr \<Rightarrow> int option" where
  "canon_rr_cmp a b = do {
     let n = (if cr_len a < cr_len b then cr_len a else cr_len b);
     x \<leftarrow> rdn (cr_buf a) 0 n;
     y \<leftarrow> rdn (cr_buf b) 0 n;
     Some (if memcmp x y \<noteq> 0 then memcmp x y else int (cr_len a) - int (cr_len b)) }"

text \<open>A fixed prefix of \<open>k\<close> bytes copied, then one name: MX with 2, SRV with 6, and NS with 0.\<close>

definition canon_prefix_name :: "nat \<Rightarrow> bytes \<Rightarrow> nat \<Rightarrow> nat \<Rightarrow> bytes \<Rightarrow> nat \<Rightarrow> (bytes \<times> nat cres) option" where
  "canon_prefix_name k pkt plen rdoff out outsz = do {
     pre \<leftarrow> rdn pkt rdoff k;
     out \<leftarrow> wrn out 0 pre;
     r \<leftarrow> name_from_wire pkt plen (rdoff + k) 256;
     case r of
       Err \<Rightarrow> Some (out, Err)
     | Ok (e, nm) \<Rightarrow> do {
         (out, n) \<leftarrow> name_to_wire nm out k (outsz - k);
         case n of Err \<Rightarrow> Some (out, Err) | Ok n \<Rightarrow> Some (out, Ok (k + n)) } }"

definition canon_soa :: "bytes \<Rightarrow> nat \<Rightarrow> nat \<Rightarrow> bytes \<Rightarrow> nat \<Rightarrow> (bytes \<times> nat cres) option" where
  "canon_soa pkt plen rdoff out outsz = do {
     r \<leftarrow> name_from_wire pkt plen rdoff 256;
     case r of
       Err \<Rightarrow> Some (out, Err)
     | Ok (a, nm) \<Rightarrow> do {
         (out, p) \<leftarrow> name_to_wire nm out 0 outsz;
         case p of
           Err \<Rightarrow> Some (out, Err)
         | Ok pos \<Rightarrow> do {
             r \<leftarrow> name_from_wire pkt plen a 256;
             case r of
               Err \<Rightarrow> Some (out, Err)
             | Ok (b, nm) \<Rightarrow> do {
                 (out, n) \<leftarrow> name_to_wire nm out pos (outsz - pos);
                 case n of
                   Err \<Rightarrow> Some (out, Err)
                 | Ok n \<Rightarrow>
                     if b + 20 > plen \<or> pos + n + 20 > outsz then Some (out, Err)
                     else do {
                       t \<leftarrow> rdn pkt b 20;
                       out \<leftarrow> wrn out (pos + n) t;
                       Some (out, Ok (pos + n + 20)) } } } } }"

definition canon_rdata ::
    "bytes \<Rightarrow> nat \<Rightarrow> nat \<Rightarrow> nat \<Rightarrow> u16 \<Rightarrow> bytes \<Rightarrow> nat \<Rightarrow> (bytes \<times> nat cres) option" where
  "canon_rdata pkt plen rdoff rdlen rtype out outsz =
     (if rdoff + rdlen > plen then Some (out, Err)
      else if rtype \<in> {2, 5, 12, 39} then canon_prefix_name 0 pkt plen rdoff out outsz
      else if rtype = 15 then
        (if rdlen < 3 \<or> outsz < 2 then Some (out, Err) else canon_prefix_name 2 pkt plen rdoff out outsz)
      else if rtype = 33 then
        (if rdlen < 7 \<or> outsz < 6 then Some (out, Err) else canon_prefix_name 6 pkt plen rdoff out outsz)
      else if rtype = 6 then canon_soa pkt plen rdoff out outsz
      else if rdlen > outsz then Some (out, Err)
      else do {
        d \<leftarrow> rdn pkt rdoff rdlen;
        out \<leftarrow> wrn out 0 d;
        Some (out, Ok rdlen) })"

section \<open>Comparison functions as orders\<close>

text \<open>
  What a sort relies on: the comparison has the sign of an order on some key. Then it is reflexive,
  antisymmetric up to the key, transitive and total.
\<close>

locale cmp_order =
  fixes cmp :: "'a \<Rightarrow> 'a \<Rightarrow> int" and key :: "'a \<Rightarrow> 'k :: linorder" and dom :: "'a \<Rightarrow> bool"
  assumes neg: "dom a \<Longrightarrow> dom b \<Longrightarrow> cmp a b < 0 \<longleftrightarrow> key a < key b"
    and zero: "dom a \<Longrightarrow> dom b \<Longrightarrow> cmp a b = 0 \<longleftrightarrow> key a = key b"
begin

lemma pos: "dom a \<Longrightarrow> dom b \<Longrightarrow> cmp a b > 0 \<longleftrightarrow> key b < key a"
  using neg [of a b] zero [of a b] by (cases "key a" "key b" rule: linorder_cases) auto

lemma refl: "dom a \<Longrightarrow> cmp a a = 0"
  by (simp add: zero)

lemma swap: "dom a \<Longrightarrow> dom b \<Longrightarrow> sgn (cmp a b) = - sgn (cmp b a)"
  using neg [of a b] zero [of a b] pos [of a b] neg [of b a] zero [of b a] pos [of b a]
  by (cases "key a" "key b" rule: linorder_cases) (auto simp: sgn_if)

lemma trans: "dom a \<Longrightarrow> dom b \<Longrightarrow> dom c \<Longrightarrow> cmp a b \<le> 0 \<Longrightarrow> cmp b c \<le> 0 \<Longrightarrow> cmp a c \<le> 0"
  using pos [of a b] pos [of b c] pos [of a c] by (meson linorder_not_le order_trans)

lemma sorted_key:
  assumes "\<forall>x \<in> set xs. dom x" "sorted_wrt (\<lambda>a b. cmp a b \<le> 0) xs"
  shows "sorted (map key xs)"
proof -
  have "sorted_wrt (\<lambda>a b. key a \<le> key b) xs"
    using assms(2) by (rule sorted_wrt_mono_rel [rotated]) (use assms(1) pos in \<open>meson linorder_not_le\<close>)
  then show ?thesis by (simp add: sorted_wrt_map)
qed

end

section \<open>Names in canonical order\<close>

lemma memcmp_sign:
  "length xs = length ys \<Longrightarrow> (memcmp xs ys < 0 \<longleftrightarrow> xs < ys) \<and> (memcmp xs ys = 0 \<longleftrightarrow> xs = ys)"
  by (induction xs ys rule: memcmp.induct) auto

text \<open>One label: octets left-justified, the shorter one first when it is a prefix.\<close>

lemma less_take_min:
  fixes xs ys :: "'a :: linorder list"
  shows "xs < ys \<longleftrightarrow> (let n = min (length xs) (length ys) in
     take n xs < take n ys \<or> take n xs = take n ys \<and> length xs < length ys)"
proof (induction xs arbitrary: ys)
  case Nil
  then show ?case by (cases ys) auto
next
  case (Cons x xs)
  then show ?case by (cases ys) (auto simp: Let_def)
qed

lemma label_sign:
  fixes sa sb :: cstr
  defines "n \<equiv> min (length sa) (length sb)"
  defines "c \<equiv> memcmp (take n sa) (take n sb)"
  shows "c < 0 \<or> c = 0 \<and> length sa < length sb \<longleftrightarrow> sa < sb" "c = 0 \<and> length sa = length sb \<longleftrightarrow> sa = sb"
proof -
  have l: "length (take n sa) = length (take n sb)" by (simp add: n_def)
  show "c < 0 \<or> c = 0 \<and> length sa < length sb \<longleftrightarrow> sa < sb"
    using memcmp_sign [OF l] less_take_min [of sa sb] by (simp add: c_def n_def Let_def)
  show "c = 0 \<and> length sa = length sb \<longleftrightarrow> sa = sb"
    using memcmp_sign [OF l] by (auto simp: c_def n_def)
qed

lemma canon_cmp_loop_Cons:
  "sa = sb \<Longrightarrow> canon_cmp_loop (sa # la) (sb # lb) d = canon_cmp_loop la lb d"
  "sa < sb \<Longrightarrow> canon_cmp_loop (sa # la) (sb # lb) d < 0"
  "sb < sa \<Longrightarrow> canon_cmp_loop (sa # la) (sb # lb) d > 0"
proof -
  let ?n = "min (length sa) (length sb)"
  define c where "c = memcmp (take ?n sa) (take ?n sb)"
  have e: "canon_cmp_loop (sa # la) (sb # lb) d =
      (if c \<noteq> 0 then c else if length sa \<noteq> length sb then (if length sa < length sb then -1 else 1)
       else canon_cmp_loop la lb d)"
    unfolding canon_cmp_loop.simps Let_def c_def by (rule HOL.refl)
  have s: "c < 0 \<or> c = 0 \<and> length sa < length sb \<longleftrightarrow> sa < sb" "c = 0 \<and> length sa = length sb \<longleftrightarrow> sa = sb"
    unfolding c_def using label_sign by blast+
  show "canon_cmp_loop (sa # la) (sb # lb) d = canon_cmp_loop la lb d" if "sa = sb"
    using that s(2) unfolding e by presburger
  show "canon_cmp_loop (sa # la) (sb # lb) d < 0" if "sa < sb"
    using that s(1) unfolding e by (cases "c = 0") auto
  show "canon_cmp_loop (sa # la) (sb # lb) d > 0" if "sb < sa"
  proof -
    have "\<not> sa < sb" "sa \<noteq> sb" using that by auto
    then show ?thesis using s unfolding e by (cases "c = 0") auto
  qed
qed

lemma canon_cmp_loop_sign:
  assumes "d = int (length la) - int (length lb)"
  shows "(canon_cmp_loop la lb d < 0 \<longleftrightarrow> la < lb) \<and> (canon_cmp_loop la lb d = 0 \<longleftrightarrow> la = lb)"
  using assms
proof (induction la arbitrary: lb)
  case Nil
  then show ?case by (cases lb) auto
next
  case (Cons sa la)
  show ?case
  proof (cases lb)
    case Nil
    then show ?thesis using Cons.prems by simp
  next
    case (Cons sb lb')
    then have ih: "(canon_cmp_loop la lb' d < 0 \<longleftrightarrow> la < lb') \<and> (canon_cmp_loop la lb' d = 0 \<longleftrightarrow> la = lb')"
      using Cons.IH Cons.prems by simp
    consider "sa = sb" | "sa < sb" | "sb < sa" by (rule linorder_cases)
    then show ?thesis
    proof cases
      case 1
      then show ?thesis using ih canon_cmp_loop_Cons(1) [OF 1, of la lb' d] by (simp add: Cons del: canon_cmp_loop.simps)
    next
      case 2
      then have "sa \<noteq> sb" by auto
      then show ?thesis using 2 canon_cmp_loop_Cons(2) [OF 2, of la lb' d] by (simp add: Cons del: canon_cmp_loop.simps)
    next
      case 3
      then have "\<not> sa < sb" "sa \<noteq> sb" by auto
      then show ?thesis using canon_cmp_loop_Cons(3) [OF 3, of la lb' d] by (simp add: Cons del: canon_cmp_loop.simps)
    qed
  qed
qed

text \<open>The key of a name: its labels in lower case, the rightmost first.\<close>

definition canon_key :: "cstr \<Rightarrow> cstr list" where
  "canon_key a = rev (map (map lower8) (labels_of a))"

lemma canon_labels_eq:
  assumes "0 \<notin> set a"
  shows "canon_labels a = map (map lower8) (labels_of a)"
proof -
  have "strlower (safe_strcpy [] a 256) = map lower8 (safe_strcpy [] a 256)"
    using assms by (intro strlower_map) (auto simp: safe_strcpy_def dest: in_set_takeD)
  moreover have "length (labels_of a) \<le> 128"
    using length_labels_of [of a] by (simp add: safe_strcpy_def)
  ultimately show ?thesis by (simp add: canon_labels_def labels_of_def toks_lower)
qed

lemma canon_name_cmp_sign:
  assumes "0 \<notin> set a" "0 \<notin> set b"
  shows "(canon_name_cmp a b < 0 \<longleftrightarrow> canon_key a < canon_key b) \<and> (canon_name_cmp a b = 0 \<longleftrightarrow> canon_key a = canon_key b)"
  using canon_cmp_loop_sign [of _ "canon_key a" "canon_key b"] assms
  by (simp add: canon_name_cmp_def canon_labels_eq canon_key_def)

interpretation name_order: cmp_order canon_name_cmp canon_key "\<lambda>a. 0 \<notin> set a"
  by unfold_locales (simp_all add: canon_name_cmp_sign)

lemma canon_rr_cmp_sign:
  assumes "cr_len a \<le> length (cr_buf a)" "cr_len b \<le> length (cr_buf b)"
  shows "\<exists>c. canon_rr_cmp a b = Some c \<and> (c < 0 \<longleftrightarrow> take (cr_len a) (cr_buf a) < take (cr_len b) (cr_buf b))
    \<and> (c = 0 \<longleftrightarrow> take (cr_len a) (cr_buf a) = take (cr_len b) (cr_buf b))"
proof -
  let ?x = "take (cr_len a) (cr_buf a)" and ?y = "take (cr_len b) (cr_buf b)"
  have l: "length ?x = cr_len a" "length ?y = cr_len b" using assms by simp_all
  define c where "c = memcmp (take (min (length ?x) (length ?y)) ?x) (take (min (length ?x) (length ?y)) ?y)"
  have "canon_rr_cmp a b = Some (if c \<noteq> 0 then c else int (cr_len a) - int (cr_len b))"
  proof -
    have n: "(if cr_len a < cr_len b then cr_len a else cr_len b) = min (length ?x) (length ?y)"
      unfolding l by (simp add: min_def)
    have "take (min (length ?x) (length ?y)) (cr_buf a) = take (min (length ?x) (length ?y)) ?x"
      "take (min (length ?x) (length ?y)) (cr_buf b) = take (min (length ?x) (length ?y)) ?y"
      unfolding l by simp_all
    moreover have "min (length ?x) (length ?y) \<le> length (cr_buf a)" "min (length ?x) (length ?y) \<le> length (cr_buf b)"
      by simp_all
    ultimately show ?thesis
      unfolding canon_rr_cmp_def n Let_def c_def by (simp only: rdn_ok add_0 drop_0 bind.bind_lunit simp_thms)
  qed
  moreover note label_sign [of ?x ?y, folded c_def, unfolded l]
  ultimately show ?thesis by (cases "c = 0") auto
qed

interpretation rr_order: cmp_order "\<lambda>a b. the (canon_rr_cmp a b)" "\<lambda>a. take (cr_len a) (cr_buf a)"
  "\<lambda>a. cr_len a \<le> length (cr_buf a)"
  by unfold_locales (use canon_rr_cmp_sign in force)+

text \<open>
  C18: \<open>canon_name_cmp\<close> is the canonical name order of RFC 4034, section 6.1: its sign is the lexicographic order of the label
  lists read from the rightmost label, each label compared octet by octet in lower case, the shorter first. A list of
  names that the function sorts is therefore sorted by that key, whatever the sorting algorithm.
\<close>

theorem canon_name_order:
  assumes "\<forall>a \<in> set names. 0 \<notin> set a"
  shows "(\<forall>a \<in> set names. \<forall>b \<in> set names.
       (canon_name_cmp a b < 0 \<longleftrightarrow> canon_key a < canon_key b)
       \<and> (canon_name_cmp a b = 0 \<longleftrightarrow> map (map lower8) (labels_of a) = map (map lower8) (labels_of b))
       \<and> sgn (canon_name_cmp a b) = - sgn (canon_name_cmp b a))
    \<and> (sorted_wrt (\<lambda>a b. canon_name_cmp a b \<le> 0) names \<longrightarrow> sorted (map canon_key names))"
proof (intro conjI ballI impI)
  fix a b assume "a \<in> set names" "b \<in> set names"
  then have ab: "0 \<notin> set a" "0 \<notin> set b" using assms by blast+
  show "canon_name_cmp a b < 0 \<longleftrightarrow> canon_key a < canon_key b" using ab by (rule name_order.neg)
  show "canon_name_cmp a b = 0 \<longleftrightarrow> map (map lower8) (labels_of a) = map (map lower8) (labels_of b)"
    using name_order.zero [OF ab] by (simp add: canon_key_def)
  show "sgn (canon_name_cmp a b) = - sgn (canon_name_cmp b a)" using ab by (rule name_order.swap)
next
  assume "sorted_wrt (\<lambda>a b. canon_name_cmp a b \<le> 0) names"
  then show "sorted (map canon_key names)" using assms by (intro name_order.sorted_key)
qed

theorem canon_name_order_witness:
  "canon_name_cmp (str ''a.Example'') (str ''Z.a.example'') < 0 \<and> canon_name_cmp (str ''example.'') (str ''EXAMPLE'') = 0"
proof -
  let ?n = "[str ''a.Example'', str ''Z.a.example'', str ''example.'', str ''EXAMPLE'']"
  have l: "labels_of (str ''a.Example'') = [str ''a'', str ''Example'']" "labels_of (str ''Z.a.example'') = [str ''Z'', str ''a'', str ''example'']"
     "labels_of (str ''example.'') = [str ''example'']" "labels_of (str ''EXAMPLE'') = [str ''EXAMPLE'']"
    by (simp_all add: labels_of_def safe_strcpy_def str_def toks.simps)
  have e: "map lower8 (str ''Example'') = str ''example''" "map lower8 (str ''EXAMPLE'') = str ''example''"
    "map lower8 (str ''example'') = str ''example''" "map lower8 (str ''a'') = str ''a''"
    by (simp_all add: str_def lower8_def)
  have "\<forall>a \<in> set ?n. 0 \<notin> set a" by (simp add: str_def)
  note canon_name_order [OF this]
  then show ?thesis by (simp add: l e canon_key_def)
qed

section \<open>Canonical rdata\<close>












text \<open>
  \<open>canon_rdata\<close> goes through the text form of a name, which has no escapes: an NS target whose one label is the three
  octets \<open>a.b\<close> is canonicalised as the two labels \<open>a\<close> and \<open>b\<close>, so the bytes hashed are not those of the record.
\<close>

theorem canon_rdata_splits_dots:
  "canon_rdata [3, 97, 46, 98, 0] 5 0 5 2 (replicate 8 9) 8 = Some ([1, 97, 1, 98, 0, 9, 9, 9], Ok 5)"
  by code_simp

end
