(* ===== verification/Edns.thy ===== *)
theory Edns
  imports Tlv
begin

text \<open>
  EDNS(0) (\<open>dns_wire.c\<close>): the parser of the OPT record (\<open>edns_parse\<close>) and its builder (\<open>edns_append_opt\<close>). The
  C flags \<open>int\<close> of \<open>edns_info_t\<close> are booleans here.
\<close>

section \<open>Parsing\<close>

record edns_info =
  present :: bool
  max_udp :: u16
  version :: u8
  do_bit :: bool
  client_cookie :: bytes
  has_client_cookie :: bool
  server_cookie :: bytes
  server_cookie_len :: nat
  has_server_cookie :: bool
  nsid_req :: bool
  has_padding :: bool
  padding_req :: u16
  keepalive_req :: bool
  zoneversion_req :: bool
  has_update_lease :: bool
  update_lease :: u32
  has_update_key_lease :: bool
  update_key_lease :: u32

definition edns_zero :: edns_info where
  "edns_zero = \<lparr>present = False, max_udp = 512, version = 0, do_bit = False, client_cookie = replicate 8 0,
     has_client_cookie = False, server_cookie = replicate 16 0, server_cookie_len = 0, has_server_cookie = False,
     nsid_req = False, has_padding = False, padding_req = 0, keepalive_req = False, zoneversion_req = False,
     has_update_lease = False, update_lease = 0, has_update_key_lease = False, update_key_lease = 0\<rparr>"

text \<open>The two loops that skip questions and records; \<open>Err\<close> is the early return.\<close>

fun skip_questions :: "bytes \<Rightarrow> nat \<Rightarrow> nat \<Rightarrow> nat \<Rightarrow> nat cres option" where
  "skip_questions pkt plen 0 off = Some (Ok off)"
| "skip_questions pkt plen (Suc n) off = do {
     r \<leftarrow> skip_name pkt plen off;
     case r of
       Err \<Rightarrow> Some Err
     | Ok off \<Rightarrow> if off + 4 > plen then Some Err else skip_questions pkt plen n (off + 4) }"

fun skip_records :: "bytes \<Rightarrow> nat \<Rightarrow> nat \<Rightarrow> nat \<Rightarrow> nat cres option" where
  "skip_records pkt plen 0 off = Some (Ok off)"
| "skip_records pkt plen (Suc n) off = do {
     r \<leftarrow> skip_name pkt plen off;
     case r of
       Err \<Rightarrow> Some Err
     | Ok off \<Rightarrow>
         if off + 10 > plen then Some Err
         else do {
           rdlen \<leftarrow> get16 pkt (off + 8);
           skip_records pkt plen n (off + 10 + unat rdlen) } }"

text \<open>The body of the option loop, for the option \<open>oc\<close> of length \<open>ol\<close> whose data start at \<open>rp\<close>.\<close>

definition edns_option :: "bytes \<Rightarrow> nat \<Rightarrow> u16 \<Rightarrow> u16 \<Rightarrow> nat \<Rightarrow> edns_info \<Rightarrow> edns_info option" where
  "edns_option pkt plen oc ol rp ei =
     (if oc = 3 then Some (ei\<lparr>nsid_req := True\<rparr>)
      else if oc = 10 \<and> 8 \<le> ol then
        (if rp + unat ol \<le> plen then do {
           cc \<leftarrow> rdn pkt rp 8;
           let ei = ei\<lparr>client_cookie := cc, has_client_cookie := True\<rparr>;
           if 8 < ol \<and> ol \<le> 8 + 16 then do {
             let slen = unat ol - 8;
             sc \<leftarrow> rdn pkt (rp + 8) slen;
             sb \<leftarrow> wrn (server_cookie ei) 0 sc;
             Some (ei\<lparr>server_cookie := sb, server_cookie_len := slen, has_server_cookie := True\<rparr>) }
           else Some ei }
         else Some ei)
      else if oc = 11 then Some (ei\<lparr>keepalive_req := True\<rparr>)
      else if oc = 12 then Some (ei\<lparr>has_padding := True, padding_req := ol\<rparr>)
      else if oc = 19 \<and> ol = 0 then Some (ei\<lparr>zoneversion_req := True\<rparr>)
      else if oc = 2 \<and> (ol = 4 \<or> ol = 8) \<and> rp + unat ol \<le> plen then do {
        l \<leftarrow> get32 pkt rp;
        let ei = ei\<lparr>has_update_lease := True, update_lease := l\<rparr>;
        if ol = 8 then do {
          k \<leftarrow> get32 pkt (rp + 4);
          Some (ei\<lparr>has_update_key_lease := True, update_key_lease := k\<rparr>) }
        else Some ei }
      else Some ei)"

function edns_options :: "bytes \<Rightarrow> nat \<Rightarrow> nat \<Rightarrow> nat \<Rightarrow> edns_info \<Rightarrow> edns_info option" where
  "edns_options pkt plen rend rp ei =
     (if rp + 4 \<le> rend \<and> rp + 4 \<le> plen then do {
        oc \<leftarrow> get16 pkt rp;
        ol \<leftarrow> get16 pkt (rp + 2);
        ei \<leftarrow> edns_option pkt plen oc ol (rp + 4) ei;
        if rp + 4 + unat ol > plen then Some ei
        else edns_options pkt plen rend (rp + 4 + unat ol) ei }
      else Some ei)"
  by pat_completeness auto
termination by (relation "measure (\<lambda>(pkt, plen, rend, rp, ei). plen - rp)") auto

declare edns_options.simps [simp del]

text \<open>The additional section: \<open>off\<close> is after the name of the OPT record in \<open>edns_opt_rr\<close>.\<close>

definition edns_opt_rr :: "bytes \<Rightarrow> nat \<Rightarrow> nat \<Rightarrow> edns_info \<Rightarrow> edns_info option" where
  "edns_opt_rr pkt plen off ei = do {
     mu \<leftarrow> get16 pkt (off + 2);
     v \<leftarrow> rd8 pkt (off + 5);
     f \<leftarrow> rd8 pkt (off + 6);
     rdlen \<leftarrow> get16 pkt (off + 8);
     edns_options pkt plen (off + 10 + unat rdlen) (off + 10)
       (ei\<lparr>present := True, max_udp := mu, version := v, do_bit := (f AND 0x80 \<noteq> 0)\<rparr>) }"

fun edns_additional :: "bytes \<Rightarrow> nat \<Rightarrow> nat \<Rightarrow> nat \<Rightarrow> edns_info \<Rightarrow> edns_info option" where
  "edns_additional pkt plen 0 off ei = Some ei"
| "edns_additional pkt plen (Suc n) off ei =
     (if off \<ge> plen then Some ei
      else do {
        r \<leftarrow> skip_name pkt plen off;
        case r of
          Err \<Rightarrow> Some ei
        | Ok off \<Rightarrow>
            if off + 10 > plen then Some ei
            else do {
              rtype \<leftarrow> get16 pkt off;
              if rtype = 41 then edns_opt_rr pkt plen off ei
              else do {
                rdlen \<leftarrow> get16 pkt (off + 8);
                edns_additional pkt plen n (off + 10 + unat rdlen) ei } } })"

definition edns_parse :: "bytes \<Rightarrow> nat \<Rightarrow> edns_info option" where
  "edns_parse pkt plen =
     (if plen < 12 then Some edns_zero
      else do {
        arcount \<leftarrow> get16 pkt 10;
        if arcount = 0 then Some edns_zero
        else do {
          qdcount \<leftarrow> get16 pkt 4;
          r \<leftarrow> skip_questions pkt plen (unat qdcount) 12;
          case r of
            Err \<Rightarrow> Some edns_zero
          | Ok off \<Rightarrow> do {
              ancount \<leftarrow> get16 pkt 6;
              nscount \<leftarrow> get16 pkt 8;
              r \<leftarrow> skip_records pkt plen (unat ancount + unat nscount) off;
              case r of
                Err \<Rightarrow> Some edns_zero
              | Ok off \<Rightarrow> edns_additional pkt plen (unat arcount) off edns_zero } } })"

section \<open>Building\<close>

text \<open>
  The shape of every block of \<open>edns_append_opt\<close>: an option is written when it leaves room, and \<open>rdata_off\<close> and
  \<open>rdata_len\<close> advance together.
\<close>

type_synonym opt_state = "bytes \<times> nat \<times> nat"

definition opt_put :: "nat \<Rightarrow> u16 \<Rightarrow> bytes \<Rightarrow> opt_state \<Rightarrow> opt_state option" where
  "opt_put blen code data s =
     (case s of (buf, rdata_off, rdata_len) \<Rightarrow>
        if rdata_off + 4 + length data < blen then do {
          buf \<leftarrow> put16 buf rdata_off code;
          buf \<leftarrow> put16 buf (rdata_off + 2) (of_nat (length data));
          buf \<leftarrow> wrn buf (rdata_off + 4) data;
          Some (buf, rdata_off + 4 + length data, rdata_len + 4 + length data) }
        else Some (buf, rdata_off, rdata_len))"

definition opt_when :: "bool \<Rightarrow> (opt_state \<Rightarrow> opt_state option) \<Rightarrow> opt_state \<Rightarrow> opt_state option" where
  "opt_when c f s = (if c then f s else Some s)"

definition report_wire :: "cstr option \<Rightarrow> bytes option" where
  "report_wire ra =
     (case ra of
        None \<Rightarrow> None
      | Some a \<Rightarrow> if a = [] then None
                  else (case name_to_wire a (replicate 256 0) 0 256 of
                          Some (w, Ok n) \<Rightarrow> Some (take n w)
                        | _ \<Rightarrow> None))"

definition opt_pad :: "nat \<Rightarrow> bool \<Rightarrow> nat \<Rightarrow> opt_state \<Rightarrow> opt_state option" where
  "opt_pad blen pad_req off s =
     (case s of (buf, rdata_off, rdata_len) \<Rightarrow>
        let block = (if pad_req then 128 else 468);
            cur = off + 2 + rdata_len + 4;
            p = block - cur mod block;
            pad = (if p = block then 0 else p)
        in if pad > 0 then opt_put blen 12 (replicate pad 0) s else Some s)"

record edns_args =
  is_tcp :: bool
  a_do :: bool
  rcode_ext :: u16
  req_ei :: "edns_info option"
  nsid :: "cstr option"
  scookie :: "bytes option"
  ede_code :: int
  ede_text :: "cstr option"
  zv_labels :: int
  zv_serial :: u32
  report_agent :: "cstr option"
  has_ul :: bool
  ul_lease :: u32
  has_ul_key_lease :: bool
  ul_key_lease :: u32

definition req_has :: "edns_args \<Rightarrow> (edns_info \<Rightarrow> bool) \<Rightarrow> bool" where
  "req_has a p = (case req_ei a of None \<Rightarrow> False | Some r \<Rightarrow> p r)"

definition edns_opts_write :: "edns_args \<Rightarrow> nat \<Rightarrow> nat \<Rightarrow> opt_state \<Rightarrow> opt_state option" where
  "edns_opts_write a blen off s = do {
     s \<leftarrow> (case nsid a of None \<Rightarrow> Some s | Some n \<Rightarrow> opt_when (n \<noteq> []) (opt_put blen 3 n) s);
     s \<leftarrow> (case (req_ei a, scookie a) of
             (Some r, Some sc) \<Rightarrow> opt_when (has_client_cookie r) (opt_put blen 10 (client_cookie r @ sc)) s
           | _ \<Rightarrow> Some s);
     s \<leftarrow> opt_when (is_tcp a \<and> req_has a keepalive_req) (opt_put blen 11 (be16 300)) s;
     s \<leftarrow> opt_when (ede_code a \<ge> 0)
            (opt_put blen 15 (be16 (word_of_int (ede_code a)) @ (case ede_text a of None \<Rightarrow> [] | Some t \<Rightarrow> t))) s;
     s \<leftarrow> opt_when (req_has a zoneversion_req \<and> 0 \<le> zv_labels a \<and> zv_labels a \<le> 255)
            (opt_put blen 19 (word_of_int (zv_labels a) # 0 # be32 (zv_serial a))) s;
     s \<leftarrow> (case report_wire (report_agent a) of None \<Rightarrow> Some s | Some w \<Rightarrow> opt_put blen 18 w s);
     s \<leftarrow> opt_when (has_ul a)
            (opt_put blen 2 (be32 (ul_lease a) @ (if has_ul_key_lease a then be32 (ul_key_lease a) else []))) s;
     opt_when (is_tcp a) (opt_pad blen (req_has a has_padding) off) s }"

definition edns_append_opt :: "bytes \<Rightarrow> nat \<Rightarrow> nat \<Rightarrow> edns_args \<Rightarrow> (bytes \<times> nat) option" where
  "edns_append_opt buf off blen a =
     (if off + 11 > blen then Some (buf, off)
      else do {
        let maxudp = (if is_tcp a then 65535 else 1232);
        buf \<leftarrow> wrn buf off [0, 0, 41];
        buf \<leftarrow> wrn buf (off + 3) [ucast (drop_bit 8 maxudp :: u16), ucast (maxudp AND 0xFF)];
        buf \<leftarrow> wrn buf (off + 5) [ucast (rcode_ext a AND 0xFF), 0, if a_do a then 0x80 else 0, 0];
        let off = off + 9;
        (buf, rdata_off, rdata_len) \<leftarrow> edns_opts_write a blen off (buf, off + 2, 0);
        buf \<leftarrow> put16 buf off (of_nat rdata_len);
        n \<leftarrow> get16 buf 10;
        buf \<leftarrow> put16 buf 10 (n + 1);
        Some (buf, rdata_off) })"

section \<open>The parser is safe on every packet\<close>

definition ei_wf :: "edns_info \<Rightarrow> bool" where
  "ei_wf ei \<longleftrightarrow> length (client_cookie ei) = 8 \<and> length (server_cookie ei) = 16 \<and> server_cookie_len ei \<le> 16"

lemma ei_wf_zero [simp]: "ei_wf edns_zero"
  by (simp add: ei_wf_def edns_zero_def)

lemma get32_ex: "off + 4 \<le> length b \<Longrightarrow> \<exists>v. get32 b off = Some v"
  by (simp add: get32_def rd8_ok)

lemma edns_option_safe:
  assumes "ei_wf ei" "plen \<le> length pkt"
  shows "\<exists>ei'. edns_option pkt plen oc ol rp ei = Some ei' \<and> ei_wf ei'"
proof -
  consider (cookie) "oc = 10" "8 \<le> ol" "rp + unat ol \<le> plen" | (lease) "oc = 2" "ol = 4 \<or> ol = 8" "rp + unat ol \<le> plen"
    | (simple) "\<not> (oc = 10 \<and> 8 \<le> ol \<and> rp + unat ol \<le> plen)" "\<not> (oc = 2 \<and> (ol = 4 \<or> ol = 8) \<and> rp + unat ol \<le> plen)"
    by blast
  then show ?thesis
  proof cases
    case cookie
    have o: "8 \<le> unat ol" using cookie(2) by (simp add: word_le_nat_alt)
    then have "rp + 8 \<le> length pkt" using cookie(3) assms(2) by linarith
    moreover have "rp + 8 + (unat ol - 8) \<le> length pkt" using o cookie(3) assms(2) by linarith
    moreover have "8 < ol \<and> ol \<le> 24 \<Longrightarrow> unat ol - 8 \<le> 16"
      by (auto simp: word_le_nat_alt word_less_nat_alt)
    ultimately show ?thesis using cookie assms
      by (auto simp: edns_option_def rdn_ok wrn_def ei_wf_def Let_def)
  next
    case lease
    have "unat ol = 4 \<or> unat ol = 8" using lease(2) by auto
    then have "rp + 4 \<le> length pkt" "ol = 8 \<Longrightarrow> rp + 4 + 4 \<le> length pkt" using lease(3) assms(2) by auto
    then show ?thesis using lease assms(1) get32_ex [of rp pkt] get32_ex [of "rp + 4" pkt]
      by (auto simp: edns_option_def ei_wf_def Let_def)
  next
    case simple
    then show ?thesis using assms(1) by (auto simp: edns_option_def ei_wf_def)
  qed
qed

lemma edns_options_safe:
  assumes "ei_wf ei" "plen \<le> length pkt"
  shows "\<exists>ei'. edns_options pkt plen rend rp ei = Some ei' \<and> ei_wf ei'"
  using assms
proof (induction pkt plen rend rp ei rule: edns_options.induct)
  case (1 pkt plen rend rp ei)
  show ?case
  proof (cases "rp + 4 \<le> rend \<and> rp + 4 \<le> plen")
    case True
    then obtain oc ol where g: "get16 pkt rp = Some oc" "get16 pkt (rp + 2) = Some ol"
      using 1(3) by (auto simp: get16_ok)
    obtain ei' where e: "edns_option pkt plen oc ol (rp + 4) ei = Some ei'" "ei_wf ei'"
      using edns_option_safe [OF 1(2,3)] by blast
    show ?thesis using True g e 1(1) [OF True g e(1) _ e(2) 1(3)]
      by (simp add: edns_options.simps [of pkt plen rend rp])
  next
    case False
    then show ?thesis using 1(2) by (auto simp: edns_options.simps [of pkt plen rend rp])
  qed
qed

lemma skip_name_loop_safe:
  "plen \<le> length pkt \<Longrightarrow> \<exists>r. skip_name_loop pkt plen n off = Some r \<and> (\<forall>e. r = Ok e \<longrightarrow> off < e)"
proof (induction n arbitrary: off)
  case (Suc n)
  obtain r where "skip_name_loop pkt plen n (off + unat (pkt ! off) + 1) = Some r"
    "\<forall>e. r = Ok e \<longrightarrow> off + unat (pkt ! off) + 1 < e" using Suc by blast
  then show ?case using Suc.prems by (auto simp: rd8_ok)
qed simp

lemma skip_name_safe: "plen \<le> length pkt \<Longrightarrow> \<exists>r. skip_name pkt plen off = Some r"
  using skip_name_loop_safe [of plen pkt 128 off] by (auto simp: skip_name_def)

lemma skip_questions_safe: "plen \<le> length pkt \<Longrightarrow> \<exists>r. skip_questions pkt plen n off = Some r"
proof (induction n arbitrary: off)
  case (Suc n)
  obtain r where "skip_name pkt plen off = Some r" using skip_name_safe Suc.prems by blast
  then show ?case using Suc by (cases r) auto
qed simp

lemma skip_records_safe: "plen \<le> length pkt \<Longrightarrow> \<exists>r. skip_records pkt plen n off = Some r"
proof (induction n arbitrary: off)
  case (Suc n)
  obtain r where "skip_name pkt plen off = Some r" using skip_name_safe Suc.prems by blast
  then show ?case using Suc by (cases r) (auto simp: get16_ok)
qed simp

lemma edns_opt_rr_safe:
  "plen \<le> length pkt \<Longrightarrow> off + 10 \<le> plen \<Longrightarrow> ei_wf ei \<Longrightarrow> \<exists>ei'. edns_opt_rr pkt plen off ei = Some ei' \<and> ei_wf ei'"
  by (simp add: edns_opt_rr_def get16_ok rd8_ok edns_options_safe [unfolded ei_wf_def] ei_wf_def)

lemma edns_additional_safe:
  "plen \<le> length pkt \<Longrightarrow> ei_wf ei \<Longrightarrow> \<exists>ei'. edns_additional pkt plen n off ei = Some ei' \<and> ei_wf ei'"
proof (induction n arbitrary: off)
  case (Suc n)
  obtain r where "skip_name pkt plen off = Some r" using skip_name_safe Suc.prems by blast
  then show ?case using Suc edns_opt_rr_safe [OF Suc.prems(1) _ Suc.prems(2)] by (cases r) (auto simp: get16_ok)
qed simp

lemma edns_parse_total:
  assumes "plen \<le> length pkt"
  shows "\<exists>ei. edns_parse pkt plen = Some ei \<and> ei_wf ei"
proof (cases "plen < 12")
  case False
  then have l: "10 + 2 \<le> length pkt" "4 + 2 \<le> length pkt" "6 + 2 \<le> length pkt" "8 + 2 \<le> length pkt" using assms by simp_all
  then obtain ar qd an ns where g: "get16 pkt 10 = Some ar" "get16 pkt 4 = Some qd" "get16 pkt 6 = Some an" "get16 pkt 8 = Some ns"
    using get16_ok by blast
  obtain r where r: "skip_questions pkt plen (unat qd) 12 = Some r" using skip_questions_safe [OF assms] by blast
  show ?thesis
  proof (cases r)
    case Err
    then show ?thesis using False g r by (simp add: edns_parse_def)
  next
    case (Ok off)
    obtain r' where "skip_records pkt plen (unat an + unat ns) off = Some r'" using skip_records_safe [OF assms] by blast
    then show ?thesis using False g r Ok edns_additional_safe [OF assms ei_wf_zero]
      by (cases r') (auto simp: edns_parse_def)
  qed
qed (simp add: edns_parse_def)

section \<open>What the builder writes\<close>

fun opt_enc :: "(u16 \<times> bytes) list \<Rightarrow> bytes" where
  "opt_enc [] = []"
| "opt_enc ((c, d) # os) = be16 c @ be16 (of_nat (length d)) @ d @ opt_enc os"

lemma opt_enc_append [simp]: "opt_enc (xs @ ys) = opt_enc xs @ opt_enc ys"
  by (induction xs rule: opt_enc.induct) auto

definition opt_inv :: "bytes \<Rightarrow> nat \<Rightarrow> nat \<Rightarrow> opt_state \<Rightarrow> (u16 \<times> bytes) list \<Rightarrow> bool" where
  "opt_inv b0 base blen s opts \<longleftrightarrow>
     s = (patch b0 base (opt_enc opts), base + length (opt_enc opts), length (opt_enc opts))
     \<and> base + length (opt_enc opts) \<le> blen"

text \<open>An option that does not fit is left out, those after it are still tried.\<close>

definition add_opt :: "nat \<Rightarrow> nat \<Rightarrow> u16 \<times> bytes \<Rightarrow> (u16 \<times> bytes) list \<Rightarrow> (u16 \<times> bytes) list" where
  "add_opt base blen x opts =
     (if base + length (opt_enc opts) + 4 + length (snd x) < blen then opts @ [x] else opts)"

lemma opt_put_inv:
  assumes "opt_inv b0 base blen s opts" "blen \<le> length b0"
  shows "\<exists>s'. opt_put blen c d s = Some s' \<and> opt_inv b0 base blen s' (add_opt base blen (c, d) opts)"
proof (cases "base + length (opt_enc opts) + 4 + length d < blen")
  case True
  let ?e = "opt_enc opts" and ?n = "of_nat (length d) :: u16"
  have "patch (patch (patch (patch b0 base ?e) (base + length ?e) (be16 c)) (base + length ?e + 2) (be16 ?n)) (base + length ?e + 4) d
      = patch b0 base (?e @ be16 c @ be16 ?n @ d)"
    using patch_patch [of base ?e "be16 c" b0] patch_patch [of base "?e @ be16 c" "be16 ?n" b0]
      patch_patch [of base "?e @ be16 c @ be16 ?n" d b0] True assms(2) by (simp add: add.assoc)
  then show ?thesis using True assms
    by (simp add: opt_put_def opt_inv_def add_opt_def put16_ok wrn_ok add.assoc)
next
  case False
  then show ?thesis using assms by (simp add: opt_put_def opt_inv_def add_opt_def)
qed

text \<open>The options a response asks for, in the order of the code, padding apart.\<close>

definition edns_wanted :: "edns_args \<Rightarrow> (u16 \<times> bytes) list" where
  "edns_wanted a =
     (case nsid a of None \<Rightarrow> [] | Some n \<Rightarrow> if n \<noteq> [] then [(3, n)] else []) @
     (case (req_ei a, scookie a) of
        (Some r, Some sc) \<Rightarrow> if has_client_cookie r then [(10, client_cookie r @ sc)] else []
      | _ \<Rightarrow> []) @
     (if is_tcp a \<and> req_has a keepalive_req then [(11, be16 300)] else []) @
     (if ede_code a \<ge> 0 then [(15, be16 (word_of_int (ede_code a)) @ (case ede_text a of None \<Rightarrow> [] | Some t \<Rightarrow> t))] else []) @
     (if req_has a zoneversion_req \<and> 0 \<le> zv_labels a \<and> zv_labels a \<le> 255
      then [(19, word_of_int (zv_labels a) # 0 # be32 (zv_serial a))] else []) @
     (case report_wire (report_agent a) of None \<Rightarrow> [] | Some w \<Rightarrow> [(18, w)]) @
     (if has_ul a then [(2, be32 (ul_lease a) @ (if has_ul_key_lease a then be32 (ul_key_lease a) else []))] else [])"

definition pad_opt :: "edns_args \<Rightarrow> nat \<Rightarrow> nat \<Rightarrow> nat \<Rightarrow> (u16 \<times> bytes) list \<Rightarrow> (u16 \<times> bytes) list" where
  "pad_opt a off base blen opts =
     (let block = (if req_has a has_padding then 128 else 468);
          pad = (block - (off + 6 + length (opt_enc opts)) mod block) mod block
      in if is_tcp a \<and> pad > 0 then add_opt base blen (12, replicate pad 0) opts else opts)"

definition edns_opts :: "edns_args \<Rightarrow> nat \<Rightarrow> nat \<Rightarrow> nat \<Rightarrow> (u16 \<times> bytes) list" where
  "edns_opts a off base blen = pad_opt a off base blen (fold (add_opt base blen) (edns_wanted a) [])"

lemma opt_when_inv:
  assumes "opt_inv b0 base blen s opts" "blen \<le> length b0"
  shows "\<exists>s'. opt_when c (opt_put blen oc d) s = Some s'
    \<and> opt_inv b0 base blen s' (fold (add_opt base blen) (if c then [(oc, d)] else []) opts)"
  using assms opt_put_inv [OF assms, of oc d] by (cases c) (simp_all add: opt_when_def)

lemma pad_mod: "m < n \<Longrightarrow> (if n - m = n then 0 else n - m) = (n - m) mod n" for m n :: nat
  by (cases m) auto

lemma opt_pad_inv:
  assumes "opt_inv b0 base blen s opts" "blen \<le> length b0"
  shows "\<exists>s'. opt_when (is_tcp a) (opt_pad blen (req_has a has_padding) off) s = Some s'
    \<and> opt_inv b0 base blen s' (pad_opt a off base blen opts)"
proof -
  define block where "block = (if req_has a has_padding then 128 else 468 :: nat)"
  define pad where "pad = (block - (off + 6 + length (opt_enc opts)) mod block) mod block"
  have "0 < block" by (simp add: block_def)
  then have pm: "(if block - (off + 6 + length (opt_enc opts)) mod block = block then 0
      else block - (off + 6 + length (opt_enc opts)) mod block) = pad"
    unfolding pad_def by (intro pad_mod) simp
  obtain b ro rl where s: "s = (b, ro, rl)" by (cases s)
  have cur: "off + 2 + rl + 4 = off + 6 + length (opt_enc opts)" using assms(1) by (simp add: opt_inv_def s)
  have e: "opt_pad blen (req_has a has_padding) off s = (if pad > 0 then opt_put blen 12 (replicate pad 0) s else Some s)"
    unfolding opt_pad_def s prod.case Let_def cur block_def [symmetric] pm ..
  have p: "pad_opt a off base blen opts
      = (if is_tcp a \<and> pad > 0 then add_opt base blen (12, replicate pad 0) opts else opts)"
    unfolding pad_opt_def block_def [symmetric] Let_def pad_def ..
  show ?thesis using assms opt_put_inv [OF assms, of 12 "replicate pad 0"]
    by (cases "is_tcp a"; cases "pad > 0") (simp_all add: opt_when_def e p)
qed

text \<open>A step of the builder that does \<open>F\<close> to the list of options, and their sequence.\<close>

definition opt_ok :: "bytes \<Rightarrow> nat \<Rightarrow> nat \<Rightarrow> (opt_state \<Rightarrow> opt_state option) \<Rightarrow>
    ((u16 \<times> bytes) list \<Rightarrow> (u16 \<times> bytes) list) \<Rightarrow> bool" where
  "opt_ok b0 base blen f F \<longleftrightarrow>
     (\<forall>s opts. opt_inv b0 base blen s opts \<longrightarrow> (\<exists>s'. f s = Some s' \<and> opt_inv b0 base blen s' (F opts)))"

lemma opt_ok_bind: "opt_ok b0 base blen f F \<Longrightarrow> opt_ok b0 base blen g G \<Longrightarrow> opt_ok b0 base blen (\<lambda>s. f s \<bind> g) (G \<circ> F)"
  unfolding opt_ok_def
proof (intro allI impI)
  fix s opts
  assume a: "\<forall>s opts. opt_inv b0 base blen s opts \<longrightarrow> (\<exists>s'. f s = Some s' \<and> opt_inv b0 base blen s' (F opts))"
    "\<forall>s opts. opt_inv b0 base blen s opts \<longrightarrow> (\<exists>s'. g s = Some s' \<and> opt_inv b0 base blen s' (G opts))"
    "opt_inv b0 base blen s opts"
  then obtain s' where "f s = Some s'" "opt_inv b0 base blen s' (F opts)" by blast
  then show "\<exists>s'. f s \<bind> g = Some s' \<and> opt_inv b0 base blen s' ((G \<circ> F) opts)" using a(2) by (simp del: split_paired_All split_paired_Ex)
qed

lemma opt_ok_when:
  "blen \<le> length b0 \<Longrightarrow> opt_ok b0 base blen (opt_when c (opt_put blen oc d)) (fold (add_opt base blen) (if c then [(oc, d)] else []))"
  unfolding opt_ok_def using opt_when_inv by blast

lemma opt_ok_nsid:
  assumes "blen \<le> length b0"
  shows "opt_ok b0 base blen (\<lambda>s. case nsid a of None \<Rightarrow> Some s | Some n \<Rightarrow> opt_when (n \<noteq> []) (opt_put blen 3 n) s)
    (fold (add_opt base blen) (case nsid a of None \<Rightarrow> [] | Some n \<Rightarrow> if n \<noteq> [] then [(3, n)] else []))"
  using opt_ok_when [OF assms] by (cases "nsid a") (simp_all add: opt_ok_def)

lemma opt_ok_cookie:
  assumes "blen \<le> length b0"
  shows "opt_ok b0 base blen
      (\<lambda>s. case (req_ei a, scookie a) of
         (Some r, Some sc) \<Rightarrow> opt_when (has_client_cookie r) (opt_put blen 10 (client_cookie r @ sc)) s
       | _ \<Rightarrow> Some s)
      (fold (add_opt base blen) (case (req_ei a, scookie a) of
         (Some r, Some sc) \<Rightarrow> if has_client_cookie r then [(10, client_cookie r @ sc)] else []
       | _ \<Rightarrow> []))"
  using opt_ok_when [OF assms] by (cases "req_ei a"; cases "scookie a") (simp_all add: opt_ok_def)

lemma opt_ok_report:
  assumes "blen \<le> length b0"
  shows "opt_ok b0 base blen (\<lambda>s. case report_wire (report_agent a) of None \<Rightarrow> Some s | Some w \<Rightarrow> opt_put blen 18 w s)
    (fold (add_opt base blen) (case report_wire (report_agent a) of None \<Rightarrow> [] | Some w \<Rightarrow> [(18, w)]))"
  using opt_put_inv [OF _ assms] by (cases "report_wire (report_agent a)") (simp_all add: opt_ok_def)

lemma opt_ok_pad:
  "blen \<le> length b0 \<Longrightarrow>
     opt_ok b0 base blen (opt_when (is_tcp a) (opt_pad blen (req_has a has_padding) off)) (pad_opt a off base blen)"
  unfolding opt_ok_def using opt_pad_inv by blast

lemma edns_opts_write_ok:
  assumes "blen \<le> length b0"
  shows "opt_ok b0 base blen (edns_opts_write a blen off) (pad_opt a off base blen \<circ> fold (add_opt base blen) (edns_wanted a))"
  unfolding edns_opts_write_def edns_wanted_def fold_append comp_assoc [symmetric]
  by (intro opt_ok_bind opt_ok_nsid [OF assms] opt_ok_cookie [OF assms] opt_ok_when [OF assms] opt_ok_report [OF assms]
      opt_ok_pad [OF assms])

definition opt_head :: "edns_args \<Rightarrow> bytes" where
  "opt_head a = [0, 0, 41] @ be16 (if is_tcp a then 65535 else 1232)
     @ [ucast (rcode_ext a AND 0xFF), 0, if a_do a then 0x80 else 0, 0]"

lemma length_opt_head [simp]: "length (opt_head a) = 9"
  by (simp add: opt_head_def)

lemma patch_before:
  assumes "i + length ys + length zs \<le> length b"
  shows "patch (patch b (i + length ys) zs) i ys = patch b i (ys @ zs)"
proof -
  let ?c = "patch b (i + length ys) zs"
  have "take i ?c = take i b" using assms by simp
  moreover have "drop (i + length ys) ?c = zs @ drop (i + length ys + length zs) b"
    using assms by (simp add: patch_def)
  ultimately show ?thesis by (simp add: patch_def [of ?c] patch_def [of b i "ys @ zs"] add.assoc)
qed

text \<open>The two rewriting rules with the offsets as they come.\<close>

lemma patch_patch_at: "j = i + length xs \<Longrightarrow> j + length ys \<le> length b \<Longrightarrow> patch (patch b i xs) j ys = patch b i (xs @ ys)"
  using patch_patch [of i xs ys b] by simp

lemma patch_before_at: "j = i + length ys \<Longrightarrow> j + length zs \<le> length b \<Longrightarrow> patch (patch b j zs) i ys = patch b i (ys @ zs)"
  using patch_before [of i ys zs b] by simp

lemma opt_head_written:
  assumes "off + 9 \<le> length buf"
  shows "patch (patch (patch buf off [0, 0, 41]) (off + 3) (be16 (if is_tcp a then 65535 else 1232))) (off + 5)
      [ucast (rcode_ext a AND 0xFF), 0, if a_do a then 0x80 else 0, 0] = patch buf off (opt_head a)"
  using assms unfolding opt_head_def append_assoc [symmetric] by (subst patch_patch_at, simp, simp)+ (rule refl)

lemma edns_append_opt_eq:
  fixes a off blen buf
  defines "opts \<equiv> edns_opts a (off + 9) (off + 11) blen"
  defines "rd \<equiv> opt_enc opts"
  assumes "12 \<le> off" "off + 11 \<le> blen" "blen \<le> length buf" "get16 buf 10 = Some n"
  shows "edns_append_opt buf off blen a
      = Some (patch (patch buf off (opt_head a @ be16 (of_nat (length rd)) @ rd)) 10 (be16 (n + 1)), off + 11 + length rd)"
    and "off + 11 + length rd \<le> blen"
proof -
  let ?b0 = "patch buf off (opt_head a)"
  have l0: "length ?b0 = length buf" using assms by simp
  have i0: "opt_inv ?b0 (off + 11) blen (?b0, off + 11, 0) []" using assms by (simp add: opt_inv_def)
  have "opt_ok ?b0 (off + 11) blen (edns_opts_write a blen (off + 9))
      (pad_opt a (off + 9) (off + 11) blen \<circ> fold (add_opt (off + 11) blen) (edns_wanted a))"
    using assms l0 by (intro edns_opts_write_ok) simp
  then obtain s' where s': "edns_opts_write a blen (off + 9) (?b0, off + 11, 0) = Some s'"
    "opt_inv ?b0 (off + 11) blen s' opts" using i0 unfolding opt_ok_def opts_def edns_opts_def comp_def by blast
  then have w: "edns_opts_write a blen (off + 9) (?b0, off + 11, 0) = Some (patch ?b0 (off + 11) rd, off + 11 + length rd, length rd)"
    and fit: "off + 11 + length rd \<le> blen"
    by (simp_all add: opt_inv_def rd_def)
  let ?b1 = "patch ?b0 (off + 11) rd" and ?l = "of_nat (length rd) :: u16"
  have b1: "length ?b1 = length buf" using fit assms l0 by simp
  have "patch ?b1 (off + 9) (be16 ?l) = patch ?b0 (off + 9) (be16 ?l @ rd)"
    using fit assms(5) l0 by (intro patch_before_at) simp_all
  also have "\<dots> = patch buf off (opt_head a @ be16 ?l @ rd)"
    using fit assms(5) by (intro patch_patch_at) simp_all
  finally have b2: "patch ?b1 (off + 9) (be16 ?l) = patch buf off (opt_head a @ be16 ?l @ rd)" .
  let ?b2 = "patch buf off (opt_head a @ be16 ?l @ rd)"
  have l2: "length ?b2 = length buf" using fit assms by simp
  have g: "get16 ?b2 10 = Some n"
    using assms fit l2 by (simp add: get16_ok nth_patch)
  let ?h = "[ucast (rcode_ext a AND 0xFF), 0, if a_do a then 0x80 else 0, 0] :: bytes" and ?u = "if is_tcp a then 65535 else 1232 :: u16"
  let ?p1 = "patch buf off [0, 0, 41]" and ?p2 = "patch (patch buf off [0, 0, 41]) (off + 3) (be16 ?u)"
  have "wrn buf off [0, 0, 41] = Some ?p1" "wrn ?p1 (off + 3) (be16 ?u) = Some ?p2" "wrn ?p2 (off + 5) ?h = Some ?b0"
    using assms(4,5) opt_head_written [of off buf a] by (simp_all add: wrn_ok)
  moreover have "put16 ?b1 (off + 9) ?l = Some ?b2" "put16 ?b2 10 (n + 1) = Some (patch ?b2 10 (be16 (n + 1)))"
    using b1 b2 l2 assms(3-5) by (simp_all add: put16_ok)
  moreover have "off + 9 + 2 = off + 11" by simp
  moreover have "\<not> off + 11 > blen" using assms(4) by simp
  ultimately show "edns_append_opt buf off blen a = Some (patch ?b2 10 (be16 (n + 1)), off + 11 + length rd)"
    unfolding edns_append_opt_def Let_def be16_def [symmetric] using w g by (simp only: if_False bind.bind_lunit prod.case)
  show "off + 11 + length rd \<le> blen" by (rule fit)
qed

section \<open>Reading the response back\<close>

text \<open>Two packets that agree on the bytes from \<open>lo\<close> to \<open>n\<close>.\<close>

definition agree :: "nat \<Rightarrow> nat \<Rightarrow> bytes \<Rightarrow> bytes \<Rightarrow> bool" where
  "agree lo n p p' \<longleftrightarrow> n \<le> length p \<and> n \<le> length p' \<and> (\<forall>i. lo \<le> i \<longrightarrow> i < n \<longrightarrow> p' ! i = p ! i)"

lemma get16_agree: "agree lo n p p' \<Longrightarrow> lo \<le> i \<Longrightarrow> i + 2 \<le> n \<Longrightarrow> get16 p' i = get16 p i"
  by (simp add: agree_def get16_ok)

lemma skip_name_loop_agree:
  assumes "agree lo plen p p'" "lo \<le> off" "plen \<le> plen'" "skip_name_loop p plen k off = Some (Ok e)"
  shows "skip_name_loop p' plen' k off = Some (Ok e) \<and> lo \<le> e \<and> e \<le> plen"
  using assms
proof (induction k arbitrary: off)
  case (Suc k)
  have off: "off < plen" using Suc.prems(4) by (auto split: if_splits)
  then have c: "rd8 p off = Some (p ! off)" "rd8 p' off = Some (p ! off)"
    using Suc.prems(1,2) by (simp_all add: agree_def rd8_def)
  have ih: "skip_name_loop p' plen' k (off + unat (p ! off) + 1) = Some (Ok e) \<and> lo \<le> e \<and> e \<le> plen"
    if "skip_name_loop p plen k (off + unat (p ! off) + 1) = Some (Ok e)"
    using Suc.IH [OF Suc.prems(1) _ Suc.prems(3) that] Suc.prems(2) by simp
  show ?case using c ih Suc.prems off by (auto split: if_splits)
qed simp

lemma skip_name_agree:
  "agree lo plen p p' \<Longrightarrow> lo \<le> off \<Longrightarrow> plen \<le> plen' \<Longrightarrow> skip_name p plen off = Some (Ok e) \<Longrightarrow>
     skip_name p' plen' off = Some (Ok e) \<and> lo \<le> e \<and> e \<le> plen"
  unfolding skip_name_def by (rule skip_name_loop_agree)

lemma skip_questions_agree:
  assumes "agree lo plen p p'" "lo \<le> off" "off \<le> plen" "plen \<le> plen'" "skip_questions p plen n off = Some (Ok e)"
  shows "skip_questions p' plen' n off = Some (Ok e) \<and> lo \<le> e \<and> e \<le> plen"
  using assms
proof (induction n arbitrary: off)
  case (Suc n)
  obtain o1 where o1: "skip_name p plen off = Some (Ok o1)" "o1 + 4 \<le> plen"
    "skip_questions p plen n (o1 + 4) = Some (Ok e)"
    using Suc.prems(5) by (auto split: Option.bind_splits cres.splits if_splits)
  note s = skip_name_agree [OF Suc.prems(1,2,4) o1(1)]
  show ?case using Suc.IH [of "o1 + 4"] Suc.prems s o1 by simp
qed simp

lemma skip_records_agree:
  assumes "agree lo plen p p'" "lo \<le> off" "plen \<le> plen'" "skip_records p plen n off = Some (Ok e)" "e \<le> plen"
  shows "skip_records p' plen' n off = Some (Ok e) \<and> lo \<le> e"
  using assms
proof (induction n arbitrary: off)
  case (Suc n)
  obtain o1 where o1: "skip_name p plen off = Some (Ok o1)" "o1 + 10 \<le> plen"
    using Suc.prems(4) by (auto split: Option.bind_splits cres.splits if_splits)
  note s = skip_name_agree [OF Suc.prems(1-3) o1(1)]
  have "get16 p' (o1 + 8) = get16 p (o1 + 8)" using Suc.prems(1) s o1 by (intro get16_agree) auto
  moreover obtain l where l: "get16 p (o1 + 8) = Some l" "skip_records p plen n (o1 + 10 + unat l) = Some (Ok e)"
    using Suc.prems(4) o1 by (auto split: Option.bind_splits)
  ultimately show ?case using Suc.IH [OF Suc.prems(1) _ Suc.prems(3) l(2) Suc.prems(5)] s o1 Suc.prems(3) by simp
qed simp

text \<open>The end of \<open>n\<close> records of the additional section none of which is an OPT record.\<close>

fun plain_end :: "bytes \<Rightarrow> nat \<Rightarrow> nat \<Rightarrow> nat \<Rightarrow> nat option" where
  "plain_end pkt plen 0 off = Some off"
| "plain_end pkt plen (Suc n) off =
     (if off \<ge> plen then None
      else case skip_name pkt plen off of
        Some (Ok o1) \<Rightarrow>
          if o1 + 10 > plen then None
          else (case (get16 pkt o1, get16 pkt (o1 + 8)) of
             (Some t, Some l) \<Rightarrow> if t = 41 then None else plain_end pkt plen n (o1 + 10 + unat l)
           | _ \<Rightarrow> None)
      | _ \<Rightarrow> None)"

lemma edns_additional_plain:
  assumes "agree lo plen p p'" "lo \<le> off" "plen \<le> plen'" "plain_end p plen n off = Some e" "e \<le> plen"
  shows "edns_additional p' plen' (n + k) off ei = edns_additional p' plen' k e ei \<and> lo \<le> e"
  using assms
proof (induction n arbitrary: off)
  case (Suc n)
  obtain o1 t l where o1: "off < plen" "skip_name p plen off = Some (Ok o1)" "o1 + 10 \<le> plen"
    "get16 p o1 = Some t" "get16 p (o1 + 8) = Some l" "t \<noteq> 41" "plain_end p plen n (o1 + 10 + unat l) = Some e"
    using Suc.prems(4) by (auto split: option.splits cres.splits if_splits)
  note s = skip_name_agree [OF Suc.prems(1-3) o1(2)]
  have "get16 p' (o1 + 8) = get16 p (o1 + 8)" "get16 p' o1 = get16 p o1"
    using get16_agree [OF Suc.prems(1)] s o1 by auto
  then show ?case using Suc.IH [of "o1 + 10 + unat l"] Suc.prems s o1 by simp
qed simp

text \<open>A message of length \<open>plen\<close> whose sections end there and that has no OPT record.\<close>

definition msg_no_opt :: "bytes \<Rightarrow> nat \<Rightarrow> u16 \<Rightarrow> bool" where
  "msg_no_opt p plen ar \<longleftrightarrow> 12 \<le> plen \<and> plen \<le> length p \<and> get16 p 10 = Some ar \<and>
     (\<exists>qd an ns o1 o2. get16 p 4 = Some qd \<and> get16 p 6 = Some an \<and> get16 p 8 = Some ns
        \<and> skip_questions p plen (unat qd) 12 = Some (Ok o1) \<and> skip_records p plen (unat an + unat ns) o1 = Some (Ok o2)
        \<and> o2 \<le> plen \<and> plain_end p plen (unat ar) o2 = Some plen)"

text \<open>The options in sequence, each read from its own data.\<close>

definition opt_apply :: "u16 \<times> bytes \<Rightarrow> edns_info option \<Rightarrow> edns_info option" where
  "opt_apply x ei = ei \<bind> edns_option (snd x) (length (snd x)) (fst x) (of_nat (length (snd x))) 0"

lemma edns_option_local:
  assumes "take (unat ol) (drop rp p) = d" "rp + unat ol \<le> plen" "plen \<le> length p"
  shows "edns_option p plen oc ol rp ei = edns_option d (length d) oc ol 0 ei"
proof -
  have l: "length d = unat ol" unfolding assms(1) [symmetric] using assms(2,3) by simp
  have d: "p ! (rp + j) = d ! j" if "j < unat ol" for j
    unfolding assms(1) [symmetric] using that assms(2,3) by simp
  have g: "get32 p (rp + i) = get32 d i" if "i + 4 \<le> unat ol" for i
    using that assms(2,3) l d [of i] d [of "Suc i"] d [of "Suc (Suc i)"] d [of "i + 3"]
    by (simp add: get32_def rd8_def add.assoc)
  have r: "rdn p (rp + i) n = rdn d i n" if "i + n \<le> unat ol" for i n
  proof -
    have "take n (drop i d) = take n (drop (rp + i) p)"
      using that take_drop_take [of i n "unat ol" "drop rp p"] assms(1) by (simp add: add.commute)
    then show ?thesis using that assms(2,3) l by (simp add: rdn_def)
  qed
  consider (cookie) "oc = 10" "8 \<le> ol" | (lease) "oc = 2" "ol = 4 \<or> ol = 8"
    | (simple) "\<not> (oc = 10 \<and> 8 \<le> ol)" "\<not> (oc = 2 \<and> (ol = 4 \<or> ol = 8))" by blast
  then show ?thesis
  proof cases
    case cookie
    then have "8 \<le> unat ol" by (simp add: word_le_nat_alt)
    then have "rdn p rp 8 = rdn d 0 8" "rdn p (rp + 8) (unat ol - 8) = rdn d 8 (unat ol - 8)"
      using r [of 0 8] r [of 8 "unat ol - 8"] by simp_all
    then show ?thesis using cookie assms(2) l by (simp add: edns_option_def Let_def cong: if_cong)
  next
    case lease
    then have "4 \<le> unat ol" "ol = 8 \<Longrightarrow> 8 \<le> unat ol" by auto
    then have "get32 p rp = get32 d 0" "ol = 8 \<Longrightarrow> get32 p (rp + 4) = get32 d 4" using g [of 0] g [of 4] by simp_all
    then show ?thesis using lease assms(2) l by (auto simp: edns_option_def)
  next
    case simple
    have c: "(oc = 10 \<and> 8 \<le> ol) = False" "(oc = 2 \<and> (ol = 4 \<or> ol = 8) \<and> X) = False" for X using simple by blast+
    show ?thesis by (simp only: edns_option_def c if_False)
  qed
qed


lemma fold_opt_apply_None [simp]: "fold opt_apply opts None = None"
  by (induction opts) (auto simp: opt_apply_def)

lemma edns_options_enc:
  assumes "take (length (opt_enc opts)) (drop rp p) = opt_enc opts" "rp + length (opt_enc opts) = plen" "plen \<le> length p"
    "\<forall>x \<in> set opts. length (snd x) < 65536"
  shows "edns_options p plen plen rp ei = fold opt_apply opts (Some ei)"
  using assms
proof (induction opts arbitrary: rp ei)
  case Nil
  then show ?case by (simp add: edns_options.simps)
next
  case (Cons x opts)
  obtain c d where x: "x = (c, d)" by force
  let ?n = "of_nat (length d) :: u16" and ?r = "opt_enc opts"
  have n: "unat ?n = length d" using Cons.prems(4) by (simp add: x unat_of_nat_u16)
  have L: "length (opt_enc (x # opts)) = 4 + length d + length ?r" and e: "opt_enc (x # opts) = be16 c @ be16 ?n @ d @ ?r"
    by (simp_all add: x)
  have p: "take (4 + length d + length ?r) (drop rp p) = be16 c @ be16 ?n @ d @ ?r"
    using Cons.prems(1) unfolding L unfolding e .
  have sub: "take k (drop (rp + i) p) = take k (drop i (be16 c @ be16 ?n @ d @ ?r))" if "i + k \<le> 4 + length d + length ?r" for i k
    using take_drop_take [OF that, of "drop rp p"] p by (simp add: add.commute)
  have l: "rp + 4 + length d + length ?r = plen" using Cons.prems(2) by (simp add: x)
  have "get16 p rp = Some c" "get16 p (rp + 2) = Some ?n"
    using sub [of 0 2] sub [of 2 2] l Cons.prems(3) by (simp_all add: get16_at)
  moreover have dd: "take (length d) (drop (rp + 4) p) = d" using sub [of 4 "length d"] by simp
  then have "edns_option p plen c ?n (rp + 4) ei = edns_option d (length d) c ?n 0 ei"
    using l Cons.prems(3) n by (intro edns_option_local) simp_all
  moreover have r: "take (length ?r) (drop (rp + 4 + length d) p) = ?r"
    using sub [of "4 + length d" "length ?r"] by (simp add: add.assoc)
  moreover have "opt_apply x (Some ei) = edns_option d (length d) c ?n 0 ei" by (simp add: opt_apply_def x)
  ultimately show ?case
    using Cons.IH [OF r l Cons.prems(3)] Cons.prems(4) l n
    by (subst edns_options.simps) (cases "edns_option d (length d) c ?n 0 ei"; simp)
qed

lemma opt_enc_size: "x \<in> set opts \<Longrightarrow> length (snd x) + 4 \<le> length (opt_enc opts)"
  by (induction opts rule: opt_enc.induct) auto

lemma skip_name_root: "off < plen \<Longrightarrow> plen \<le> length p \<Longrightarrow> p ! off = 0 \<Longrightarrow> skip_name p plen off = Some (Ok (off + 1))"
  using skip_name_loop.simps(2) [of p plen 127 off] by (simp add: skip_name_def rd8_ok)

text \<open>The information the OPT record of a response carries.\<close>

definition edns_sent :: "edns_args \<Rightarrow> (u16 \<times> bytes) list \<Rightarrow> edns_info option" where
  "edns_sent a opts = fold opt_apply opts
     (Some (edns_zero\<lparr>present := True, max_udp := (if is_tcp a then 65535 else 1232), version := 0, do_bit := a_do a\<rparr>))"

lemma edns_opt_rr_written:
  assumes "take (9 + 2 + length (opt_enc opts)) (drop off p) = opt_head a @ be16 (of_nat (length (opt_enc opts))) @ opt_enc opts"
    "off + 11 + length (opt_enc opts) = plen" "plen \<le> length p" "plen \<le> 65536"
  shows "skip_name p plen off = Some (Ok (off + 1))" "get16 p (off + 1) = Some 41"
    "edns_opt_rr p plen (off + 1) edns_zero = edns_sent a opts"
proof -
  let ?e = "opt_enc opts"
  let ?w = "opt_head a @ be16 (of_nat (length ?e)) @ ?e"
  have sub: "take k (drop (off + i) p) = take k (drop i ?w)" if "i + k \<le> 9 + 2 + length ?e" for i k
    using take_drop_take [OF that, of "drop off p"] assms(1) by (simp add: add.commute)
  have nth: "p ! (off + i) = opt_head a ! i" if "i < 9" for i
  proof -
    have "take 9 (drop off p) = opt_head a" using sub [of 0 9] by simp
    then show ?thesis using that assms(2,3) nth_take [of i 9 "drop off p"] by simp
  qed
  have w: "?w = [0, 0, 41] @ be16 (if is_tcp a then 65535 else 1232)
     @ [ucast (rcode_ext a AND 0xFF), 0, if a_do a then 0x80 else 0, 0] @ be16 (of_nat (length ?e)) @ ?e"
    by (simp add: opt_head_def)
  have "p ! off = 0" using nth [of 0] by (simp add: opt_head_def)
  then show "skip_name p plen off = Some (Ok (off + 1))"
    using assms(2,3) by (intro skip_name_root) simp_all
  have b41: "be16 41 = [0, 41]" by (simp add: be16_def)
  show "get16 p (off + 1) = Some 41"
    using sub [of 1 2] assms(2,3) by (intro get16_at) (simp_all add: w b41)
  have "get16 p (off + 3) = Some (if is_tcp a then 65535 else 1232)"
    using sub [of 3 2] assms(2,3) by (intro get16_at) (simp_all add: w)
  moreover have "get16 p (off + 9) = Some (of_nat (length ?e))"
    using sub [of 9 2] assms(2,3) by (intro get16_at) (simp_all add: w)
  moreover have "rd8 p (off + 6) = Some 0" "rd8 p (off + 7) = Some (if a_do a then 0x80 else 0)"
  proof -
    have "opt_head a ! 6 = 0" "opt_head a ! 7 = (if a_do a then 0x80 else 0)" by (simp_all add: opt_head_def be16_def)
    then show "rd8 p (off + 6) = Some 0" "rd8 p (off + 7) = Some (if a_do a then 0x80 else 0)"
      using nth [of 6] nth [of 7] assms(2,3) by (simp_all only: rd8_def) simp_all
  qed
  moreover have "length ?e < 65536" using assms(2,4) by simp
  then have "unat (of_nat (length ?e) :: u16) = length ?e" by (rule unat_of_nat_u16)
  moreover have "edns_options p plen plen (off + 11) ei = fold opt_apply opts (Some ei)" for ei
  proof (rule edns_options_enc)
    show "take (length ?e) (drop (off + 11) p) = ?e" using sub [of 11 "length ?e"] by simp
    show "\<forall>x \<in> set opts. length (snd x) < 65536" using opt_enc_size [of _ opts] \<open>length ?e < 65536\<close> by fastforce
  qed (use assms in simp_all)
  moreover have i: "off + 1 + 2 = off + 3" "off + 1 + 5 = off + 6" "off + 1 + 6 = off + 7" "off + 1 + 8 = off + 9" "off + 1 + 10 = off + 11"
    by simp_all
  ultimately show "edns_opt_rr p plen (off + 1) edns_zero = edns_sent a opts"
    using assms(2) unfolding edns_opt_rr_def i edns_sent_def by simp
qed

lemma edns_option_keeps:
  assumes "edns_option p plen oc ol rp ei = Some ei'"
  shows "present ei' = present ei \<and> max_udp ei' = max_udp ei \<and> version ei' = version ei \<and> do_bit ei' = do_bit ei"
    "oc \<noteq> 10 \<Longrightarrow> client_cookie ei' = client_cookie ei \<and> has_client_cookie ei' = has_client_cookie ei
       \<and> server_cookie ei' = server_cookie ei \<and> has_server_cookie ei' = has_server_cookie ei
       \<and> server_cookie_len ei' = server_cookie_len ei"
  using assms by (auto simp: edns_option_def Let_def split: if_splits Option.bind_splits)

lemma fold_opt_keeps:
  assumes "fold opt_apply opts (Some ei) = Some ei'"
  shows "present ei' = present ei \<and> max_udp ei' = max_udp ei \<and> version ei' = version ei \<and> do_bit ei' = do_bit ei"
    "10 \<notin> fst ` set opts \<Longrightarrow> client_cookie ei' = client_cookie ei \<and> has_client_cookie ei' = has_client_cookie ei
       \<and> server_cookie ei' = server_cookie ei \<and> has_server_cookie ei' = has_server_cookie ei
       \<and> server_cookie_len ei' = server_cookie_len ei"
  using assms
proof (induction opts arbitrary: ei)
  case (Cons x opts)
  { case 1
    then obtain e where e: "opt_apply x (Some ei) = Some e" "fold opt_apply opts (Some e) = Some ei'"
      by (cases "opt_apply x (Some ei)") auto
    then have "edns_option (snd x) (length (snd x)) (fst x) (of_nat (length (snd x))) 0 ei = Some e"
      by (simp add: opt_apply_def)
    then show ?case using Cons.IH(1) [OF e(2)] edns_option_keeps(1) by metis }
  { case 2
    then obtain e where e: "opt_apply x (Some ei) = Some e" "fold opt_apply opts (Some e) = Some ei'"
      by (cases "opt_apply x (Some ei)") auto
    moreover have "fst x \<noteq> 10" "10 \<notin> fst ` set opts" using 2(1) by auto
    moreover from e have "edns_option (snd x) (length (snd x)) (fst x) (of_nat (length (snd x))) 0 ei = Some e"
      by (simp add: opt_apply_def)
    ultimately show ?case using Cons.IH(2) [of e] edns_option_keeps(2) [of _ _ "fst x" _ _ ei e] by metis }
qed simp_all

lemma fold_opt_wf: "ei_wf ei \<Longrightarrow> fold opt_apply opts (Some ei) = Some e \<Longrightarrow> ei_wf e"
proof (induction opts arbitrary: ei)
  case (Cons x opts)
  obtain e1 where "opt_apply x (Some ei) = Some e1" "ei_wf e1"
    using edns_option_safe [OF Cons.prems(1), of "length (snd x)" "snd x" "fst x" "of_nat (length (snd x))" 0]
    by (auto simp: opt_apply_def)
  then show ?case using Cons by simp
qed simp

lemma cookie_option_read:
  assumes "length cc = 8" "length sc = 16" "ei_wf ei"
  shows "\<exists>ei'. opt_apply (10, cc @ sc) (Some ei) = Some ei' \<and> client_cookie ei' = cc \<and> has_client_cookie ei'
    \<and> server_cookie ei' = sc \<and> has_server_cookie ei' \<and> server_cookie_len ei' = 16"
  using assms by (simp add: opt_apply_def edns_option_def rdn_ok wrn_ok ei_wf_def patch_def Let_def)

lemma fold_add_opt_room:
  "base + length (opt_enc (acc @ xs)) < blen \<Longrightarrow> fold (add_opt base blen) xs acc = acc @ xs"
proof (induction xs arbitrary: acc)
  case (Cons x xs)
  obtain c d where x: "x = (c, d)" by force
  have "base + length (opt_enc acc) + 4 + length d < blen" using Cons.prems by (simp add: x)
  then have "add_opt base blen x acc = acc @ [x]" by (simp add: add_opt_def x)
  then show ?case using Cons.IH [of "acc @ [x]"] Cons.prems by simp
qed simp

lemma pad_opt_shape: "\<exists>P. pad_opt a off base blen opts = opts @ P \<and> 10 \<notin> fst ` set P"
  by (auto simp: pad_opt_def add_opt_def Let_def intro: exI [of _ "[]"])

lemma edns_wanted_cookie:
  assumes "req_ei a = Some r" "scookie a = Some sc" "has_client_cookie r"
  shows "\<exists>A B. edns_wanted a = A @ (10, client_cookie r @ sc) # B \<and> 10 \<notin> fst ` set A \<and> 10 \<notin> fst ` set B"
  unfolding edns_wanted_def assms(1,2) prod.case option.case if_P [OF assms(3)] append_Cons append_Nil
  by (intro exI conjI, rule refl) (auto split: option.splits if_splits)

section \<open>Properties\<close>

text \<open>
  C6: The EDNS parser is safe on every packet: whatever the bytes, \<open>edns_parse\<close> reads inside the packet only, never writes past
  its cookie arrays, always terminates, and leaves cookie fields of the declared sizes.
\<close>

theorem edns_parse_safe:
  assumes "plen \<le> length pkt"
  shows "\<exists>ei. edns_parse pkt plen = Some ei \<and> length (client_cookie ei) = 8 \<and> length (server_cookie ei) = 16
    \<and> server_cookie_len ei \<le> 16"
  using edns_parse_total [OF assms] by (auto simp: ei_wf_def)

theorem edns_parse_safe_witness:
  "\<exists>ei. edns_parse [0, 0, 0, 0, 0, 0, 0, 0, 0, 0, 0, 1, 0, 0, 41, 2, 0, 0, 0, 0x80, 0, 0, 99, 0, 10] 25 = Some ei
    \<and> length (client_cookie ei) = 8"
  using edns_parse_safe [of 25 "[0, 0, 0, 0, 0, 0, 0, 0, 0, 0, 0, 1, 0, 0, 41, 2, 0, 0, 0, 0x80, 0, 0, 99, 0, 10]"] by auto

text \<open>The parser on the message that the builder completed.\<close>

lemma edns_parse_appended:
  assumes "msg_no_opt buf off ar" "unat ar < 65535" "off + 11 \<le> blen" "blen \<le> length buf" "blen \<le> 65536"
  shows "\<exists>buf' off'. edns_append_opt buf off blen a = Some (buf', off') \<and> off + 11 \<le> off' \<and> off' \<le> blen
    \<and> length buf' = length buf \<and> edns_parse buf' off' = edns_sent a (edns_opts a (off + 9) (off + 11) blen)"
proof -
  obtain qd an ns o1 o2 where h: "12 \<le> off" "get16 buf 10 = Some ar" "get16 buf 4 = Some qd" "get16 buf 6 = Some an"
    "get16 buf 8 = Some ns" "skip_questions buf off (unat qd) 12 = Some (Ok o1)"
    "skip_records buf off (unat an + unat ns) o1 = Some (Ok o2)" "o2 \<le> off" "plain_end buf off (unat ar) o2 = Some off"
    using assms(1) by (auto simp: msg_no_opt_def)
  define opts where "opts = edns_opts a (off + 9) (off + 11) blen"
  define rd where "rd = opt_enc opts"
  define w where "w = opt_head a @ be16 (of_nat (length rd)) @ rd"
  define m where "m = patch buf off w"
  let ?p = "patch m 10 (be16 (ar + 1))" and ?n = "off + 11 + length rd"
  note e = edns_append_opt_eq [OF h(1) assms(3,4) h(2), of a, folded opts_def, folded rd_def, folded w_def, folded m_def]
  have lw: "length w = 11 + length rd" by (simp add: w_def)
  have lm: "length m = length buf" using e(2) assms(4) lw by (simp add: m_def)
  have lp: "length ?p = length buf" using lm h(1) assms(3,4) by simp
  have nth: "?p ! i = buf ! i" if "i < off" "i \<noteq> 10" "i \<noteq> 11" for i
  proof -
    have "\<not> (10 \<le> i \<and> i < 10 + length (be16 (ar + 1)))" using that(2,3) by auto
    then have "?p ! i = m ! i" using that(1) h(1) assms(3,4) lm by (subst nth_patch) auto
    also have "m ! i = buf ! i" using that(1) assms(4) e(2) lw by (simp add: nth_patch m_def)
    finally show ?thesis .
  qed
  have ag: "agree 12 off buf ?p" using nth lp assms(3,4) by (simp add: agree_def)
  have g: "get16 ?p 4 = Some qd" "get16 ?p 6 = Some an" "get16 ?p 8 = Some ns"
    using nth h(1,3-5) lp assms(3,4) by (simp_all add: get16_ok)
  have ar: "get16 ?p 10 = Some (ar + 1)" using lm h(1) assms(3,4) by (intro get16_at) (simp_all add: patch_def)
  have una: "unat (ar + 1) = unat ar + 1" using assms(2) by (simp add: unat_add_lem [THEN iffD1])
  have "take (9 + 2 + length rd) (drop off ?p) = w"
  proof -
    have "drop off ?p = drop off m" using h(1) lm assms(3,4) by simp
    then show ?thesis using lw assms(3,4) by (simp add: m_def patch_def)
  qed
  note rr = edns_opt_rr_written [OF this [unfolded w_def rd_def], folded rd_def, OF refl, unfolded lp]
  have n: "?n \<le> length buf" "?n \<le> 65536" using e(2) assms(4,5) by simp_all
  have "skip_questions ?p ?n (unat qd) 12 = Some (Ok o1) \<and> 12 \<le> o1 \<and> o1 \<le> off"
    using skip_questions_agree [OF ag _ _ _ h(6), of ?n] h(1) by simp
  moreover from this have "skip_records ?p ?n (unat an + unat ns) o1 = Some (Ok o2) \<and> 12 \<le> o2"
    using skip_records_agree [OF ag _ _ h(7,8), of ?n] by simp
  moreover from this have "edns_additional ?p ?n (unat ar + 1) o2 edns_zero = edns_additional ?p ?n 1 off edns_zero"
    using edns_additional_plain [OF ag _ _ h(9), of ?n 1 edns_zero] by simp
  moreover have "edns_additional ?p ?n 1 off edns_zero = edns_sent a opts"
    using rr [OF n] n by simp
  ultimately have "edns_parse ?p ?n = edns_sent a opts"
    using g ar una h(1) by (auto simp: edns_parse_def unat_eq_zero)
  then show ?thesis using e lp unfolding opts_def by auto
qed


lemma edns_response:
  assumes "msg_no_opt buf off ar" "unat ar < 65535" "off + 11 \<le> blen" "blen \<le> length buf" "blen \<le> 65536"
    "off + 11 + length (opt_enc (edns_wanted a)) < blen"
  shows "\<exists>buf' off' ei. edns_append_opt buf off blen a = Some (buf', off') \<and> off + 11 \<le> off' \<and> off' \<le> blen
    \<and> edns_parse buf' off' = Some ei \<and> present ei \<and> do_bit ei = a_do a \<and> version ei = 0
    \<and> max_udp ei = (if is_tcp a then 65535 else 1232)
    \<and> (\<forall>r sc. req_ei a = Some r \<longrightarrow> scookie a = Some sc \<longrightarrow> has_client_cookie r \<longrightarrow> length (client_cookie r) = 8 \<longrightarrow>
         length sc = 16 \<longrightarrow> has_client_cookie ei \<and> client_cookie ei = client_cookie r \<and> has_server_cookie ei
           \<and> server_cookie ei = sc \<and> server_cookie_len ei = 16)"
proof -
  let ?opts = "edns_opts a (off + 9) (off + 11) blen"
  let ?e0 = "edns_zero\<lparr>present := True, max_udp := (if is_tcp a then 65535 else 1232), version := 0, do_bit := a_do a\<rparr>"
  obtain buf' off' where b: "edns_append_opt buf off blen a = Some (buf', off')" "off + 11 \<le> off'" "off' \<le> blen"
    "edns_parse buf' off' = fold opt_apply ?opts (Some ?e0)" and l: "length buf' = length buf"
    using edns_parse_appended [OF assms(1-5), of a] by (auto simp: edns_sent_def)
  have "off' \<le> length buf'" using b(3) l assms(4) by simp
  then obtain ei where ei: "edns_parse buf' off' = Some ei" using edns_parse_total by blast
  then have f: "fold opt_apply ?opts (Some ?e0) = Some ei" using b(4) by simp
  obtain P where P: "?opts = edns_wanted a @ P" "10 \<notin> fst ` set P"
    using pad_opt_shape [of a "off + 9" "off + 11" blen "edns_wanted a"] fold_add_opt_room [of "off + 11" "[]" "edns_wanted a" blen] assms(6)
    by (auto simp: edns_opts_def)
  have "has_client_cookie ei \<and> client_cookie ei = client_cookie r \<and> has_server_cookie ei
      \<and> server_cookie ei = sc \<and> server_cookie_len ei = 16"
    if r: "req_ei a = Some r" "scookie a = Some sc" "has_client_cookie r" "length (client_cookie r) = 8" "length sc = 16" for r sc
  proof -
    obtain A B where w: "edns_wanted a = A @ (10, client_cookie r @ sc) # B" "10 \<notin> fst ` set B"
      using edns_wanted_cookie [OF r(1-3)] by blast
    obtain e1 where e1: "fold opt_apply A (Some ?e0) = Some e1"
      using f by (cases "fold opt_apply A (Some ?e0)") (auto simp: P(1) w(1) opt_apply_def)
    have "ei_wf ?e0" by (simp add: ei_wf_def edns_zero_def)
    then have "ei_wf e1" using e1 by (rule fold_opt_wf)
    then obtain e2 where e2: "opt_apply (10, client_cookie r @ sc) (Some e1) = Some e2" "client_cookie e2 = client_cookie r"
      "has_client_cookie e2" "server_cookie e2 = sc" "has_server_cookie e2" "server_cookie_len e2 = 16"
      using cookie_option_read r(4,5) by blast
    have "fold opt_apply (B @ P) (Some e2) = Some ei" using f e1 e2(1) by (simp add: P(1) w(1))
    then show ?thesis using fold_opt_keeps(2) [of "B @ P" e2 ei] w(2) P(2) e2 by (simp add: image_Un)
  qed
  moreover have "present ei \<and> max_udp ei = (if is_tcp a then 65535 else 1232) \<and> version ei = 0 \<and> do_bit ei = a_do a"
    using fold_opt_keeps(1) [OF f] by simp
  ultimately show ?thesis using b(1-3) ei by blast
qed


text \<open>
  A client reads what the server put into the OPT record. For a well-formed message without an OPT record whose buffer
  has room, \<open>edns_append_opt\<close> stays inside the buffer, and \<open>edns_parse\<close> on the completed message finds the OPT record,
  the payload size, the DO bit, version 0 and, when the options asked for fit, the client cookie of the
  request followed by the server cookie.
\<close>

theorem edns_response_reads_back:
  assumes "msg_no_opt buf off ar" "unat ar < 65535" "off + 11 \<le> blen" "blen \<le> length buf" "blen \<le> 65536"
    "off + 11 + length (opt_enc (edns_wanted a)) < blen"
  shows "\<exists>buf' off' ei. edns_append_opt buf off blen a = Some (buf', off') \<and> off + 11 \<le> off' \<and> off' \<le> blen
    \<and> edns_parse buf' off' = Some ei \<and> present ei \<and> do_bit ei = a_do a \<and> version ei = 0
    \<and> max_udp ei = (if is_tcp a then 65535 else 1232)
    \<and> (\<forall>r sc. req_ei a = Some r \<longrightarrow> scookie a = Some sc \<longrightarrow> has_client_cookie r \<longrightarrow> length (client_cookie r) = 8 \<longrightarrow>
         length sc = 16 \<longrightarrow> has_client_cookie ei \<and> client_cookie ei = client_cookie r \<and> has_server_cookie ei
           \<and> server_cookie ei = sc \<and> server_cookie_len ei = 16)"
  by (rule edns_response [OF assms])

definition plain_args :: edns_args where
  "plain_args = \<lparr>is_tcp = False, a_do = True, rcode_ext = 0,
     req_ei = Some (edns_zero\<lparr>client_cookie := [1, 2, 3, 4, 5, 6, 7, 8], has_client_cookie := True\<rparr>), nsid = Some (str ''ns1''),
     scookie = Some (replicate 16 9), ede_code = -1, ede_text = None, zv_labels = -1, zv_serial = 0, report_agent = None,
     has_ul = False, ul_lease = 0, has_ul_key_lease = False, ul_key_lease = 0\<rparr>"

theorem edns_response_reads_back_witness:
  "\<exists>buf' off' ei. edns_append_opt (replicate 100 0) 12 100 plain_args = Some (buf', off') \<and> edns_parse buf' off' = Some ei
     \<and> client_cookie ei = [1, 2, 3, 4, 5, 6, 7, 8] \<and> server_cookie ei = replicate 16 9 \<and> do_bit ei"
proof -
  have "msg_no_opt (replicate 100 0) 12 0" by (simp add: msg_no_opt_def get16_ok)
  moreover have "edns_wanted plain_args = [(3, str ''ns1''), (10, [1, 2, 3, 4, 5, 6, 7, 8] @ replicate 16 9)]"
    by (simp add: edns_wanted_def plain_args_def report_wire_def req_has_def edns_zero_def str_def)
  then have "12 + 11 + length (opt_enc (edns_wanted plain_args)) < 100" by (simp add: str_def)
  ultimately show ?thesis
    using edns_response_reads_back [of "replicate 100 0" 12 0 100 plain_args] by (auto simp: plain_args_def)
qed

text \<open>
  The padding of RFC 8467 has a gap: the four bytes of the option header are counted before it is decided whether an option is
  needed, so when the message with that header would end exactly at a block boundary no padding is written and
  the response ends four bytes before it. A response over TCP of 453 bytes before the OPT record leaves with 464 bytes, not 468.
\<close>

theorem edns_padding_gap:
  "\<exists>buf'. edns_append_opt (replicate 1000 0) 453 1000 (plain_args\<lparr>is_tcp := True, req_ei := None, nsid := None\<rparr>) = Some (buf', 464)"
proof -
  let ?a = "plain_args\<lparr>is_tcp := True, req_ei := None, nsid := None\<rparr>"
  have "edns_wanted ?a = []" by (simp add: edns_wanted_def plain_args_def report_wire_def req_has_def)
  then have "edns_opts ?a (453 + 9) (453 + 11) 1000 = []"
    by (simp add: edns_opts_def pad_opt_def req_has_def Let_def)
  then show ?thesis
    using edns_append_opt_eq(1) [of 453 1000 "replicate 1000 0" 0 ?a] by (simp add: get16_ok)
qed

end
