(* ===== verification/Cookie.thy ===== *)
theory Cookie
  imports Edns
begin

text \<open>
  DNS cookies of \<open>dns_server.c\<close> (RFC 9018): SipHash-2-4 (\<open>siphash24\<close>), the server cookie
  (\<open>compute_server_cookie\<close>) and its verification (\<open>cookie_verify\<close>). The secret \<open>g_cookie_secret\<close>, the clock and the
  four bytes of the client address are arguments. The machine is little-endian, as \<open>memcpy\<close> of the hash has it.
\<close>

section \<open>SipHash\<close>

definition SIPHASH_ROTL :: "u64 \<Rightarrow> nat \<Rightarrow> u64" where
  "SIPHASH_ROTL x b = push_bit b x OR drop_bit (64 - b) x"

type_synonym sip_state = "u64 \<times> u64 \<times> u64 \<times> u64"

definition SIPROUND :: "sip_state \<Rightarrow> sip_state" where
  "SIPROUND s =
     (let (v0, v1, v2, v3) = s;
          v0 = v0 + v1;
          v1 = SIPHASH_ROTL v1 13;
          v1 = v1 XOR v0;
          v0 = SIPHASH_ROTL v0 32;
          v2 = v2 + v3;
          v3 = SIPHASH_ROTL v3 16;
          v3 = v3 XOR v2;
          v0 = v0 + v3;
          v3 = SIPHASH_ROTL v3 21;
          v3 = v3 XOR v0;
          v2 = v2 + v1;
          v1 = SIPHASH_ROTL v1 17;
          v1 = v1 XOR v2;
          v2 = SIPHASH_ROTL v2 32
      in (v0, v1, v2, v3))"

text \<open>Bytes assembled least significant first: the eight of a message word, or those left at the end.\<close>

fun le_bytes :: "bytes \<Rightarrow> u64" where
  "le_bytes [] = 0"
| "le_bytes (b # bs) = ucast b OR push_bit 8 (le_bytes bs)"

function sip_loop :: "bytes \<Rightarrow> nat \<Rightarrow> sip_state \<Rightarrow> sip_state \<times> nat" where
  "sip_loop inp i s =
     (if i + 7 < length inp then
        (let m = le_bytes (take 8 (drop i inp));
             (v0, v1, v2, v3) = s;
             (v0, v1, v2, v3) = SIPROUND (SIPROUND (v0, v1, v2, v3 XOR m))
         in sip_loop inp (i + 8) (v0 XOR m, v1, v2, v3))
      else (s, i))"
  by pat_completeness auto
termination by (relation "measure (\<lambda>(inp, i, s). length inp - i)") auto

declare sip_loop.simps [simp del]

definition siphash24 :: "bytes \<Rightarrow> bytes \<Rightarrow> u64" where
  "siphash24 inp key =
     (let k0 = le_bytes (take 8 key);
          k1 = le_bytes (take 8 (drop 8 key));
          ((v0, v1, v2, v3), i) =
            sip_loop inp 0 (k0 XOR 0x736f6d6570736575, k1 XOR 0x646f72616e646f6d,
              k0 XOR 0x6c7967656e657261, k1 XOR 0x7465646279746573);
          last = push_bit 56 (of_nat (length inp) AND 0xFF);
          last = last OR le_bytes (drop i inp);
          (v0, v1, v2, v3) = SIPROUND (SIPROUND (v0, v1, v2, v3 XOR last));
          (v0, v1, v2, v3) = SIPROUND (SIPROUND (SIPROUND (SIPROUND (v0 XOR last, v1, v2 XOR 0xFF, v3))))
      in v0 XOR v1 XOR v2 XOR v3)"

section \<open>Cookies\<close>

definition le64 :: "u64 \<Rightarrow> bytes" where
  "le64 h = map (\<lambda>i. ucast (drop_bit (8 * i) h)) [0, 1, 2, 3, 4, 5, 6, 7]"

definition compute_server_cookie :: "bytes \<Rightarrow> bytes \<Rightarrow> bytes \<Rightarrow> u32 \<Rightarrow> bytes" where
  "compute_server_cookie g_cookie_secret ccookie cip timestamp =
     (let out8 = [1, 0, 0, 0, ucast (drop_bit 24 timestamp AND 0xFF), ucast (drop_bit 16 timestamp AND 0xFF),
                  ucast (drop_bit 8 timestamp AND 0xFF), ucast (timestamp AND 0xFF)];
          hin = take 8 ccookie @ out8 @ take 4 cip
      in out8 @ le64 (siphash24 hin g_cookie_secret))"

definition cookie_ts :: "bytes \<Rightarrow> u32" where
  "cookie_ts sc = push_bit 24 (ucast (sc ! 4)) OR push_bit 16 (ucast (sc ! 5)) OR push_bit 8 (ucast (sc ! 6)) OR ucast (sc ! 7)"

definition cookie_verify :: "bytes \<Rightarrow> u32 \<Rightarrow> edns_info \<Rightarrow> bytes \<Rightarrow> bool" where
  "cookie_verify g_cookie_secret now ei cip =
     (if \<not> has_client_cookie ei then True
      else if \<not> has_server_cookie ei then False
      else if server_cookie_len ei \<noteq> 16 then False
      else let ts = cookie_ts (server_cookie ei) in
        if ts > now \<or> now - ts > 3600 then False
        else compute_server_cookie g_cookie_secret (client_cookie ei) cip ts = take 16 (server_cookie ei))"

section \<open>The code computes SipHash\<close>

text \<open>The specification of the paper: rounds with both halves in parallel, and a message padded to words.\<close>

definition sipround_spec :: "sip_state \<Rightarrow> sip_state" where
  "sipround_spec = (\<lambda>(v0, v1, v2, v3).
     let a0 = v0 + v1; a2 = v2 + v3; a1 = word_rotl 13 v1 XOR a0; a3 = word_rotl 16 v3 XOR a2; b0 = word_rotl 32 a0;
         c2 = a2 + a1; c0 = b0 + a3; c1 = word_rotl 17 a1 XOR c2; c3 = word_rotl 21 a3 XOR c0
     in (c0, c1, word_rotl 32 c2, c3))"

definition sip_compress :: "u64 \<Rightarrow> sip_state \<Rightarrow> sip_state" where
  "sip_compress m = (\<lambda>(v0, v1, v2, v3).
     case (sipround_spec ^^ 2) (v0, v1, v2, v3 XOR m) of (w0, w1, w2, w3) \<Rightarrow> (w0 XOR m, w1, w2, w3))"

definition sip_pad :: "bytes \<Rightarrow> bytes" where
  "sip_pad m = m @ replicate (7 - length m mod 8) 0 @ [of_nat (length m)]"

fun sip_words :: "bytes \<Rightarrow> nat \<Rightarrow> u64 list" where
  "sip_words m 0 = []"
| "sip_words m (Suc n) = le_bytes (take 8 m) # sip_words (drop 8 m) n"

definition sip_init :: "u64 \<Rightarrow> u64 \<Rightarrow> sip_state" where
  "sip_init k0 k1 = (0x736f6d6570736575 XOR k0, 0x646f72616e646f6d XOR k1, 0x6c7967656e657261 XOR k0, 0x7465646279746573 XOR k1)"

definition siphash_spec :: "bytes \<Rightarrow> u64 \<Rightarrow> u64 \<Rightarrow> u64" where
  "siphash_spec m k0 k1 =
     (case fold sip_compress (sip_words (sip_pad m) (length m div 8 + 1)) (sip_init k0 k1) of
        (v0, v1, v2, v3) \<Rightarrow>
          (case (sipround_spec ^^ 4) (v0, v1, v2 XOR 0xFF, v3) of (w0, w1, w2, w3) \<Rightarrow> w0 XOR w1 XOR w2 XOR w3))"

lemma rotl_eq:
  assumes "0 < b" "b < 64"
  shows "SIPHASH_ROTL x b = word_rotl b x"
proof (rule bit_word_eqI)
  fix n assume n: "n < LENGTH(64)"
  have n': "n < 64" using n by simp
  have r: "bit (word_rotl b x) n = bit x ((n + (64 - b)) mod 64)" using n' assms by (simp add: bit_word_rotl_iff)
  have l: "bit (SIPHASH_ROTL x b) n = (b \<le> n \<and> bit x (n - b) \<or> bit x (64 - b + n))"
    using n' by (simp add: SIPHASH_ROTL_def bit_simps)
  show "bit (SIPHASH_ROTL x b) n = bit (word_rotl b x) n"
  proof (cases "n < b")
    case True
    then have "(n + (64 - b)) mod 64 = 64 - b + n" using assms by simp
    then show ?thesis using True unfolding l r by simp
  next
    case False
    then have "n + (64 - b) = (n - b) + 64" using assms by simp
    then have "(n + (64 - b)) mod 64 = n - b" using n' False by (simp only: mod_add_self2 mod_less)
    moreover have "\<not> bit x (64 - b + n)" using bit_imp_le_length [of x "64 - b + n"] False assms by auto
    ultimately show ?thesis using False unfolding l r by simp
  qed
qed

lemma SIPROUND_eq: "SIPROUND s = sipround_spec s"
  by (cases s) (simp add: SIPROUND_def sipround_spec_def rotl_eq Let_def)

lemma sip_loop_step:
  "sip_loop inp i s = (if i + 7 < length inp then sip_loop inp (i + 8) (sip_compress (le_bytes (take 8 (drop i inp))) s) else (s, i))"
  by (subst sip_loop.simps)
    (auto simp: sip_compress_def SIPROUND_eq Let_def numeral_2_eq_2 split: prod.splits)

lemma sip_loop_spec:
  "sip_loop inp i s = (fold sip_compress (sip_words (drop i inp) ((length inp - i) div 8)) s, i + 8 * ((length inp - i) div 8))"
proof (induction "length inp - i" arbitrary: i s rule: less_induct)
  case less
  show ?case
  proof (cases "i + 7 < length inp")
    case True
    have q: "(length inp - i) div 8 = Suc ((length inp - (i + 8)) div 8)"
      using True by (simp add: div_if)
    have "sip_loop inp (i + 8) t = (fold sip_compress (sip_words (drop (i + 8) inp) ((length inp - (i + 8)) div 8)) t,
        i + 8 + 8 * ((length inp - (i + 8)) div 8))" for t
      using True by (intro less) simp
    then show ?thesis using True by (subst sip_loop_step) (simp add: q add.commute)
  next
    case False
    then have "(length inp - i) div 8 = 0" by simp
    then show ?thesis using False by (subst sip_loop_step) simp
  qed
qed

lemma le_bytes_append: "le_bytes (xs @ ys) = le_bytes xs OR push_bit (8 * length xs) (le_bytes ys)"
  by (induction xs) (simp_all add: push_bit_push_bit or.assoc push_bit_or algebra_simps)

lemma le_bytes_zeros [simp]: "le_bytes (replicate n 0) = 0"
  by (induction n) simp_all

lemma sip_words_append:
  "8 * q \<le> length m \<Longrightarrow> sip_words (m @ r) (q + 1) = sip_words m q @ [le_bytes (take 8 (drop (8 * q) (m @ r)))]"
proof (induction q arbitrary: m)
  case (Suc q)
  then have "8 \<le> length m" "8 * q \<le> length (drop 8 m)" by simp_all
  then show ?case using Suc.IH [of "drop 8 m"] by (simp add: add.commute)
qed simp

lemma sip_last_word:
  fixes m :: bytes
  defines "q \<equiv> length m div 8"
  shows "le_bytes (take 8 (drop (8 * q) (sip_pad m))) = push_bit 56 (of_nat (length m) AND 0xFF) OR le_bytes (drop (8 * q) m)"
proof -
  let ?r = "drop (8 * q) m"
  have l: "length ?r = length m mod 8" by (simp add: q_def minus_mult_div_eq_mod)
  have "take 8 (drop (8 * q) (sip_pad m)) = ?r @ replicate (7 - length ?r) 0 @ [of_nat (length m)]"
    using l by (simp add: sip_pad_def q_def)
  moreover have "ucast (of_nat (length m) :: u8) = (of_nat (length m) AND 0xFF :: u64)"
  proof -
    have "(0xFF :: u64) = mask 8" by (simp add: mask_eq_exp_minus_1)
    then have "(of_nat (length m) AND 0xFF :: u64) = take_bit 8 (of_nat (length m))" by (simp only: take_bit_eq_mask)
    then show ?thesis by (simp add: unsigned_of_nat of_nat_take_bit)
  qed
  moreover have "8 * length ?r + 8 * (7 - length ?r) = 56"
  proof -
    have "length ?r \<le> 7" using l by simp
    then show ?thesis by linarith
  qed
  ultimately show ?thesis
    by (simp add: le_bytes_append push_bit_push_bit or.commute algebra_simps del: push_bit_of_nat)
qed

lemma sip_init_swap:
  "(k0 XOR 0x736f6d6570736575, k1 XOR 0x646f72616e646f6d, k0 XOR 0x6c7967656e657261, k1 XOR 0x7465646279746573) = sip_init k0 k1"
  by (simp add: sip_init_def xor.commute)

lemma funpow_2: "(f ^^ 2) x = f (f x)"
  by (simp add: numeral_2_eq_2)

lemma funpow_4: "(f ^^ 4) x = f (f (f (f x)))"
  by (simp add: eval_nat_numeral)

text \<open>
  C26: \<open>siphash24\<close> is SipHash-2-4 of the specification, for every message and key: the macro's interleaved round is the round of the
  paper, and the loop, the fall-through switch and the length byte are its padding into 64-bit little-endian words.
\<close>

theorem siphash24_correct:
  "siphash24 m key = siphash_spec m (le_bytes (take 8 key)) (le_bytes (take 8 (drop 8 key)))"
proof -
  let ?q = "length m div 8"
  have "sip_words (sip_pad m) (?q + 1) = sip_words m ?q @ [le_bytes (take 8 (drop (8 * ?q) (sip_pad m)))]"
    unfolding sip_pad_def by (rule sip_words_append) simp
  moreover obtain v0 v1 v2 v3 where F: "fold sip_compress (sip_words m ?q)
      (sip_init (le_bytes (take 8 key)) (le_bytes (take 8 (drop 8 key)))) = (v0, v1, v2, v3)"
    by (cases "fold sip_compress (sip_words m ?q) (sip_init (le_bytes (take 8 key)) (le_bytes (take 8 (drop 8 key))))")
  moreover obtain w0 w1 w2 w3 where
    "(sipround_spec ^^ 2) (v0, v1, v2, v3 XOR (push_bit 56 (of_nat (length m) AND 0xFF) OR le_bytes (drop (8 * ?q) m))) = (w0, w1, w2, w3)"
    by (cases "(sipround_spec ^^ 2) (v0, v1, v2, v3 XOR (push_bit 56 (of_nat (length m) AND 0xFF) OR le_bytes (drop (8 * ?q) m)))")
  ultimately show ?thesis
    using sip_loop_spec [of m 0 "sip_init (le_bytes (take 8 key)) (le_bytes (take 8 (drop 8 key)))"]
    unfolding siphash24_def siphash_spec_def sip_last_word
    by (simp add: sip_init_def [symmetric] sip_init_swap sip_compress_def SIPROUND_eq Let_def funpow_2 funpow_4 del: funpow.simps)
qed

section \<open>Accepting cookies\<close>

lemma length_cookie [simp]: "length (compute_server_cookie k cc ip ts) = 16"
  by (simp add: compute_server_cookie_def le64_def Let_def)

lemma cookie_ts_compute: "cookie_ts (compute_server_cookie k cc ip ts) = ts"
  using get32_be [of ts] unfolding ucast_and_FF
  by (simp add: cookie_ts_def compute_server_cookie_def Let_def ucast_and_FF nth_append)

lemma cookie_verify_iff:
  assumes "has_client_cookie ei" "length (server_cookie ei) = 16"
  shows "cookie_verify k now ei ip \<longleftrightarrow> has_server_cookie ei \<and> server_cookie_len ei = 16
    \<and> (\<exists>ts. ts \<le> now \<and> now - ts \<le> 3600 \<and> server_cookie ei = compute_server_cookie k (client_cookie ei) ip ts)"
proof
  assume "cookie_verify k now ei ip"
  then show "has_server_cookie ei \<and> server_cookie_len ei = 16
    \<and> (\<exists>ts. ts \<le> now \<and> now - ts \<le> 3600 \<and> server_cookie ei = compute_server_cookie k (client_cookie ei) ip ts)"
    using assms by (auto simp: cookie_verify_def Let_def not_less split: if_splits)
next
  assume "has_server_cookie ei \<and> server_cookie_len ei = 16
    \<and> (\<exists>ts. ts \<le> now \<and> now - ts \<le> 3600 \<and> server_cookie ei = compute_server_cookie k (client_cookie ei) ip ts)"
  then show "cookie_verify k now ei ip" using assms by (auto simp: cookie_verify_def Let_def not_less cookie_ts_compute)
qed

text \<open>
  C15: The cookie handshake closes. A response that carries the client cookie of a request and the server cookie
  computed for the client's address at time \<open>ts\<close> is read back by the EDNS parser as cookies that \<open>cookie_verify\<close> accepts for the same
  address during the hour that follows; and a query with cookies is accepted only if its server cookie
  is the one the server computes for that client cookie and address at some time within the last hour.
\<close>

theorem cookie_handshake:
  assumes "msg_no_opt buf off ar" "unat ar < 65535" "off + 11 \<le> blen" "blen \<le> length buf" "blen \<le> 65536"
    "off + 11 + length (opt_enc (edns_wanted a)) < blen"
    "req_ei a = Some r" "has_client_cookie r" "length (client_cookie r) = 8"
    "scookie a = Some (compute_server_cookie secret (client_cookie r) cip ts)" "ts \<le> now" "now - ts \<le> 3600"
  shows "(\<exists>buf' off' ei. edns_append_opt buf off blen a = Some (buf', off') \<and> edns_parse buf' off' = Some ei
      \<and> has_server_cookie ei \<and> cookie_verify secret now ei cip)
    \<and> (\<forall>ei. edns_parse pkt plen = Some ei \<longrightarrow> plen \<le> length pkt \<longrightarrow> has_client_cookie ei \<longrightarrow> cookie_verify secret now ei cip \<longrightarrow>
        (\<exists>t \<le> now. now - t \<le> 3600 \<and> server_cookie ei = compute_server_cookie secret (client_cookie ei) cip t))"
proof -
  obtain buf' off' ei where e: "edns_append_opt buf off blen a = Some (buf', off')" "edns_parse buf' off' = Some ei"
    "has_client_cookie ei" "client_cookie ei = client_cookie r" "has_server_cookie ei" "server_cookie_len ei = 16"
    "server_cookie ei = compute_server_cookie secret (client_cookie r) cip ts"
    using edns_response [OF assms(1-6)] assms(7-10) by (auto simp: length_cookie)
  then have "cookie_verify secret now ei cip" using assms(11,12) by (subst cookie_verify_iff) auto
  moreover have "\<exists>t \<le> now. now - t \<le> 3600 \<and> server_cookie ei = compute_server_cookie secret (client_cookie ei) cip t"
    if "edns_parse pkt plen = Some ei" "plen \<le> length pkt" "has_client_cookie ei" "cookie_verify secret now ei cip" for ei
    using that edns_parse_total [OF that(2)] cookie_verify_iff [of ei secret now cip] by (auto simp: ei_wf_def)
  ultimately show ?thesis using e by blast
qed

theorem cookie_handshake_witness:
  "\<exists>buf' off' ei. edns_append_opt (replicate 100 0) 12 100
      (plain_args\<lparr>scookie := Some (compute_server_cookie (replicate 16 7) [1, 2, 3, 4, 5, 6, 7, 8] [10, 0, 0, 1] 1000)\<rparr>) = Some (buf', off')
     \<and> edns_parse buf' off' = Some ei \<and> cookie_verify (replicate 16 7) 4000 ei [10, 0, 0, 1]"
proof -
  let ?a = "plain_args\<lparr>scookie := Some (compute_server_cookie (replicate 16 7) [1, 2, 3, 4, 5, 6, 7, 8] [10, 0, 0, 1] 1000)\<rparr>"
  let ?r = "edns_zero\<lparr>client_cookie := [1, 2, 3, 4, 5, 6, 7, 8], has_client_cookie := True\<rparr>"
  have "msg_no_opt (replicate 100 0) 12 0" by (simp add: msg_no_opt_def get16_ok)
  moreover have "edns_wanted ?a = [(3, str ''ns1''), (10, [1, 2, 3, 4, 5, 6, 7, 8] @ compute_server_cookie (replicate 16 7) [1, 2, 3, 4, 5, 6, 7, 8] [10, 0, 0, 1] 1000)]"
    by (simp add: edns_wanted_def plain_args_def report_wire_def req_has_def edns_zero_def str_def)
  then have "12 + 11 + length (opt_enc (edns_wanted ?a)) < 100" by (simp add: str_def)
  ultimately show ?thesis
    using cookie_handshake [of "replicate 100 0" 12 0 100 ?a ?r "replicate 16 7" "[10, 0, 0, 1]" 1000 4000]
    by (simp add: plain_args_def) blast
qed

end
