(* ===== verification/Resp.thy ===== *)
theory Resp
  imports CString "HOL-Library.Sublist"
begin

text \<open>
  The Valkey client of \<open>dns_wire.c\<close>: buffered reading (\<open>vkc_fill\<close>, \<open>vkc_readline\<close>, \<open>vkc_readbytes\<close>), replies
  (\<open>vkc_parse\<close>), commands (\<open>vkc_cmd_v\<close>, \<open>vkc_cmd\<close>, \<open>vkc_send_cmd\<close>), transactions (\<open>vkc_txn_begin\<close>, \<open>vkc_txn_queue\<close>,
  \<open>vkc_txn_commit\<close>) and \<open>vkc_scan_keys\<close>.

  The socket is part of the connection state. \<open>rx\<close> is what the peer sends, cut into the pieces in which it arrives, in
  any way; an empty piece or the end of the list is a \<open>recv\<close> that fails. \<open>tx_caps\<close> are the sizes the kernel takes in successive
  \<open>send\<close> calls, \<open>tx\<close> is what was sent. \<open>rbuf\<close> holds the \<open>rlen\<close> valid bytes of the array.
\<close>

section \<open>Reading\<close>

definition VKC_BUF :: nat where "VKC_BUF = 65536"

record vkc_conn =
  fd :: int
  rbuf :: bytes
  rpos :: nat
  rx :: "bytes list"
  tx_caps :: "nat list"
  tx :: bytes

definition recv :: "nat \<Rightarrow> bytes list \<Rightarrow> (bytes \<times> bytes list) option" where
  "recv room q =
     (case q of
        [] \<Rightarrow> None
      | ch # q \<Rightarrow> if ch = [] then None
                  else Some (take room ch, if length ch \<le> room then q else drop room ch # q))"

definition vkc_compact :: "vkc_conn \<Rightarrow> vkc_conn" where
  "vkc_compact c =
     (if rpos c > 0 \<and> length (rbuf c) > rpos c then c\<lparr>rbuf := drop (rpos c) (rbuf c), rpos := 0\<rparr>
      else if rpos c \<ge> length (rbuf c) then c\<lparr>rbuf := [], rpos := 0\<rparr> else c)"

definition vkc_fill :: "vkc_conn \<Rightarrow> vkc_conn \<times> nat cres" where
  "vkc_fill c =
     (let c = vkc_compact c; room = VKC_BUF - length (rbuf c) - 1
      in if room = 0 then (c, Err)
         else case recv room (rx c) of
           None \<Rightarrow> (c\<lparr>rx := tl (rx c)\<rparr>, Err)
         | Some (got, q) \<Rightarrow> (c\<lparr>rbuf := rbuf c @ got, rx := q\<rparr>, Ok (length got)))"

text \<open>The bytes that have arrived or will arrive and are not consumed yet.\<close>

definition pending :: "vkc_conn \<Rightarrow> bytes" where
  "pending c = drop (rpos c) (rbuf c) @ concat (rx c)"

definition rx_size :: "vkc_conn \<Rightarrow> nat" where
  "rx_size c = length (concat (rx c))"

lemma vkc_compact_facts [simp]:
  "rx (vkc_compact c) = rx c" "drop (rpos (vkc_compact c)) (rbuf (vkc_compact c)) = drop (rpos c) (rbuf c)"
  "fd (vkc_compact c) = fd c" "tx (vkc_compact c) = tx c" "tx_caps (vkc_compact c) = tx_caps c"
  by (auto simp: vkc_compact_def)

lemma vkc_fill_size: "vkc_fill c = (c', Ok n) \<Longrightarrow> rx_size c' < rx_size c"
  by (auto simp: vkc_fill_def Let_def recv_def rx_size_def split: option.splits list.splits if_splits)

function vkc_readline :: "vkc_conn \<Rightarrow> nat \<Rightarrow> vkc_conn \<times> bytes cres" where
  "vkc_readline c olen =
     (let u = drop (rpos c) (rbuf c); l = takeWhile (\<lambda>b. b \<noteq> 10) u
      in if length l < length u then
           (let len = length l;
                len = (if len > 0 \<and> l ! (len - 1) = 13 then len - 1 else len);
                len = (if len \<ge> olen then olen - 1 else len)
            in (c\<lparr>rpos := rpos c + length l + 1\<rparr>, Ok (take len l)))
         else (case vkc_fill c of
             (c', Err) \<Rightarrow> (c', Err)
           | (c', Ok _) \<Rightarrow> vkc_readline c' olen))"
  by pat_completeness auto
termination by (relation "measure (\<lambda>(c, olen). rx_size c)") (auto dest: vkc_fill_size [OF sym])

declare vkc_readline.simps [simp del]

text \<open>The two loops of \<open>vkc_readbytes\<close>: the payload, then the two bytes that end it.\<close>

function vkc_payload :: "vkc_conn \<Rightarrow> nat \<Rightarrow> bytes \<Rightarrow> vkc_conn \<times> bytes cres" where
  "vkc_payload c n out =
     (if length out < n then
        (let avail = length (rbuf c) - rpos c
         in if avail = 0 then
              (case vkc_fill c of
                 (c', Err) \<Rightarrow> (c', Err)
               | (c', Ok _) \<Rightarrow> vkc_payload c' n out)
            else (let k = (if n - length out < avail then n - length out else avail)
                  in vkc_payload (c\<lparr>rpos := rpos c + k\<rparr>) n (out @ take k (drop (rpos c) (rbuf c)))))
      else (c, Ok out))"
  by pat_completeness auto
termination
  by (relation "measures [\<lambda>(c, n, out). rx_size c, \<lambda>(c, n, out). n - length out]")
    (auto dest: vkc_fill_size [OF sym] simp: rx_size_def)

declare vkc_payload.simps [simp del]

function vkc_skip2 :: "vkc_conn \<Rightarrow> vkc_conn \<times> unit cres" where
  "vkc_skip2 c =
     (if length (rbuf c) < rpos c + 2 then
        (case vkc_fill c of
           (c', Err) \<Rightarrow> (c', Err)
         | (c', Ok _) \<Rightarrow> vkc_skip2 c')
      else (c\<lparr>rpos := rpos c + 2\<rparr>, Ok ()))"
  by pat_completeness auto
termination by (relation "measure rx_size") (auto dest: vkc_fill_size [OF sym])

declare vkc_skip2.simps [simp del]

definition vkc_readbytes :: "vkc_conn \<Rightarrow> nat \<Rightarrow> vkc_conn \<times> bytes cres" where
  "vkc_readbytes c n =
     (case vkc_payload c n [] of
        (c, Err) \<Rightarrow> (c, Err)
      | (c, Ok out) \<Rightarrow>
          (case vkc_skip2 c of
             (c, Err) \<Rightarrow> (c, Err)
           | (c, Ok _) \<Rightarrow> (c, Ok out)))"

section \<open>Replies\<close>

record vkc_reply =
  rtype :: nat
  integer :: int
  rstr :: bytes
  count :: int

definition reply0 :: vkc_reply where
  "reply0 = \<lparr>rtype = 0, integer = 0, rstr = [], count = 0\<rparr>"

function vkc_drain :: "vkc_conn \<Rightarrow> nat \<Rightarrow> vkc_conn \<times> unit cres" where
  "vkc_drain c excess =
     (if excess > 0 then
        (let d = (if excess > 256 then 256 else excess)
         in case vkc_readbytes c d of
              (c, Err) \<Rightarrow> (c, Err)
            | (c, Ok _) \<Rightarrow> vkc_drain c (excess - d))
      else (c, Ok ()))"
  by pat_completeness auto
termination by (relation "measure (\<lambda>(c, e). e)") auto

declare vkc_drain.simps [simp del]

definition vkc_bulk :: "vkc_conn \<Rightarrow> int \<Rightarrow> vkc_conn \<times> vkc_reply cres" where
  "vkc_bulk c bl =
     (if bl < 0 then (c, Ok (reply0\<lparr>rtype := 4\<rparr>))
      else
        (let tk = (if bl < int VKC_BUF - 1 then nat bl else VKC_BUF - 1)
         in case vkc_readbytes c tk of
              (c, Err) \<Rightarrow> (c, Err)
            | (c, Ok s) \<Rightarrow>
                (case vkc_drain c (nat bl - tk) of
                   (c, Err) \<Rightarrow> (c, Err)
                 | (c, Ok _) \<Rightarrow> (c, Ok (reply0\<lparr>rtype := 2, rstr := s\<rparr>)))))"

definition vkc_parse :: "vkc_conn \<Rightarrow> vkc_conn \<times> vkc_reply cres" where
  "vkc_parse c =
     (case vkc_readline c 512 of
        (c, Err) \<Rightarrow> (c, Err)
      | (c, Ok line) \<Rightarrow>
          (let r = cstr_of (tl line); ch = (if line = [] then 0 else hd line)
           in if ch = 43 then (c, Ok (reply0\<lparr>rtype := 0, rstr := safe_strcpy [] r VKC_BUF\<rparr>))
              else if ch = 45 then (c, Ok (reply0\<lparr>rtype := 1, rstr := safe_strcpy [] r VKC_BUF\<rparr>))
              else if ch = 58 then (c, Ok (reply0\<lparr>rtype := 3, integer := fst (strtol 10 r)\<rparr>))
              else if ch = 36 then vkc_bulk c (atoi r)
              else if ch = 42 then (c, Ok (reply0\<lparr>rtype := 5, count := atoi r\<rparr>))
              else (c, Err)))"

section \<open>Commands\<close>

definition crlf :: bytes where "crlf = [13, 10]"

text \<open>
  \<open>vkc_send\<close>: each call of \<open>send\<close> takes some of the bytes that are left; no entry or 0 is a failed call.
\<close>

function vkc_send :: "vkc_conn \<Rightarrow> bytes \<Rightarrow> vkc_conn \<times> unit cres" where
  "vkc_send c cmd =
     (if cmd = [] then (c, Ok ())
      else case tx_caps c of
        [] \<Rightarrow> (c, Err)
      | n # caps \<Rightarrow>
          if n = 0 then (c\<lparr>tx_caps := caps\<rparr>, Err)
          else vkc_send (c\<lparr>tx_caps := caps, tx := tx c @ take n cmd\<rparr>) (drop n cmd))"
  by pat_completeness auto
termination by (relation "measure (\<lambda>(c, cmd). length cmd)") auto

declare vkc_send.simps [simp del]

fun vkc_encode_loop :: "cstr list \<Rightarrow> bytes \<Rightarrow> bytes cres" where
  "vkc_encode_loop [] buf = (if length buf \<ge> 8192 then Err else Ok buf)"
| "vkc_encode_loop (a # as) buf =
     (if length buf \<ge> 8192 then Err
      else vkc_encode_loop as (buf @ [36] @ dec (length a) @ crlf @ a @ crlf))"

definition vkc_encode :: "cstr list \<Rightarrow> bytes cres" where
  "vkc_encode args = vkc_encode_loop args ([42] @ dec (length args) @ crlf)"

definition vkc_cmd :: "vkc_conn \<Rightarrow> cstr list \<Rightarrow> vkc_conn \<times> vkc_reply cres" where
  "vkc_cmd c args =
     (case vkc_encode args of
        Err \<Rightarrow> (c, Err)
      | Ok buf \<Rightarrow>
          (case vkc_send c buf of
             (c, Err) \<Rightarrow> (c, Err)
           | (c, Ok _) \<Rightarrow> vkc_parse c))"

definition vkc_send_cmd :: "vkc_conn \<Rightarrow> cstr list \<Rightarrow> vkc_conn \<times> unit cres" where
  "vkc_send_cmd c args =
     (case vkc_encode args of
        Err \<Rightarrow> (c, Err)
      | Ok buf \<Rightarrow> vkc_send c buf)"

section \<open>Transactions\<close>

record vkc_txn =
  err :: bool
  tn :: nat

definition vkc_txn_begin :: "vkc_conn \<Rightarrow> vkc_txn \<times> vkc_conn" where
  "vkc_txn_begin c =
     (case vkc_cmd c [str ''MULTI''] of
        (c, Err) \<Rightarrow> (\<lparr>err = True, tn = 0\<rparr>, c\<lparr>fd := -1\<rparr>)
      | (c, Ok r) \<Rightarrow> (\<lparr>err = (rtype r \<noteq> 0), tn = 0\<rparr>, c))"

definition vkc_txn_queue :: "vkc_txn \<times> vkc_conn \<Rightarrow> cstr list \<Rightarrow> vkc_txn \<times> vkc_conn" where
  "vkc_txn_queue tc args =
     (let (t, c) = tc
      in if err t then (t, c)
         else case vkc_cmd c args of
           (c, Err) \<Rightarrow> (t\<lparr>err := True\<rparr>, c\<lparr>fd := -1\<rparr>)
         | (c, Ok r) \<Rightarrow> if rtype r \<noteq> 0 then (t\<lparr>err := True\<rparr>, c) else (t\<lparr>tn := tn t + 1\<rparr>, c))"

fun vkc_parse_n :: "nat \<Rightarrow> vkc_conn \<Rightarrow> vkc_conn \<times> vkc_reply list cres" where
  "vkc_parse_n 0 c = (c, Ok [])"
| "vkc_parse_n (Suc n) c =
     (case vkc_parse c of
        (c, Err) \<Rightarrow> (c, Err)
      | (c, Ok r) \<Rightarrow>
          (case vkc_parse_n n c of
             (c, Err) \<Rightarrow> (c, Err)
           | (c, Ok rs) \<Rightarrow> (c, Ok (r # rs))))"

definition vkc_txn_commit :: "vkc_txn \<times> vkc_conn \<Rightarrow> vkc_conn \<times> vkc_reply list cres" where
  "vkc_txn_commit tc =
     (let (t, c) = tc
      in if err t then
           (if fd c \<ge> 0 then (fst (vkc_cmd c [str ''DISCARD'']), Err) else (c, Err))
         else case vkc_cmd c [str ''EXEC''] of
           (c, Err) \<Rightarrow> (c\<lparr>fd := -1\<rparr>, Err)
         | (c, Ok r) \<Rightarrow>
             if rtype r \<noteq> 5 \<or> count r \<noteq> int (tn t) then (c, Err)
             else (case vkc_parse_n (tn t) c of
                     (c, Err) \<Rightarrow> (c\<lparr>fd := -1\<rparr>, Err)
                   | (c, Ok rs) \<Rightarrow> (c, Ok rs)))"

section \<open>Scanning keys\<close>

fun scan_elems :: "nat \<Rightarrow> nat \<Rightarrow> vkc_conn \<Rightarrow> cstr list \<Rightarrow> vkc_conn \<times> cstr list cres" where
  "scan_elems 0 maxkeys c out = (c, Ok out)"
| "scan_elems (Suc k) maxkeys c out =
     (case vkc_parse c of
        (c, Err) \<Rightarrow> (c, Err)
      | (c, Ok kr) \<Rightarrow>
          scan_elems k maxkeys c
            (if rtype kr = 2 \<and> length out < maxkeys then out @ [take 255 (cstr_of (rstr kr))] else out))"

definition scan_round :: "vkc_conn \<Rightarrow> cstr \<Rightarrow> cstr \<Rightarrow> nat \<Rightarrow> cstr list \<Rightarrow> vkc_conn \<times> (cstr \<times> cstr list) cres" where
  "scan_round c cursor pattern maxkeys out =
     (case vkc_cmd c [str ''SCAN'', cursor, str ''MATCH'', pattern, str ''COUNT'', str ''500''] of
        (c, Err) \<Rightarrow> (c, Err)
      | (c, Ok r) \<Rightarrow>
          if rtype r \<noteq> 5 \<or> count r \<noteq> 2 then (c, Err)
          else (case vkc_parse c of
            (c, Err) \<Rightarrow> (c, Err)
          | (c, Ok cr) \<Rightarrow>
              if rtype cr \<noteq> 2 then (c, Err)
              else (case vkc_parse c of
                (c, Err) \<Rightarrow> (c, Err)
              | (c, Ok ka) \<Rightarrow>
                  if rtype ka \<noteq> 5 then (c, Err)
                  else (case scan_elems (nat (count ka)) maxkeys c out of
                    (c, Err) \<Rightarrow> (c, Err)
                  | (c, Ok out) \<Rightarrow> (c, Ok (take 31 (cstr_of (rstr cr)), out))))))"

section \<open>What reading consumes\<close>

lemma vkc_fill_pending:
  assumes "vkc_fill c = (c', Ok n)"
  shows "pending c' = pending c"
proof -
  obtain ch q where q: "rx c = ch # q" "ch \<noteq> []"
    using assms by (auto simp: vkc_fill_def Let_def recv_def split: option.splits list.splits if_splits)
  let ?c = "vkc_compact c"
  have "rpos ?c \<le> length (rbuf ?c)" by (auto simp: vkc_compact_def)
  then show ?thesis using assms q
    by (auto simp: vkc_fill_def Let_def recv_def pending_def split: option.splits list.splits if_splits)
qed

lemma vkc_fill_tx: "vkc_fill c = (c', r) \<Longrightarrow> tx c' = tx c \<and> tx_caps c' = tx_caps c \<and> fd c' = fd c"
  by (auto simp: vkc_fill_def Let_def split: option.splits if_splits)

lemma vkc_readline_consumes:
  "vkc_readline c olen = (c', Ok l) \<Longrightarrow> \<exists>l0. pending c = l0 @ 10 # pending c' \<and> 10 \<notin> set l0"
proof (induction c olen rule: vkc_readline.induct)
  case (1 c olen)
  let ?u = "drop (rpos c) (rbuf c)"
  let ?l = "takeWhile (\<lambda>b. b \<noteq> 10) ?u"
  show ?case
  proof (cases "length ?l < length ?u")
    case True
    then have c': "c' = c\<lparr>rpos := rpos c + length ?l + 1\<rparr>"
      using 1(2) by (simp add: vkc_readline.simps [of c] Let_def split: if_splits)
    have "?u ! length ?l = 10" using True nth_length_takeWhile [of "\<lambda>b. b \<noteq> 10" ?u] by simp
    then have "drop (length ?l) ?u = 10 # drop (length ?l + 1) ?u" using True Cons_nth_drop_Suc [OF True] by simp
    then have "?u = ?l @ 10 # drop (length ?l + 1) ?u"
      using takeWhile_dropWhile_id [of "\<lambda>b. b \<noteq> 10" ?u] dropWhile_eq_drop [of "\<lambda>b. b \<noteq> 10" ?u] by simp
    then have "pending c = ?l @ 10 # pending c'" unfolding pending_def c' by (simp add: add.commute)
    moreover have "10 \<notin> set ?l" by (auto dest: set_takeWhileD)
    ultimately show ?thesis by blast
  next
    case False
    then obtain c1 n where f: "vkc_fill c = (c1, Ok n)" "vkc_readline c1 olen = (c', Ok l)"
      using 1(2) by (auto simp: vkc_readline.simps [of c] Let_def split: prod.splits cres.splits)
    show ?thesis using 1(1) [OF refl refl False f(1) [symmetric] refl] f vkc_fill_pending [OF f(1)] by auto
  qed
qed

lemma vkc_payload_consumes:
  "vkc_payload c n out = (c', Ok d) \<Longrightarrow> length out \<le> n \<Longrightarrow>
     \<exists>d'. d = out @ d' \<and> length d = n \<and> pending c = d' @ pending c'"
proof (induction c n out rule: vkc_payload.induct)
  case (1 c n out)
  let ?av = "length (rbuf c) - rpos c"
  show ?case
  proof (cases "length out < n")
    case False
    then show ?thesis using 1(3,4) by (simp add: vkc_payload.simps [of c])
  next
    case True
    show ?thesis
    proof (cases "?av = 0")
      case True': True
      then obtain c1 k where f: "vkc_fill c = (c1, Ok k)" "vkc_payload c1 n out = (c', Ok d)"
        using 1(3) True by (auto simp: vkc_payload.simps [of c] Let_def split: prod.splits cres.splits)
      show ?thesis using 1(1) [OF True refl True' f(1) [symmetric] refl] f vkc_fill_pending [OF f(1)] 1(4) by auto
    next
      case False
      define k where "k = (if n - length out < ?av then n - length out else ?av)"
      have p: "vkc_payload (c\<lparr>rpos := rpos c + k\<rparr>) n (out @ take k (drop (rpos c) (rbuf c))) = (c', Ok d)"
        using 1(3) True False by (simp add: vkc_payload.simps [of c] Let_def k_def)
      have k: "k \<le> ?av" "k \<le> n - length out" by (auto simp: k_def)
      then have l: "length (out @ take k (drop (rpos c) (rbuf c))) \<le> n" using True by simp
      obtain d' where "d = (out @ take k (drop (rpos c) (rbuf c))) @ d'" "length d = n"
        "pending (c\<lparr>rpos := rpos c + k\<rparr>) = d' @ pending c'"
        using 1(2) [OF True refl False k_def p l] by blast
      moreover have "pending c = take k (drop (rpos c) (rbuf c)) @ pending (c\<lparr>rpos := rpos c + k\<rparr>)"
        unfolding pending_def using append_take_drop_id [of k "drop (rpos c) (rbuf c)"]
        by (simp add: add.commute del: append_take_drop_id) 
      ultimately show ?thesis by simp
    qed
  qed
qed

lemma vkc_skip2_consumes: "vkc_skip2 c = (c', Ok u) \<Longrightarrow> \<exists>x y. pending c = x # y # pending c'"
proof (induction c rule: vkc_skip2.induct)
  case (1 c)
  show ?case
  proof (cases "length (rbuf c) < rpos c + 2")
    case True
    then obtain c1 k where f: "vkc_fill c = (c1, Ok k)" "vkc_skip2 c1 = (c', Ok u)"
      using 1(2) by (auto simp: vkc_skip2.simps [of c] split: prod.splits cres.splits)
    show ?thesis using 1(1) [OF True f(1) [symmetric] refl] f vkc_fill_pending [OF f(1)] by auto
  next
    case False
    then have "c' = c\<lparr>rpos := rpos c + 2\<rparr>" using 1(2) by (simp add: vkc_skip2.simps [of c])
    moreover have "drop (rpos c) (rbuf c) = rbuf c ! rpos c # rbuf c ! Suc (rpos c) # drop (rpos c + 2) (rbuf c)"
      using False by (simp add: Cons_nth_drop_Suc)
    ultimately show ?thesis by (simp add: pending_def)
  qed
qed

lemma vkc_readbytes_consumes:
  assumes "vkc_readbytes c n = (c', Ok d)"
  shows "length d = n \<and> (\<exists>x y. pending c = d @ x # y # pending c')"
proof -
  obtain c1 where c1: "vkc_payload c n [] = (c1, Ok d)" "vkc_skip2 c1 = (c', Ok ())"
    using assms by (auto simp: vkc_readbytes_def split: prod.splits cres.splits)
  then show ?thesis using vkc_payload_consumes [OF c1(1)] vkc_skip2_consumes [OF c1(2)] by auto
qed

section \<open>Reading succeeds\<close>

text \<open>The peer stays connected: no piece is empty.\<close>

definition rx_ok :: "vkc_conn \<Rightarrow> bool" where
  "rx_ok c \<longleftrightarrow> [] \<notin> set (rx c)"

lemma vkc_fill_ok:
  assumes "rx_ok c" "rx c \<noteq> []" "length (drop (rpos c) (rbuf c)) < VKC_BUF - 1"
  shows "\<exists>c' n. vkc_fill c = (c', Ok n) \<and> rx_ok c'"
proof -
  obtain ch q where q: "rx c = ch # q" using assms(2) by (cases "rx c") auto
  have ch: "ch \<noteq> []" "[] \<notin> set q" using assms(1) by (auto simp: rx_ok_def q)
  have "rbuf (vkc_compact c) = drop (rpos c) (rbuf c)" by (auto simp: vkc_compact_def)
  then have "VKC_BUF - length (rbuf (vkc_compact c)) - 1 > 0" using assms(3) by simp
  then show ?thesis using q ch by (auto simp: vkc_fill_def Let_def recv_def rx_ok_def)
qed

lemma vkc_readline_ok:
  assumes "pending c = l @ 10 # r" "10 \<notin> set l" "length l < VKC_BUF - 1" "rx_ok c"
  shows "\<exists>c'. vkc_readline c olen
      = (c', Ok (take (olen - 1) (if l \<noteq> [] \<and> last l = 13 then butlast l else l))) \<and> pending c' = r \<and> rx_ok c'"
  using assms
proof (induction c olen rule: vkc_readline.induct)
  case (1 c olen)
  let ?u = "drop (rpos c) (rbuf c)"
  let ?l = "takeWhile (\<lambda>b. b \<noteq> 10) ?u"
  show ?case
  proof (cases "length ?l < length ?u")
    case True
    have x: "10 \<in> set ?u" using nth_length_takeWhile [OF True] nth_mem [OF True] by simp
    then have "takeWhile (\<lambda>b. b \<noteq> 10) (?u @ concat (rx c)) = ?l" by (intro takeWhile_append1) auto
    moreover have "takeWhile (\<lambda>b. b \<noteq> 10) (l @ 10 # r) = l" using 1(3) by (subst takeWhile_append2) auto
    ultimately have l: "?l = l" using 1(2) by (simp add: pending_def)
    let ?c = "c\<lparr>rpos := rpos c + length l + 1\<rparr>"
    have "pending ?c = r"
    proof -
      have "pending ?c = drop (length l + 1) (pending c)" using True l by (simp add: pending_def add.commute)
      then show ?thesis by (simp add: 1(2))
    qed
    moreover have "take (let len = length l; len = (if len > 0 \<and> l ! (len - 1) = 13 then len - 1 else len)
        in if len \<ge> olen then olen - 1 else len) l = take (olen - 1) (if l \<noteq> [] \<and> last l = 13 then butlast l else l)"
    proof -
      have "(if k \<ge> olen then olen - 1 else k) = min (olen - 1) k" for k by auto
      moreover have "take (min (olen - 1) (length l)) l = take (olen - 1) l" by (simp add: min_def)
      ultimately show ?thesis
        by (cases "l = []"; cases "last l = 13") (simp_all add: Let_def last_conv_nth butlast_conv_take)
    qed
    ultimately show ?thesis using True 1(5) unfolding vkc_readline.simps [of c olen] Let_def l
      by (auto simp: rx_ok_def)
  next
    case False
    then have "length ?l = length ?u" using length_takeWhile_le [of "\<lambda>b. b \<noteq> 10" ?u] by simp
    then have "?l = ?u" using takeWhile_eq_take [of "\<lambda>b. b \<noteq> 10" ?u] by simp
    moreover have "10 \<notin> set ?l" by (auto dest: set_takeWhileD)
    ultimately have n: "10 \<notin> set ?u" by auto
    have "rx c \<noteq> []" using n 1(2) by (auto simp: pending_def)
    moreover have "length ?u \<le> length l"
    proof (rule ccontr)
      assume "\<not> ?thesis"
      then have "pending c ! length l \<in> set ?u" using nth_mem [of "length l" ?u] by (simp add: pending_def nth_append)
      then show False using n 1(2) by simp
    qed
    ultimately obtain c1 k where f: "vkc_fill c = (c1, Ok k)" "rx_ok c1" using vkc_fill_ok 1(4,5) by fastforce
    have "vkc_readline c olen = vkc_readline c1 olen" using False f by (simp add: vkc_readline.simps [of c] Let_def)
    then show ?thesis
      using 1(1) [OF refl refl False f(1) [symmetric] refl] vkc_fill_pending [OF f(1)] 1(2-4) f(2) by simp
  qed
qed

lemma vkc_payload_ok:
  assumes "pending c = d @ r" "length out + length d = n" "rx_ok c"
  shows "\<exists>c'. vkc_payload c n out = (c', Ok (out @ d)) \<and> pending c' = r \<and> rx_ok c'"
  using assms
proof (induction c n out arbitrary: d rule: vkc_payload.induct)
  case (1 c n out)
  let ?u = "drop (rpos c) (rbuf c)" and ?av = "length (rbuf c) - rpos c"
  show ?case
  proof (cases "length out < n")
    case False
    then have "d = []" using 1(4) by auto
    then show ?thesis using 1(3-5) False by (simp add: vkc_payload.simps [of c])
  next
    case True
    then have d: "d \<noteq> []" using 1(4) by auto
    show ?thesis
    proof (cases "?av = 0")
      case av: True
      then have "rx c \<noteq> []" using d 1(3) by (auto simp: pending_def)
      then obtain c1 k where f: "vkc_fill c = (c1, Ok k)" "rx_ok c1"
        using vkc_fill_ok [OF 1(5)] av by (auto simp: VKC_BUF_def)
      have "vkc_payload c n out = vkc_payload c1 n out" using True av f by (simp add: vkc_payload.simps [of c] Let_def)
      then show ?thesis
        using 1(1) [OF True refl av f(1) [symmetric] refl _ 1(4) f(2)] vkc_fill_pending [OF f(1)] 1(3) by simp
    next
      case False
      define k where "k = (if n - length out < ?av then n - length out else ?av)"
      have k: "k \<le> ?av" "k \<le> length d" using 1(4) by (auto simp: k_def)
      have tk: "take k ?u = take k d"
      proof -
        have "take k (pending c) = take k ?u" using k(1) by (simp add: pending_def)
        then show ?thesis using k(2) 1(3) by simp
      qed
      let ?c = "c\<lparr>rpos := rpos c + k\<rparr>"
      have p: "pending ?c = drop k d @ r"
      proof -
        have "pending ?c = drop k (pending c)" using k(1) by (simp add: pending_def add.commute)
        then show ?thesis using 1(3) k(2) by simp
      qed
      have e: "vkc_payload c n out = vkc_payload ?c n (out @ take k ?u)"
        using True False by (simp add: vkc_payload.simps [of c] Let_def k_def)
      have "\<exists>c'. vkc_payload ?c n (out @ take k ?u) = (c', Ok ((out @ take k ?u) @ drop k d)) \<and> pending c' = r \<and> rx_ok c'"
        by (rule 1(2) [OF True refl False k_def p]) (use 1(4,5) k tk in \<open>simp_all add: rx_ok_def\<close>)
      then show ?thesis unfolding e tk by simp
    qed
  qed
qed

lemma vkc_skip2_ok:
  assumes "pending c = x # y # r" "rx_ok c"
  shows "\<exists>c'. vkc_skip2 c = (c', Ok ()) \<and> pending c' = r \<and> rx_ok c'"
  using assms
proof (induction c rule: vkc_skip2.induct)
  case (1 c)
  show ?case
  proof (cases "length (rbuf c) < rpos c + 2")
    case True
    then have "length (drop (rpos c) (rbuf c)) < 2" by simp
    moreover from this have "rx c \<noteq> []" using arg_cong [OF 1(2), of length] by (auto simp: pending_def)
    ultimately obtain c1 k where f: "vkc_fill c = (c1, Ok k)" "rx_ok c1"
      using vkc_fill_ok [OF 1(3)] by (auto simp: VKC_BUF_def)
    have "vkc_skip2 c = vkc_skip2 c1" using True f by (simp add: vkc_skip2.simps [of c])
    then show ?thesis using 1(1) [OF True f(1) [symmetric] refl _ f(2)] vkc_fill_pending [OF f(1)] 1(2) by simp
  next
    case False
    then have "pending (c\<lparr>rpos := rpos c + 2\<rparr>) = drop 2 (pending c)" by (simp add: pending_def add.commute)
    then show ?thesis using False 1(2,3) by (simp add: vkc_skip2.simps [of c] rx_ok_def)
  qed
qed

lemma vkc_readbytes_ok:
  assumes "pending c = d @ x # y # r" "rx_ok c"
  shows "\<exists>c'. vkc_readbytes c (length d) = (c', Ok d) \<and> pending c' = r \<and> rx_ok c'"
proof -
  obtain c1 where "vkc_payload c (length d) [] = (c1, Ok d)" "pending c1 = x # y # r" "rx_ok c1"
    using vkc_payload_ok [OF assms(1) _ assms(2), of "[]" "length d"] by auto
  then show ?thesis using vkc_skip2_ok [of c1 x y r] by (auto simp: vkc_readbytes_def)
qed

section \<open>The protocol\<close>

text \<open>The replies of the protocol, as the server writes them, and what the client makes of them.\<close>

datatype resp = Simple cstr | Error cstr | Integer nat | Bulk bytes | Nil | Array nat

fun resp_enc :: "resp \<Rightarrow> bytes" where
  "resp_enc (Simple s) = [43] @ s @ crlf"
| "resp_enc (Error s) = [45] @ s @ crlf"
| "resp_enc (Integer n) = [58] @ dec n @ crlf"
| "resp_enc (Bulk d) = [36] @ dec (length d) @ crlf @ d @ crlf"
| "resp_enc Nil = [36, 45, 49] @ crlf"
| "resp_enc (Array n) = [42] @ dec n @ crlf"

fun resp_ok :: "resp \<Rightarrow> bool" where
  "resp_ok (Simple s) \<longleftrightarrow> 0 \<notin> set s \<and> 10 \<notin> set s \<and> length s \<le> 510"
| "resp_ok (Error s) \<longleftrightarrow> 0 \<notin> set s \<and> 10 \<notin> set s \<and> length s \<le> 510"
| "resp_ok (Integer n) \<longleftrightarrow> n < 2 ^ 63"
| "resp_ok (Bulk d) \<longleftrightarrow> length d < VKC_BUF"
| "resp_ok Nil \<longleftrightarrow> True"
| "resp_ok (Array n) \<longleftrightarrow> n < 2 ^ 31"

fun reply_of :: "resp \<Rightarrow> vkc_reply" where
  "reply_of (Simple s) = reply0\<lparr>rtype := 0, rstr := s\<rparr>"
| "reply_of (Error s) = reply0\<lparr>rtype := 1, rstr := s\<rparr>"
| "reply_of (Integer n) = reply0\<lparr>rtype := 3, integer := int n\<rparr>"
| "reply_of (Bulk d) = reply0\<lparr>rtype := 2, rstr := d\<rparr>"
| "reply_of Nil = reply0\<lparr>rtype := 4\<rparr>"
| "reply_of (Array n) = reply0\<lparr>rtype := 5, count := int n\<rparr>"

text \<open>The line after the type byte, with its carriage return taken off.\<close>

lemma vkc_line_ok:
  assumes "pending c = ch # s @ crlf @ r" "ch \<noteq> 10" "10 \<notin> set s" "length s \<le> 510" "rx_ok c"
  shows "\<exists>c'. vkc_readline c 512 = (c', Ok (ch # s)) \<and> pending c' = r \<and> rx_ok c'"
proof -
  have p: "pending c = (ch # s @ [13]) @ 10 # r" using assms(1) by (simp add: crlf_def)
  have "\<exists>c'. vkc_readline c 512 = (c', Ok (take (512 - 1) (if ch # s @ [13] \<noteq> [] \<and> last (ch # s @ [13]) = 13
      then butlast (ch # s @ [13]) else ch # s @ [13]))) \<and> pending c' = r \<and> rx_ok c'"
    using p by (rule vkc_readline_ok) (use assms in \<open>auto simp: VKC_BUF_def\<close>)
  moreover have "take (512 - 1) (if ch # s @ [13] \<noteq> [] \<and> last (ch # s @ [13]) = 13
      then butlast (ch # s @ [13]) else ch # s @ [13]) = ch # s" using assms(4) by (simp add: butlast_append)
  ultimately show ?thesis by simp
qed

lemma vkc_parse_ok:
  assumes "pending c = resp_enc x @ r" "resp_ok x" "rx_ok c"
  shows "\<exists>c'. vkc_parse c = (c', Ok (reply_of x)) \<and> pending c' = r \<and> rx_ok c'"
proof (cases x)
  case (Simple s)
  then obtain c' where "vkc_readline c 512 = (c', Ok (43 # s))" "pending c' = r" "rx_ok c'"
    using vkc_line_ok [of c 43 s r] assms by auto
  moreover have "safe_strcpy [] s VKC_BUF = s" using assms(2) Simple by (intro safe_strcpy_id) (simp add: VKC_BUF_def)
  ultimately show ?thesis using assms(2) Simple by (simp add: vkc_parse_def Let_def cstr_of_id)
next
  case (Error s)
  then obtain c' where "vkc_readline c 512 = (c', Ok (45 # s))" "pending c' = r" "rx_ok c'"
    using vkc_line_ok [of c 45 s r] assms by auto
  moreover have "safe_strcpy [] s VKC_BUF = s" using assms(2) Error by (intro safe_strcpy_id) (simp add: VKC_BUF_def)
  ultimately show ?thesis using assms(2) Error by (simp add: vkc_parse_def Let_def cstr_of_id)
next
  case (Integer n)
  have "length (dec n) \<le> 20" using assms(2) Integer by (intro length_dec) simp_all
  then obtain c' where "vkc_readline c 512 = (c', Ok (58 # dec n))" "pending c' = r" "rx_ok c'"
    using vkc_line_ok [of c 58 "dec n" r] assms Integer dec_plain by auto
  then show ?thesis using assms(2) Integer by (simp add: vkc_parse_def Let_def cstr_of_id dec_plain strtol_dec_all)
next
  case (Bulk d)
  have l: "length d < 65536" using assms(2) Bulk by (simp add: VKC_BUF_def)
  have "length (dec (length d)) \<le> 20" using l by (intro length_dec) simp_all
  then obtain c1 where c1: "vkc_readline c 512 = (c1, Ok (36 # dec (length d)))" "pending c1 = d @ crlf @ r" "rx_ok c1"
    using vkc_line_ok [of c 36 "dec (length d)" "d @ crlf @ r"] assms Bulk dec_plain by auto
  obtain c' where c': "vkc_readbytes c1 (length d) = (c', Ok d)" "pending c' = r" "rx_ok c'"
    using vkc_readbytes_ok [of c1 d 13 10 r] c1 by (auto simp: crlf_def)
  have "(if int (length d) < int VKC_BUF - 1 then nat (int (length d)) else VKC_BUF - 1) = length d"
    using l by (auto simp: VKC_BUF_def)
  then have "vkc_bulk c1 (int (length d)) = (c', Ok (reply0\<lparr>rtype := 2, rstr := d\<rparr>))"
    using c'(1) by (simp add: vkc_bulk_def Let_def vkc_drain.simps)
  then show ?thesis using c1 c' Bulk l by (simp add: vkc_parse_def Let_def cstr_of_id dec_plain atoi_dec_int)
next
  case Nil
  then obtain c' where "vkc_readline c 512 = (c', Ok [36, 45, 49])" "pending c' = r" "rx_ok c'"
    using vkc_line_ok [of c 36 "[45, 49]" r] assms by auto
  moreover have "atoi [45, 49] = -1" by code_simp
  ultimately show ?thesis using Nil by (simp add: vkc_parse_def vkc_bulk_def Let_def cstr_of_id)
next
  case (Array n)
  have "length (dec n) \<le> 20" using assms(2) Array by (intro length_dec) simp_all
  then obtain c' where "vkc_readline c 512 = (c', Ok (42 # dec n))" "pending c' = r" "rx_ok c'"
    using vkc_line_ok [of c 42 "dec n" r] assms Array dec_plain by auto
  then show ?thesis using assms(2) Array by (simp add: vkc_parse_def Let_def cstr_of_id dec_plain atoi_dec_int)
qed

lemma vkc_parse_n_ok:
  assumes "pending c = concat (map resp_enc xs) @ r" "\<forall>x \<in> set xs. resp_ok x" "rx_ok c"
  shows "\<exists>c'. vkc_parse_n (length xs) c = (c', Ok (map reply_of xs)) \<and> pending c' = r \<and> rx_ok c'"
  using assms
proof (induction xs arbitrary: c)
  case (Cons x xs)
  obtain c1 where c1: "vkc_parse c = (c1, Ok (reply_of x))" "pending c1 = concat (map resp_enc xs) @ r" "rx_ok c1"
    using vkc_parse_ok [of c x "concat (map resp_enc xs) @ r"] Cons.prems by auto
  then show ?case using Cons.IH [OF c1(2)] Cons.prems(2) by auto
qed simp

text \<open>Reading does not touch the sending side.\<close>

definition same_tx :: "vkc_conn \<Rightarrow> vkc_conn \<Rightarrow> bool" where
  "same_tx c c' \<longleftrightarrow> tx c' = tx c \<and> tx_caps c' = tx_caps c \<and> fd c' = fd c"

lemma same_tx_refl [simp]: "same_tx c c" "same_tx c (c\<lparr>rpos := k\<rparr>)"
  by (simp_all add: same_tx_def)

lemma same_tx_trans: "same_tx a b \<Longrightarrow> same_tx b c \<Longrightarrow> same_tx a c"
  by (simp add: same_tx_def)

lemma same_tx_fill: "vkc_fill c = (c', r) \<Longrightarrow> same_tx c c'"
  using vkc_fill_tx by (simp add: same_tx_def)

lemma same_tx_readline: "same_tx c (fst (vkc_readline c olen))"
proof (induction c olen rule: vkc_readline.induct)
  case (1 c olen)
  obtain c1 r where f: "vkc_fill c = (c1, r)" by force
  then have s: "same_tx c c1" by (rule same_tx_fill)
  show ?case
  proof (cases r)
    case Err
    then show ?thesis using f s by (subst vkc_readline.simps) (simp add: Let_def)
  next
    case (Ok n)
    then show ?thesis using f s 1 [OF refl refl _ f [symmetric] Ok] same_tx_trans [OF s]
      by (subst vkc_readline.simps) (auto simp: Let_def)
  qed
qed

lemma same_tx_payload: "same_tx c (fst (vkc_payload c n out))"
proof (induction c n out rule: vkc_payload.induct)
  case (1 c n out)
  obtain c1 r where f: "vkc_fill c = (c1, r)" by force
  then have s: "same_tx c c1" by (rule same_tx_fill)
  let ?k = "if n - length out < length (rbuf c) - rpos c then n - length out else length (rbuf c) - rpos c"
  have step: "same_tx c (fst (vkc_payload (c\<lparr>rpos := rpos c + ?k\<rparr>) n (out @ take ?k (drop (rpos c) (rbuf c)))))"
    if "length out < n" "length (rbuf c) - rpos c \<noteq> 0"
    using 1(2) [OF that(1) refl that(2) refl] same_tx_trans [OF same_tx_refl(2)] by blast
  have "same_tx c (fst (vkc_payload c1 n out))" if "length out < n" "length (rbuf c) - rpos c = 0" "r = Ok k" for k
    using 1(1) [OF that(1) refl that(2) f [symmetric] that(3)] same_tx_trans [OF s] by blast
  then show ?case using step f s
    by (subst vkc_payload.simps) (auto simp: Let_def split: cres.splits)
qed

lemma same_tx_skip2: "same_tx c (fst (vkc_skip2 c))"
proof (induction c rule: vkc_skip2.induct)
  case (1 c)
  obtain c1 r where f: "vkc_fill c = (c1, r)" by force
  then have s: "same_tx c c1" by (rule same_tx_fill)
  have "same_tx c (fst (vkc_skip2 c1))" if "length (rbuf c) < rpos c + 2" "r = Ok k" for k
    using 1 [OF that(1) f [symmetric] that(2)] same_tx_trans [OF s] by blast
  then show ?case using f s by (subst vkc_skip2.simps) (auto split: cres.splits)
qed

lemma same_tx_readbytes: "same_tx c (fst (vkc_readbytes c n))"
  using same_tx_payload [of c n "[]"] same_tx_skip2 [of "fst (vkc_payload c n [])"]
  by (auto simp: vkc_readbytes_def split: prod.splits cres.splits intro: same_tx_trans)

lemma same_tx_drain: "same_tx c (fst (vkc_drain c e))"
proof (induction c e rule: vkc_drain.induct)
  case (1 c e)
  show ?case
  proof (cases "e > 0")
    case True
    let ?d = "if e > 256 then 256 else e"
    obtain c1 r where f: "vkc_readbytes c ?d = (c1, r)" by force
    then have s: "same_tx c c1" using same_tx_readbytes [of c ?d] by simp
    show ?thesis
    proof (cases r)
      case Err
      then show ?thesis using f s True by (subst vkc_drain.simps) (simp add: Let_def)
    next
      case (Ok x)
      then show ?thesis using f True 1 [OF True refl f [symmetric] Ok] same_tx_trans [OF s]
        by (subst vkc_drain.simps) (simp add: Let_def)
    qed
  next
    case False
    then show ?thesis by (subst vkc_drain.simps) simp
  qed
qed

lemma same_tx_bulk: "same_tx c (fst (vkc_bulk c bl))"
proof (cases "bl < 0")
  case False
  let ?tk = "if bl < int VKC_BUF - 1 then nat bl else VKC_BUF - 1"
  obtain c1 r where f: "vkc_readbytes c ?tk = (c1, r)" by force
  then have s: "same_tx c c1" using same_tx_readbytes [of c ?tk] by simp
  obtain c2 r' where d: "vkc_drain c1 (nat bl - ?tk) = (c2, r')" by force
  then have "same_tx c c2" using same_tx_drain [of c1 "nat bl - ?tk"] same_tx_trans [OF s] by simp
  then show ?thesis using False f d s by (simp add: vkc_bulk_def Let_def split: cres.splits)
qed (simp add: vkc_bulk_def)

lemma same_tx_parse: "same_tx c (fst (vkc_parse c))"
proof -
  obtain c1 r where f: "vkc_readline c 512 = (c1, r)" by force
  then have s: "same_tx c c1" using same_tx_readline [of c 512] by simp
  show ?thesis using f s same_tx_trans [OF s same_tx_bulk]
    by (simp add: vkc_parse_def Let_def split: cres.splits)
qed



text \<open>What a command leaves on the wire: all of its bytes, or some of them when sending fails.\<close>

lemma vkc_send_frame:
  "\<exists>c' r p. vkc_send c cmd = (c', r) \<and> tx c' = tx c @ p \<and> prefix p cmd \<and> (r = Ok () \<longrightarrow> p = cmd)
     \<and> rbuf c' = rbuf c \<and> rpos c' = rpos c \<and> rx c' = rx c \<and> fd c' = fd c"
proof (induction c cmd rule: vkc_send.induct)
  case (1 c cmd)
  show ?case
  proof (cases "cmd = [] \<or> tx_caps c = [] \<or> hd (tx_caps c) = 0")
    case True
    then show ?thesis by (subst vkc_send.simps) (auto split: list.splits)
  next
    case False
    then obtain n caps where n: "tx_caps c = n # caps" "n \<noteq> 0" "cmd \<noteq> []" by (cases "tx_caps c") auto
    let ?c = "c\<lparr>tx_caps := caps, tx := tx c @ take n cmd\<rparr>"
    obtain c' r p where i: "vkc_send ?c (drop n cmd) = (c', r)" "tx c' = tx c @ take n cmd @ p" "prefix p (drop n cmd)"
      "r = Ok () \<longrightarrow> p = drop n cmd" "rbuf c' = rbuf c" "rpos c' = rpos c" "rx c' = rx c" "fd c' = fd c"
      using 1 [OF n(3,1,2)] by auto
    have "prefix (take n cmd @ p) cmd" using i(3) by (metis append_take_drop_id same_prefix_prefix)
    then show ?thesis using i n by (intro exI [of _ c'] exI [of _ r] exI [of _ "take n cmd @ p"])
        (auto simp: vkc_send.simps [of c cmd])
  qed
qed


lemma vkc_encode_loop_eq:
  "vkc_encode_loop args buf = Ok out \<Longrightarrow> out = buf @ concat (map (resp_enc \<circ> Bulk) args) \<and> length out < 8192"
  by (induction args buf rule: vkc_encode_loop.induct) (auto split: if_splits)

lemma vkc_encode_eq:
  "vkc_encode args = Ok buf \<Longrightarrow> buf = resp_enc (Array (length args)) @ concat (map (resp_enc \<circ> Bulk) args) \<and> length buf < 8192"
  unfolding vkc_encode_def resp_enc.simps by (rule vkc_encode_loop_eq)

section \<open>Transactions\<close>

definition vkc_transaction :: "vkc_conn \<Rightarrow> cstr list list \<Rightarrow> vkc_conn \<times> vkc_reply list cres" where
  "vkc_transaction c cmds = vkc_txn_commit (foldl vkc_txn_queue (vkc_txn_begin c) cmds)"

fun enc_ok :: "cstr list \<Rightarrow> bytes" where
  "enc_ok args = (case vkc_encode args of Ok buf \<Rightarrow> buf | Err \<Rightarrow> [])"





lemma queue_err: "err (fst tc) \<Longrightarrow> foldl vkc_txn_queue tc rest = tc"
proof (induction rest)
  case (Cons a rest)
  then show ?case by (cases tc) (simp add: vkc_txn_queue_def)
qed simp


text \<open>
  C29: A reply is read whole, however the network cuts it. If what is pending on a connection begins with a reply of the protocol
  (a line of at most 510 characters, or a bulk string below the buffer size), \<open>vkc_parse\<close> returns exactly that reply, and what is pending
  afterwards begins right after it, whatever the sizes of the pieces in which the bytes arrive.
\<close>

theorem vkc_parse_framing:
  assumes "pending c = resp_enc x @ r" "resp_ok x" "rx_ok c"
  shows "\<exists>c'. vkc_parse c = (c', Ok (reply_of x)) \<and> pending c' = r \<and> rx_ok c' \<and> tx c' = tx c"
proof -
  obtain c' where c': "vkc_parse c = (c', Ok (reply_of x))" "pending c' = r" "rx_ok c'"
    using vkc_parse_ok [OF assms] by blast
  then show ?thesis using same_tx_parse [of c] by (auto simp: same_tx_def)
qed

definition conn_of :: "bytes list \<Rightarrow> nat list \<Rightarrow> vkc_conn" where
  "conn_of q caps = \<lparr>fd = 3, rbuf = [], rpos = 0, rx = q, tx_caps = caps, tx = []\<rparr>"

theorem vkc_parse_framing_witness:
  "\<exists>c'. vkc_parse (conn_of [[36, 50, 13], [10, 97], [98, 13, 10, 43]] []) = (c', Ok (reply0\<lparr>rtype := 2, rstr := [97, 98]\<rparr>))
    \<and> pending c' = [43]"
proof -
  let ?c = "conn_of [[36, 50, 13], [10, 97], [98, 13, 10, 43]] []"
  have "pending ?c = resp_enc (Bulk [97, 98]) @ [43]" by (simp add: pending_def conn_of_def crlf_def dec.simps)
  then show ?thesis using vkc_parse_framing [of ?c "Bulk [97, 98]" "[43]"]
    by (auto simp: rx_ok_def conn_of_def VKC_BUF_def)
qed

text \<open>
  What \<open>vkc_cmd\<close> sends is what was meant: a reader of the protocol that receives the bytes of a command, cut in any way, reads an array of
  as many elements as there are arguments, and each argument as its bulk string, whatever characters it contains.
\<close>

theorem vkc_command_decodes:
  assumes "vkc_encode args = Ok buf" "pending s = buf @ r" "rx_ok s"
  shows "\<exists>s1 s2. vkc_parse s = (s1, Ok (reply0\<lparr>rtype := 5, count := int (length args)\<rparr>))
    \<and> vkc_parse_n (length args) s1 = (s2, Ok (map (\<lambda>a. reply0\<lparr>rtype := 2, rstr := a\<rparr>) args)) \<and> pending s2 = r"
proof -
  let ?es = "map Bulk args"
  have b: "buf = resp_enc (Array (length args)) @ concat (map resp_enc ?es)"
    using conjunct1 [OF vkc_encode_eq [OF assms(1)]] by (simp add: comp_def)
  have b2: "length buf < 8192" by (rule conjunct2 [OF vkc_encode_eq [OF assms(1)]])
  have len: "length a < length buf" if "a \<in> set args" for a
  proof -
    have "length (resp_enc (Bulk a)) \<le> length (concat (map resp_enc ?es))"
      using that by (induction args) auto
    then show ?thesis by (simp add: b)
  qed
  have n: "length args < 2 ^ 31"
  proof -
    have "length args \<le> length (concat (map resp_enc ?es))" by (induction args) auto
    then show ?thesis using b b2 by simp
  qed
  obtain s1 where s1: "vkc_parse s = (s1, Ok (reply_of (Array (length args))))" "pending s1 = concat (map resp_enc ?es) @ r" "rx_ok s1"
    using vkc_parse_ok [of s "Array (length args)" "concat (map resp_enc ?es) @ r"] assms b n by auto
  moreover have "\<forall>x \<in> set ?es. resp_ok x" using len b2 by (fastforce simp: VKC_BUF_def)
  ultimately show ?thesis using vkc_parse_n_ok [OF s1(2) _ s1(3)] by (auto simp: comp_def)
qed

theorem vkc_command_decodes_witness:
  "\<exists>s1 s2. vkc_parse (conn_of [enc_ok [str ''GET'', [13, 10, 0]]] []) = (s1, Ok (reply0\<lparr>rtype := 5, count := 2\<rparr>))
     \<and> vkc_parse_n 2 s1 = (s2, Ok [reply0\<lparr>rtype := 2, rstr := str ''GET''\<rparr>, reply0\<lparr>rtype := 2, rstr := [13, 10, 0]\<rparr>])"
proof -
  have e: "vkc_encode [str ''GET'', [13, 10, 0]] = Ok (enc_ok [str ''GET'', [13, 10, 0]])"
    by (simp add: vkc_encode_def str_def crlf_def dec.simps)
  have "enc_ok [str ''GET'', [13, 10, 0]] \<noteq> []" using vkc_encode_eq [OF e] by auto
  then show ?thesis
    using vkc_command_decodes [OF e, of "conn_of [enc_ok [str ''GET'', [13, 10, 0]]] []" "[]"]
    by (auto simp: pending_def rx_ok_def conn_of_def numeral_2_eq_2 simp del: enc_ok.simps vkc_parse_n.simps)
qed





section \<open>Bulk strings larger than the buffer\<close>

lemma vkc_readbytes_take:
  assumes "n + 2 \<le> length (pending c)" "rx_ok c"
  shows "\<exists>c'. vkc_readbytes c n = (c', Ok (take n (pending c))) \<and> pending c' = drop (n + 2) (pending c) \<and> rx_ok c'"
proof -
  let ?p = "pending c"
  have "drop n ?p = ?p ! n # ?p ! Suc n # drop (n + 2) ?p" using assms(1) by (simp add: Cons_nth_drop_Suc)
  then have "?p = take n ?p @ ?p ! n # ?p ! Suc n # drop (n + 2) ?p" by (metis append_take_drop_id)
  moreover have "length (take n ?p) = n" using assms(1) by simp
  ultimately show ?thesis using vkc_readbytes_ok [of c "take n ?p" "?p ! n" "?p ! Suc n" "drop (n + 2) ?p"] assms(2) by simp
qed

text \<open>
  A bulk string of 65536 bytes or more breaks the framing of the connection. \<open>vkc_readbytes\<close> takes two bytes for the line end
  each time it is called, and \<open>vkc_parse\<close> calls it once for the part that fits the reply and again for every piece it drains, so it
  takes more bytes than the reply has: two bytes of the next reply are lost when one piece is drained.
\<close>

theorem vkc_parse_loses_framing:
  assumes "pending c = resp_enc (Bulk d) @ r" "VKC_BUF \<le> length d" "length d < VKC_BUF + 256" "2 \<le> length r" "rx_ok c"
  shows "\<exists>c'. vkc_parse c = (c', Ok (reply0\<lparr>rtype := 2, rstr := take (VKC_BUF - 1) d\<rparr>)) \<and> pending c' = drop 2 r"
proof -
  let ?n = "length d" and ?tk = "VKC_BUF - 1"
  let ?e = "length d - (VKC_BUF - 1)" and ?s = "d @ crlf @ r"
  have n: "?n < 2 ^ 31" "?n < 10 ^ 20" using assms(3) by (simp_all add: VKC_BUF_def)
  have "length (dec ?n) \<le> 20" using n(2) by (intro length_dec) simp_all
  then obtain c1 where c1: "vkc_readline c 512 = (c1, Ok (36 # dec ?n))" "pending c1 = ?s" "rx_ok c1"
    using vkc_line_ok [of c 36 "dec ?n" ?s] assms(1,5) dec_plain by auto
  have ls: "length ?s = ?n + 2 + length r" by (simp add: crlf_def)
  obtain c2 where c2: "vkc_readbytes c1 ?tk = (c2, Ok (take ?tk d))" "pending c2 = drop (?tk + 2) ?s" "rx_ok c2"
    using vkc_readbytes_take [of ?tk c1] c1 ls assms(2) by (auto simp: VKC_BUF_def)
  have e: "0 < ?e" "?e \<le> 256" "?tk + ?e = ?n" using assms(2,3) by (auto simp: VKC_BUF_def)
  have "length (pending c2) = ?n + 2 + length r - (?tk + 2)" unfolding c2(2) length_drop ls ..
  then have "?e + 2 \<le> length (pending c2)" using assms(4) e(3) by linarith
  then obtain c3 where c3: "vkc_readbytes c2 ?e = (c3, Ok (take ?e (pending c2)))" "pending c3 = drop (?e + 2) (pending c2)"
    using vkc_readbytes_take c2(3) by blast
  have "?e + 2 + (?tk + 2) = ?n + 2 + 2" using e(3) by simp
  then have p3: "pending c3 = drop 2 r" unfolding c3(2) c2(2) drop_drop by (simp add: crlf_def)
  have "vkc_drain c2 ?e = (c3, Ok ())"
    using c3(1) e(1,2) by (subst vkc_drain.simps) (auto simp: Let_def vkc_drain.simps [of c3 0])
  moreover have "(if int ?n < int VKC_BUF - 1 then nat (int ?n) else VKC_BUF - 1) = ?tk"
    using assms(2) by (auto simp: VKC_BUF_def)
  ultimately have "vkc_bulk c1 (int ?n) = (c3, Ok (reply0\<lparr>rtype := 2, rstr := take ?tk d\<rparr>))"
    using c2(1) by (simp add: vkc_bulk_def Let_def)
  then show ?thesis using c1 n p3 by (simp add: vkc_parse_def Let_def cstr_of_id dec_plain atoi_dec_int)
qed

theorem vkc_parse_loses_framing_witness:
  "\<exists>c'. vkc_parse (conn_of [resp_enc (Bulk (replicate VKC_BUF 7)) @ [43, 79, 75, 13, 10]] [])
      = (c', Ok (reply0\<lparr>rtype := 2, rstr := take (VKC_BUF - 1) (replicate VKC_BUF 7)\<rparr>)) \<and> pending c' = [75, 13, 10]"
  using vkc_parse_loses_framing [of "conn_of [resp_enc (Bulk (replicate VKC_BUF 7)) @ [43, 79, 75, 13, 10]] []" "replicate VKC_BUF 7" "[43, 79, 75, 13, 10]"]
  by (simp add: pending_def conn_of_def rx_ok_def)

section \<open>Scanning ends\<close>

lemma vkc_bulk_pending: "vkc_bulk c bl = (c', Ok r) \<Longrightarrow> length (pending c') \<le> length (pending c)"
proof -
  have drain: "vkc_drain c e = (c', Ok u) \<Longrightarrow> length (pending c') \<le> length (pending c)" for c e c' u
  proof (induction c e rule: vkc_drain.induct)
    case (1 c e)
    show ?case
    proof (cases "e > 0")
      case True
      let ?d = "if e > 256 then 256 else e"
      obtain c1 s where f: "vkc_readbytes c ?d = (c1, Ok s)" "vkc_drain c1 (e - ?d) = (c', Ok u)"
        using 1(2) True by (subst (asm) vkc_drain.simps) (auto simp: Let_def split: prod.splits cres.splits)
      have "length (pending c1) \<le> length (pending c)" using vkc_readbytes_consumes [OF f(1)] by auto
      then show ?thesis using 1(1) [OF True refl f(1) [symmetric] refl f(2)] by simp
    next
      case False
      then show ?thesis using 1(2) by (subst (asm) vkc_drain.simps) simp
    qed
  qed
  assume b: "vkc_bulk c bl = (c', Ok r)"
  show ?thesis
  proof (cases "bl < 0")
    case False
    let ?tk = "if bl < int VKC_BUF - 1 then nat bl else VKC_BUF - 1"
    obtain c1 s where f: "vkc_readbytes c ?tk = (c1, Ok s)" "vkc_drain c1 (nat bl - ?tk) = (c', Ok ())"
      using b False by (auto simp: vkc_bulk_def Let_def split: prod.splits cres.splits)
    have "length (pending c1) \<le> length (pending c)" using vkc_readbytes_consumes [OF f(1)] by auto
    then show ?thesis using drain [OF f(2)] by simp
  qed (use b in \<open>simp add: vkc_bulk_def\<close>)
qed

lemma vkc_parse_pending: "vkc_parse c = (c', Ok r) \<Longrightarrow> length (pending c') < length (pending c)"
proof -
  assume p: "vkc_parse c = (c', Ok r)"
  then obtain c1 l where f: "vkc_readline c 512 = (c1, Ok l)"
    by (auto simp: vkc_parse_def split: prod.splits cres.splits)
  then have "length (pending c1) < length (pending c)" using vkc_readline_consumes [OF f] by auto
  moreover have "length (pending c') \<le> length (pending c1)"
    using p f vkc_bulk_pending by (auto simp: vkc_parse_def Let_def split: if_splits)
  ultimately show ?thesis by simp
qed


lemma vkc_cmd_pending: "vkc_cmd c args = (c', Ok r) \<Longrightarrow> length (pending c') < length (pending c)"
proof -
  assume a: "vkc_cmd c args = (c', Ok r)"
  then obtain buf where b: "vkc_encode args = Ok buf" by (cases "vkc_encode args") (auto simp: vkc_cmd_def)
  obtain c1 r1 where s: "vkc_send c buf = (c1, r1)" "rbuf c1 = rbuf c" "rpos c1 = rpos c" "rx c1 = rx c"
    using vkc_send_frame [of c buf] by blast
  then have "vkc_parse c1 = (c', Ok r)" using a b by (cases r1) (simp_all add: vkc_cmd_def)
  then show ?thesis using vkc_parse_pending [of c1] s by (simp add: pending_def)
qed

lemma scan_elems_pending: "scan_elems k m c out = (c', Ok res) \<Longrightarrow> length (pending c') \<le> length (pending c)"
proof (induction k arbitrary: c out)
  case (Suc k)
  then obtain c1 kr where f: "vkc_parse c = (c1, Ok kr)"
    "scan_elems k m c1 (if rtype kr = 2 \<and> length out < m then out @ [take 255 (cstr_of (rstr kr))] else out) = (c', Ok res)"
    by (auto split: prod.splits cres.splits)
  then show ?case using Suc.IH [OF f(2)] vkc_parse_pending [OF f(1)] by simp
qed simp

lemma scan_round_pending:
  assumes "scan_round c cursor pattern m out = (c', Ok res)"
  shows "length (pending c') < length (pending c)"
proof -
  obtain c1 r where 1: "vkc_cmd c [str ''SCAN'', cursor, str ''MATCH'', pattern, str ''COUNT'', str ''500''] = (c1, Ok r)"
    using assms by (auto simp: scan_round_def split: prod.splits cres.splits)
  then obtain c2 cr where 2: "vkc_parse c1 = (c2, Ok cr)"
    using assms by (auto simp: scan_round_def split: prod.splits cres.splits if_splits)
  then obtain c3 ka where 3: "vkc_parse c2 = (c3, Ok ka)"
    using assms 1 by (auto simp: scan_round_def split: prod.splits cres.splits if_splits)
  then obtain o1 where 4: "scan_elems (nat (count ka)) m c3 out = (c', Ok o1)"
    using assms 1 2 by (auto simp: scan_round_def split: prod.splits cres.splits if_splits)
  show ?thesis using vkc_cmd_pending [OF 1] vkc_parse_pending [OF 2] vkc_parse_pending [OF 3] scan_elems_pending [OF 4] by simp
qed

text \<open>
  \<open>vkc_scan_keys\<close>: rounds until the cursor is 0 again. The loop ends on every input, since each round takes bytes of what the peer sent; a peer that
  never returns the cursor 0 keeps the client in the loop as long as it goes on sending.
\<close>

function vkc_scan_loop :: "vkc_conn \<Rightarrow> cstr \<Rightarrow> cstr \<Rightarrow> nat \<Rightarrow> cstr list \<Rightarrow> vkc_conn \<times> cstr list cres" where
  "vkc_scan_loop c cursor pattern maxkeys out =
     (case scan_round c cursor pattern maxkeys out of
        (c', Err) \<Rightarrow> (c'\<lparr>fd := -1\<rparr>, Err)
      | (c', Ok (cursor', out')) \<Rightarrow>
          if cursor' = str ''0'' then (c', Ok out') else vkc_scan_loop c' cursor' pattern maxkeys out')"
  by pat_completeness auto
termination
  by (relation "measure (\<lambda>(c, cursor, pattern, maxkeys, out). length (pending c))") (auto dest: scan_round_pending [OF sym])

declare vkc_scan_loop.simps [simp del]

definition vkc_scan_keys :: "vkc_conn \<Rightarrow> cstr \<Rightarrow> nat \<Rightarrow> vkc_conn \<times> cstr list cres" where
  "vkc_scan_keys c pattern maxkeys = vkc_scan_loop c (str ''0'') pattern maxkeys []"

end
