(* ===== verification/Cache.thy ===== *)
theory Cache
  imports Types
begin

text \<open>
  The in-memory cache of the resolver (\<open>resolverd.c\<close>): a hash table whose chains and whose LRU list are threaded through the same
  heap-allocated entries.

  The heap is explicit. An entry is allocated when \<open>ents\<close> has it; its three link fields are separate functions of the address,
  one per field of the C struct, so that writing one field visibly leaves the others alone. The arrays of records live in a second
  heap, because a claim below depends on two entries sharing one. Following a pointer to freed or never allocated memory,
  freeing twice, and a chain that never ends are all \<open>None\<close>.

  Every operation is one critical section here; \<open>cache_lookup\<close>, which touches the LRU list after it released the lock of the bucket, is the
  composition of its two sections, so that what happens between them can be stated. \<open>time(NULL)\<close> is the argument \<open>now\<close>; \<open>malloc\<close> may fail,
  and \<open>mem i\<close> says whether the \<open>i\<close>-th allocation of a call succeeds. The requests to the persistent tier are logged in \<open>tier\<close>.
\<close>

section \<open>Entries\<close>

type_synonym addr = nat

record cache_rr =
  rr_type :: u16
  rr_rdlen :: u16
  rr_ttl_original :: u32
  rr_inserted_at :: int
  rr_rdata :: "bytes option"

record cache_entry =
  qname :: cstr
  qtype :: u16
  nrr :: int
  rrs :: "addr option"
  negative :: bool
  rcode :: u8
  neg_ttl :: u32
  inserted_at :: int
  prefetch_ttl :: u32
  served_stale :: bool
  dnssec_status :: int

datatype cache_backend = CACHE_BACKEND_NONE | CACHE_BACKEND_VALKEY | CACHE_BACKEND_OBJECTDB

datatype tier_op = Tier_flush_all | Tier_del cstr

record cache =
  ents :: "addr \<Rightarrow> cache_entry option"
  lru_prev :: "addr \<Rightarrow> addr option"
  lru_next :: "addr \<Rightarrow> addr option"
  hash_next :: "addr \<Rightarrow> addr option"
  arrs :: "addr \<Rightarrow> cache_rr list option"
  brk :: addr
  g_cache :: "nat \<Rightarrow> addr option"
  g_count :: "nat \<Rightarrow> int"
  lru_head :: "addr option"
  lru_tail :: "addr option"
  g_cache_total :: int
  cache_size :: int
  serve_stale_max :: u32
  backend :: cache_backend
  valkey_enabled :: bool
  tier :: "tier_op list"
  stat_expired :: nat


definition cache_hash :: "cstr \<Rightarrow> u16 \<Rightarrow> nat" where
  "cache_hash name qt =
     (let h = fold (\<lambda>c h. (h XOR ucast c) * 16777619) name (2166136261 :: u32);
          h = (h XOR ucast qt) * 16777619
      in unat (h AND 4095))"

text \<open>The records of an entry: \<open>None\<close> when the array is not allocated or too short.\<close>

definition rr_array :: "cache \<Rightarrow> cache_entry \<Rightarrow> cache_rr list option" where
  "rr_array s e = do {
     p \<leftarrow> rrs e;
     l \<leftarrow> arrs s p;
     if nat (nrr e) \<le> length l then Some (take (nat (nrr e)) l) else None
   }"

definition rr_remaining :: "int \<Rightarrow> cache_rr \<Rightarrow> u32" where
  "rr_remaining now r =
     (let elapsed = word_of_int (now - rr_inserted_at r)
      in if elapsed < rr_ttl_original r then rr_ttl_original r - elapsed else 0)"

definition entry_remaining_ttl :: "cache \<Rightarrow> cache_entry \<Rightarrow> int \<Rightarrow> u32 option" where
  "entry_remaining_ttl s e now =
     (if negative e then
        (let elapsed = word_of_int (now - inserted_at e)
         in Some (if elapsed < neg_ttl e then neg_ttl e - elapsed else 0))
      else if nrr e = 0 \<or> rrs e = None then Some 0
      else do {
        l \<leftarrow> rr_array s e;
        let m = fold (\<lambda>r m. if rr_remaining now r < m then rr_remaining now r else m) l (-1);
        Some (if m = -1 then 0 else m)
      })"

definition entry_expired_for :: "cache \<Rightarrow> cache_entry \<Rightarrow> int \<Rightarrow> u32 option" where
  "entry_expired_for s e now =
     (if negative e then
        (let elapsed = word_of_int (now - inserted_at e)
         in Some (if elapsed > neg_ttl e then elapsed - neg_ttl e else 0))
      else if nrr e = 0 \<or> rrs e = None then Some 0
      else do {
        l \<leftarrow> rr_array s e;
        let max_age = fold (\<lambda>r m. let age = word_of_int (now - rr_inserted_at r) in if age > m then age else m) l 0;
        let min_orig = fold (\<lambda>r m. if rr_ttl_original r < m then rr_ttl_original r else m) l (-1);
        Some (if min_orig = -1 then 0 else if max_age > min_orig then max_age - min_orig else 0)
      })"

section \<open>The LRU list\<close>

definition set_lru_next :: "addr \<Rightarrow> addr option \<Rightarrow> cache \<Rightarrow> cache option" where
  "set_lru_next p v s = (if ents s p = None then None else Some (s\<lparr>lru_next := (lru_next s)(p := v)\<rparr>))"

definition set_lru_prev :: "addr \<Rightarrow> addr option \<Rightarrow> cache \<Rightarrow> cache option" where
  "set_lru_prev p v s = (if ents s p = None then None else Some (s\<lparr>lru_prev := (lru_prev s)(p := v)\<rparr>))"

definition lru_unlink :: "addr \<Rightarrow> cache \<Rightarrow> cache option" where
  "lru_unlink e s =
     (if ents s e = None then None
      else do {
        s \<leftarrow> (case lru_prev s e of
                Some p \<Rightarrow> set_lru_next p (lru_next s e) s
              | None \<Rightarrow> Some (s\<lparr>lru_head := lru_next s e\<rparr>));
        (case lru_next s e of
           Some n \<Rightarrow> set_lru_prev n (lru_prev s e) s
         | None \<Rightarrow> Some (s\<lparr>lru_tail := lru_prev s e\<rparr>))
      })"

definition lru_insert :: "addr \<Rightarrow> cache \<Rightarrow> cache option" where
  "lru_insert e s = do {
     s \<leftarrow> set_lru_prev e None s;
     s \<leftarrow> set_lru_next e (lru_head s) s;
     s \<leftarrow> (case lru_head s of Some h \<Rightarrow> set_lru_prev h (Some e) s | None \<Rightarrow> Some s);
     let s = s\<lparr>lru_head := Some e\<rparr>;
     Some (if lru_tail s = None then s\<lparr>lru_tail := Some e\<rparr> else s)
   }"

definition lru_touch :: "addr \<Rightarrow> cache \<Rightarrow> cache option" where
  "lru_touch e s = do { s \<leftarrow> lru_unlink e s; lru_insert e s }"

section \<open>Memory of an entry\<close>

definition cache_entry_free :: "addr \<Rightarrow> cache \<Rightarrow> cache option" where
  "cache_entry_free a s = do {
     e \<leftarrow> ents s a;
     s \<leftarrow> (case rrs e of
             None \<Rightarrow> Some s
           | Some p \<Rightarrow> do { _ \<leftarrow> rr_array s e; Some (s\<lparr>arrs := (arrs s)(p := None)\<rparr>) });
     Some (s\<lparr>ents := (ents s)(a := None)\<rparr>)
   }"

definition cache_entry_copy_free :: "addr option \<Rightarrow> cache \<Rightarrow> cache option" where
  "cache_entry_copy_free e s = (case e of None \<Rightarrow> Some s | Some a \<Rightarrow> cache_entry_free a s)"

definition new_entry :: "cache_entry \<Rightarrow> cache \<Rightarrow> addr \<times> cache" where
  "new_entry e s = (brk s, s\<lparr>brk := brk s + 1, ents := (ents s)(brk s := Some e)\<rparr>)"

definition new_array :: "cache_rr list \<Rightarrow> cache \<Rightarrow> addr \<times> cache" where
  "new_array l s = (brk s, s\<lparr>brk := brk s + 1, arrs := (arrs s)(brk s := Some l)\<rparr>)"

section \<open>Hash chains\<close>

text \<open>The \<open>cache_entry_t **pp\<close> of the sources: where the pointer to the current entry is stored.\<close>

datatype loc = Head nat | Next addr

fun rd_loc :: "cache \<Rightarrow> loc \<Rightarrow> addr option" where
  "rd_loc s (Head b) = g_cache s b"
| "rd_loc s (Next a) = hash_next s a"

fun wr_loc :: "loc \<Rightarrow> addr option \<Rightarrow> cache \<Rightarrow> cache" where
  "wr_loc (Head b) v s = s\<lparr>g_cache := (g_cache s)(b := v)\<rparr>"
| "wr_loc (Next a) v s = s\<lparr>hash_next := (hash_next s)(a := v)\<rparr>"

partial_function (option) find_pp :: "cache \<Rightarrow> (addr \<Rightarrow> cache_entry \<Rightarrow> bool) \<Rightarrow> loc \<Rightarrow> loc option" where
  "find_pp s P pp =
     (case rd_loc s pp of
        None \<Rightarrow> Some pp
      | Some a \<Rightarrow> (case ents s a of None \<Rightarrow> None | Some e \<Rightarrow> if P a e then Some pp else find_pp s P (Next a)))"

declare find_pp.simps [code]

definition key_matches :: "cstr \<Rightarrow> u16 \<Rightarrow> cache_entry \<Rightarrow> bool" where
  "key_matches n t e \<longleftrightarrow> qtype e = t \<and> strcaseeq (qname e) n"

definition add_count :: "nat \<Rightarrow> int \<Rightarrow> cache \<Rightarrow> cache" where
  "add_count b d s = s\<lparr>g_count := (g_count s)(b := g_count s b + d)\<rparr>"

definition add_total :: "int \<Rightarrow> cache \<Rightarrow> cache" where
  "add_total d s = s\<lparr>g_cache_total := g_cache_total s + d\<rparr>"

text \<open>The body shared by \<open>cache_insert\<close> and \<open>cache_flush\<close>: take the entry at \<open>pp\<close> out of the chain and the list, and free it.\<close>

definition cache_unlink_at :: "loc \<Rightarrow> nat \<Rightarrow> addr \<Rightarrow> cache \<Rightarrow> cache option" where
  "cache_unlink_at pp bkt old s = do {
     let s = wr_loc pp (hash_next s old) s;
     s \<leftarrow> lru_unlink old s;
     s \<leftarrow> cache_entry_free old s;
     Some (add_total (- 1) (add_count bkt (- 1) s))
   }"

section \<open>Operations\<close>

definition cache_evict_one :: "cache \<Rightarrow> cache option" where
  "cache_evict_one s =
     (case lru_tail s of
        None \<Rightarrow> Some s
      | Some victim \<Rightarrow> do {
          e \<leftarrow> ents s victim;
          s \<leftarrow> (case lru_prev s victim of
                  Some p \<Rightarrow> set_lru_next p None s
                | None \<Rightarrow> Some (s\<lparr>lru_head := None\<rparr>));
          let s = s\<lparr>lru_tail := lru_prev s victim\<rparr>;
          let bkt = cache_hash (qname e) (qtype e);
          pp \<leftarrow> find_pp s (\<lambda>a _. a = victim) (Head bkt);
          let s = (if rd_loc s pp \<noteq> None then wr_loc pp (hash_next s victim) s else s);
          let s = add_count bkt (- 1) s;
          s \<leftarrow> cache_entry_free victim s;
          Some (add_total (- 1) s)
        })"

definition cache_insert :: "addr \<Rightarrow> cache \<Rightarrow> cache option" where
  "cache_insert a s = do {
     e \<leftarrow> ents s a;
     let bkt = cache_hash (qname e) (qtype e);
     pp \<leftarrow> find_pp s (\<lambda>_. key_matches (qname e) (qtype e)) (Head bkt);
     s \<leftarrow> (case rd_loc s pp of None \<Rightarrow> Some s | Some old \<Rightarrow> cache_unlink_at pp bkt old s);
     let s = s\<lparr>hash_next := (hash_next s)(a := g_cache s bkt), g_cache := (g_cache s)(bkt := Some a)\<rparr>;
     let s = add_count bkt 1 s;
     s \<leftarrow> lru_insert a s;
     let s = add_total 1 s;
     if g_cache_total s > cache_size s then cache_evict_one s else Some s
   }"

text \<open>The copy of one record: its data is copied when there is any, and lost when the allocation fails.\<close>

definition copy_rr :: "bool \<Rightarrow> cache_rr \<Rightarrow> cache_rr" where
  "copy_rr m r = r\<lparr>rr_rdata := (if rr_rdata r \<noteq> None \<and> rr_rdlen r > 0 \<and> m then rr_rdata r else None)\<rparr>"

definition cache_copy :: "(nat \<Rightarrow> bool) \<Rightarrow> cache_entry \<Rightarrow> cache \<Rightarrow> (addr option \<times> cache) option" where
  "cache_copy mem e s =
     (if \<not> mem 0 then Some (None, s)
      else if nrr e > 0 then
        (if \<not> mem 1 then Some (None, s)
         else do {
           l \<leftarrow> rr_array s e;
           let (p, s) = new_array (map (\<lambda>(i, r). copy_rr (mem (2 + i)) r) (enumerate 0 l)) s;
           let (c, s) = new_entry (e\<lparr>rrs := Some p\<rparr>) s;
           Some (Some c, s)
         })
      else let (c, s) = new_entry e s in Some (Some c, s))"

text \<open>The section under the lock of the bucket: the entry found and the copy made of it.\<close>

definition cache_lookup_locked ::
    "(nat \<Rightarrow> bool) \<Rightarrow> int \<Rightarrow> cstr \<Rightarrow> u16 \<Rightarrow> bool \<Rightarrow> cache \<Rightarrow> ((addr \<times> addr) option \<times> cache) option" where
  "cache_lookup_locked mem now qn qt allow_stale s = do {
     pp \<leftarrow> find_pp s (\<lambda>_. key_matches qn qt) (Head (cache_hash qn qt));
     case rd_loc s pp of
       None \<Rightarrow> Some (None, s)
     | Some a \<Rightarrow> do {
         e \<leftarrow> ents s a;
         remaining \<leftarrow> entry_remaining_ttl s e now;
         expired_for \<leftarrow> entry_expired_for s e now;
         if remaining = 0 \<and> (\<not> allow_stale \<or> expired_for > serve_stale_max s)
         then Some (None, if allow_stale then s\<lparr>stat_expired := stat_expired s + 1\<rparr> else s)
         else do {
           let s = (if remaining = 0 then s\<lparr>stat_expired := stat_expired s + 1\<rparr> else s);
           (c, s) \<leftarrow> cache_copy mem (e\<lparr>served_stale := (remaining = 0)\<rparr>) s;
           Some (map_option (\<lambda>c. (a, c)) c, s)
         }
       }
   }"

definition cache_lookup ::
    "(nat \<Rightarrow> bool) \<Rightarrow> int \<Rightarrow> cstr \<Rightarrow> u16 \<Rightarrow> bool \<Rightarrow> cache \<Rightarrow> (addr option \<times> cache) option" where
  "cache_lookup mem now qn qt allow_stale s = do {
     (r, s) \<leftarrow> cache_lookup_locked mem now qn qt allow_stale s;
     case r of
       None \<Rightarrow> Some (None, s)
     | Some (e, c) \<Rightarrow> do { s \<leftarrow> lru_touch e s; Some (Some c, s) }
   }"




definition tier_key :: "cstr \<Rightarrow> u16 \<Rightarrow> cstr" where
  "tier_key n t = take 599 (str ''dnscache:'' @ n @ str '':'' @ type2str t)"

definition logged :: "cache \<Rightarrow> tier_op list \<Rightarrow> cache" where
  "logged s ops = s\<lparr>tier := tier s @ ops\<rparr>"


definition flush_ops :: "cache \<Rightarrow> cstr \<Rightarrow> tier_op list" where
  "flush_ops s key =
     (case backend s of
        CACHE_BACKEND_OBJECTDB \<Rightarrow> [Tier_del key]
      | CACHE_BACKEND_VALKEY \<Rightarrow> if valkey_enabled s then [Tier_del key] else []
      | CACHE_BACKEND_NONE \<Rightarrow> [])"


definition cache_flush :: "cstr \<Rightarrow> u16 \<Rightarrow> cache \<Rightarrow> (nat \<times> cache) option" where
  "cache_flush qn qt s = do {
     let bkt = cache_hash qn qt;
     pp \<leftarrow> find_pp s (\<lambda>_. key_matches qn qt) (Head bkt);
     (n, s) \<leftarrow> (case rd_loc s pp of
                  None \<Rightarrow> Some (0, s)
                | Some e \<Rightarrow> do { s \<leftarrow> cache_unlink_at pp bkt e s; Some (1, s) });
     Some (n, logged s (flush_ops s (tier_key qn qt)))
   }"

section \<open>Representation\<close>

text \<open>
  A doubly linked segment: \<open>f\<close> points to its first element, whose predecessor is \<open>p\<close>; \<open>l\<close> points to its last element, whose
  successor is \<open>n\<close>.
\<close>

fun dllseg :: "(addr \<Rightarrow> addr option) \<Rightarrow> (addr \<Rightarrow> addr option) \<Rightarrow> addr option \<Rightarrow> addr option \<Rightarrow> addr list \<Rightarrow> addr option \<Rightarrow> addr option \<Rightarrow> bool" where
  "dllseg pv nx p f [] l n \<longleftrightarrow> f = n \<and> l = p"
| "dllseg pv nx p f (a # as) l n \<longleftrightarrow> f = Some a \<and> pv a = p \<and> dllseg pv nx (Some a) (nx a) as l n"

fun chain :: "(addr \<Rightarrow> addr option) \<Rightarrow> addr option \<Rightarrow> addr list \<Rightarrow> bool" where
  "chain nx f [] \<longleftrightarrow> f = None"
| "chain nx f (a # as) \<longleftrightarrow> f = Some a \<and> chain nx (nx a) as"

lemma dllseg_upd_prev [simp]: "y \<notin> set as \<Longrightarrow> dllseg (pv(y := v)) nx p f as l n = dllseg pv nx p f as l n"
  by (induction as arbitrary: p f) auto

lemma dllseg_upd_next [simp]: "y \<notin> set as \<Longrightarrow> dllseg pv (nx(y := v)) p f as l n = dllseg pv nx p f as l n"
  by (induction as arbitrary: p f) auto





definition dll :: "cache \<Rightarrow> addr list \<Rightarrow> bool" where
  "dll s L \<longleftrightarrow> distinct L \<and> dllseg (lru_prev s) (lru_next s) None (lru_head s) L (lru_tail s) None"














section \<open>Invariant\<close>

definition bucket :: "cache_entry \<Rightarrow> nat" where
  "bucket e = cache_hash (qname e) (qtype e)"

definition same_key :: "cache_entry \<Rightarrow> cache_entry \<Rightarrow> bool" where
  "same_key e f \<longleftrightarrow> bucket e = bucket f \<and> key_matches (qname e) (qtype e) f"

text \<open>What the owner of an entry guarantees: an array with room for its records, and none when it has no records.\<close>

definition entry_ok :: "cache \<Rightarrow> cache_entry \<Rightarrow> bool" where
  "entry_ok s e \<longleftrightarrow>
     (case rrs e of
        None \<Rightarrow> nrr e = 0
      | Some p \<Rightarrow> 0 < nrr e \<and> (case arrs s p of None \<Rightarrow> False | Some l \<Rightarrow> nat (nrr e) \<le> length l))"

text \<open>\<open>A\<close> are the allocated entries; no two share an array, and every array has an owner.\<close>

definition heap_ok :: "cache \<Rightarrow> addr set \<Rightarrow> bool" where
  "heap_ok s A \<longleftrightarrow>
     (\<forall>a. ents s a \<noteq> None \<longleftrightarrow> a \<in> A) \<and>
     (\<forall>a e. ents s a = Some e \<longrightarrow> a < brk s \<and> entry_ok s e) \<and>
     (\<forall>a b e f p. ents s a = Some e \<longrightarrow> ents s b = Some f \<longrightarrow> rrs e = Some p \<longrightarrow> rrs f = Some p \<longrightarrow> a = b) \<and>
     (\<forall>p. arrs s p \<noteq> None \<longrightarrow> p < brk s \<and> (\<exists>a e. ents s a = Some e \<and> rrs e = Some p))"

definition buckets_ok :: "cache \<Rightarrow> addr list \<Rightarrow> (nat \<Rightarrow> addr list) \<Rightarrow> bool" where
  "buckets_ok s L B \<longleftrightarrow>
     (\<forall>b. chain (hash_next s) (g_cache s b) (B b) \<and> distinct (B b) \<and> g_count s b = int (length (B b)) \<and>
          (\<forall>a. a \<in> set (B b) \<longleftrightarrow> a \<in> set L \<and> (\<exists>e. ents s a = Some e \<and> bucket e = b)))"

definition keys_ok :: "cache \<Rightarrow> addr list \<Rightarrow> bool" where
  "keys_ok s L \<longleftrightarrow>
     (\<forall>a b e f. a \<in> set L \<longrightarrow> b \<in> set L \<longrightarrow> ents s a = Some e \<longrightarrow> ents s b = Some f \<longrightarrow> same_key e f \<longrightarrow> a = b)"

definition cache_wf :: "cache \<Rightarrow> addr list \<Rightarrow> (nat \<Rightarrow> addr list) \<Rightarrow> addr set \<Rightarrow> bool" where
  "cache_wf s L B X \<longleftrightarrow>
     dll s L \<and> buckets_ok s L B \<and> heap_ok s (set L \<union> X) \<and> set L \<inter> X = {} \<and> keys_ok s L \<and> g_cache_total s = int (length L)"

text \<open>What an entry holds, wherever its array is.\<close>

definition view :: "cache \<Rightarrow> addr \<Rightarrow> (cache_entry \<times> cache_rr list) option" where
  "view s a = map_option (\<lambda>e. (e\<lparr>rrs := None\<rparr>, case rr_array s e of None \<Rightarrow> [] | Some l \<Rightarrow> l)) (ents s a)"










section \<open>Removing an entry\<close>





lemma view_cong: "ents s' a = ents s a \<Longrightarrow> arrs s' = arrs s \<Longrightarrow> view s' a = view s a"
  by (simp add: view_def rr_array_def)











section \<open>Specification\<close>








lemma cache_wf_heap: "cache_wf s L B X \<Longrightarrow> heap_ok s (set L \<union> X)"
  by (simp add: cache_wf_def)

lemma view_entry: "ents s a = Some e \<Longrightarrow> \<exists>l. view s a = Some (e\<lparr>rrs := None\<rparr>, l)"
  by (simp add: view_def)





















section \<open>Flushing\<close>











lemma view_logged [simp]: "view (logged s ops) = view s"
  by (intro ext view_cong) (simp_all add: logged_def)





section \<open>Looking up\<close>

























section \<open>Histories\<close>








definition cache_init :: "int \<Rightarrow> u32 \<Rightarrow> cache_backend \<Rightarrow> bool \<Rightarrow> cache" where
  "cache_init cap stale be vk =
     \<lparr>ents = (\<lambda>_. None), lru_prev = (\<lambda>_. None), lru_next = (\<lambda>_. None), hash_next = (\<lambda>_. None), arrs = (\<lambda>_. None), brk = 0,
      g_cache = (\<lambda>_. None), g_count = (\<lambda>_. 0), lru_head = None, lru_tail = None, g_cache_total = 0, cache_size = cap,
      serve_stale_max = stale, backend = be, valkey_enabled = vk, tier = [], stat_expired = 0\<rparr>"


lemma logged_size [simp]: "cache_size (logged s ops) = cache_size s" "serve_stale_max (logged s ops) = serve_stale_max s"
  by (simp_all add: logged_def)












section \<open>Properties\<close>





text \<open>A negative entry for the name \<open>a\<close>, type A, that lives for a minute from time 0.\<close>

definition entry_a :: cache_entry where
  "entry_a = \<lparr>qname = str ''a'', qtype = 1, nrr = 0, rrs = None, negative = True, rcode = 3, neg_ttl = 60, inserted_at = 0,
     prefetch_ttl = 0, served_stale = False, dnssec_status = 0\<rparr>"


text \<open>
  An entry without records that owns an array is freed twice. When every record of an answer is skipped (for instance because its
  class is not IN), \<open>parse_response_to_entry\<close> hands over an entry with \<open>nrr = 0\<close> and a non-null \<open>rrs\<close>. A stale lookup copies
  the pointer instead of the array, the caller frees the copy, and flushing the entry frees the array again.
\<close>

theorem cache_double_free:
  "\<exists>s c s1 s2.
     cache_insert 1 (snd (new_entry (entry_a\<lparr>negative := False, rrs := Some 0\<rparr>)
       (snd (new_array [] (cache_init 10 0 CACHE_BACKEND_NONE False))))) = Some s \<and>
     cache_lookup (\<lambda>_. True) 1 (str ''a'') 1 True s = Some (Some c, s1) \<and>
     cache_entry_copy_free (Some c) s1 = Some s2 \<and> cache_flush (str ''a'') 1 s2 = None"
proof -
  have "(case cache_insert 1 (snd (new_entry (entry_a\<lparr>negative := False, rrs := Some 0\<rparr>)
       (snd (new_array [] (cache_init 10 0 CACHE_BACKEND_NONE False))))) of
      None \<Rightarrow> False
    | Some s \<Rightarrow> (case cache_lookup (\<lambda>_. True) 1 (str ''a'') 1 True s of
        Some (Some c, s1) \<Rightarrow> (case cache_entry_copy_free (Some c) s1 of None \<Rightarrow> False | Some s2 \<Rightarrow> Option.is_none (cache_flush (str ''a'') 1 s2))
      | _ \<Rightarrow> False))"
    by code_simp
  then show ?thesis by (auto split: option.splits prod.splits simp: Option.is_none_def) (metis option.exhaust prod.exhaust)
qed

end
