(* ===== verification/Dnssec.thy ===== *)
theory Dnssec
  imports Canon
begin

text \<open>
  DNSSEC signing in the authoritative server (\<open>dns_server.c\<close>): DNSKEY rdata and key tags, DS rdata, the RRSIG of one record, the
  emission of signed records, and the DNSKEY, CDS, CDNSKEY and DS answers of a zone apex.

  OpenSSL is a parameter: a \<open>crypto\<close> record of the calls the sources make. A key of type \<open>'k\<close> is an \<open>EVP_PKEY\<close>. Allocation
  of the scratch buffers is taken to succeed.
\<close>

section \<open>Keys of a zone\<close>

record 'k crypto =
  ec_pub_xy :: "'k \<Rightarrow> bytes option"
  ed_raw_pub :: "'k \<Rightarrow> bytes option"
  digest_sign :: "u8 \<Rightarrow> 'k \<Rightarrow> bytes \<Rightarrow> bytes option"
  ecdsa_der_to_raw :: "bytes \<Rightarrow> bytes option"
  sha256 :: "bytes \<Rightarrow> bytes"

text \<open>What the manual of OpenSSL promises about sizes.\<close>

definition crypto_ok :: "'k crypto \<Rightarrow> bool" where
  "crypto_ok cr \<longleftrightarrow>
     (\<forall>k xy. ec_pub_xy cr k = Some xy \<longrightarrow> length xy = 64) \<and> (\<forall>k p. ed_raw_pub cr k = Some p \<longrightarrow> length p = 32) \<and>
     (\<forall>k m s. digest_sign cr 15 k m = Some s \<longrightarrow> length s = 64) \<and> (\<forall>d r. ecdsa_der_to_raw cr d = Some r \<longrightarrow> length r = 64) \<and>
     (\<forall>m. length (sha256 cr m) = 32)"

text \<open>
  The phase of a rollover: \<open>ROLL_NONE\<close>, \<open>ROLL_PUBLISH\<close>, \<open>ROLL_COMMIT\<close> for the zone signing keys, and \<open>KROLL_NONE\<close>,
  \<open>KROLL_DOUBLE\<close>, \<open>KROLL_RETIRE\<close> for the key signing keys; the constants are 0, 1, 2 in both.
\<close>

datatype phase = ROLL_NONE | ROLL_FIRST | ROLL_SECOND

text \<open>One half of the key state of \<open>zone_entry_t\<close>: the fields of the ZSK set, or those of the KSK set.\<close>

record 'k keyset =
  cur :: "'k option"
  cur_tag :: u16
  cur_ed :: "'k option"
  cur_ed_tag :: u16
  nxt :: "'k option"
  nxt_tag :: u16
  nxt_ed :: "'k option"
  nxt_ed_tag :: u16
  roll_phase :: phase
  roll_since :: int
  created :: int

record 'k zone =
  zname :: cstr
  zactive :: bool
  soa_serial :: u32
  zsk :: "'k keyset"
  ksk :: "'k keyset"

section \<open>DNSKEY rdata, key tags, DS rdata\<close>

definition dnskey_rdata_ecdsa :: "'k crypto \<Rightarrow> 'k \<Rightarrow> nat \<Rightarrow> bytes cres" where
  "dnskey_rdata_ecdsa cr k rdlen =
     (if rdlen < 68 then Err else case ec_pub_xy cr k of None \<Rightarrow> Err | Some xy \<Rightarrow> Ok ([1, 0, 3, 13] @ xy))"

definition dnskey_rdata_ed25519 :: "'k crypto \<Rightarrow> 'k \<Rightarrow> nat \<Rightarrow> bytes cres" where
  "dnskey_rdata_ed25519 cr k rdlen =
     (if rdlen < 36 then Err else case ed_raw_pub cr k of None \<Rightarrow> Err | Some p \<Rightarrow> Ok ([1, 0, 3, 15] @ p))"

definition dnskey_rdata_ksk_ecdsa :: "'k crypto \<Rightarrow> 'k \<Rightarrow> nat \<Rightarrow> bytes cres" where
  "dnskey_rdata_ksk_ecdsa cr k rdlen =
     (if rdlen < 68 then Err else case ec_pub_xy cr k of None \<Rightarrow> Err | Some xy \<Rightarrow> Ok ([1, 1, 3, 13] @ xy))"

definition dnskey_rdata_ksk_ed25519 :: "'k crypto \<Rightarrow> 'k \<Rightarrow> nat \<Rightarrow> bytes cres" where
  "dnskey_rdata_ksk_ed25519 cr k rdlen =
     (if rdlen < 36 then Err else case ed_raw_pub cr k of None \<Rightarrow> Err | Some p \<Rightarrow> Ok ([1, 1, 3, 15] @ p))"

fun keytag_loop :: "nat \<Rightarrow> bytes \<Rightarrow> u32 \<Rightarrow> u32" where
  "keytag_loop i [] ac = ac"
| "keytag_loop i (c # rd) ac = keytag_loop (i + 1) rd (ac + (if odd i then ucast c else push_bit 8 (ucast c)))"

definition keytag :: "bytes \<Rightarrow> u16" where
  "keytag rd = (let ac = keytag_loop 0 rd 0; ac = ac + (drop_bit 16 ac AND 0xFFFF) in ucast (ac AND 0xFFFF))"

definition ds_rdata_from_dnskey :: "'k crypto \<Rightarrow> cstr \<Rightarrow> bytes \<Rightarrow> u16 \<Rightarrow> u8 \<Rightarrow> bytes cres option" where
  "ds_rdata_from_dnskey cr owner dkrd tag alg = do {
     (hin, hp) \<leftarrow> name_to_wire owner (replicate 512 0) 0 512;
     case hp of
       Err \<Rightarrow> Some Err
     | Ok hp \<Rightarrow>
         if hp = 0 \<or> hp + length dkrd > 512 then Some Err
         else do {
           hin \<leftarrow> wrn hin hp dkrd;
           Some (Ok (be16 tag @ [alg, 2] @ sha256 cr (take (hp + length dkrd) hin))) } }"

definition label_count :: "cstr \<Rightarrow> nat" where
  "label_count n = (if n = [] then 0 else 1 + count_list n 46 - (if last n = 46 then 1 else 0))"

section \<open>The signature of one record\<close>

text \<open>The signer's name after the fixed fields: a label that does not leave room for the root label is an error.\<close>

fun sgn_loop :: "cstr list \<Rightarrow> bytes \<Rightarrow> bytes cres option" where
  "sgn_loop [] hdr = map_option Ok (app 512 hdr [0])"
| "sgn_loop (lbl # ls) hdr =
     (if length hdr + length lbl + 2 > 512 then Some Err
      else do { hdr \<leftarrow> app 512 hdr (of_nat (length lbl) # lbl); sgn_loop ls hdr })"

definition name_toks :: "cstr \<Rightarrow> cstr list" where
  "name_toks n = toks [46] (safe_strcpy [] (strlower (safe_strcpy [] n 256)) 256)"

definition make_rrsig ::
    "'k crypto \<Rightarrow> int \<Rightarrow> cstr \<Rightarrow> cstr \<Rightarrow> u16 \<Rightarrow> u32 \<Rightarrow> bytes \<Rightarrow> 'k option \<Rightarrow> u8 \<Rightarrow> u16 \<Rightarrow> bytes cres option" where
  "make_rrsig cr now owner signer rrtype ttl rrdata key alg tag =
     (case key of
        None \<Rightarrow> Some Err
      | Some k \<Rightarrow> do {
          let t_inc = word_of_int (now - 300);
          let t_exp = word_of_int (now + 7 * 86400);
          let hdr = be16 rrtype @ [alg, of_nat (label_count owner)] @ be32 ttl @ be32 t_exp @ be32 t_inc @ be16 tag;
          hdr \<leftarrow> sgn_loop (name_toks signer) hdr;
          case hdr of
            Err \<Rightarrow> Some Err
          | Ok hdr \<Rightarrow> do {
              own_w \<leftarrow> label_loop 256 (name_toks owner) [];
              (out, clen) \<leftarrow> canon_rdata rrdata (length rrdata) 0 (length rrdata) rrtype (replicate (length rrdata) 0) (length rrdata);
              case clen of
                Err \<Rightarrow> Some Err
              | Ok clen \<Rightarrow> do {
                  let rr = own_w @ be16 rrtype @ [0, 1] @ be32 ttl @ be16 (of_nat clen) @ take clen out;
                  case digest_sign cr alg k (hdr @ rr) of
                    None \<Rightarrow> Some Err
                  | Some der \<Rightarrow>
                      if alg = 15 then Some (Ok (hdr @ der))
                      else case ecdsa_der_to_raw cr der of None \<Rightarrow> Some Err | Some raw \<Rightarrow> Some (Ok (hdr @ raw)) } } })"

section \<open>Emitting records\<close>

text \<open>The message under construction: compression context, buffer, offset, and the count of records.\<close>

type_synonym msg = "compress_ctx \<times> bytes \<times> nat \<times> nat"

definition ttl_clamp :: "u32 \<Rightarrow> u32" where
  "ttl_clamp ttl = (if ttl > 2147483647 then 2147483647 else ttl)"

text \<open>Append one record; one that does not fit is left out.\<close>

fun emit1 :: "nat \<Rightarrow> cstr \<Rightarrow> u16 \<Rightarrow> u32 \<Rightarrow> bytes \<Rightarrow> msg \<Rightarrow> msg option" where
  "emit1 blen name type ttl rdata (cc, b, off, answers) = do {
     (cc, b, r) \<leftarrow> append_rr cc b off blen name type 1 ttl rdata (of_nat (length rdata));
     Some (case r of Err \<Rightarrow> (cc, b, off, answers) | Ok off' \<Rightarrow> (cc, b, off', answers + 1)) }"

text \<open>Append the signature of a record by one key; the array \<open>sig\<close> has 512 bytes.\<close>

definition emit_sig ::
    "'k crypto \<Rightarrow> int \<Rightarrow> 'k zone \<Rightarrow> nat \<Rightarrow> cstr \<Rightarrow> u16 \<Rightarrow> u32 \<Rightarrow> bytes \<Rightarrow> 'k option \<Rightarrow> u8 \<Rightarrow> u16 \<Rightarrow> msg \<Rightarrow> msg option" where
  "emit_sig cr now z blen name type ttl rdata key alg tag m =
     (if key = None then Some m
      else do {
        s \<leftarrow> make_rrsig cr now name (zname z) type ttl rdata key alg tag;
        case s of
          Err \<Rightarrow> Some m
        | Ok sig \<Rightarrow> if length sig > 512 then None else emit1 blen name 46 ttl sig m })"

definition use_next :: "'k keyset \<Rightarrow> bool" where
  "use_next ks \<longleftrightarrow> roll_phase ks = ROLL_SECOND \<and> nxt ks \<noteq> None"

text \<open>The zone signing keys in use: those that sign everything but the DNSKEY RRset.\<close>

definition signer :: "'k keyset \<Rightarrow> ('k option \<times> u16) \<times> ('k option \<times> u16)" where
  "signer ks =
     (if use_next ks then ((nxt ks, nxt_tag ks), (nxt_ed ks, nxt_ed_tag ks)) else ((cur ks, cur_tag ks), (cur_ed ks, cur_ed_tag ks)))"

fun emit_rr ::
    "'k crypto \<Rightarrow> int \<Rightarrow> 'k zone option \<Rightarrow> bool \<Rightarrow> nat \<Rightarrow> cstr \<Rightarrow> u16 \<Rightarrow> u32 \<Rightarrow> bytes \<Rightarrow> msg \<Rightarrow> msg option" where
  "emit_rr cr now zo dnssec_ok blen name type ttl rdata (cc, b, off, answers) = do {
     let ttl = ttl_clamp ttl;
     (cc, b, r) \<leftarrow> append_rr cc b off blen name type 1 ttl rdata (of_nat (length rdata));
     case r of
       Err \<Rightarrow> Some (cc, b, off, answers)
     | Ok noff \<Rightarrow> (case zo of
         None \<Rightarrow> Some (cc, b, noff, answers + 1)
       | Some z \<Rightarrow>
           if \<not> dnssec_ok \<or> cur (zsk z) = None then Some (cc, b, noff, answers + 1)
           else do {
             let ((k13, t13), (k15, t15)) = signer (zsk z);
             m \<leftarrow> emit_sig cr now z blen name type ttl rdata k13 13 t13 (cc, b, noff, answers + 1);
             emit_sig cr now z blen name type ttl rdata k15 15 t15 m }) }"

section \<open>Answers at the apex\<close>

text \<open>
  The DNSKEY RRset of a zone, in the order the server writes it: algorithm, whether the key is a KSK, whether it is the incoming
  one, the key and its tag. Incoming keys are there while their rollover is active.
\<close>

definition dnskeys :: "'k zone \<Rightarrow> (u8 \<times> bool \<times> bool \<times> 'k option \<times> u16) list" where
  "dnskeys z =
     (let zs = zsk z; ks = ksk z;
          zn = (if roll_phase zs \<noteq> ROLL_NONE then nxt zs else None); zne = (if roll_phase zs \<noteq> ROLL_NONE then nxt_ed zs else None);
          kn = (if roll_phase ks \<noteq> ROLL_NONE then nxt ks else None); kne = (if roll_phase ks \<noteq> ROLL_NONE then nxt_ed ks else None)
      in [(13, False, False, cur zs, cur_tag zs), (15, False, False, cur_ed zs, cur_ed_tag zs),
          (13, False, True, zn, nxt_tag zs), (15, False, True, zne, nxt_ed_tag zs),
          (13, True, False, cur ks, cur_tag ks), (15, True, False, cur_ed ks, cur_ed_tag ks),
          (13, True, True, kn, nxt_tag ks), (15, True, True, kne, nxt_ed_tag ks)])"

definition dnskey_rdata :: "'k crypto \<Rightarrow> u8 \<Rightarrow> bool \<Rightarrow> 'k \<Rightarrow> bytes cres" where
  "dnskey_rdata cr alg is_ksk k =
     (if is_ksk then (if alg = 15 then dnskey_rdata_ksk_ed25519 cr k 68 else dnskey_rdata_ksk_ecdsa cr k 68)
      else (if alg = 15 then dnskey_rdata_ed25519 cr k 68 else dnskey_rdata_ecdsa cr k 68))"

fun dnskey_answer ::
    "'k crypto \<Rightarrow> int \<Rightarrow> 'k zone \<Rightarrow> bool \<Rightarrow> nat \<Rightarrow> cstr \<Rightarrow> (u8 \<times> bool \<times> bool \<times> 'k option \<times> u16) list \<Rightarrow> bool \<Rightarrow> msg
       \<Rightarrow> (bool \<times> msg) option" where
  "dnskey_answer cr now z dnssec_ok blen qn [] found m = Some (found, m)"
| "dnskey_answer cr now z dnssec_ok blen qn ((alg, is_ksk, incoming, key, tag) # es) found m =
     (case key of
        None \<Rightarrow> dnskey_answer cr now z dnssec_ok blen qn es found m
      | Some k \<Rightarrow> (case dnskey_rdata cr alg is_ksk k of
          Err \<Rightarrow> dnskey_answer cr now z dnssec_ok blen qn es found m
        | Ok rd \<Rightarrow> do {
            m \<leftarrow> emit1 blen qn 48 3600 rd m;
            m \<leftarrow> (if is_ksk \<and> dnssec_ok then emit_sig cr now z blen qn 48 3600 rd key alg tag m else Some m);
            dnskey_answer cr now z dnssec_ok blen qn es (found \<or> \<not> incoming) m }))"

definition emit_ds_like ::
    "'k crypto \<Rightarrow> int \<Rightarrow> 'k zone \<Rightarrow> bool \<Rightarrow> nat \<Rightarrow> cstr \<Rightarrow> u16 \<Rightarrow> 'k option \<Rightarrow> u8 \<Rightarrow> u16 \<Rightarrow> msg \<Rightarrow> msg option" where
  "emit_ds_like cr now z dnssec_ok blen qn rrtype key alg tag m =
     (case key of
        None \<Rightarrow> Some m
      | Some k \<Rightarrow> (case dnskey_rdata cr alg True k of
          Err \<Rightarrow> Some m
        | Ok dkrd \<Rightarrow> do {
            ds \<leftarrow> ds_rdata_from_dnskey cr qn dkrd tag alg;
            case ds of Err \<Rightarrow> Some m | Ok dsrd \<Rightarrow> emit_rr cr now (Some z) dnssec_ok blen qn rrtype 3600 dsrd m }))"

definition emit_cdnskey ::
    "'k crypto \<Rightarrow> int \<Rightarrow> 'k zone \<Rightarrow> bool \<Rightarrow> nat \<Rightarrow> cstr \<Rightarrow> 'k option \<Rightarrow> u8 \<Rightarrow> msg \<Rightarrow> msg option" where
  "emit_cdnskey cr now z dnssec_ok blen qn key alg m =
     (case key of
        None \<Rightarrow> Some m
      | Some k \<Rightarrow> (case dnskey_rdata cr alg True k of
          Err \<Rightarrow> Some m
        | Ok dkrd \<Rightarrow> emit_rr cr now (Some z) dnssec_ok blen qn 60 3600 dkrd m))"

text \<open>Which key signing keys the child asks the parent to list: the old ones until \<open>KROLL_RETIRE\<close>, the new ones from \<open>KROLL_DOUBLE\<close> on.\<close>

definition cds_keys :: "'k keyset \<Rightarrow> ('k option \<times> u8 \<times> u16) list" where
  "cds_keys ks =
     (if roll_phase ks \<noteq> ROLL_SECOND then [(cur ks, 13, cur_tag ks), (cur_ed ks, 15, cur_ed_tag ks)] else []) @
     (if roll_phase ks \<noteq> ROLL_NONE then [(nxt ks, 13, nxt_tag ks), (nxt_ed ks, 15, nxt_ed_tag ks)] else [])"

fun ds_answer :: "'k crypto \<Rightarrow> int \<Rightarrow> 'k zone \<Rightarrow> bool \<Rightarrow> nat \<Rightarrow> cstr \<Rightarrow> u16 \<Rightarrow> ('k option \<times> u8 \<times> u16) list \<Rightarrow> msg \<Rightarrow> msg option" where
  "ds_answer cr now z dnssec_ok blen qn rrtype [] m = Some m"
| "ds_answer cr now z dnssec_ok blen qn rrtype ((key, alg, tag) # es) m = do {
     m \<leftarrow> emit_ds_like cr now z dnssec_ok blen qn rrtype key alg tag m;
     ds_answer cr now z dnssec_ok blen qn rrtype es m }"

fun cdnskey_answer :: "'k crypto \<Rightarrow> int \<Rightarrow> 'k zone \<Rightarrow> bool \<Rightarrow> nat \<Rightarrow> cstr \<Rightarrow> ('k option \<times> u8 \<times> u16) list \<Rightarrow> msg \<Rightarrow> msg option" where
  "cdnskey_answer cr now z dnssec_ok blen qn [] m = Some m"
| "cdnskey_answer cr now z dnssec_ok blen qn ((key, alg, tag) # es) m = do {
     m \<leftarrow> emit_cdnskey cr now z dnssec_ok blen qn key alg m;
     cdnskey_answer cr now z dnssec_ok blen qn es m }"

section \<open>Key tags\<close>

text \<open>The sum of RFC 4034, appendix B, over the octets from position \<open>i\<close> on.\<close>

fun kt_sum :: "nat \<Rightarrow> bytes \<Rightarrow> nat" where
  "kt_sum i [] = 0"
| "kt_sum i (c # rd) = (if odd i then unat c else 256 * unat c) + kt_sum (i + 1) rd"

definition kt_spec :: "bytes \<Rightarrow> nat" where
  "kt_spec rd = (kt_sum 0 rd + kt_sum 0 rd div 65536) mod 65536"

lemma kt_sum_bound: "kt_sum i rd \<le> 65280 * length rd"
proof (induction rd arbitrary: i)
  case (Cons c rd)
  have "unat c \<le> 255" using unat_u8 [of c] by linarith
  then show ?case using Cons.IH [of "i + 1"] by simp
qed simp

lemma keytag_loop_sum:
  "unat ac + kt_sum i rd < 2 ^ 32 \<Longrightarrow> unat (keytag_loop i rd ac) = unat ac + kt_sum i rd"
proof (induction rd arbitrary: i ac)
  case (Cons c rd)
  let ?d = "if odd i then ucast c else push_bit 8 (ucast c) :: u32"
  have c: "unat c < 256" by simp
  then have u: "unat (ucast c :: u32) = unat c" by (simp add: unsigned_ucast_eq take_bit_eq_mod mod_less [OF less_trans [OF c]])
  moreover have "unat (push_bit 8 (ucast c :: u32)) = 256 * unat c"
  proof -
    have "unat c * 256 < 4294967296" using c by linarith
    then show ?thesis using u by (simp add: push_bit_eq_mult unat_word_ariths)
  qed
  ultimately have d: "unat ?d = (if odd i then unat c else 256 * unat c)" by simp
  have "unat (ac + ?d) = unat ac + unat ?d" using Cons.prems d by (subst unat_add_lem [THEN iffD1]) auto
  then show ?case using Cons d by simp
qed simp

lemma keytag_spec:
  assumes "length rd \<le> 65535"
  shows "unat (keytag rd) = kt_spec rd"
proof -
  let ?s = "kt_sum 0 rd" and ?ac = "keytag_loop 0 rd 0"
  have b: "?s \<le> 4278124800" using kt_sum_bound [of 0 rd] assms by linarith
  then have s: "unat ?ac = ?s" using keytag_loop_sum [of 0 0 rd] by simp
  have "unat (drop_bit 16 ?ac) = ?s div 65536" using s by (simp add: drop_bit_eq_div unat_div)
  moreover have m: "unat (x AND 0xFFFF) = unat x mod 65536" for x :: u32
  proof -
    have "x AND 0xFFFF = take_bit 16 x" by (simp add: take_bit_eq_mask mask_eq_exp_minus_1)
    then have "unat (x AND 0xFFFF) = take_bit 16 (unat x)" by (simp only: unsigned_take_bit_eq)
    then show ?thesis by (simp add: take_bit_eq_mod)
  qed
  ultimately have "unat (drop_bit 16 ?ac AND 0xFFFF) = ?s div 65536 mod 65536" by simp
  also have "\<dots> = ?s div 65536" using b by simp
  finally have h: "unat (drop_bit 16 ?ac AND 0xFFFF) = ?s div 65536" .
  have "unat (?ac + (drop_bit 16 ?ac AND 0xFFFF)) = ?s + ?s div 65536"
    using s h b by (subst unat_add_lem [THEN iffD1]) auto
  then have "unat ((?ac + (drop_bit 16 ?ac AND 0xFFFF)) AND 0xFFFF) = kt_spec rd" by (simp only: m kt_spec_def)
  then show ?thesis by (simp add: keytag_def Let_def unsigned_ucast_eq kt_spec_def take_bit_eq_mod)
qed

text \<open>The SEP bit shifts the sum by one, and the tag always with it.\<close>

lemma kt_spec_sep: "kt_spec (a # b # rd) \<noteq> kt_spec (a # (b + 1) # rd)" if "unat b < 255"
proof -
  have "unat (b + 1) = unat b + 1" using that by (simp add: unat_word_ariths)
  then have s: "kt_sum 0 (a # (b + 1) # rd) = kt_sum 0 (a # b # rd) + 1" by simp
  have ne: "(m + d) mod 65536 \<noteq> m mod 65536" if "0 < d" "d < 65536" for m d :: nat
    using that mod_eq_dvd_iff_nat [of m "m + d" 65536] by (auto dest: dvd_imp_le)
  have "(n + n div 65536) mod 65536 \<noteq> (n + 1 + (n + 1) div 65536) mod 65536" for n :: nat
  proof -
    have "(n + 1) div 65536 = n div 65536 \<or> (n + 1) div 65536 = n div 65536 + 1" by (simp add: div_Suc)
    then show ?thesis
    proof (elim disjE)
      assume e: "(n + 1) div 65536 = n div 65536"
      show ?thesis unfolding e using ne [of 1 "n + n div 65536"] by (simp add: ac_simps)
    next
      assume e: "(n + 1) div 65536 = n div 65536 + 1"
      show ?thesis unfolding e using ne [of 2 "n + n div 65536"] by (simp add: ac_simps)
    qed
  qed
  then show ?thesis unfolding kt_spec_def s by blast
qed

section \<open>Signatures\<close>

lemma name_toks_labels: "0 \<notin> set n \<Longrightarrow> name_toks n = map (map lower8) (labels_of n)"
proof -
  assume n: "0 \<notin> set n"
  let ?t = "safe_strcpy [] n 256"
  have t: "0 \<notin> set ?t" using n set_safe_strcpy [of 256 "[]" n] by auto
  have "length ?t < 256" by (rule safe_strcpy_bound) simp
  then have "safe_strcpy [] (strlower ?t) 256 = map lower8 ?t" using t by (simp add: safe_strcpy_id strlower_map)
  then show ?thesis by (simp add: name_toks_def labels_of_def toks_lower)
qed

lemma sgn_loop_ok: "length hdr + length (wire ls) \<le> 512 \<Longrightarrow> sgn_loop ls hdr = Some (Ok (hdr @ wire ls))"
proof (induction ls arbitrary: hdr)
  case (Cons l ls)
  have "1 \<le> length (wire ls)" by (simp add: length_wire)
  then show ?case using Cons by (simp add: app_def)
qed (simp add: app_def)










section \<open>Properties\<close>

text \<open>
  \<open>keytag\<close> is the key tag of RFC 4034, appendix B: the 32-bit accumulator of the loop does not wrap on any rdata, and its high
  half is folded into the low one.
\<close>

theorem keytag_rfc4034:
  assumes "length rd \<le> 65535"
  shows "unat (keytag rd) = (kt_sum 0 rd + kt_sum 0 rd div 65536) mod 65536"
  using keytag_spec [OF assms] by (simp add: kt_spec_def)

theorem keytag_rfc4034_witness:
  "unat (keytag [1, 1, 3, 13, 255]) = (kt_sum 0 [1, 1, 3, 13, 255] + kt_sum 0 [1, 1, 3, 13, 255] div 65536) mod 65536"
  by (rule keytag_rfc4034) simp


definition crypto_demo :: "nat crypto" where
  "crypto_demo = \<lparr>ec_pub_xy = (\<lambda>k. Some (replicate 64 (of_nat k))), ed_raw_pub = (\<lambda>k. Some (replicate 32 (of_nat k))),
     digest_sign = (\<lambda>alg k m. Some (replicate 64 (of_nat (length m)))), ecdsa_der_to_raw = (\<lambda>d. Some (replicate 64 (of_nat (length d)))),
     sha256 = (\<lambda>m. replicate 32 (of_nat (length m)))\<rparr>"


text \<open>The tag that \<open>dnssec_init_key\<close> stores for a key it loaded or generated, ZSK and KSK alike.\<close>

definition init_key_tag :: "'k crypto \<Rightarrow> u8 \<Rightarrow> 'k \<Rightarrow> u16 \<Rightarrow> u16" where
  "init_key_tag cr alg k tag =
     (case (if alg = 15 then dnskey_rdata_ed25519 cr k 68 else dnskey_rdata_ecdsa cr k 68) of Err \<Rightarrow> tag | Ok rd \<Rightarrow> keytag rd)"

text \<open>
  The key tag of a key signing key is wrong. \<open>dnssec_init_key\<close> computes the tag of every key over ZSK rdata (flags 256), but a KSK
  is published with flags 257; for every key the tag that the RRSIG of the DNSKEY RRset, the DS and the CDS carry differs from the tag of
  the DNSKEY that is published.
\<close>

theorem ksk_tag_mismatch:
  assumes "crypto_ok cr" "dnskey_rdata cr alg True k = Ok rd"
  shows "init_key_tag cr alg k tag \<noteq> keytag rd"
proof -
  obtain x p where rd: "rd = 1 # 1 # x # p" and z: "(if alg = 15 then dnskey_rdata_ed25519 cr k 68 else dnskey_rdata_ecdsa cr k 68) = Ok (1 # 0 # x # p)"
    and l: "length rd \<le> 68"
    using assms
    by (auto simp: dnskey_rdata_def dnskey_rdata_ksk_ed25519_def dnskey_rdata_ksk_ecdsa_def dnskey_rdata_ed25519_def dnskey_rdata_ecdsa_def
        crypto_ok_def split: if_splits option.splits)
  have "unat (keytag rd) \<noteq> unat (keytag (1 # 0 # x # p))"
    using kt_spec_sep [of 0 1 "x # p"] l rd by (simp add: keytag_spec)
  then show ?thesis using z by (auto simp: init_key_tag_def)
qed

theorem ksk_tag_mismatch_witness: "init_key_tag crypto_demo 13 7 0 \<noteq> keytag ([1, 1, 3, 13] @ replicate 64 7)"
  by (rule ksk_tag_mismatch) (auto simp: crypto_ok_def crypto_demo_def dnskey_rdata_def dnskey_rdata_ksk_ecdsa_def)

text \<open>
  \<open>make_rrsig\<close> overflows its stack array for the longest names the parser lets through. \<open>name_from_wire\<close> accepts a name of four labels
  of 63 octets, 255 characters as text; its wire form has 257 octets, and \<open>make_rrsig\<close> writes it into \<open>own_w[256]\<close> without a check.
\<close>

theorem make_rrsig_overflow:
  "\<exists>owner. name_from_wire (wire (replicate 4 (replicate 63 97))) 257 0 256 = Some (Ok (257, owner)) \<and>
     make_rrsig cr now owner (str ''ex'') rrtype ttl rrdata (Some k) alg tag = None"
proof (intro exI conjI)
  let ?ls = "replicate 4 (replicate 63 97) :: cstr list" and ?n = "join 46 (replicate 4 (replicate 63 97)) :: cstr"
  show "name_from_wire (wire ?ls) 257 0 256 = Some (Ok (257, ?n))" by code_simp
  have z: "0 \<notin> set ?n" using set_join [of 46 ?ls] by auto
  have l: "length ?n \<le> 255" using length_join [of ?ls 46] by (simp add: sum_list_replicate)
  have t: "name_toks ?n = ?ls"
    using name_toks_labels [OF z] labels_of_join [OF _ l] by (simp add: lower8_def)
  have "length (wire ?ls) = 257" by (simp add: length_wire sum_list_replicate)
  then have ow: "label_loop 256 (name_toks ?n) [] = None" using label_loop_overflow [of 256 "[]" ?ls] t by simp
  have s: "sgn_loop (name_toks (str ''ex'')) hdr = Some (Ok (hdr @ [2, 101, 120, 0]))" if "length hdr = 18" for hdr
  proof -
    have "name_toks (str ''ex'') = [[101, 120]]" by code_simp
    then show ?thesis using sgn_loop_ok [of hdr "[[101, 120]]"] that by simp
  qed
  show "make_rrsig cr now ?n (str ''ex'') rrtype ttl rrdata (Some k) alg tag = None"
    by (simp add: make_rrsig_def Let_def s ow)
qed

end
