(* ===== verification/Rollover.thy ===== *)
theory Rollover
  imports Dnssec
begin

text \<open>
  The key rollover engine of the authoritative server (\<open>dns_server.c\<close>): loading the keys of a zone from the store, the Pre-Publish
  rollover of the zone signing keys and the Double-Signature rollover of the key signing keys (RFC 6781), and the periodic tick that
  drives both.

  The sources write the two rollovers out twice with other key names; here one definition has the kind as an argument. The Valkey
  store and OpenSSL's key reader and generator are parameters, fields of \<open>env\<close>; time is an argument. The log of outgoing
  NOTIFY messages is returned. ZONEMD recomputation after a change of the serial is not part of this theory.
\<close>

section \<open>Environment\<close>

datatype kind = ZSK | KSK

datatype cmd = SET cstr cstr | DEL cstr | INCR cstr

text \<open>The replies of the store that the engine looks at: an integer, or anything else.\<close>

datatype reply = R_int int | R_other

datatype event = Notify | Notify_parent u16

record ('k, 's) env =
  cr :: "'k crypto"
  pem_read :: "cstr \<Rightarrow> 'k option"
  keygen :: "cstr \<Rightarrow> 'k option \<times> cstr"
  vk_get :: "'s \<Rightarrow> cstr \<Rightarrow> cstr option"
  vk_set :: "'s \<Rightarrow> cstr \<Rightarrow> cstr \<Rightarrow> 's"
  txn :: "'s \<Rightarrow> cmd list \<Rightarrow> 's \<times> reply list option"
  zone_primary :: cstr
  zone_secondary :: bool

text \<open>A read into an array of \<open>n\<close> bytes.\<close>

definition get_n :: "('k, 's) env \<Rightarrow> nat \<Rightarrow> 's \<Rightarrow> cstr \<Rightarrow> cstr option" where
  "get_n E n s k = map_option (take (n - 1)) (vk_get E s k)"

definition MAX_PEM :: nat where "MAX_PEM = 65536"

definition printf_d :: "int \<Rightarrow> cstr" where
  "printf_d n = (if n < 0 then 45 # dec (nat (- n)) else dec (nat n))"

definition atol :: "cstr \<Rightarrow> int" where
  "atol s = fst (strtol 10 s)"

fun kind_str :: "kind \<Rightarrow> cstr" where
  "kind_str ZSK = str ''zsk''"
| "kind_str KSK = str ''ksk''"

text \<open>The store key \<open>dnssec:<zone>:<kind><suffix>\<close>.\<close>

definition dkey :: "'k zone \<Rightarrow> kind \<Rightarrow> cstr \<Rightarrow> cstr" where
  "dkey z K suffix = str ''dnssec:'' @ take 255 (zname z) @ str '':'' @ kind_str K @ suffix"

fun half :: "kind \<Rightarrow> 'k zone \<Rightarrow> 'k keyset" where
  "half ZSK z = zsk z"
| "half KSK z = ksk z"

fun set_half :: "kind \<Rightarrow> 'k keyset \<Rightarrow> 'k zone \<Rightarrow> 'k zone" where
  "set_half ZSK ks z = z\<lparr>zsk := ks\<rparr>"
| "set_half KSK ks z = z\<lparr>ksk := ks\<rparr>"

section \<open>Loading keys\<close>

definition is_primary :: "('k, 's) env \<Rightarrow> 'k zone \<Rightarrow> bool" where
  "is_primary E z \<longleftrightarrow> strcaseeq (zname z) (zone_primary E)"

text \<open>Load the key stored under \<open>key\<close>, adopt the one under the legacy name, or generate and store a new one.\<close>

definition dnssec_init_key ::
    "('k, 's) env \<Rightarrow> cstr \<Rightarrow> cstr option \<Rightarrow> 'k option \<Rightarrow> u16 \<Rightarrow> u8 \<Rightarrow> 's \<Rightarrow> 'k option \<times> u16 \<times> 's" where
  "dnssec_init_key E key legacy out tag alg s =
     (let long = (\<lambda>p. 10 < length p);
          pem = get_n E MAX_PEM s key;
          have0 = (case pem of Some p \<Rightarrow> long p | None \<Rightarrow> False);
          lpem = (case legacy of Some l \<Rightarrow> get_n E MAX_PEM s l | None \<Rightarrow> None);
          adopt = (\<not> have0 \<and> (case lpem of Some p \<Rightarrow> long p | None \<Rightarrow> False));
          s = (if adopt then vk_set E s key (the lpem) else s);
          out = (if adopt then pem_read E (the lpem) else if have0 then pem_read E (the pem) else out)
      in if out = None \<and> zone_secondary E then (out, tag, s)
         else
           let (out, s) = (case out of
                 Some k \<Rightarrow> (out, s)
               | None \<Rightarrow> (let (k, p) = keygen E key in (k, vk_set E s key p)))
           in (out, case out of None \<Rightarrow> tag | Some k \<Rightarrow> init_key_tag (cr E) alg k tag, s))"

definition dnssec_load_existing :: "('k, 's) env \<Rightarrow> cstr \<Rightarrow> u8 \<Rightarrow> bool \<Rightarrow> 's \<Rightarrow> 'k option \<times> u16" where
  "dnssec_load_existing E key alg is_ksk s =
     (case get_n E MAX_PEM s key of
        None \<Rightarrow> (None, 0)
      | Some p \<Rightarrow>
          if length p \<le> 10 then (None, 0)
          else (case pem_read E p of
            None \<Rightarrow> (None, 0)
          | Some k \<Rightarrow> (Some k, case dnskey_rdata (cr E) alg is_ksk k of Err \<Rightarrow> 0 | Ok rd \<Rightarrow> keytag rd)))"

fun phase_names :: "kind \<Rightarrow> cstr \<times> cstr" where
  "phase_names ZSK = (str ''publish'', str ''commit'')"
| "phase_names KSK = (str ''double'', str ''retire'')"

text \<open>The marker \<open><phase>|<epoch>\<close>, as \<open>sscanf(v, "%15[^|]|%lld", ph, &si)\<close> reads it.\<close>

definition parse_marker :: "kind \<Rightarrow> cstr \<Rightarrow> phase \<times> int" where
  "parse_marker K v =
     (let ph = takeWhile (\<lambda>c. c \<noteq> 124) (take 15 v);
          r = drop (length ph) v;
          si = (if ph \<noteq> [] \<and> r \<noteq> [] \<and> hd r = 124 then atol (tl r) else 0)
      in (if ph = fst (phase_names K) then ROLL_FIRST else if ph = snd (phase_names K) then ROLL_SECOND else ROLL_NONE, si))"

definition rollover_load_half :: "('k, 's) env \<Rightarrow> int \<Rightarrow> kind \<Rightarrow> 'k zone \<Rightarrow> 's \<Rightarrow> 'k zone \<times> 's" where
  "rollover_load_half E now K z s =
     (let ck = dkey z K (str ''_created'');
          (cre, s) = (case get_n E 64 s ck of
              Some v \<Rightarrow> if v \<noteq> [] then (atol v, s) else (now, vk_set E s ck (printf_d now))
            | None \<Rightarrow> (now, vk_set E s ck (printf_d now)));
          (ph, since) = (case get_n E 64 s (dkey z K (str ''_rollover'')) of
              Some v \<Rightarrow> if v \<noteq> [] then parse_marker K v else (ROLL_NONE, 0)
            | None \<Rightarrow> (ROLL_NONE, 0));
          (k1, t1) = (if ph \<noteq> ROLL_NONE then dnssec_load_existing E (dkey z K (str ''_next'')) 13 (K = KSK) s else (None, 0));
          (k2, t2) = (if ph \<noteq> ROLL_NONE then dnssec_load_existing E (dkey z K (str ''_ed25519_next'')) 15 (K = KSK) s else (None, 0));
          missing = (ph \<noteq> ROLL_NONE \<and> (k1 = None \<or> k2 = None))
      in (set_half K ((half K z)\<lparr>nxt := (if missing then None else k1), nxt_tag := t1, nxt_ed := (if missing then None else k2),
            nxt_ed_tag := t2, roll_phase := (if missing then ROLL_NONE else ph), roll_since := since, created := cre\<rparr>) z, s))"

definition zone_rollover_load :: "('k, 's) env \<Rightarrow> int \<Rightarrow> 'k zone \<Rightarrow> 's \<Rightarrow> 'k zone \<times> 's" where
  "zone_rollover_load E now z s =
     (let (z, s) = rollover_load_half E now ZSK z s in rollover_load_half E now KSK z s)"

definition init_half :: "('k, 's) env \<Rightarrow> kind \<Rightarrow> 'k zone \<Rightarrow> 's \<Rightarrow> 'k zone \<times> 's" where
  "init_half E K z s =
     (let leg = (\<lambda>sfx. if is_primary E z then Some (str ''dnssec:'' @ kind_str K @ sfx) else None);
          ks = half K z;
          (k1, t1, s) = dnssec_init_key E (dkey z K []) (leg []) (cur ks) (cur_tag ks) 13 s;
          (k2, t2, s) = dnssec_init_key E (dkey z K (str ''_ed25519'')) (leg (str ''_ed25519'')) (cur_ed ks) (cur_ed_tag ks) 15 s
      in (set_half K (ks\<lparr>cur := k1, cur_tag := t1, cur_ed := k2, cur_ed_tag := t2\<rparr>) z, s))"

definition zone_dnssec_init :: "('k, 's) env \<Rightarrow> int \<Rightarrow> 'k zone \<Rightarrow> 's \<Rightarrow> 'k zone \<times> 's" where
  "zone_dnssec_init E now z s =
     (let (z, s) = init_half E ZSK z s; (z, s) = init_half E KSK z s in zone_rollover_load E now z s)"

text \<open>The first critical section of \<open>zone_dnssec_reload\<close>: the current keys are dropped before they are read again.\<close>

definition reload_clear :: "'k zone \<Rightarrow> 'k zone" where
  "reload_clear z = z\<lparr>zsk := (zsk z)\<lparr>cur := None, cur_ed := None\<rparr>, ksk := (ksk z)\<lparr>cur := None, cur_ed := None\<rparr>\<rparr>"

definition zone_dnssec_reload :: "('k, 's) env \<Rightarrow> int \<Rightarrow> 'k zone \<Rightarrow> 's \<Rightarrow> 'k zone \<times> 's" where
  "zone_dnssec_reload E now z s = zone_dnssec_init E now (reload_clear z) s"

section \<open>Steps of a rollover\<close>


definition serial_bump_txn_queue :: "('k, 's) env \<Rightarrow> 'k zone \<Rightarrow> cmd list \<Rightarrow> cmd list" where
  "serial_bump_txn_queue E z t =
     t @ [INCR (if is_primary E z then str ''config:zone_serial'' else take 319 (str ''config:zone:'' @ zname z @ str '':serial''))]"

definition serial_bump_txn_apply :: "'k zone \<Rightarrow> reply \<Rightarrow> 'k zone" where
  "serial_bump_txn_apply z r = (case r of R_int n \<Rightarrow> z\<lparr>soa_serial := word_of_int n\<rparr> | R_other \<Rightarrow> z)"

fun parent_events :: "kind \<Rightarrow> event list" where
  "parent_events ZSK = []"
| "parent_events KSK = [Notify_parent 59, Notify_parent 60]"

text \<open>
  Run a transaction that ends with the serial; when it succeeds with a reply for every command, reload with \<open>load\<close>, take over the
  serial and notify.
\<close>

definition commit_step ::
    "('k, 's) env \<Rightarrow> ('k zone \<Rightarrow> 's \<Rightarrow> 'k zone \<times> 's) \<Rightarrow> event list \<Rightarrow> cmd list \<Rightarrow> 'k zone \<Rightarrow> 's \<Rightarrow> 'k zone \<times> 's \<times> event list" where
  "commit_step E load evs cmds z s =
     (let cmds = serial_bump_txn_queue E z cmds
      in case txn E s cmds of
           (s, None) \<Rightarrow> (z, s, [])
         | (s, Some rs) \<Rightarrow>
             if length rs \<noteq> length cmds then (z, s, [])
             else let (z, s) = load z s in (serial_bump_txn_apply z (last rs), s, Notify # evs))"

text \<open>The start of a rollover of either kind; \<open>pems\<close> are the two results of \<open>dnssec_generate_pem\<close>.\<close>

definition roll_start ::
    "('k, 's) env \<Rightarrow> int \<Rightarrow> cstr option \<times> cstr option \<Rightarrow> kind \<Rightarrow> 'k zone \<Rightarrow> 's \<Rightarrow> 'k zone \<times> 's \<times> event list" where
  "roll_start E now pems K z s =
     (case pems of
        (Some pem1, Some pem2) \<Rightarrow>
          commit_step E (zone_rollover_load E now) (parent_events K)
            [SET (dkey z K (str ''_next'')) pem1, SET (dkey z K (str ''_ed25519_next'')) pem2,
             SET (dkey z K (str ''_rollover'')) (fst (phase_names K) @ str ''|'' @ printf_d now)] z s
      | _ \<Rightarrow> (z, s, []))"

text \<open>The second phase: the new keys sign, or the old ones leave the CDS RRset.\<close>

definition roll_advance :: "('k, 's) env \<Rightarrow> int \<Rightarrow> kind \<Rightarrow> 'k zone \<Rightarrow> 's \<Rightarrow> 'k zone \<times> 's \<times> event list" where
  "roll_advance E now K z s =
     commit_step E (zone_rollover_load E now) (parent_events K)
       [SET (dkey z K (str ''_rollover'')) (snd (phase_names K) @ str ''|'' @ printf_d now)] z s"

text \<open>The end of a rollover: the incoming keys become the current ones.\<close>

definition roll_finish :: "('k, 's) env \<Rightarrow> int \<Rightarrow> kind \<Rightarrow> 'k zone \<Rightarrow> 's \<Rightarrow> 'k zone \<times> 's \<times> event list" where
  "roll_finish E now K z s =
     (let k1 = dkey z K (str ''_next''); k2 = dkey z K (str ''_ed25519_next'');
          pem1 = get_n E MAX_PEM s k1; pem2 = get_n E MAX_PEM s k2;
          set1 = (case pem1 of Some p \<Rightarrow> if p \<noteq> [] then [SET (dkey z K []) p] else [] | None \<Rightarrow> []);
          set2 = (case pem2 of Some p \<Rightarrow> if p \<noteq> [] then [SET (dkey z K (str ''_ed25519'')) p] else [] | None \<Rightarrow> [])
      in commit_step E (zone_dnssec_reload E now) []
           (set1 @ [DEL k1] @ set2 @ [DEL k2, DEL (dkey z K (str ''_rollover'')), SET (dkey z K (str ''_created'')) (printf_d now)]) z s)"

text \<open>The six functions of the sources.\<close>

definition rollover_start :: "('k, 's) env \<Rightarrow> int \<Rightarrow> cstr option \<times> cstr option \<Rightarrow> 'k zone \<Rightarrow> 's \<Rightarrow> 'k zone \<times> 's \<times> event list" where
  "rollover_start E now pems z s = roll_start E now pems ZSK z s"

definition rollover_to_commit :: "('k, 's) env \<Rightarrow> int \<Rightarrow> 'k zone \<Rightarrow> 's \<Rightarrow> 'k zone \<times> 's \<times> event list" where
  "rollover_to_commit E now z s = roll_advance E now ZSK z s"

definition rollover_finish :: "('k, 's) env \<Rightarrow> int \<Rightarrow> 'k zone \<Rightarrow> 's \<Rightarrow> 'k zone \<times> 's \<times> event list" where
  "rollover_finish E now z s = roll_finish E now ZSK z s"

definition ksk_rollover_start :: "('k, 's) env \<Rightarrow> int \<Rightarrow> cstr option \<times> cstr option \<Rightarrow> 'k zone \<Rightarrow> 's \<Rightarrow> 'k zone \<times> 's \<times> event list" where
  "ksk_rollover_start E now pems z s = roll_start E now pems KSK z s"

definition ksk_rollover_to_retire :: "('k, 's) env \<Rightarrow> int \<Rightarrow> 'k zone \<Rightarrow> 's \<Rightarrow> 'k zone \<times> 's \<times> event list" where
  "ksk_rollover_to_retire E now z s = roll_advance E now KSK z s"

definition ksk_rollover_finish :: "('k, 's) env \<Rightarrow> int \<Rightarrow> 'k zone \<Rightarrow> 's \<Rightarrow> 'k zone \<times> 's \<times> event list" where
  "ksk_rollover_finish E now z s = roll_finish E now KSK z s"

section \<open>The tick\<close>




lemma step_of_kind [simp]:
  "(case K of ZSK \<Rightarrow> rollover_start E now pems z s | KSK \<Rightarrow> ksk_rollover_start E now pems z s) = roll_start E now pems K z s"
  "(case K of ZSK \<Rightarrow> rollover_to_commit E now z s | KSK \<Rightarrow> ksk_rollover_to_retire E now z s) = roll_advance E now K z s"
  "(case K of ZSK \<Rightarrow> rollover_finish E now z s | KSK \<Rightarrow> ksk_rollover_finish E now z s) = roll_finish E now K z s"
  by (cases K; simp add: rollover_start_def ksk_rollover_start_def rollover_to_commit_def ksk_rollover_to_retire_def rollover_finish_def
      ksk_rollover_finish_def)+

section \<open>Assumptions on the store and the key reader\<close>










section \<open>Keys of the store\<close>

lemma dkey_eq [simp]: "dkey z K a = dkey z K' b \<longleftrightarrow> K = K' \<and> a = b"
proof -
  have "kind_str K @ a = kind_str K' @ b \<longleftrightarrow> K = K' \<and> a = b"
    by (cases K; cases K') (simp_all add: str_def)
  then show ?thesis by (simp add: dkey_def)
qed


lemma suffixes_distinct:
  "distinct [[], str ''_ed25519'', str ''_next'', str ''_ed25519_next'', str ''_rollover'', str ''_created'', str ''_rollover_seen'']"
  by code_simp

lemma suffixes_distinct_rev:
  "distinct [str ''_rollover_seen'', str ''_created'', str ''_rollover'', str ''_ed25519_next'', str ''_next'', str ''_ed25519'', []]"
  by code_simp

lemmas sfx_neq [simp] = suffixes_distinct [simplified] suffixes_distinct_rev [simplified]

text \<open>The key of the serial is none of them.\<close>

definition serial_key :: "('k, 's) env \<Rightarrow> 'k zone \<Rightarrow> cstr" where
  "serial_key E z = (if is_primary E z then str ''config:zone_serial'' else take 319 (str ''config:zone:'' @ zname z @ str '':serial''))"

lemma serial_key_neq [simp]: "serial_key E z \<noteq> dkey z' K a" "dkey z' K a \<noteq> serial_key E z"
proof -
  have "serial_key E z \<noteq> [] \<and> hd (serial_key E z) = 99" by (simp add: serial_key_def str_def)
  moreover have "dkey z' K a \<noteq> [] \<and> hd (dkey z' K a) = 100" by (simp add: dkey_def str_def)
  ultimately show "serial_key E z \<noteq> dkey z' K a" "dkey z' K a \<noteq> serial_key E z" by auto
qed



section \<open>Loading\<close>

lemma half_set [simp]:
  "half K (set_half K h z) = h" "K \<noteq> K' \<Longrightarrow> half K (set_half K' h z) = half K z" "zname (set_half K h z) = zname z"
  "zactive (set_half K h z) = zactive z"
  by (cases K; cases K'; simp)+

text \<open>A change of the store that leaves the key state of the zone alone.\<close>

definition same_keys :: "'k zone \<Rightarrow> (cstr \<Rightarrow> cstr option) \<Rightarrow> (cstr \<Rightarrow> cstr option) \<Rightarrow> bool" where
  "same_keys z m m' \<longleftrightarrow>
     (\<forall>K a. a \<in> {[], str ''_ed25519'', str ''_next'', str ''_ed25519_next'', str ''_rollover''} \<longrightarrow> m' (dkey z K a) = m (dkey z K a))"

lemma same_keys_refl [simp]: "same_keys z m m"
  by (simp add: same_keys_def)

lemma same_keys_trans: "same_keys z m m' \<Longrightarrow> same_keys z m' m'' \<Longrightarrow> same_keys z m m''"
  by (simp add: same_keys_def)










section \<open>Steps\<close>





lemma serial_apply [simp]:
  "half K (serial_bump_txn_apply z r) = half K z" "zname (serial_bump_txn_apply z r) = zname z"
  "zactive (serial_bump_txn_apply z r) = zactive z"
  by (cases K; cases r; simp add: serial_bump_txn_apply_def)+






lemma zip_list2: "length rs = Suc n \<Longrightarrow> \<exists>r rs'. rs = r # rs' \<and> length rs' = n"
  by (cases rs) auto





text \<open>The three steps: the new state, or the old one when the transaction failed.\<close>


















section \<open>Runs\<close>




section \<open>Keys in use and keys published\<close>









section \<open>Progress\<close>




section \<open>Properties\<close>




text \<open>
  While a reload is under way the zone is served without keys. \<open>zone_dnssec_reload\<close> clears the current keys in one critical section and
  reads them back later; a query in between, for a zone with no rollover active, finds no DNSKEY to answer with, and the records it
  gets are not signed.
\<close>

theorem reload_window:
  assumes "roll_phase (zsk z) = ROLL_NONE" "roll_phase (ksk z) = ROLL_NONE"
  shows "dnskey_answer C now (reload_clear z) dnssec_ok blen qn (dnskeys (reload_clear z)) False m = Some (False, m) \<and>
    emit_rr C now (Some (reload_clear z)) dnssec_ok blen qn type ttl rd m = emit_rr C now None dnssec_ok blen qn type ttl rd m"
proof -
  have "cur (zsk (reload_clear z)) = None" by (simp add: reload_clear_def)
  then have "emit_rr C now (Some (reload_clear z)) dnssec_ok blen qn type ttl rd m = emit_rr C now None dnssec_ok blen qn type ttl rd m"
    by (cases m) simp
  then show ?thesis using assms by (simp add: dnskeys_def reload_clear_def Let_def)
qed

section \<open>A concrete environment\<close>


definition demo_keys :: "nat \<Rightarrow> nat keyset" where
  "demo_keys k = \<lparr>cur = Some k, cur_tag = 0, cur_ed = Some (k + 1), cur_ed_tag = 0, nxt = None, nxt_tag = 0, nxt_ed = None, nxt_ed_tag = 0,
     roll_phase = ROLL_NONE, roll_since = 0, created = 0\<rparr>"

definition demo_zone :: "nat zone" where
  "demo_zone = \<lparr>zname = str ''ex'', zactive = True, soa_serial = 1, zsk = demo_keys 11, ksk = demo_keys 13\<rparr>"


















theorem reload_window_witness:
  "dnskey_answer crypto_demo 0 (reload_clear demo_zone) True 512 (str ''ex'') (dnskeys (reload_clear demo_zone)) False ([], replicate 512 0, 12, 0) =
     Some (False, [], replicate 512 0, 12, 0)"
  using reload_window [of demo_zone crypto_demo 0 True 512 "str ''ex''" "([], replicate 512 0, 12, 0)"]
  by (simp add: demo_zone_def demo_keys_def)

end
