(* ===== verification/Tsig.thy ===== *)
theory Tsig
  imports Edns
begin

text \<open>
  Transaction signatures (\<open>dns_server.c\<close>, RFC 8945): finding and parsing a TSIG record, verifying a request, signing a response, and the
  chain of signatures over a zone transfer, on the side of the primary (\<open>tsig_axfr_first\<close>, \<open>tsig_axfr_mid\<close>, \<open>tsig_axfr_last\<close>) and on
  the side of the secondary (\<open>xfr_tsig_sign_query\<close>, \<open>xfr_tsig_verify_msg\<close>).

  The HMAC of OpenSSL is the parameter \<open>hm\<close>; its result is \<open>None\<close> when no context can be made. The configured key is an
  argument, and so is the clock. The request MAC that the sources keep per thread (\<open>g_tsig_req_mac\<close>) is passed along; the empty
  list stands for the length 0.
\<close>

section \<open>State\<close>

datatype digest = SHA512 | SHA384 | SHA256 | SHA1 | MD5

record tsig_cfg =
  g_tsig_key_name :: cstr
  g_tsig_secret :: bytes

type_synonym hmac = "digest \<Rightarrow> bytes \<Rightarrow> bytes \<Rightarrow> bytes option"

record tsig_rr =
  key_name :: cstr
  alg_name :: cstr
  mac :: bytes
  time_high :: u32
  time_low :: u64
  fudge :: u16
  orig_id :: u16
  error :: u16

section \<open>Finding the record\<close>

function tsig_skip_name :: "bytes \<Rightarrow> nat \<Rightarrow> nat \<Rightarrow> nat cres option" where
  "tsig_skip_name pkt plen a =
     (if a \<ge> plen then Some Err
      else do {
        c \<leftarrow> rd8 pkt a;
        if c AND 0xC0 = 0xC0 then Some (Ok (a + 2))
        else if c = 0 then Some (Ok (a + 1))
        else tsig_skip_name pkt plen (a + unat c + 1) })"
  by pat_completeness auto
termination by (relation "measure (\<lambda>(pkt, plen, a). plen - a)") auto

declare tsig_skip_name.simps [simp del]

text \<open>The loop over questions, answers and authority records; \<open>i\<close> is its counter.\<close>

fun tsig_skip :: "bytes \<Rightarrow> nat \<Rightarrow> nat \<Rightarrow> nat \<Rightarrow> nat \<Rightarrow> nat \<Rightarrow> nat cres option" where
  "tsig_skip pkt plen qd i 0 off = Some (Ok off)"
| "tsig_skip pkt plen qd i (Suc n) off = do {
     r \<leftarrow> tsig_skip_name pkt plen off;
     case r of
       Err \<Rightarrow> Some Err
     | Ok a \<Rightarrow>
         if a + 4 > plen then Some Err
         else if i \<ge> qd then
           (if a + 4 + 6 > plen then Some Err
            else do { rdlen \<leftarrow> get16 pkt (a + 8); tsig_skip pkt plen qd (i + 1) n (a + 10 + unat rdlen) })
         else tsig_skip pkt plen qd (i + 1) n (a + 4) }"

text \<open>The name of the key, read without a bound: the record's name was skipped before.\<close>

function tsig_key_loop :: "bytes \<Rightarrow> nat \<Rightarrow> bytes \<Rightarrow> bytes option" where
  "tsig_key_loop pkt p out =
     (if p \<ge> length pkt then None
      else
        let c = pkt ! p; dot = (if out \<noteq> [] then [46] else [])
        in if c = 0 \<or> c AND 0xC0 = 0xC0 then Some out
           else if length out + length dot + unat c \<ge> 255 then Some []
           else do { l \<leftarrow> rdn pkt (p + 1) (unat c); tsig_key_loop pkt (p + 1 + unat c) (out @ dot @ l) })"
  by pat_completeness auto
termination by (relation "measure (\<lambda>(pkt, p, out). length pkt - p)") auto

declare tsig_key_loop.simps [simp del]

text \<open>The name of the algorithm, cut to 62 characters; the result is the text and the offset after it.\<close>

function tsig_alg_loop :: "bytes \<Rightarrow> nat \<Rightarrow> nat \<Rightarrow> bytes \<Rightarrow> (bytes \<times> nat) cres option" where
  "tsig_alg_loop pkt plen rp out =
     (if rp \<ge> plen then Some Err
      else do {
        c \<leftarrow> rd8 pkt rp;
        if c = 0 then Some (Ok (out, rp + 1))
        else do {
          let dot = (if out \<noteq> [] then [46] else []);
          out \<leftarrow> (if length out + length dot + unat c < 63
                   then do { l \<leftarrow> rdn pkt (rp + 1) (unat c); Some (out @ dot @ l) } else Some out);
          tsig_alg_loop pkt plen (rp + unat c + 1) out } })"
  by pat_completeness auto
termination by (relation "measure (\<lambda>(pkt, plen, rp, out). plen - rp)") auto

declare tsig_alg_loop.simps [simp del]

text \<open>The rdata after the algorithm.\<close>

definition tsig_fields :: "bytes \<Rightarrow> nat \<Rightarrow> cstr \<Rightarrow> cstr \<Rightarrow> nat \<Rightarrow> tsig_rr cres option" where
  "tsig_fields pkt plen kn alg rp =
     (if rp + 10 > plen then Some Err
      else do {
        th \<leftarrow> get16 pkt rp;
        tlo \<leftarrow> get32 pkt (rp + 2);
        fu \<leftarrow> get16 pkt (rp + 6);
        ml \<leftarrow> get16 pkt (rp + 8);
        let rp = rp + 10;
        if unat ml > 64 \<or> rp + unat ml > plen then Some Err
        else do {
          m \<leftarrow> rdn pkt rp (unat ml);
          let rp = rp + unat ml;
          if rp + 6 > plen then Some Err
          else do {
            oi \<leftarrow> get16 pkt rp;
            er \<leftarrow> get16 pkt (rp + 2);
            Some (Ok \<lparr>key_name = kn, alg_name = alg, mac = m, time_high = ucast th, time_low = ucast tlo, fudge = fu, orig_id = oi, error = er\<rparr>) } } })"

fun tsig_additional :: "bytes \<Rightarrow> nat \<Rightarrow> nat \<Rightarrow> nat \<Rightarrow> (nat \<times> tsig_rr) cres option" where
  "tsig_additional pkt plen 0 off = Some Err"
| "tsig_additional pkt plen (Suc n) off = do {
     r \<leftarrow> tsig_skip_name pkt plen off;
     case r of
       Err \<Rightarrow> Some Err
     | Ok a \<Rightarrow>
         if a + 10 > plen then Some Err
         else do {
           rtype \<leftarrow> get16 pkt a;
           rdlen \<leftarrow> get16 pkt (a + 8);
           if rtype = 250 then
             (if a + 10 + unat rdlen > plen then Some Err
              else do {
                kn \<leftarrow> tsig_key_loop pkt off [];
                alg \<leftarrow> tsig_alg_loop pkt plen (a + 10) [];
                case alg of
                  Err \<Rightarrow> Some Err
                | Ok (al, rp) \<Rightarrow> do {
                    t \<leftarrow> tsig_fields pkt plen (cstr_of (strlower kn)) (cstr_of (strlower (al @ [46]))) rp;
                    Some (case t of Err \<Rightarrow> Err | Ok t \<Rightarrow> Ok (off, t)) } })
           else tsig_additional pkt plen n (a + 10 + unat rdlen) } }"

definition tsig_find :: "bytes \<Rightarrow> nat \<Rightarrow> (nat \<times> tsig_rr) cres option" where
  "tsig_find pkt plen =
     (if plen < 12 then Some Err
      else do {
        ar \<leftarrow> get16 pkt 10;
        if ar = 0 then Some Err
        else do {
          qd \<leftarrow> get16 pkt 4;
          an \<leftarrow> get16 pkt 6;
          ns \<leftarrow> get16 pkt 8;
          r \<leftarrow> tsig_skip pkt plen (unat qd) 0 (unat qd + unat an + unat ns) 12;
          case r of Err \<Rightarrow> Some Err | Ok off \<Rightarrow> tsig_additional pkt plen (unat ar) off } })"

section \<open>Signed data\<close>

fun strcasestr :: "cstr \<Rightarrow> cstr \<Rightarrow> bool" where
  "strcasestr [] n = (n = [])"
| "strcasestr (c # s) n = (map lower8 (take (length n) (c # s)) = map lower8 n \<or> strcasestr s n)"

definition tsig_alg_to_digest :: "cstr \<Rightarrow> digest" where
  "tsig_alg_to_digest alg =
     (if strcasestr alg (str ''sha512'') then SHA512
      else if strcasestr alg (str ''sha384'') then SHA384
      else if strcasestr alg (str ''sha256'') then SHA256
      else if strcasestr alg (str ''sha1'') then SHA1
      else if strcasestr alg (str ''md5'') then MD5
      else SHA256)"

definition alg_wire :: bytes where
  "alg_wire = 11 # str ''hmac-sha256'' @ [0]"

text \<open>The array \<open>vars[512]\<close>: name, class ANY, TTL 0, algorithm, time, fudge, error, and no other data.\<close>

definition tsig_vars :: "cstr \<Rightarrow> u16 \<Rightarrow> u32 \<Rightarrow> u16 \<Rightarrow> u16 \<Rightarrow> bytes option" where
  "tsig_vars kn th tlo fu er = do {
     vars \<leftarrow> label_loop 512 (labels_of kn) [];
     app 512 vars ([0, 255, 0, 0, 0, 0] @ alg_wire @ be16 th @ be32 tlo @ be16 fu @ be16 er @ [0, 0]) }"

definition tsig_vars_build :: "tsig_cfg \<Rightarrow> int \<Rightarrow> u16 \<Rightarrow> bytes option" where
  "tsig_vars_build G now er = tsig_vars (g_tsig_key_name G) 0 (word_of_int now) 5 er"

definition xfr_tsig_vars_from_rr :: "tsig_rr \<Rightarrow> bytes option" where
  "xfr_tsig_vars_from_rr t = tsig_vars (key_name t) (ucast (time_high t)) (ucast (time_low t)) (fudge t) (error t)"

text \<open>The message without its TSIG record, with the count of additional records put right.\<close>

definition tsig_strip :: "bytes \<Rightarrow> nat \<Rightarrow> bytes option" where
  "tsig_strip pkt off = do {
     tmp \<leftarrow> rdn pkt 0 off;
     ar \<leftarrow> get16 tmp 10;
     put16 tmp 10 (ar - 1) }"

definition tsig_hmac_prepend :: "bytes \<Rightarrow> bytes" where
  "tsig_hmac_prepend m = (if m = [] then [] else be16 (of_nat (length m)) @ m)"

definition tsig_hmac :: "hmac \<Rightarrow> tsig_cfg \<Rightarrow> bytes \<Rightarrow> bytes option" where
  "tsig_hmac hm G d = hm (tsig_alg_to_digest (g_tsig_key_name G)) (g_tsig_secret G) d"

section \<open>Requests and responses\<close>

text \<open>The result is the verdict and the new \<open>g_tsig_req_mac\<close>.\<close>

definition tsig_verify :: "hmac \<Rightarrow> tsig_cfg \<Rightarrow> bytes \<Rightarrow> nat \<Rightarrow> (bool \<times> bytes) option" where
  "tsig_verify hm G pkt plen =
     (if g_tsig_secret G = [] then Some (True, [])
      else do {
        r \<leftarrow> tsig_find pkt plen;
        case r of
          Err \<Rightarrow> Some (False, [])
        | Ok (off, t) \<Rightarrow>
            if off = 0 then Some (False, [])
            else do {
              tmp \<leftarrow> tsig_strip pkt off;
              vars \<leftarrow> tsig_vars (key_name t) (ucast (time_high t)) (ucast (time_low t)) (fudge t) (error t);
              case hm (tsig_alg_to_digest (alg_name t)) (g_tsig_secret G) (tmp @ vars) of
                None \<Rightarrow> Some (False, [])
              | Some m \<Rightarrow>
                  let ok = (m = mac t)
                  in Some (ok, if ok \<and> mac t \<noteq> [] then mac t else []) } })"

fun label_wr :: "cstr list \<Rightarrow> bytes \<Rightarrow> nat \<Rightarrow> (bytes \<times> nat) option" where
  "label_wr [] buf off = do { buf \<leftarrow> wr8 buf off 0; Some (buf, off + 1) }"
| "label_wr (l # ls) buf off = do { buf \<leftarrow> wrn buf off (of_nat (length l) # l); label_wr ls buf (off + 1 + length l) }"

definition tsig_rr_put :: "tsig_cfg \<Rightarrow> u16 \<Rightarrow> bytes \<Rightarrow> nat \<Rightarrow> nat \<Rightarrow> u16 \<Rightarrow> u16 \<Rightarrow> int \<Rightarrow> bytes \<Rightarrow> (bytes \<times> nat) option" where
  "tsig_rr_put G fu buf off blen oid er now m =
     (if off + 200 > blen then Some (buf, off)
      else do {
        (buf, off) \<leftarrow> label_wr (labels_of (g_tsig_key_name G)) buf off;
        buf \<leftarrow> wrn buf off [0, 250, 0, 255, 0, 0, 0, 0];
        rd \<leftarrow> app 200 [] (alg_wire @ [0, 0] @ be32 (word_of_int now) @ be16 fu @ be16 (of_nat (length m)) @ m @ be16 oid @ be16 er @ [0, 0]);
        buf \<leftarrow> wrn buf (off + 8) ([0, of_nat (length rd)] @ rd);
        ar \<leftarrow> get16 buf 10;
        buf \<leftarrow> put16 buf 10 (ar + 1);
        Some (buf, off + 10 + length rd) })"

definition tsig_rr_write :: "tsig_cfg \<Rightarrow> bytes \<Rightarrow> nat \<Rightarrow> nat \<Rightarrow> u16 \<Rightarrow> u16 \<Rightarrow> int \<Rightarrow> bytes \<Rightarrow> (bytes \<times> nat) option" where
  "tsig_rr_write G buf off blen oid er now m = tsig_rr_put G 5 buf off blen oid er now m"

definition TSIG_FUDGE :: u16 where "TSIG_FUDGE = 300"

text \<open>A missing HMAC context is dereferenced here: undefined behaviour. The result has the new \<open>g_tsig_req_mac\<close> as well.\<close>

definition tsig_append :: "hmac \<Rightarrow> tsig_cfg \<Rightarrow> int \<Rightarrow> bytes \<Rightarrow> nat \<Rightarrow> nat \<Rightarrow> u16 \<Rightarrow> u16 \<Rightarrow> bytes \<Rightarrow> (bytes \<times> nat \<times> bytes) option" where
  "tsig_append hm G now buf off blen oid er req =
     (if g_tsig_secret G = [] then Some (buf, off, req)
      else do {
        vars \<leftarrow> tsig_vars (g_tsig_key_name G) 0 (word_of_int now) TSIG_FUDGE er;
        msg \<leftarrow> rdn buf 0 off;
        m \<leftarrow> tsig_hmac hm G (tsig_hmac_prepend req @ msg @ vars);
        (buf, off) \<leftarrow> tsig_rr_put G TSIG_FUDGE buf off blen oid er now m;
        Some (buf, off, []) })"

section \<open>Zone transfers\<close>

text \<open>The primary: results are the buffer, its end, the MAC to chain from, and the new \<open>g_tsig_req_mac\<close>.\<close>

definition tsig_axfr_first ::
    "hmac \<Rightarrow> tsig_cfg \<Rightarrow> int \<Rightarrow> bytes \<Rightarrow> nat \<Rightarrow> nat \<Rightarrow> u16 \<Rightarrow> bytes \<Rightarrow> (bytes \<times> nat \<times> bytes \<times> bytes) option" where
  "tsig_axfr_first hm G now buf off blen qid req =
     (if g_tsig_secret G = [] \<or> req = [] then Some (buf, off, [], req)
      else do {
        vars \<leftarrow> tsig_vars_build G now 0;
        msg \<leftarrow> rdn buf 0 off;
        case tsig_hmac hm G (tsig_hmac_prepend req @ msg @ vars) of
          None \<Rightarrow> Some (buf, off, [], req)
        | Some m \<Rightarrow> do {
            (buf, off) \<leftarrow> tsig_rr_write G buf off blen qid 0 now m;
            Some (buf, off, m, []) } })"

definition tsig_axfr_mid :: "hmac \<Rightarrow> tsig_cfg \<Rightarrow> bytes \<Rightarrow> bytes \<Rightarrow> bytes" where
  "tsig_axfr_mid hm G msg prior =
     (if g_tsig_secret G = [] \<or> prior = [] then prior
      else case tsig_hmac hm G (tsig_hmac_prepend prior @ msg) of None \<Rightarrow> prior | Some m \<Rightarrow> m)"

definition tsig_axfr_last :: "hmac \<Rightarrow> tsig_cfg \<Rightarrow> int \<Rightarrow> bytes \<Rightarrow> nat \<Rightarrow> nat \<Rightarrow> u16 \<Rightarrow> bytes \<Rightarrow> (bytes \<times> nat) option" where
  "tsig_axfr_last hm G now buf off blen qid prior =
     (if g_tsig_secret G = [] \<or> prior = [] then Some (buf, off)
      else do {
        vars \<leftarrow> tsig_vars_build G now 0;
        msg \<leftarrow> rdn buf 0 off;
        case tsig_hmac hm G (tsig_hmac_prepend prior @ msg @ vars) of
          None \<Rightarrow> Some (buf, off)
        | Some m \<Rightarrow> tsig_rr_write G buf off blen qid 0 now m })"

text \<open>The secondary.\<close>

definition xfr_tsig_sign_query ::
    "hmac \<Rightarrow> tsig_cfg \<Rightarrow> int \<Rightarrow> bytes \<Rightarrow> nat \<Rightarrow> nat \<Rightarrow> u16 \<Rightarrow> (bytes \<times> nat \<times> bytes) option" where
  "xfr_tsig_sign_query hm G now buf off blen qid =
     (if g_tsig_secret G = [] then Some (buf, off, [])
      else do {
        vars \<leftarrow> tsig_vars_build G now 0;
        msg \<leftarrow> rdn buf 0 off;
        case tsig_hmac hm G (msg @ vars) of
          None \<Rightarrow> Some (buf, off, [])
        | Some m \<Rightarrow> do {
            (buf, off) \<leftarrow> tsig_rr_write G buf off blen qid 0 now m;
            Some (buf, off, m) } })"

text \<open>The verdict, the chained MAC, and whether the message was signed.\<close>

definition xfr_tsig_verify_msg :: "hmac \<Rightarrow> tsig_cfg \<Rightarrow> bytes \<Rightarrow> nat \<Rightarrow> bytes \<Rightarrow> bool \<Rightarrow> (bool \<times> bytes \<times> bool) option" where
  "xfr_tsig_verify_msg hm G msg mlen prior was_signed = do {
     r \<leftarrow> tsig_find msg mlen;
     case r of
       Err \<Rightarrow> do {
         d \<leftarrow> rdn msg 0 mlen;
         case tsig_hmac hm G (tsig_hmac_prepend prior @ d) of
           None \<Rightarrow> Some (False, prior, was_signed)
         | Some m \<Rightarrow> Some (True, m, False) }
     | Ok (off, t) \<Rightarrow>
         if off = 0 then Some (False, prior, was_signed)
         else do {
           tmp \<leftarrow> tsig_strip msg off;
           vars \<leftarrow> xfr_tsig_vars_from_rr t;
           case tsig_hmac hm G (tsig_hmac_prepend prior @ tmp @ vars) of
             None \<Rightarrow> Some (False, prior, was_signed)
           | Some m \<Rightarrow> Some (m = mac t, if m = mac t then mac t else prior, True) } }"

section \<open>Packets that agree\<close>

lemma tsig_skip_name_agree:
  assumes "agree lo plen p p'" "lo \<le> a" "plen \<le> plen'" "tsig_skip_name p plen a = Some (Ok e)"
  shows "tsig_skip_name p' plen' a = Some (Ok e) \<and> lo \<le> e"
  using assms
proof (induction p plen a rule: tsig_skip_name.induct)
  case (1 p plen a)
  have a: "a < plen" using 1(5) by (auto simp: tsig_skip_name.simps [of p] split: if_splits)
  then have c: "rd8 p a = Some (p ! a)" "rd8 p' a = Some (p ! a)" using 1(2,3) by (auto simp: agree_def rd8_def)
  show ?case using 1 c a by (auto simp: tsig_skip_name.simps [of p] tsig_skip_name.simps [of p'] split: if_splits)
qed

lemma tsig_skip_agree:
  assumes "agree lo plen p p'" "lo \<le> off" "plen \<le> plen'" "tsig_skip p plen qd i n off = Some (Ok e)"
  shows "tsig_skip p' plen' qd i n off = Some (Ok e) \<and> lo \<le> e"
  using assms
proof (induction n arbitrary: i off)
  case (Suc n)
  obtain a where a: "tsig_skip_name p plen off = Some (Ok a)" "a + 4 \<le> plen"
    using Suc.prems(4) by (auto split: Option.bind_splits cres.splits if_splits)
  note s = tsig_skip_name_agree [OF Suc.prems(1-3) a(1)]
  show ?case
  proof (cases "qd \<le> i")
    case True
    then have l: "a + 4 + 6 \<le> plen" using Suc.prems(4) a by (auto split: if_splits)
    have g: "get16 p' (a + 8) = get16 p (a + 8)" using Suc.prems(1) s l by (intro get16_agree) auto
    obtain v where v: "get16 p (a + 8) = Some v" "tsig_skip p plen qd (i + 1) n (a + 10 + unat v) = Some (Ok e)"
      using Suc.prems(4) a l True by (auto split: Option.bind_splits)
    show ?thesis using Suc.IH [OF Suc.prems(1) _ Suc.prems(3) v(2)] True g v(1) s a l Suc.prems(3) by simp
  next
    case False
    then have "tsig_skip p plen qd (i + 1) n (a + 4) = Some (Ok e)" using Suc.prems(4) a by simp
    from Suc.IH [OF Suc.prems(1) _ Suc.prems(3) this] show ?thesis using False s a Suc.prems(3) by simp
  qed
qed simp

text \<open>The end of \<open>n\<close> additional records none of which is a TSIG record.\<close>

fun untsig_end :: "bytes \<Rightarrow> nat \<Rightarrow> nat \<Rightarrow> nat \<Rightarrow> nat option" where
  "untsig_end pkt plen 0 off = Some off"
| "untsig_end pkt plen (Suc n) off =
     (case tsig_skip_name pkt plen off of
        Some (Ok a) \<Rightarrow>
          if a + 10 > plen then None
          else (case (get16 pkt a, get16 pkt (a + 8)) of
             (Some t, Some l) \<Rightarrow> if t = 250 then None else untsig_end pkt plen n (a + 10 + unat l)
           | _ \<Rightarrow> None)
      | _ \<Rightarrow> None)"

lemma tsig_additional_plain:
  assumes "agree lo plen p p'" "lo \<le> off" "plen \<le> plen'" "untsig_end p plen n off = Some e"
  shows "tsig_additional p' plen' (n + k) off = tsig_additional p' plen' k e \<and> lo \<le> e"
  using assms
proof (induction n arbitrary: off)
  case (Suc n)
  obtain a where a: "tsig_skip_name p plen off = Some (Ok a)" "a + 10 \<le> plen"
    using Suc.prems(4) by (auto split: option.splits cres.splits if_splits)
  note s = tsig_skip_name_agree [OF Suc.prems(1-3) a(1)]
  have g: "get16 p' a = get16 p a" "get16 p' (a + 8) = get16 p (a + 8)"
    using Suc.prems(1) s a by (auto intro!: get16_agree)
  obtain t l where t: "get16 p a = Some t" "get16 p (a + 8) = Some l" "t \<noteq> 250" "untsig_end p plen n (a + 10 + unat l) = Some e"
    using Suc.prems(4) a by (auto split: option.splits if_splits)
  show ?case using Suc.IH [OF Suc.prems(1) _ Suc.prems(3) t(4)] s a g t Suc.prems(3) by simp
qed simp

section \<open>Reading a record that was written\<close>

lemma nth_suffix: "drop off pkt = x # r \<Longrightarrow> off < length pkt \<and> pkt ! off = x"
  by (metis drop_eq_Nil linorder_not_le list.distinct(1) nth_via_drop)

lemma length_suffix: "drop off pkt = xs \<Longrightarrow> length pkt - off = length xs"
  by (metis length_drop)

lemma drop_suffix: "drop off pkt = xs @ r \<Longrightarrow> n = off + length xs \<Longrightarrow> drop n pkt = r"
  by (metis add.commute append_eq_conv_conj drop_drop)

lemma rdn_suffix: "drop off pkt = xs @ r \<Longrightarrow> off \<le> length pkt \<Longrightarrow> rdn pkt off (length xs) = Some xs"
  using length_suffix [of off pkt "xs @ r"] by (simp add: rdn_def)

lemma tsig_skip_wire:
  assumes "drop off pkt = wire ls @ r" "\<forall>l \<in> set ls. l \<noteq> [] \<and> length l \<le> 63"
  shows "tsig_skip_name pkt (length pkt) off = Some (Ok (off + length (wire ls)))"
  using assms
proof (induction ls arbitrary: off)
  case Nil
  then show ?case using nth_suffix [of off pkt 0 r] by (simp add: tsig_skip_name.simps [of pkt] rd8_def)
next
  case (Cons l ls)
  have o: "off < length pkt" "pkt ! off = of_nat (length l)" using nth_suffix Cons.prems(1) by fastforce+
  have l: "0 < length l" "length l \<le> 63" using Cons.prems(2) by auto
  then have u: "unat (of_nat (length l) :: u8) = length l" by (intro unat_of_nat_u8) simp
  have c: "(of_nat (length l) :: u8) AND 0xC0 \<noteq> 0xC0" "(of_nat (length l) :: u8) \<noteq> 0"
    using and_C0_eq [of "of_nat (length l)"] u l by (auto simp: unat_eq_0 [symmetric])
  have "drop (off + length l + 1) pkt = wire ls @ r"
    by (rule drop_suffix [of off pkt "of_nat (length l) # l"]) (use Cons.prems(1) in simp_all)
  then have "tsig_skip_name pkt (length pkt) (off + length l + 1) = Some (Ok (off + length l + 1 + length (wire ls)))"
    using Cons.IH Cons.prems(2) by simp
  then show ?case using o u c by (simp add: tsig_skip_name.simps [of pkt _ off] rd8_def)
qed

lemma tsig_key_wire:
  assumes "drop off pkt = wire ls @ r" "\<forall>l \<in> set ls. l \<noteq> [] \<and> length l \<le> 63" "length out + length (wire ls) \<le> 255"
  shows "tsig_key_loop pkt off out = Some (out @ (if out \<noteq> [] \<and> ls \<noteq> [] then [46] else []) @ join 46 ls)"
  using assms
proof (induction ls arbitrary: off out)
  case Nil
  then show ?case using nth_suffix [of off pkt 0 r] by (simp add: tsig_key_loop.simps [of pkt])
next
  case (Cons l ls)
  have o: "off < length pkt" "pkt ! off = of_nat (length l)" using nth_suffix Cons.prems(1) by fastforce+
  have l: "0 < length l" "length l \<le> 63" using Cons.prems(2) by auto
  then have u: "unat (of_nat (length l) :: u8) = length l" by (intro unat_of_nat_u8) simp
  have c: "(of_nat (length l) :: u8) AND 0xC0 \<noteq> 0xC0" "(of_nat (length l) :: u8) \<noteq> 0"
    using and_C0_eq [of "of_nat (length l)"] u l by (auto simp: unat_eq_0 [symmetric])
  have d1: "drop (off + 1) pkt = l @ wire ls @ r"
    by (rule drop_suffix [of off pkt "[of_nat (length l)]"]) (use Cons.prems(1) in simp_all)
  have rl: "rdn pkt (off + 1) (length l) = Some l" by (rule rdn_suffix [OF d1]) (use o in simp)
  have d2: "drop (off + 1 + length l) pkt = wire ls @ r" by (rule drop_suffix [OF d1]) simp
  let ?o = "out @ (if out \<noteq> [] then [46] else []) @ l"
  have w: "1 \<le> length (wire ls)" by (simp add: length_wire)
  have "tsig_key_loop pkt (off + 1 + length l) ?o = Some (?o @ (if ls \<noteq> [] then [46] else []) @ join 46 ls)"
    using Cons.IH [OF d2, of ?o] Cons.prems(2,3) l w by (simp split: if_splits)
  then show ?case using o u c rl Cons.prems(3) w by (cases ls) (auto simp: tsig_key_loop.simps [of pkt off] Let_def)
qed

lemma get16_suffix: "drop off pkt = be16 v @ r \<Longrightarrow> get16 pkt off = Some v"
  using length_suffix [of off pkt "be16 v @ r"] by (intro get16_at) simp_all

lemma get32_suffix: "drop off pkt = be32 v @ r \<Longrightarrow> get32 pkt off = Some v"
  using length_suffix [of off pkt "be32 v @ r"] by (intro get32_at) simp_all

lemma tsig_alg_one:
  assumes d: "drop off pkt = wire [al] @ r" and al: "al \<noteq> []" "length al < 63"
  shows "tsig_alg_loop pkt (length pkt) off [] = Some (Ok (al, off + length al + 2))"
proof -
  have o: "off < length pkt" "pkt ! off = of_nat (length al)" using nth_suffix d by fastforce+
  have u: "unat (of_nat (length al) :: u8) = length al" using al by (intro unat_of_nat_u8) simp
  then have c: "(of_nat (length al) :: u8) \<noteq> 0" using al by (auto simp: unat_eq_0 [symmetric])
  have d1: "drop (off + 1) pkt = al @ 0 # r" by (rule drop_suffix [of off pkt "[of_nat (length al)]"]) (use d in simp_all)
  have d2: "drop (off + length al + 1) pkt = 0 # r" by (rule drop_suffix [OF d1]) simp
  have r: "rdn pkt (off + 1) (length al) = Some al" by (rule rdn_suffix [OF d1]) (use o in simp)
  show ?thesis using o u c r al nth_suffix [OF d2]
    by (simp add: tsig_alg_loop.simps [of pkt _ off] tsig_alg_loop.simps [of pkt _ "off + length al + 1"] tsig_alg_loop.simps [of pkt _ "Suc (off + length al)"] rd8_def)
qed

text \<open>The record with algorithm \<open>al\<close> for the key with labels \<open>ls\<close>, and the message that carries it.\<close>

definition tsig_rdata :: "bytes \<Rightarrow> int \<Rightarrow> u16 \<Rightarrow> u16 \<Rightarrow> u16 \<Rightarrow> bytes \<Rightarrow> bytes" where
  "tsig_rdata al now fu oid er m =
     wire [al] @ be16 0 @ be32 (word_of_int now) @ be16 fu @ be16 (of_nat (length m)) @ m @ be16 oid @ be16 er @ [0, 0]"

definition tsig_record :: "cstr list \<Rightarrow> bytes \<Rightarrow> bytes" where
  "tsig_record ls rd = wire ls @ be16 250 @ [0, 255, 0, 0, 0, 0] @ be16 (of_nat (length rd)) @ rd"

definition arcount :: "bytes \<Rightarrow> u16" where
  "arcount msg = the (get16 msg 10)"

definition with_tsig :: "bytes \<Rightarrow> bytes \<Rightarrow> bytes" where
  "with_tsig msg rr = patch msg 10 (be16 (arcount msg + 1)) @ rr"

text \<open>A message without a signature whose sections end where it ends.\<close>

definition plain_msg :: "bytes \<Rightarrow> bool" where
  "plain_msg msg \<longleftrightarrow> 12 \<le> length msg \<and> arcount msg < 65535 \<and>
     (case (get16 msg 4, get16 msg 6, get16 msg 8) of
        (Some qd, Some an, Some ns) \<Rightarrow>
          (case tsig_skip msg (length msg) (unat qd) 0 (unat qd + unat an + unat ns) 12 of
             Some (Ok off) \<Rightarrow> untsig_end msg (length msg) (unat (arcount msg)) off = Some (length msg)
           | _ \<Rightarrow> False)
      | _ \<Rightarrow> False)"

lemma tsig_fields_rdata:
  assumes d: "drop rp pkt = be16 0 @ be32 (word_of_int now) @ be16 fu @ be16 (of_nat (length m)) @ m @ be16 oid @ be16 er @ [0, 0]"
    and m: "length m \<le> 64"
  shows "tsig_fields pkt (length pkt) kn al rp = Some (Ok \<lparr>key_name = kn, alg_name = al, mac = m, time_high = 0,
    time_low = ucast (word_of_int now :: u32), fudge = fu, orig_id = oid, error = er\<rparr>)"
proof -
  have len: "length pkt = rp + 16 + length m" using length_suffix [OF d] by simp
  have d1: "drop (rp + 2) pkt = be32 (word_of_int now) @ be16 fu @ be16 (of_nat (length m)) @ m @ be16 oid @ be16 er @ [0, 0]"
    by (rule drop_suffix [OF d]) simp
  have d2: "drop (rp + 6) pkt = be16 fu @ be16 (of_nat (length m)) @ m @ be16 oid @ be16 er @ [0, 0]"
    by (rule drop_suffix [OF d1]) simp
  have d3: "drop (rp + 8) pkt = be16 (of_nat (length m)) @ m @ be16 oid @ be16 er @ [0, 0]"
    by (rule drop_suffix [OF d2]) simp
  have d4: "drop (rp + 10) pkt = m @ be16 oid @ be16 er @ [0, 0]" by (rule drop_suffix [OF d3]) simp
  have d5: "drop (rp + 10 + length m) pkt = be16 oid @ be16 er @ [0, 0]" by (rule drop_suffix [OF d4]) simp
  have d6: "drop (rp + 10 + length m + 2) pkt = be16 er @ [0, 0]" by (rule drop_suffix [OF d5]) simp
  have u: "unat (of_nat (length m) :: u16) = length m" using m by (intro unat_of_nat_u16) simp
  have r: "rdn pkt (rp + 10) (length m) = Some m" by (rule rdn_suffix [OF d4]) (use len in simp)
  show ?thesis
    unfolding tsig_fields_def Let_def get16_suffix [OF d] get32_suffix [OF d1] get16_suffix [OF d2] get16_suffix [OF d3]
    using get16_suffix [OF d5] get16_suffix [OF d6] r u m len by simp
qed

definition key_labels :: "cstr list \<Rightarrow> bool" where
  "key_labels ls \<longleftrightarrow> (\<forall>l \<in> set ls. l \<noteq> [] \<and> length l \<le> 63 \<and> 0 \<notin> set l \<and> 46 \<notin> set l \<and> map lower8 l = l) \<and> length (wire ls) \<le> 129"

lemma get16_ex: "off + 2 \<le> length b \<Longrightarrow> \<exists>v. get16 b off = Some v"
  by (simp add: get16_ok)

lemma plain_msgD:
  assumes "plain_msg msg"
  obtains qd an ns off where "12 \<le> length msg" "get16 msg 10 = Some (arcount msg)" "arcount msg < 65535"
    "get16 msg 4 = Some qd" "get16 msg 6 = Some an" "get16 msg 8 = Some ns"
    "tsig_skip msg (length msg) (unat qd) 0 (unat qd + unat an + unat ns) 12 = Some (Ok off)"
    "untsig_end msg (length msg) (unat (arcount msg)) off = Some (length msg)"
proof -
  have l: "12 \<le> length msg" using assms by (simp add: plain_msg_def)
  then have "get16 msg 10 = Some (arcount msg)" using get16_ex [of 10 msg] by (auto simp: arcount_def)
  then show ?thesis using that assms l by (auto simp: plain_msg_def split: option.splits cres.splits)
qed

lemma with_tsig_agree:
  assumes "12 \<le> length msg"
  shows "agree 12 (length msg) msg (with_tsig msg rr)" "agree 0 10 msg (with_tsig msg rr)"
    "drop (length msg) (with_tsig msg rr) = rr" "get16 (with_tsig msg rr) 10 = Some (arcount msg + 1)"
    "length (with_tsig msg rr) = length msg + length rr"
proof -
  let ?p = "patch msg 10 (be16 (arcount msg + 1))"
  have l: "length ?p = length msg" using assms by simp
  show "agree 12 (length msg) msg (with_tsig msg rr)" "agree 0 10 msg (with_tsig msg rr)"
    using assms l by (auto simp: agree_def with_tsig_def nth_append nth_patch)
  show "drop (length msg) (with_tsig msg rr) = rr" "length (with_tsig msg rr) = length msg + length rr" using l by (simp_all add: with_tsig_def)
  have "drop 10 (with_tsig msg rr) = be16 (arcount msg + 1) @ drop 12 msg @ rr"
    using assms by (simp add: with_tsig_def patch_def)
  then show "get16 (with_tsig msg rr) 10 = Some (arcount msg + 1)" by (rule get16_suffix)
qed

lemma tsig_find_signed:
  fixes now :: int and fu oid er :: u16
  assumes pl: "plain_msg msg" and ls: "key_labels ls" and al: "al \<noteq> []" "length al < 63" and m: "length m \<le> 64"
  defines "p \<equiv> with_tsig msg (tsig_record ls (tsig_rdata al now fu oid er m))"
  shows "tsig_find p (length p) = Some (Ok (length msg, \<lparr>key_name = cstr_of (strlower (join 46 ls)), alg_name = cstr_of (strlower (al @ [46])),
    mac = m, time_high = 0, time_low = ucast (word_of_int now :: u32), fudge = fu, orig_id = oid, error = er\<rparr>))"
proof -
  obtain qd an ns off where h: "12 \<le> length msg" "get16 msg 10 = Some (arcount msg)" "arcount msg < 65535"
    "get16 msg 4 = Some qd" "get16 msg 6 = Some an" "get16 msg 8 = Some ns"
    "tsig_skip msg (length msg) (unat qd) 0 (unat qd + unat an + unat ns) 12 = Some (Ok off)"
    "untsig_end msg (length msg) (unat (arcount msg)) off = Some (length msg)" by (rule plain_msgD [OF pl])
  let ?rd = "tsig_rdata al now fu oid er m" and ?n = "length msg"
  note a = with_tsig_agree [OF h(1), of "tsig_record ls ?rd", folded p_def]
  have g: "get16 p 4 = Some qd" "get16 p 6 = Some an" "get16 p 8 = Some ns"
    using get16_agree [OF a(2), of 4] get16_agree [OF a(2), of 6] get16_agree [OF a(2), of 8] h(4-6) by simp_all
  have s: "tsig_skip p (length p) (unat qd) 0 (unat qd + unat an + unat ns) 12 = Some (Ok off)" "12 \<le> off"
    using tsig_skip_agree [OF a(1) _ _ h(7)] a(5) by auto
  have ar: "arcount msg + 1 \<noteq> 0" "unat (arcount msg + 1) = unat (arcount msg) + 1"
  proof -
    have "unat (arcount msg) < 65535" using h(3) by (simp add: word_less_nat_alt)
    then show "unat (arcount msg + 1) = unat (arcount msg) + 1" by (simp add: unat_word_ariths)
    then show "arcount msg + 1 \<noteq> 0" by (metis Suc_eq_plus1 nat.distinct(1) unat_0)
  qed
  have lw: "\<forall>l \<in> set ls. l \<noteq> [] \<and> length l \<le> 63" and w: "length (wire ls) \<le> 129" using ls by (auto simp: key_labels_def)
  have add: "tsig_additional p (length p) (unat (arcount msg) + Suc 0) off = tsig_additional p (length p) (Suc 0) ?n"
    by (rule conjunct1 [OF tsig_additional_plain [OF a(1) s(2) _ h(8)]]) (use a(5) in simp)
  let ?a = "?n + length (wire ls)"
  have d0: "drop ?n p = wire ls @ be16 250 @ [0, 255, 0, 0, 0, 0] @ be16 (of_nat (length ?rd)) @ ?rd" using a(3) by (simp add: tsig_record_def)
  have d1: "drop ?a p = be16 250 @ [0, 255, 0, 0, 0, 0] @ be16 (of_nat (length ?rd)) @ ?rd" by (rule drop_suffix [OF d0]) simp
  have d2: "drop (?a + 8) p = be16 (of_nat (length ?rd)) @ ?rd"
    by (rule drop_suffix [of ?a p "be16 250 @ [0, 255, 0, 0, 0, 0]"]) (use d1 in simp_all)
  have d3: "drop (?a + 10) p = wire [al] @ be16 0 @ be32 (word_of_int now) @ be16 fu @ be16 (of_nat (length m)) @ m @ be16 oid @ be16 er @ [0, 0]"
    using drop_suffix [OF d2, of "?a + 10"] by (simp add: tsig_rdata_def)
  have d4: "drop (?a + 10 + length al + 2) p = be16 0 @ be32 (word_of_int now) @ be16 fu @ be16 (of_nat (length m)) @ m @ be16 oid @ be16 er @ [0, 0]"
    by (rule drop_suffix [OF d3]) simp
  have rl: "length ?rd = length al + 18 + length m" by (simp add: tsig_rdata_def)
  then have ur: "unat (of_nat (length ?rd) :: u16) = length ?rd" using al m by (intro unat_of_nat_u16) simp
  have len: "length p = ?a + 10 + length ?rd" using a(5) by (simp add: tsig_record_def)
  have "tsig_additional p (length p) (Suc 0) ?n = Some (Ok (?n, \<lparr>key_name = cstr_of (strlower (join 46 ls)), alg_name = cstr_of (strlower (al @ [46])),
    mac = m, time_high = 0, time_low = ucast (word_of_int now :: u32), fudge = fu, orig_id = oid, error = er\<rparr>))"
    using tsig_skip_wire [OF d0 lw] get16_suffix [OF d1] get16_suffix [OF d2] tsig_key_wire [OF d0 lw, of "[]"] tsig_alg_one [OF d3 al]
      tsig_fields_rdata [OF d4 m] w ur len by simp
  then show ?thesis unfolding tsig_find_def a(4) g using s add ar h(1) a(5) by (simp del: tsig_additional.simps)
qed

lemma tsig_strip_signed:
  assumes "12 \<le> length msg"
  shows "tsig_strip (with_tsig msg rr) (length msg) = Some msg"
proof -
  let ?p = "patch msg 10 (be16 (arcount msg + 1))"
  have l: "length ?p = length msg" using assms by simp
  have r: "rdn (with_tsig msg rr) 0 (length msg) = Some ?p" using l by (simp add: rdn_def with_tsig_def)
  have "drop 10 ?p = be16 (arcount msg + 1) @ drop 12 msg" using assms by (simp add: patch_def)
  then have g: "get16 ?p 10 = Some (arcount msg + 1)" by (rule get16_suffix)
  have "take 2 (drop 10 msg) = [msg ! 10, msg ! 11]"
    using assms by (simp add: numeral_2_eq_2 take_Suc_conv_app_nth)
  moreover have "get16 msg 10 = Some (arcount msg)" using assms by (simp add: arcount_def get16_ok)
  ultimately have b: "be16 (arcount msg) = take 2 (drop 10 msg)" using assms be16_get16 [of "msg ! 10" "msg ! 11"] by (simp add: get16_ok)
  have "take 10 msg @ take 2 (drop 10 msg) @ drop 2 (drop 10 msg) = msg" by (simp only: append_take_drop_id)
  then have "patch ?p 10 (be16 (arcount msg)) = msg"
    using assms b by (simp add: patch_def)
  then show ?thesis using r g l assms by (simp add: tsig_strip_def put16_ok)
qed

section \<open>Writing the record\<close>

lemma alg_wire_eq: "alg_wire = wire [str ''hmac-sha256'']"
  by code_simp

lemma length_hmac_sha256 [simp]: "length (str ''hmac-sha256'') = 11" "str ''hmac-sha256'' \<noteq> []"
  by code_simp+

lemma key_labelsD:
  assumes "key_labels ls"
  shows "labels_of (join 46 ls) = ls" "cstr_of (strlower (join 46 ls)) = join 46 ls" "length (join 46 ls) \<le> 129"
proof -
  have l: "\<forall>l \<in> set ls. l \<noteq> [] \<and> 46 \<notin> set l" using assms by (simp add: key_labels_def)
  have j: "length (join 46 ls) \<le> length (wire ls)"
  proof (cases "ls = []")
    case False
    then show ?thesis using length_join [OF False, of 46] by (simp add: length_wire)
  qed simp
  then show len: "length (join 46 ls) \<le> 129" using assms by (simp add: key_labels_def)
  show "labels_of (join 46 ls) = ls" using len by (intro labels_of_join [OF l]) simp
  have z: "0 \<notin> set (join 46 ls)" using assms set_join [of 46 ls] by (fastforce simp: key_labels_def)
  have low: "map lower8 (join 46 ls) = join 46 (map (map lower8) ls)"
    by (induction "46 :: u8" ls rule: join.induct) (simp_all add: lower8_def)
  have "map (map lower8) ls = ls" by (rule map_idI) (use assms in \<open>simp add: key_labels_def\<close>)
  moreover have "cstr_of (join 46 ls) = join 46 ls" using z by (auto simp: cstr_of_def takeWhile_eq_all_conv)
  ultimately show "cstr_of (strlower (join 46 ls)) = join 46 ls" using low by (simp add: cstr_of_strlower)
qed

definition tsig_vars_of :: "cstr list \<Rightarrow> u32 \<Rightarrow> u16 \<Rightarrow> u16 \<Rightarrow> bytes" where
  "tsig_vars_of ls t fu er = wire ls @ [0, 255, 0, 0, 0, 0] @ alg_wire @ be16 0 @ be32 t @ be16 fu @ be16 er @ [0, 0]"

lemma tsig_vars_ok:
  assumes "key_labels ls"
  shows "tsig_vars (join 46 ls) 0 t fu er = Some (tsig_vars_of ls t fu er)"
proof -
  have w: "length (wire ls) \<le> 129" using assms by (simp add: key_labels_def)
  then show ?thesis using key_labelsD(1) [OF assms] label_loop_ok [of "[]" ls 512]
    by (simp add: tsig_vars_def tsig_vars_of_def app_def alg_wire_eq)
qed

lemma label_wr_ok: "off + length (wire ls) \<le> length buf \<Longrightarrow> label_wr ls buf off = Some (patch buf off (wire ls), off + length (wire ls))"
proof (induction ls arbitrary: buf off)
  case (Cons l ls)
  let ?b = "patch buf off (of_nat (length l) # l)"
  have "label_wr ls ?b (off + 1 + length l) = Some (patch ?b (off + 1 + length l) (wire ls), off + 1 + length l + length (wire ls))"
    using Cons by simp
  moreover have "patch ?b (off + 1 + length l) (wire ls) = patch buf off (wire (l # ls))"
    using Cons.prems patch_patch_at [of "off + 1 + length l" off "of_nat (length l) # l" "wire ls" buf] by simp
  ultimately show ?case using Cons.prems by (simp add: wrn_ok)
qed (simp add: wr8_ok)

lemma be16_small: "n < 256 \<Longrightarrow> be16 (of_nat n) = [0, of_nat n]"
proof -
  assume n: "n < 256"
  then have u: "unat (of_nat n :: u16) = n" by (intro unat_of_nat_u16) simp
  then have "unat (drop_bit 8 (of_nat n :: u16)) = 0" using n by (simp add: drop_bit_eq_div unat_div)
  then have "drop_bit 8 (of_nat n :: u16) = 0" by (simp add: unat_eq_0)
  moreover have "ucast (of_nat n :: u16) = (of_nat n :: u8)"
    using n u by (simp add: word_unat_eq_iff unsigned_ucast_eq take_bit_eq_mod unat_of_nat_u8)
  ultimately show ?thesis by (simp add: be16_def ucast_and_FF)
qed

lemma take_signed:
  assumes "12 \<le> off" "off + length rr \<le> length buf"
  shows "take (off + length rr) (patch (patch buf off rr) 10 (be16 (arcount (take off buf) + 1))) = with_tsig (take off buf) rr"
proof -
  have "drop (Suc (Suc 10)) (take off buf) = take (off - 12) (drop 12 buf)" by (simp add: drop_take)
  then show ?thesis using assms by (cases rr) (simp_all add: with_tsig_def patch_def min_def take_drop)
qed

lemma tsig_rr_put_ok:
  fixes now :: int and fu oid er :: u16
  assumes G: "g_tsig_key_name G = join 46 ls" "key_labels ls" and m: "length m \<le> 32"
    and b: "12 \<le> off" "off + 200 \<le> blen" "blen \<le> length buf"
  defines "rr \<equiv> tsig_record ls (tsig_rdata (str ''hmac-sha256'') now fu oid er m)"
  shows "\<exists>buf'. tsig_rr_put G fu buf off blen oid er now m = Some (buf', off + length rr) \<and>
    take (off + length rr) buf' = with_tsig (take off buf) rr \<and> length buf' = length buf"
proof -
  let ?rd = "tsig_rdata (str ''hmac-sha256'') now fu oid er m" and ?w = "length (wire ls)"
  have w: "?w \<le> 129" using G(2) by (simp add: key_labels_def)
  have rd: "length ?rd = 29 + length m" by (simp add: tsig_rdata_def)
  have lr: "length rr = ?w + 39 + length m" by (simp add: rr_def tsig_record_def rd)
  let ?h = "[0, 250, 0, 255, 0, 0, 0, 0] :: bytes" and ?t = "[0, of_nat (length ?rd)] @ ?rd"
  let ?b1 = "patch buf off (wire ls)"
  have be: "[0, of_nat (length ?rd)] = be16 (of_nat (length ?rd))" using be16_small [of "length ?rd"] rd m by simp
  have b2: "patch ?b1 (off + ?w) ?h = patch buf off (wire ls @ ?h)"
    using b w m by (intro patch_patch_at) simp_all
  have b3: "patch (patch buf off (wire ls @ ?h)) (off + ?w + 8) ?t = patch buf off ((wire ls @ ?h) @ ?t)"
    using b w m rd by (intro patch_patch_at) simp_all
  have rr: "(wire ls @ ?h) @ ?t = rr" using be by (simp add: rr_def tsig_record_def be16_def)
  let ?p = "patch buf off rr"
  have lp: "length ?p = length buf" using b lr w m by simp
  have g: "get16 ?p 10 = Some (arcount (take off buf))"
    using b lr w m by (simp add: get16_ok arcount_def nth_patch)
  have lw: "label_wr (labels_of (g_tsig_key_name G)) buf off = Some (?b1, off + ?w)"
    using label_wr_ok [of off ls buf] key_labelsD(1) [OF G(2)] G(1) b w by simp
  have w1: "wrn ?b1 (off + ?w) ?h = Some (patch buf off (wire ls @ ?h))" using b w m b2 by (simp add: wrn_ok)
  have ap: "app 200 [] (alg_wire @ [0, 0] @ be32 (word_of_int now) @ be16 fu @ be16 (of_nat (length m)) @ m @ be16 oid @ be16 er @ [0, 0]) = Some ?rd"
    using rd m by (simp add: app_def tsig_rdata_def alg_wire_eq be16_def [of 0])
  have w2: "wrn (patch buf off (wire ls @ ?h)) (off + ?w + 8) ?t = Some ?p"
    using b w m rd b3 rr by (simp add: wrn_ok)
  have w3: "put16 ?p 10 (arcount (take off buf) + 1) = Some (patch ?p 10 (be16 (arcount (take off buf) + 1)))"
    using b lp by (simp add: put16_ok)
  have "tsig_rr_put G fu buf off blen oid er now m = Some (patch ?p 10 (be16 (arcount (take off buf) + 1)), off + length rr)"
    using lw w1 ap w2 g w3 b lr rd by (simp add: tsig_rr_put_def)
  then show ?thesis using take_signed [of off rr buf] b lr w m by simp
qed

section \<open>Verifying what was signed\<close>

text \<open>
  What is assumed of the HMAC: a tag of the digest's size. The configured key: a lower-case name whose text selects SHA-256, and a secret.
\<close>

fun digest_size :: "digest \<Rightarrow> nat" where
  "digest_size SHA512 = 64"
| "digest_size SHA384 = 48"
| "digest_size SHA256 = 32"
| "digest_size SHA1 = 20"
| "digest_size MD5 = 16"

definition hmac_ok :: "hmac \<Rightarrow> bool" where
  "hmac_ok hm \<longleftrightarrow> (\<forall>g k d. \<exists>m. hm g k d = Some m \<and> length m = digest_size g)"

definition tsig_key :: "tsig_cfg \<Rightarrow> bool" where
  "tsig_key G \<longleftrightarrow> g_tsig_secret G \<noteq> [] \<and> tsig_alg_to_digest (g_tsig_key_name G) = SHA256 \<and>
     key_labels (labels_of (g_tsig_key_name G)) \<and> g_tsig_key_name G = join 46 (labels_of (g_tsig_key_name G))"

lemma tsig_hmac_ok: "hmac_ok hm \<Longrightarrow> tsig_key G \<Longrightarrow> \<exists>m. tsig_hmac hm G d = Some m \<and> length m = 32"
  unfolding hmac_ok_def tsig_key_def tsig_hmac_def by (metis digest_size.simps(3))

definition our_record :: "tsig_cfg \<Rightarrow> int \<Rightarrow> u16 \<Rightarrow> u16 \<Rightarrow> u16 \<Rightarrow> bytes \<Rightarrow> bytes" where
  "our_record G now fu oid er m = tsig_record (labels_of (g_tsig_key_name G)) (tsig_rdata (str ''hmac-sha256'') now fu oid er m)"

lemma find_ours:
  fixes now :: int and fu oid er :: u16
  assumes "plain_msg msg" "tsig_key G" "length m = 32"
  defines "p \<equiv> with_tsig msg (our_record G now fu oid er m)"
  shows "\<exists>t. tsig_find p (length p) = Some (Ok (length msg, t)) \<and> mac t = m \<and> tsig_alg_to_digest (alg_name t) = SHA256 \<and>
    tsig_vars (key_name t) (ucast (time_high t)) (ucast (time_low t)) (fudge t) (error t) =
      Some (tsig_vars_of (labels_of (g_tsig_key_name G)) (word_of_int now) fu er)"
proof -
  let ?ls = "labels_of (g_tsig_key_name G)"
  have k: "key_labels ?ls" using assms(2) by (simp add: tsig_key_def)
  have al: "tsig_alg_to_digest (cstr_of (strlower (str ''hmac-sha256'' @ [46]))) = SHA256" by code_simp
  have c: "ucast (ucast (word_of_int now :: u32) :: u64) = (word_of_int now :: u32)"
    by (rule bit_word_eqI) (simp add: bit_simps)
  show ?thesis
    using tsig_find_signed [OF assms(1) k, of "str ''hmac-sha256''" m now fu oid er] assms(3) al c
      key_labelsD(2) [OF k] tsig_vars_ok [OF k, of "word_of_int now" fu er]
    unfolding p_def our_record_def by simp
qed

lemma verify_ours:
  fixes now :: int and fu oid er :: u16
  assumes "plain_msg msg" "tsig_key G" "length m = 32"
    "tsig_hmac hm G (msg @ tsig_vars_of (labels_of (g_tsig_key_name G)) (word_of_int now) fu er) = Some m"
  defines "p \<equiv> with_tsig msg (our_record G now fu oid er m)"
  shows "tsig_verify hm G p (length p) = Some (True, m)"
proof -
  have l: "12 \<le> length msg" using assms(1) by (simp add: plain_msg_def)
  obtain t where t: "tsig_find p (length p) = Some (Ok (length msg, t))" "mac t = m" "tsig_alg_to_digest (alg_name t) = SHA256"
    "tsig_vars (key_name t) (ucast (time_high t)) (ucast (time_low t)) (fudge t) (error t) =
      Some (tsig_vars_of (labels_of (g_tsig_key_name G)) (word_of_int now) fu er)"
    using find_ours [OF assms(1-3)] unfolding p_def by blast
  have s: "tsig_strip p (length msg) = Some msg" unfolding p_def by (rule tsig_strip_signed [OF l])
  have "m \<noteq> []" using assms(3) by auto
  then show ?thesis using t s assms(2,4) l by (auto simp: tsig_verify_def tsig_key_def tsig_hmac_def Let_def)
qed

lemma verify_msg_ours:
  fixes now :: int and fu oid er :: u16
  assumes "plain_msg msg" "tsig_key G" "length m = 32"
    "tsig_hmac hm G (tsig_hmac_prepend prior @ msg @ tsig_vars_of (labels_of (g_tsig_key_name G)) (word_of_int now) fu er) = Some m"
  defines "p \<equiv> with_tsig msg (our_record G now fu oid er m)"
  shows "xfr_tsig_verify_msg hm G p (length p) prior ws = Some (True, m, True)"
proof -
  have l: "12 \<le> length msg" using assms(1) by (simp add: plain_msg_def)
  obtain t where t: "tsig_find p (length p) = Some (Ok (length msg, t))" "mac t = m"
    "tsig_vars (key_name t) (ucast (time_high t)) (ucast (time_low t)) (fudge t) (error t) =
      Some (tsig_vars_of (labels_of (g_tsig_key_name G)) (word_of_int now) fu er)"
    using find_ours [OF assms(1-3)] unfolding p_def by blast
  have s: "tsig_strip p (length msg) = Some msg" unfolding p_def by (rule tsig_strip_signed [OF l])
  show ?thesis using t s assms(4) l by (auto simp: xfr_tsig_verify_msg_def xfr_tsig_vars_from_rr_def)
qed

lemma find_plain:
  assumes "plain_msg msg"
  shows "tsig_find msg (length msg) = Some Err"
proof -
  obtain qd an ns off where h: "12 \<le> length msg" "get16 msg 10 = Some (arcount msg)" "arcount msg < 65535"
    "get16 msg 4 = Some qd" "get16 msg 6 = Some an" "get16 msg 8 = Some ns"
    "tsig_skip msg (length msg) (unat qd) 0 (unat qd + unat an + unat ns) 12 = Some (Ok off)"
    "untsig_end msg (length msg) (unat (arcount msg)) off = Some (length msg)" by (rule plain_msgD [OF assms])
  have "agree 0 (length msg) msg msg" by (simp add: agree_def)
  from tsig_additional_plain [OF this _ _ h(8), of "length msg" 0] have "tsig_additional msg (length msg) (unat (arcount msg)) off = Some Err" by simp
  then show ?thesis using h by (simp add: tsig_find_def)
qed

lemma verify_msg_plain:
  assumes "plain_msg msg" "hmac_ok hm" "tsig_key G" "prior \<noteq> []"
  shows "xfr_tsig_verify_msg hm G msg (length msg) prior ws = Some (True, tsig_axfr_mid hm G msg prior, False)"
    "tsig_axfr_mid hm G msg prior \<noteq> []"
proof -
  obtain m where m: "tsig_hmac hm G (tsig_hmac_prepend prior @ msg) = Some m" "length m = 32" using tsig_hmac_ok [OF assms(2,3)] by blast
  then show "xfr_tsig_verify_msg hm G msg (length msg) prior ws = Some (True, tsig_axfr_mid hm G msg prior, False)" "tsig_axfr_mid hm G msg prior \<noteq> []"
    using assms(3,4) find_plain [OF assms(1)] by (auto simp: xfr_tsig_verify_msg_def tsig_axfr_mid_def tsig_key_def rdn_def)
qed

section \<open>The verification loop of the secondary\<close>

text \<open>
  The messages of a transfer as \<open>xfr_pull\<close> verifies them, one at a time: \<open>tsig_fail\<close>, the chained MAC, whether the last message was
  signed, and the number of messages since the last signed one.
\<close>

fun xfr_tsig_run :: "hmac \<Rightarrow> tsig_cfg \<Rightarrow> bytes list \<Rightarrow> bytes \<Rightarrow> bool \<Rightarrow> nat \<Rightarrow> (bool \<times> bytes \<times> bool \<times> nat) option" where
  "xfr_tsig_run hm G [] prior last_signed unsigned_run = Some (False, prior, last_signed, unsigned_run)"
| "xfr_tsig_run hm G (msg # msgs) prior last_signed unsigned_run = do {
     (ok, prior, was_signed) \<leftarrow> xfr_tsig_verify_msg hm G msg (length msg) prior False;
     if \<not> ok then Some (True, prior, last_signed, unsigned_run)
     else
       let unsigned_run = (if was_signed then 0 else unsigned_run + 1)
       in if unsigned_run > 99 then Some (True, prior, was_signed, unsigned_run)
          else xfr_tsig_run hm G msgs prior was_signed unsigned_run }"

lemma run_plain:
  assumes "\<forall>m \<in> set ms. plain_msg m" "hmac_ok hm" "tsig_key G" "prior \<noteq> []" "u + length ms \<le> 99"
  shows "fold (tsig_axfr_mid hm G) ms prior \<noteq> [] \<and>
    (\<exists>ls'. xfr_tsig_run hm G (ms @ ms') prior ls u = xfr_tsig_run hm G ms' (fold (tsig_axfr_mid hm G) ms prior) ls' (u + length ms))"
  using assms
proof (induction ms arbitrary: prior u ls)
  case (Cons m ms)
  note v = verify_msg_plain [OF _ Cons.prems(2-4), of m]
  show ?case using v Cons.prems Cons.IH [of "tsig_axfr_mid hm G m prior" "u + 1" False] by simp
qed auto

lemma run_too_long:
  assumes "\<forall>m \<in> set ms. plain_msg m" "hmac_ok hm" "tsig_key G" "prior \<noteq> []" "99 < u + length ms" "u \<le> 99"
  shows "\<exists>p ls' u'. xfr_tsig_run hm G (ms @ ms') prior ls u = Some (True, p, ls', u')"
  using assms
proof (induction ms arbitrary: prior u ls)
  case (Cons m ms)
  note v = verify_msg_plain [OF _ Cons.prems(2-4), of m]
  show ?case
  proof (cases "u + 1 > 99")
    case True
    then have "xfr_tsig_run hm G ((m # ms) @ ms') prior ls u = Some (True, tsig_axfr_mid hm G m prior, False, u + 1)"
      using v Cons.prems(1) by simp
    then show ?thesis by blast
  next
    case False
    then show ?thesis using v Cons.prems Cons.IH [of "tsig_axfr_mid hm G m prior" "u + 1" False] by simp
  qed
qed simp

text \<open>Each of the three signing functions writes the message with a record whose MAC is that of the chained data.\<close>

lemma rr_write_ours:
  assumes "tsig_key G" "length m = 32" "12 \<le> off" "off + 200 \<le> blen" "blen \<le> length buf"
  shows "\<exists>buf' off'. tsig_rr_write G buf off blen oid er now m = Some (buf', off') \<and>
    take off' buf' = with_tsig (take off buf) (our_record G now 5 oid er m) \<and> off' = length (take off' buf')"
proof -
  have k: "g_tsig_key_name G = join 46 (labels_of (g_tsig_key_name G))" "key_labels (labels_of (g_tsig_key_name G))"
    using assms(1) by (simp_all add: tsig_key_def)
  have l: "12 \<le> length (take off buf)" using assms by simp
  obtain buf' where w: "tsig_rr_put G 5 buf off blen oid er now m = Some (buf', off + length (our_record G now 5 oid er m))"
      "take (off + length (our_record G now 5 oid er m)) buf' = with_tsig (take off buf) (our_record G now 5 oid er m)"
    using tsig_rr_put_ok [OF k _ assms(3-5), of m 5 oid er now] assms(2) unfolding our_record_def by auto
  have "length (with_tsig (take off buf) (our_record G now 5 oid er m)) = off + length (our_record G now 5 oid er m)"
    using with_tsig_agree(5) [OF l] assms by simp
  then show ?thesis using w unfolding tsig_rr_write_def by metis
qed

lemma vars_build_ours:
  "tsig_key G \<Longrightarrow> tsig_vars_build G now er = Some (tsig_vars_of (labels_of (g_tsig_key_name G)) (word_of_int now) 5 er)"
  unfolding tsig_vars_build_def tsig_key_def by (metis tsig_vars_ok)

text \<open>A buffer with a message that has room for a record.\<close>

definition signable :: "bytes \<Rightarrow> nat \<Rightarrow> nat \<Rightarrow> bool" where
  "signable buf off blen \<longleftrightarrow> plain_msg (take off buf) \<and> off + 200 \<le> blen \<and> blen \<le> length buf"

lemma signableD: "signable buf off blen \<Longrightarrow> 12 \<le> off \<and> plain_msg (take off buf) \<and> rdn buf 0 off = Some (take off buf)"
  by (auto simp: signable_def plain_msg_def rdn_def)

lemma sign_query_ok:
  assumes "hmac_ok hm" "tsig_key G" "signable q qo qcap"
  shows "\<exists>q' qo' rm. xfr_tsig_sign_query hm G now q qo qcap qid = Some (q', qo', rm) \<and> rm \<noteq> [] \<and> tsig_verify hm G (take qo' q') qo' = Some (True, rm)"
proof -
  note s = signableD [OF assms(3)]
  let ?v = "tsig_vars_of (labels_of (g_tsig_key_name G)) (word_of_int now) 5 0"
  have pre: "12 \<le> qo" "qo + 200 \<le> qcap" "qcap \<le> length q" using s assms(3) by (simp_all add: signable_def)
  obtain rm where rm: "tsig_hmac hm G (take qo q @ ?v) = Some rm" "length rm = 32" using tsig_hmac_ok [OF assms(1,2)] by blast
  obtain q' qo' where w: "tsig_rr_write G q qo qcap qid 0 now rm = Some (q', qo')"
      "take qo' q' = with_tsig (take qo q) (our_record G now 5 qid 0 rm)" "qo' = length (take qo' q')"
    using rr_write_ours [OF assms(2) rm(2) pre, of qid 0 now] by (elim exE conjE) (rule that, assumption+)
  have "tsig_verify hm G (take qo' q') (length (take qo' q')) = Some (True, rm)"
    unfolding w(2) by (rule verify_ours) (use s assms(2) rm in auto)
  then have "tsig_verify hm G (take qo' q') qo' = Some (True, rm)" using w(3) by metis
  moreover have "xfr_tsig_sign_query hm G now q qo qcap qid = Some (q', qo', rm)"
    using assms(2) s rm w(1) vars_build_ours [OF assms(2)] by (simp add: xfr_tsig_sign_query_def tsig_key_def)
  moreover have "rm \<noteq> []" using rm by auto
  ultimately show ?thesis by blast
qed

lemma axfr_first_ok:
  assumes "hmac_ok hm" "tsig_key G" "signable b off blen" "rm \<noteq> []"
  shows "\<exists>b' off' m. tsig_axfr_first hm G now b off blen qid rm = Some (b', off', m, []) \<and> m \<noteq> [] \<and> length m = 32 \<and>
    off' \<le> length b' \<and> take off' b' = with_tsig (take off b) (our_record G now 5 qid 0 m) \<and>
    (\<forall>ws. xfr_tsig_verify_msg hm G (take off' b') (length (take off' b')) rm ws = Some (True, m, True))"
proof -
  note s = signableD [OF assms(3)]
  have pre: "12 \<le> off" "off + 200 \<le> blen" "blen \<le> length b" using s assms(3) by (simp_all add: signable_def)
  let ?v = "tsig_vars_of (labels_of (g_tsig_key_name G)) (word_of_int now) 5 0"
  obtain m where m: "tsig_hmac hm G (tsig_hmac_prepend rm @ take off b @ ?v) = Some m" "length m = 32" using tsig_hmac_ok [OF assms(1,2)] by blast
  obtain b' off' where w: "tsig_rr_write G b off blen qid 0 now m = Some (b', off')"
      "take off' b' = with_tsig (take off b) (our_record G now 5 qid 0 m)" "off' = length (take off' b')"
    using rr_write_ours [OF assms(2) m(2) pre, of qid 0 now] by (elim exE conjE) (rule that, assumption+)
  have le: "off' \<le> length b'" using w(3) by (metis length_take min.cobounded1)
  have "xfr_tsig_verify_msg hm G (take off' b') (length (take off' b')) rm ws = Some (True, m, True)" for ws
    unfolding w(2) by (rule verify_msg_ours) (use s assms(2) m in auto)
  moreover have "tsig_axfr_first hm G now b off blen qid rm = Some (b', off', m, [])"
    using assms(2,4) s m w(1) vars_build_ours [OF assms(2)] by (simp add: tsig_axfr_first_def tsig_key_def)
  moreover have "m \<noteq> []" using m by auto
  ultimately show ?thesis using m(2) w(2) le by blast
qed

lemma axfr_last_ok:
  assumes "hmac_ok hm" "tsig_key G" "signable b off blen" "prior \<noteq> []"
  shows "\<exists>b' off' m. tsig_axfr_last hm G now b off blen qid prior = Some (b', off') \<and> length m = 32 \<and>
    off' \<le> length b' \<and> take off' b' = with_tsig (take off b) (our_record G now 5 qid 0 m) \<and>
    (\<forall>ws. xfr_tsig_verify_msg hm G (take off' b') (length (take off' b')) prior ws = Some (True, m, True))"
proof -
  note s = signableD [OF assms(3)]
  have pre: "12 \<le> off" "off + 200 \<le> blen" "blen \<le> length b" using s assms(3) by (simp_all add: signable_def)
  let ?v = "tsig_vars_of (labels_of (g_tsig_key_name G)) (word_of_int now) 5 0"
  obtain m where m: "tsig_hmac hm G (tsig_hmac_prepend prior @ take off b @ ?v) = Some m" "length m = 32" using tsig_hmac_ok [OF assms(1,2)] by blast
  obtain b' off' where w: "tsig_rr_write G b off blen qid 0 now m = Some (b', off')"
      "take off' b' = with_tsig (take off b) (our_record G now 5 qid 0 m)" "off' = length (take off' b')"
    using rr_write_ours [OF assms(2) m(2) pre, of qid 0 now] by (elim exE conjE) (rule that, assumption+)
  have le: "off' \<le> length b'" using w(3) by (metis length_take min.cobounded1)
  have "xfr_tsig_verify_msg hm G (take off' b') (length (take off' b')) prior ws = Some (True, m, True)" for ws
    unfolding w(2) by (rule verify_msg_ours) (use s assms(2) m in auto)
  moreover have "tsig_axfr_last hm G now b off blen qid prior = Some (b', off')"
    using assms(2,4) s m w(1) vars_build_ours [OF assms(2)] by (simp add: tsig_axfr_last_def tsig_key_def)
  ultimately show ?thesis using m(2) w(2) le by blast
qed

section \<open>Properties\<close>

text \<open>
  C14: A signed zone transfer verifies end to end. The secondary signs its query, the primary accepts it and remembers its MAC, signs the
  first message of the transfer over it, chains up to 99 further messages, and signs the last one; the secondary accepts every message of the
  stream and ends with a signed one. This holds for every HMAC with tags of the digest's size, any messages whose sections are well formed and
  carry no signature of their own, and any clocks on the two sides.
\<close>

theorem tsig_transfer_verifies:
  assumes "hmac_ok hm" "tsig_key G" "signable q qo qcap" "signable b1 o1 c1" "signable b2 o2 c2"
    "\<forall>m \<in> set mids. plain_msg m" "length mids \<le> 99"
  shows "\<exists>q' qo' rm b1' o1' m1 b2' o2' p.
    xfr_tsig_sign_query hm G t0 q qo qcap qid = Some (q', qo', rm) \<and>
    tsig_verify hm G (take qo' q') qo' = Some (True, rm) \<and>
    tsig_axfr_first hm G t1 b1 o1 c1 qid rm = Some (b1', o1', m1, []) \<and>
    tsig_axfr_last hm G t2 b2 o2 c2 qid (fold (tsig_axfr_mid hm G) mids m1) = Some (b2', o2') \<and>
    xfr_tsig_run hm G ([take o1' b1'] @ mids @ [take o2' b2']) rm False 0 = Some (False, p, True, 0)"
proof -
  obtain q' qo' rm where q: "xfr_tsig_sign_query hm G t0 q qo qcap qid = Some (q', qo', rm)" "rm \<noteq> []"
    "tsig_verify hm G (take qo' q') qo' = Some (True, rm)" using sign_query_ok [OF assms(1-3)] by blast
  obtain b1' o1' m1 where f: "tsig_axfr_first hm G t1 b1 o1 c1 qid rm = Some (b1', o1', m1, [])" "m1 \<noteq> []"
    "xfr_tsig_verify_msg hm G (take o1' b1') (length (take o1' b1')) rm False = Some (True, m1, True)"
    using axfr_first_ok [OF assms(1,2,4) q(2)] by blast
  let ?p = "fold (tsig_axfr_mid hm G) mids m1"
  have "?p \<noteq> []" using run_plain [OF assms(6,1,2) f(2), of 0] assms(7) by simp
  then obtain b2' o2' m2 where l: "tsig_axfr_last hm G t2 b2 o2 c2 qid ?p = Some (b2', o2')"
    "xfr_tsig_verify_msg hm G (take o2' b2') (length (take o2' b2')) ?p False = Some (True, m2, True)"
    using axfr_last_ok [OF assms(1,2,5)] by blast
  obtain ls where "xfr_tsig_run hm G (mids @ [take o2' b2']) m1 True 0 = xfr_tsig_run hm G [take o2' b2'] ?p ls (length mids)"
    using run_plain [OF assms(6,1,2) f(2), of 0 "[take o2' b2']" True] assms(7) by auto
  then have "xfr_tsig_run hm G ([take o1' b1'] @ mids @ [take o2' b2']) rm False 0 = Some (False, m2, True, 0)"
    using f(3) l(2) by simp
  then show ?thesis using q f l by blast
qed

text \<open>
  C39: A primary of this program cannot send more than 99 records to a secondary of this program under TSIG. The primary puts each record into a
  message of its own and signs the first and the last message only; the secondary gives up after 99 unsigned messages in a row. Whatever
  follows, it rejects a transfer with 100 or more messages between the two signed ones.
\<close>

theorem tsig_long_transfer_rejected:
  assumes "hmac_ok hm" "tsig_key G" "signable b1 o1 c1" "rm \<noteq> []" "\<forall>m \<in> set mids. plain_msg m" "99 < length mids"
  shows "\<exists>b1' o1' m1. tsig_axfr_first hm G t1 b1 o1 c1 qid rm = Some (b1', o1', m1, []) \<and>
    (\<exists>p ls u. xfr_tsig_run hm G ([take o1' b1'] @ mids @ rest) rm False 0 = Some (True, p, ls, u))"
proof -
  obtain b1' o1' m1 where f: "tsig_axfr_first hm G t1 b1 o1 c1 qid rm = Some (b1', o1', m1, [])" "m1 \<noteq> []"
    "xfr_tsig_verify_msg hm G (take o1' b1') (length (take o1' b1')) rm False = Some (True, m1, True)"
    using axfr_first_ok [OF assms(1-4)] by blast
  then show ?thesis using run_too_long [OF assms(5,1,2) f(2), of 0 rest True] assms(6) by simp
qed

text \<open>
  \<open>tsig_find\<close> reads past the end of a packet: the label of the algorithm's name is copied without comparing its length with the rest of the
  packet.
\<close>

theorem tsig_find_overread:
  "tsig_find ([0, 0, 0, 0, 0, 0, 0, 0, 0, 0, 0, 1] @ [0, 0, 250, 0, 255, 0, 0, 0, 0, 0, 1, 40]) 24 = None"
  by (simp add: tsig_find_def get16_def rd8_def tsig_skip_name.simps tsig_key_loop.simps tsig_alg_loop.simps rdn_def)

definition demo_hmac :: hmac where
  "demo_hmac g k d = Some (replicate (digest_size g) (of_nat (length d)))"

definition demo_tsig :: tsig_cfg where
  "demo_tsig = \<lparr>g_tsig_key_name = str ''xfr.key'', g_tsig_secret = [1, 2, 3]\<rparr>"

definition demo_buf :: bytes where
  "demo_buf = replicate 300 0"

lemma demo_hmac_ok: "hmac_ok demo_hmac"
  by (simp add: hmac_ok_def demo_hmac_def)

lemma demo_tsig_key: "tsig_key demo_tsig"
  by code_simp

lemma demo_plain: "plain_msg (replicate 12 0)"
  by (simp add: plain_msg_def arcount_def get16_ok)

lemma demo_signable: "signable demo_buf 12 300"
  using demo_plain by (simp add: signable_def demo_buf_def)

theorem tsig_transfer_verifies_witness:
  "\<exists>q' qo' rm b1' o1' m1 b2' o2' p.
    xfr_tsig_sign_query demo_hmac demo_tsig 1000 demo_buf 12 300 7 = Some (q', qo', rm) \<and>
    tsig_verify demo_hmac demo_tsig (take qo' q') qo' = Some (True, rm) \<and>
    tsig_axfr_first demo_hmac demo_tsig 1001 demo_buf 12 300 7 rm = Some (b1', o1', m1, []) \<and>
    tsig_axfr_last demo_hmac demo_tsig 1002 demo_buf 12 300 7 (fold (tsig_axfr_mid demo_hmac demo_tsig) [replicate 12 0] m1) = Some (b2', o2') \<and>
    xfr_tsig_run demo_hmac demo_tsig ([take o1' b1'] @ [replicate 12 0] @ [take o2' b2']) rm False 0 = Some (False, p, True, 0)"
  by (rule tsig_transfer_verifies [OF demo_hmac_ok demo_tsig_key demo_signable demo_signable demo_signable]) (simp_all add: demo_plain)

theorem tsig_long_transfer_rejected_witness:
  "\<exists>b1' o1' m1. tsig_axfr_first demo_hmac demo_tsig 1001 demo_buf 12 300 7 [9] = Some (b1', o1', m1, []) \<and>
    (\<exists>p ls u. xfr_tsig_run demo_hmac demo_tsig ([take o1' b1'] @ replicate 100 (replicate 12 0) @ []) [9] False 0 = Some (True, p, ls, u))"
  by (rule tsig_long_transfer_rejected [OF demo_hmac_ok demo_tsig_key demo_signable]) (simp_all add: demo_plain)

end
