(* ===== verification/Ixfr.thy ===== *)
theory Ixfr
  imports Tsig Compress Inet Types
begin

text \<open>
  Incremental zone transfer (RFC 1995) between a primary and a secondary, both in \<open>dns_server.c\<close>: the journal of changes that the primary
  keeps in its store, the stream of messages that it answers with, and the reader of that stream in the secondary. A connection is the list of
  bytes that travel over it; a socket that is closed or fails is the end of the list.

  The list commands of the Valkey server and the HMAC of OpenSSL are parameters.
\<close>

section \<open>Scanning numbers\<close>

text \<open>\<open>strtoul\<close> in base 10, the conversion behind \<open>%u\<close> of \<open>sscanf\<close>; out of range values saturate.\<close>

definition ULONG_MAX :: nat where "ULONG_MAX = 0xFFFFFFFFFFFFFFFF"

definition strtoul :: "cstr \<Rightarrow> u64 \<times> cstr" where
  "strtoul s =
     (let t = dropWhile isspace s;
          neg = (t \<noteq> [] \<and> hd t = 45);
          u = (if t \<noteq> [] \<and> (hd t = 45 \<or> hd t = 43) then tl t else t)
      in if u = [] \<or> digit_val 10 (hd u) = None then (0, s)
         else let (v, r) = digits_val 10 0 u
              in (if v > ULONG_MAX then of_nat ULONG_MAX else if neg then - of_nat v else of_nat v, r))"

definition scan_u :: "cstr \<Rightarrow> (u32 \<times> cstr) option" where
  "scan_u s = (let (v, r) = strtoul s in if r = s then None else Some (ucast v, r))"

section \<open>The journal\<close>

text \<open>
  The list commands of the Valkey server. A reply that is not of the expected type is \<open>None\<close>; an element of an array that is not a
  string is \<open>None\<close> as well.
\<close>

record 's lists =
  rpush :: "'s \<Rightarrow> cstr \<Rightarrow> cstr \<Rightarrow> 's \<times> int option"
  ltrim :: "'s \<Rightarrow> cstr \<Rightarrow> cstr \<Rightarrow> cstr \<Rightarrow> 's"
  lrange :: "'s \<Rightarrow> cstr \<Rightarrow> cstr \<Rightarrow> cstr \<Rightarrow> cstr option list option"

definition IXFR_JOURNAL_MAX :: nat where "IXFR_JOURNAL_MAX = 4096"

definition ixfr_journal_key :: "cstr \<Rightarrow> cstr \<Rightarrow> cstr" where
  "ixfr_journal_key g_zone_name zone =
     take 255 (str ''ixfr:'' @ take 200 (if zone \<noteq> [] then zone else g_zone_name) @ str '':journal'')"

definition ixfr_entry :: "u32 \<Rightarrow> u32 \<Rightarrow> u8 \<Rightarrow> cstr \<Rightarrow> cstr \<Rightarrow> cstr" where
  "ixfr_entry from_serial to_serial op name v =
     take 1023 (dec (unat from_serial) @ 124 # dec (unat to_serial) @ 124 # op # 124 # name @ 124 # v)"

definition ixfr_journal_append ::
    "'s lists \<Rightarrow> cstr \<Rightarrow> cstr \<Rightarrow> u32 \<Rightarrow> u32 \<Rightarrow> u8 \<Rightarrow> cstr \<Rightarrow> cstr \<Rightarrow> 's \<Rightarrow> 's" where
  "ixfr_journal_append L g_zone_name zone from_serial to_serial op name v s =
     (let key = ixfr_journal_key g_zone_name zone
      in case rpush L s key (ixfr_entry from_serial to_serial op name v) of
           (s, Some n) \<Rightarrow>
             if n > int IXFR_JOURNAL_MAX then ltrim L s key (45 # dec IXFR_JOURNAL_MAX) (str ''-1'') else s
         | (s, None) \<Rightarrow> s)"

text \<open>\<open>sscanf(e, "%u|%u|", &fs, &ts)\<close> with the result 2, and the text behind the second number.\<close>

definition scan_serials :: "cstr \<Rightarrow> (u32 \<times> u32 \<times> cstr) option" where
  "scan_serials e =
     (case scan_u e of
        Some (fs, c # r) \<Rightarrow>
          if c = 124 then (case scan_u r of Some (ts, r) \<Rightarrow> Some (fs, ts, r) | None \<Rightarrow> None) else None
      | _ \<Rightarrow> None)"

text \<open>The walk over the journal: \<open>started\<close>, \<open>want\<close> and the entries taken so far.\<close>

fun journal_walk :: "u32 \<Rightarrow> u32 \<Rightarrow> nat \<Rightarrow> cstr list \<Rightarrow> bool \<Rightarrow> u32 \<Rightarrow> cstr list \<Rightarrow> cstr list option" where
  "journal_walk from_serial current max_entries [] started want out = None"
| "journal_walk from_serial current max_entries (e # es) started want out =
     (case scan_serials e of
        None \<Rightarrow> journal_walk from_serial current max_entries es started want out
      | Some (fs, ts, _) \<Rightarrow>
          if \<not> started \<and> fs \<noteq> from_serial then journal_walk from_serial current max_entries es started want out
          else if started \<and> fs \<noteq> want then None
          else if length out \<ge> max_entries then None
          else if ts = current then Some (out @ [e])
          else journal_walk from_serial current max_entries es True ts (out @ [e]))"

definition ixfr_journal_fetch :: "'s lists \<Rightarrow> cstr \<Rightarrow> cstr \<Rightarrow> u32 \<Rightarrow> u32 \<Rightarrow> nat \<Rightarrow> 's \<Rightarrow> cstr list option" where
  "ixfr_journal_fetch L g_zone_name zone from_serial current max_entries s =
     (case lrange L s (ixfr_journal_key g_zone_name zone) (str ''0'') (str ''-1'') of
        None \<Rightarrow> None
      | Some es \<Rightarrow> if es = [] then None
                  else journal_walk from_serial current max_entries (List.map_filter id es) False from_serial [])"

section \<open>The primary\<close>

definition BUF_SIZE :: nat where "BUF_SIZE = 4096"

definition DEFAULT_TTL :: u32 where "DEFAULT_TTL = 60"

text \<open>The SOA parameters of the zone that is transferred.\<close>

record soa =
  soa_mname :: cstr
  soa_rname :: cstr
  soa_refresh :: u32
  soa_retry :: u32
  soa_expire :: u32
  soa_minimum :: u32

definition build_soa_rdata_serial :: "soa \<Rightarrow> bytes \<Rightarrow> nat \<Rightarrow> u32 \<Rightarrow> (bytes \<times> nat cres) option" where
  "build_soa_rdata_serial S rd rdlen serial = do {
     (rd, n) \<leftarrow> name_to_wire (soa_mname S) rd 0 rdlen;
     case n of
       Err \<Rightarrow> Some (rd, Err)
     | Ok pos \<Rightarrow> do {
         (rd, n) \<leftarrow> name_to_wire (soa_rname S) rd pos (rdlen - pos);
         case n of
           Err \<Rightarrow> Some (rd, Err)
         | Ok n \<Rightarrow>
             let pos = pos + n
             in if pos + 20 > rdlen then Some (rd, Err)
                else do {
                  rd \<leftarrow> put32 rd pos serial;
                  rd \<leftarrow> put32 rd (pos + 4) (soa_refresh S);
                  rd \<leftarrow> put32 rd (pos + 8) (soa_retry S);
                  rd \<leftarrow> put32 rd (pos + 12) (soa_expire S);
                  rd \<leftarrow> put32 rd (pos + 16) (soa_minimum S);
                  Some (rd, Ok (pos + 20)) } } }"

text \<open>A message on a TCP connection.\<close>

definition tcp_send_msg :: "bytes \<Rightarrow> bytes" where
  "tcp_send_msg msg = of_nat (length msg div 256) # of_nat (length msg) # msg"

text \<open>The header of an answer: \<open>QR\<close> and \<open>AA\<close> set.\<close>

definition xfr_header :: "u16 \<Rightarrow> u16 \<Rightarrow> u16 \<Rightarrow> bytes" where
  "xfr_header qid qd an = be16 qid @ be16 0x8400 @ be16 qd @ be16 an @ [0, 0, 0, 0]"

text \<open>
  One record in a message of its own. The result is what goes to the connection and the MAC to chain from; a record that does not fit is left
  out. \<open>mb\<close> is the array on the stack, whatever it holds.
\<close>

definition axfr_emit_one ::
    "hmac \<Rightarrow> tsig_cfg \<Rightarrow> bytes \<Rightarrow> u16 \<Rightarrow> cstr \<Rightarrow> u16 \<Rightarrow> u32 \<Rightarrow> bytes \<Rightarrow> u16 \<Rightarrow> bytes \<Rightarrow> (bytes \<times> bytes) option" where
  "axfr_emit_one hm G mb qid name type ttl rd rdlen m = do {
     mb \<leftarrow> wrn mb 0 (xfr_header qid 0 1);
     (cc, mb, r) \<leftarrow> append_rr (compress_reset []) mb 12 BUF_SIZE name type 1 ttl rd rdlen;
     case r of
       Err \<Rightarrow> Some ([], m)
     | Ok mo \<Rightarrow> do { msg \<leftarrow> rdn mb 0 mo; Some (tcp_send_msg msg, tsig_axfr_mid hm G msg m) } }"


definition emit_if :: "bool \<Rightarrow> (bytes \<Rightarrow> (bytes \<times> bytes) option) \<Rightarrow> bytes \<times> bytes \<Rightarrow> (bytes \<times> bytes) option" where
  "emit_if c f st =
     (case st of (out, m) \<Rightarrow> if c then do { (o', m) \<leftarrow> f m; Some (out @ o', m) } else Some (out, m))"

text \<open>
  \<open>sscanf(e, "%u|%u|%c|%255[^|]|%255[^\n]", ...)\<close>: fields that are not reached keep their defaults.
\<close>

definition scan_entry :: "cstr \<Rightarrow> u32 \<times> u32 \<times> u8 \<times> cstr \<times> cstr" where
  "scan_entry e =
     (case scan_serials e of
        None \<Rightarrow> (case scan_u e of Some (fs, _) \<Rightarrow> fs | None \<Rightarrow> 0, 0, 65, [], [])
      | Some (fs, ts, r) \<Rightarrow>
          (case r of
             c0 # op # r \<Rightarrow>
               if c0 \<noteq> 124 then (fs, ts, 65, [], [])
               else (case r of
                  c1 # r \<Rightarrow>
                    if c1 \<noteq> 124 then (fs, ts, op, [], [])
                    else
                      let nm = takeWhile (\<lambda>c. c \<noteq> 124) (take 255 r); r = drop (length nm) r
                      in (fs, ts, op, nm,
                          if nm \<noteq> [] \<and> r \<noteq> [] \<and> hd r = 124 then takeWhile (\<lambda>c. c \<noteq> 10) (take 255 (tl r)) else [])
                | [] \<Rightarrow> (fs, ts, op, [], []))
           | _ \<Rightarrow> (fs, ts, 65, [], [])))"

text \<open>The type and data of an address.\<close>

definition addr_rdata :: "cstr \<Rightarrow> (u16 \<times> bytes) option" where
  "addr_rdata v =
     (case inet_pton4 v of
        Some a \<Rightarrow> Some (1, a)
      | None \<Rightarrow> (case inet_pton6 v of Some a \<Rightarrow> Some (28, a) | None \<Rightarrow> None))"

text \<open>What the transfer of a zone needs: the identifier of the query, the zone's name and SOA parameters, and its serial.\<close>

record xfr_job =
  j_qid :: u16
  j_zname :: cstr
  j_soa :: soa
  j_serial :: u32

text \<open>The difference sequence of one journal entry; entries whose value is not an address are passed over.\<close>

definition ixfr_diff_seq :: "hmac \<Rightarrow> tsig_cfg \<Rightarrow> bytes \<Rightarrow> xfr_job \<Rightarrow> cstr \<Rightarrow> bytes \<times> bytes \<Rightarrow> (bytes \<times> bytes) option" where
  "ixfr_diff_seq hm G mb J e st =
     (case scan_entry e of (fs, ts, op, ename, ev) \<Rightarrow>
        case addr_rdata ev of
          None \<Rightarrow> Some st
        | Some (rtype, rd) \<Rightarrow>
            let soa_emit = (\<lambda>(b, l). axfr_emit_one hm G mb (j_qid J) (j_zname J) 6 (soa_minimum (j_soa J)) b (of_nat l));
                rr_emit = axfr_emit_one hm G mb (j_qid J) ename rtype DEFAULT_TTL rd (of_nat (length rd))
            in do {
              (soa_from, from_len) \<leftarrow> build_soa_rdata_serial (j_soa J) (replicate 512 0) 512 fs;
              (soa_to, to_len) \<leftarrow> build_soa_rdata_serial (j_soa J) (replicate 512 0) 512 ts;
              st \<leftarrow> (case from_len of Ok l \<Rightarrow> emit_if True (soa_emit (soa_from, l)) st | Err \<Rightarrow> Some st);
              st \<leftarrow> emit_if (op = 68) rr_emit st;
              st \<leftarrow> (case to_len of Ok l \<Rightarrow> emit_if True (soa_emit (soa_to, l)) st | Err \<Rightarrow> Some st);
              emit_if (op = 65) rr_emit st })"

fun ixfr_diff_seqs :: "hmac \<Rightarrow> tsig_cfg \<Rightarrow> bytes \<Rightarrow> xfr_job \<Rightarrow> cstr list \<Rightarrow> bytes \<times> bytes \<Rightarrow> (bytes \<times> bytes) option" where
  "ixfr_diff_seqs hm G mb J [] st = Some st"
| "ixfr_diff_seqs hm G mb J (e # es) st = do { st \<leftarrow> ixfr_diff_seq hm G mb J e st; ixfr_diff_seqs hm G mb J es st }"

text \<open>
  The SOA record of the zone behind what the message holds so far. When the SOA data could not be built nothing is appended; a record that does
  not fit makes the offset negative, and what follows is not defined.
\<close>

definition put_soa :: "xfr_job \<Rightarrow> bytes \<Rightarrow> nat \<Rightarrow> (bytes \<times> nat) option" where
  "put_soa J mb mo = do {
     (soa_rd, soa_len) \<leftarrow> build_soa_rdata_serial (j_soa J) (replicate 512 0) 512 (j_serial J);
     case soa_len of
       Err \<Rightarrow> Some (mb, mo)
     | Ok l \<Rightarrow> do {
         (cc, mb, r) \<leftarrow> append_rr (compress_reset []) mb mo BUF_SIZE (j_zname J) 6 1 (soa_minimum (j_soa J)) soa_rd (of_nat l);
         mo \<leftarrow> ok_of r;
         Some (mb, mo) } }"

text \<open>The first message: the question is echoed, and the signature covers the query's MAC \<open>req\<close>.\<close>

definition ixfr_first :: "hmac \<Rightarrow> tsig_cfg \<Rightarrow> int \<Rightarrow> bytes \<Rightarrow> xfr_job \<Rightarrow> bytes \<Rightarrow> (bytes \<times> bytes) option" where
  "ixfr_first hm G now mb J req = do {
     mb \<leftarrow> wrn mb 0 (xfr_header (j_qid J) 0 1);
     (mb, n) \<leftarrow> name_to_wire (j_zname J) mb 12 (BUF_SIZE - 12);
     (mb, mo) \<leftarrow> (case n of
        Err \<Rightarrow> Some (mb, 12)
      | Ok n \<Rightarrow> do {
          mb \<leftarrow> put16 mb (12 + n) 251;
          mb \<leftarrow> put16 mb (12 + n + 2) 1;
          mb \<leftarrow> put16 mb 4 1;
          Some (mb, 12 + n + 4) });
     (mb, mo) \<leftarrow> put_soa J mb mo;
     (mb, mo, m, req) \<leftarrow> tsig_axfr_first hm G now mb mo BUF_SIZE (j_qid J) req;
     msg \<leftarrow> rdn mb 0 mo;
     Some (tcp_send_msg msg, m) }"

definition ixfr_last :: "hmac \<Rightarrow> tsig_cfg \<Rightarrow> int \<Rightarrow> bytes \<Rightarrow> xfr_job \<Rightarrow> bytes \<Rightarrow> bytes option" where
  "ixfr_last hm G now mb J m = do {
     mb \<leftarrow> wrn mb 0 (xfr_header (j_qid J) 0 1);
     (mb, mo) \<leftarrow> put_soa J mb 12;
     (mb, mo) \<leftarrow> tsig_axfr_last hm G now mb mo BUF_SIZE (j_qid J) m;
     msg \<leftarrow> rdn mb 0 mo;
     Some (tcp_send_msg msg) }"

definition ixfr_stream :: "hmac \<Rightarrow> tsig_cfg \<Rightarrow> int \<times> int \<Rightarrow> bytes \<Rightarrow> xfr_job \<Rightarrow> cstr list \<Rightarrow> bytes \<Rightarrow> bytes option" where
  "ixfr_stream hm G now mb J es req = do {
     st \<leftarrow> ixfr_first hm G (fst now) mb J req;
     (out, m) \<leftarrow> ixfr_diff_seqs hm G mb J es st;
     l \<leftarrow> ixfr_last hm G (snd now) mb J m;
     Some (out @ l) }"

text \<open>The reply when the secondary has the current serial.\<close>

definition ixfr_current :: "hmac \<Rightarrow> tsig_cfg \<Rightarrow> int \<Rightarrow> bytes \<Rightarrow> xfr_job \<Rightarrow> bytes \<Rightarrow> bytes option" where
  "ixfr_current hm G now mb J req = do {
     mb \<leftarrow> wrn mb 0 (xfr_header (j_qid J) 0 1);
     (mb, mo) \<leftarrow> put_soa J mb 12;
     (mb, mo, req) \<leftarrow> tsig_append hm G now mb mo BUF_SIZE (j_qid J) 0 req;
     msg \<leftarrow> rdn mb 0 mo;
     Some (tcp_send_msg msg) }"

text \<open>The choice between the three answers; the full transfer itself is not part of this theory.\<close>

datatype xfr_answer = Full_transfer | Stream "bytes option"

definition axfr_answer ::
    "'s lists \<Rightarrow> hmac \<Rightarrow> tsig_cfg \<Rightarrow> int \<times> int \<Rightarrow> bytes \<Rightarrow> cstr \<Rightarrow> xfr_job \<Rightarrow> bool \<Rightarrow> u32 \<Rightarrow> bytes \<Rightarrow> 's \<Rightarrow> xfr_answer" where
  "axfr_answer L hm G now mb g_zone_name J ixfr serial req s =
     (if ixfr \<and> serial > 0 \<and> serial_lt serial (j_serial J) then
        (case ixfr_journal_fetch L g_zone_name (j_zname J) serial (j_serial J) IXFR_JOURNAL_MAX s of
           Some es \<Rightarrow> Stream (ixfr_stream hm G now mb J es req)
         | None \<Rightarrow> Full_transfer)
      else if ixfr \<and> serial = j_serial J then Stream (ixfr_current hm G (fst now) mb J req)
      else Full_transfer)"

section \<open>The secondary\<close>

definition XFR_MAX_RECORDS :: nat where "XFR_MAX_RECORDS = 50000"

definition XFR_MAX_DIFFS :: nat where "XFR_MAX_DIFFS = 8192"

record xfr_rec =
  x_name :: cstr
  x_type :: u16
  x_ttl :: u32
  x_val :: cstr

text \<open>A change: the operation, \<open>'A'\<close> or \<open>'D'\<close>, and the record.\<close>

type_synonym xfr_diff = "u8 \<times> xfr_rec"

text \<open>
  The text form of a record's data, for an array of \<open>valcap\<close> bytes; \<open>Err\<close> for types that are not replicated. The reads of an address or of the
  numbers in front of a name are inside the record, whose length the caller has checked.
\<close>

definition rdata_name :: "bytes \<Rightarrow> nat \<Rightarrow> nat \<Rightarrow> (cstr \<Rightarrow> cstr) \<Rightarrow> cstr cres option" where
  "rdata_name pkt plen off f = do {
     r \<leftarrow> name_from_wire pkt plen off 256;
     Some (case r of Err \<Rightarrow> Err | Ok (_, tgt) \<Rightarrow> Ok (f (cstr_of tgt))) }"

definition xfr_rdata_to_store :: "bytes \<Rightarrow> nat \<Rightarrow> u16 \<Rightarrow> nat \<Rightarrow> nat \<Rightarrow> nat \<Rightarrow> cstr cres option" where
  "xfr_rdata_to_store pkt plen type rdoff rdlen valcap =
     (if type = 1 then
        (if rdlen \<noteq> 4 then Some Err
         else do { a \<leftarrow> rdn pkt rdoff 4; Some (Ok (take (valcap - 1) (dotted a))) })
      else if type = 28 then
        (if rdlen \<noteq> 16 then Some Err
         else do { a \<leftarrow> rdn pkt rdoff 16; Some (Ok (safe_strcpy [] (inet_ntop6 a) valcap)) })
      else if type \<in> {2, 5, 39} then rdata_name pkt plen rdoff (\<lambda>tgt. safe_strcpy [] tgt valcap)
      else if type = 15 then
        (if rdlen < 3 then Some Err
         else do {
           p \<leftarrow> get16 pkt rdoff;
           rdata_name pkt plen (rdoff + 2) (\<lambda>tgt. take (valcap - 1) (dec (unat p) @ 124 # tgt)) })
      else if type = 16 then
        (if rdlen < 1 then Some Err
         else do {
           c \<leftarrow> rd8 pkt rdoff;
           if unat c > rdlen - 1 then Some Err
           else do {
             t \<leftarrow> rdn pkt (rdoff + 1) (if unat c \<ge> valcap then valcap - 1 else unat c);
             Some (Ok (cstr_of t)) } })
      else if type = 33 then
        (if rdlen < 7 then Some Err
         else do {
           p \<leftarrow> get16 pkt rdoff;
           w \<leftarrow> get16 pkt (rdoff + 2);
           t \<leftarrow> get16 pkt (rdoff + 4);
           rdata_name pkt plen (rdoff + 6)
             (\<lambda>tgt. take (valcap - 1) (dec (unat p) @ 124 # dec (unat w) @ 124 # dec (unat t) @ 124 # tgt)) })
      else Some Err)"

text \<open>The variables of the reader of the stream: \<open>mode\<close> is 0 for unknown, 1 for a full transfer and 2 for an incremental one.\<close>

record xfr_st =
  recs :: "xfr_rec list"
  diffs :: "xfr_diff list"
  soa_count :: nat
  mode :: nat
  in_add :: bool
  fin :: bool
  target :: u32
  overflow :: bool

definition xfr_start :: xfr_st where
  "xfr_start = \<lparr>recs = [], diffs = [], soa_count = 0, mode = 0, in_add = False, fin = False, target = 0, overflow = False\<rparr>"

definition xfr_soa :: "u32 \<Rightarrow> xfr_st \<Rightarrow> xfr_st" where
  "xfr_soa s st =
     (let n = soa_count st + 1; st = st\<lparr>soa_count := n\<rparr>
      in if n = 1 then st\<lparr>target := s\<rparr>
         else if n mod 2 = 0 \<and> s = target st then st\<lparr>fin := True\<rparr>
         else st\<lparr>mode := (if mode st = 0 then 2 else mode st), in_add := (n mod 2 = 1)\<rparr>)"

definition xfr_mode :: "xfr_st \<Rightarrow> xfr_st" where
  "xfr_mode st = (if soa_count st = 1 \<and> mode st = 0 then st\<lparr>mode := 1\<rparr> else st)"

text \<open>A record that is kept. The first component says that the reader gives up.\<close>

definition xfr_data :: "xfr_rec \<Rightarrow> xfr_st \<Rightarrow> bool \<times> xfr_st" where
  "xfr_data r st =
     (if mode st = 2 then
        (if length (diffs st) \<ge> XFR_MAX_DIFFS then (True, st\<lparr>overflow := True\<rparr>)
         else (False, st\<lparr>diffs := diffs st @ [(if in_add st then 65 else 68, r)]\<rparr>))
      else if length (recs st) \<ge> XFR_MAX_RECORDS then (True, st\<lparr>overflow := True\<rparr>)
      else (False, st\<lparr>recs := recs st @ [r]\<rparr>))"

definition xfr_soa_serial :: "bytes \<Rightarrow> nat \<Rightarrow> nat \<Rightarrow> u32 option" where
  "xfr_soa_serial msg mlen rdoff = do {
     r \<leftarrow> name_from_wire msg mlen rdoff 256;
     case r of
       Err \<Rightarrow> Some 0
     | Ok (p, _) \<Rightarrow> do {
         r \<leftarrow> name_from_wire msg mlen p 256;
         case r of
           Err \<Rightarrow> Some 0
         | Ok (p, _) \<Rightarrow> if p + 4 \<le> mlen then get32 msg p else Some 0 } }"

fun xfr_questions :: "bytes \<Rightarrow> nat \<Rightarrow> nat \<Rightarrow> nat \<Rightarrow> nat cres option" where
  "xfr_questions msg mlen 0 off = Some (Ok off)"
| "xfr_questions msg mlen (Suc n) off = do {
     r \<leftarrow> name_from_wire msg mlen off 256;
     case r of
       Err \<Rightarrow> Some Err
     | Ok (a, _) \<Rightarrow> if a + 4 > mlen then Some Err else xfr_questions msg mlen n (a + 4) }"

text \<open>The answers of a message; the first component is the jump out of both loops.\<close>

fun xfr_answers :: "bytes \<Rightarrow> nat \<Rightarrow> nat \<Rightarrow> nat \<Rightarrow> xfr_st \<Rightarrow> (bool \<times> xfr_st) option" where
  "xfr_answers msg mlen 0 off st = Some (False, st)"
| "xfr_answers msg mlen (Suc n) off st =
     (if fin st then Some (False, st)
      else do {
        r \<leftarrow> name_from_wire msg mlen off 256;
        case r of
          Err \<Rightarrow> Some (True, st)
        | Ok (a, rname) \<Rightarrow>
            if a + 10 > mlen then Some (True, st)
            else do {
              rtype \<leftarrow> get16 msg a;
              rttl \<leftarrow> get32 msg (a + 4);
              rdlen \<leftarrow> get16 msg (a + 8);
              if a + 10 + unat rdlen > mlen then Some (True, st)
              else if rtype = 6 then do {
                s \<leftarrow> xfr_soa_serial msg mlen (a + 10);
                xfr_answers msg mlen n (a + 10 + unat rdlen) (xfr_soa s st) }
              else do {
                v \<leftarrow> xfr_rdata_to_store msg mlen rtype (a + 10) (unat rdlen) 600;
                case v of
                  Err \<Rightarrow> xfr_answers msg mlen n (a + 10 + unat rdlen) (xfr_mode st)
                | Ok v \<Rightarrow>
                    (case xfr_data \<lparr>x_name = cstr_of rname, x_type = rtype, x_ttl = rttl, x_val = v\<rparr> (xfr_mode st) of
                       (True, st) \<Rightarrow> Some (True, st)
                     | (False, st) \<Rightarrow> xfr_answers msg mlen n (a + 10 + unat rdlen) st) } } })"

definition xfr_message :: "bytes \<Rightarrow> xfr_st \<Rightarrow> (bool \<times> xfr_st) option" where
  "xfr_message msg st = do {
     qd \<leftarrow> get16 msg 4;
     an \<leftarrow> get16 msg 6;
     r \<leftarrow> xfr_questions msg (length msg) (unat qd) 12;
     case r of Err \<Rightarrow> Some (True, st) | Ok off \<Rightarrow> xfr_answers msg (length msg) (unat an) off st }"

text \<open>One message through the chain of signatures: whether it is rejected, and the new chain state.\<close>

type_synonym chain = "bytes \<times> bool \<times> nat"

definition xfr_tsig_step :: "hmac \<Rightarrow> tsig_cfg \<Rightarrow> bytes \<Rightarrow> chain \<Rightarrow> (bool \<times> chain) option" where
  "xfr_tsig_step hm G msg ch =
     (case ch of (prior, last_signed, unsigned_run) \<Rightarrow>
        if g_tsig_secret G = [] then Some (False, ch)
        else do {
          (ok, prior, was_signed) \<leftarrow> xfr_tsig_verify_msg hm G msg (length msg) prior False;
          if \<not> ok then Some (True, prior, last_signed, unsigned_run)
          else
            let unsigned_run = (if was_signed then 0 else unsigned_run + 1)
            in Some (unsigned_run > 99, prior, was_signed, unsigned_run) })"

text \<open>The loop over the messages of the connection. The result is the state, whether the chain broke, and whether the last message was signed.\<close>

function xfr_stream :: "hmac \<Rightarrow> tsig_cfg \<Rightarrow> bytes \<Rightarrow> chain \<Rightarrow> xfr_st \<Rightarrow> (xfr_st \<times> bool \<times> bool) option" where
  "xfr_stream hm G (h # l # s) ch st =
     (let mlen = unat h * 256 + unat l; msg = take mlen s
      in if fin st \<or> mlen < 12 \<or> length s < mlen then Some (st, False, fst (snd ch))
         else do {
           (bad, ch) \<leftarrow> xfr_tsig_step hm G msg ch;
           if bad then Some (st, True, fst (snd ch))
           else do {
             (stop, st) \<leftarrow> xfr_message msg st;
             if stop then Some (st, False, fst (snd ch)) else xfr_stream hm G (drop mlen s) ch st } })"
| "xfr_stream hm G [] ch st = Some (st, False, fst (snd ch))"
| "xfr_stream hm G [h] ch st = Some (st, False, fst (snd ch))"
  by pat_completeness auto
termination by (relation "measure (\<lambda>(hm, G, s, ch, st). length s)") auto

section \<open>A record in a message of its own\<close>

lemma length_wire_pos: "0 < length (wire ls)"
  by (cases ls) auto

lemma ntwc_fresh:
  assumes "labels_wf ls" "\<forall>x \<in> set cc. length (join 46 ls) < length (fst x)" "blen \<le> length b" "start \<le> pos"
    "pos + length (wire ls) \<le> blen"
  shows "\<exists>cc'. ntwc_loop blen abs_off start ls cc b pos = Some (cc', patch b pos (wire ls), Ok (pos + length (wire ls) - start))"
  using assms
proof (induction ls arbitrary: cc b pos)
  case (Cons l ls)
  let ?s = "compose_suffix [] True (l # ls)" and ?cc = "cc_register cc (compose_suffix [] True (l # ls)) (abs_off + (pos - start))"
  let ?b = "patch b pos (of_nat (length l) # l)"
  have s: "?s = join 46 (l # ls)" using labels_wf_suffix [OF Cons.prems(1)] .
  have l: "l \<noteq> []" "length l \<le> 63" "labels_wf ls" using Cons.prems(1) by (auto simp: labels_wf_def)
  have "cc_lookup cc ?s \<noteq> Some off" for off
    using cc_lookup_Some [of cc ?s off] Cons.prems(2) strcaseeq_length s by fastforce
  then have none: "cc_lookup cc ?s = None" by (cases "cc_lookup cc ?s") auto
  have lt: "length (join 46 ls) < length (join 46 (l # ls))" using l(1) by (rule length_join_tl)
  moreover have "\<forall>x \<in> set cc. length (join 46 ls) < length (fst x)" using Cons.prems(2) lt by (meson less_trans)
  moreover have "safe_strcpy [] (join 46 (l # ls)) 256 = join 46 (l # ls)"
    using length_join_labels_wf [OF Cons.prems(1)] by (intro safe_strcpy_id) simp
  ultimately have inv: "\<forall>x \<in> set ?cc. length (join 46 ls) < length (fst x)"
    unfolding cc_register_def s by (auto simp del: join.simps)
  have p: "patch (patch b pos [of_nat (length l)]) (Suc pos) l = ?b"
    using Cons.prems patch_patch [of pos "[of_nat (length l)]" l b] by simp
  have "length ?b = length b" using Cons.prems by (intro length_patch) auto
  then obtain cc' where "ntwc_loop blen abs_off start ls ?cc ?b (pos + 1 + length l)
      = Some (cc', patch ?b (pos + 1 + length l) (wire ls), Ok (pos + 1 + length l + length (wire ls) - start))"
    using Cons.IH [OF l(3) inv, of ?b "pos + 1 + length l"] Cons.prems by auto
  moreover have "patch ?b (pos + 1 + length l) (wire ls) = patch b pos (wire (l # ls))"
    using Cons.prems patch_patch [of pos "of_nat (length l) # l" "wire ls" b] by simp
  moreover have "\<not> blen \<le> Suc (pos + length l)" using Cons.prems(5) length_wire_pos [of ls] by (simp del: length_greater_0_conv)
  ultimately show ?case using none p l Cons.prems
    by (simp add: Let_def wr8_ok wrn_ok ac_simps)
qed (auto simp: wr8_ok)

text \<open>With an empty context the owner name is written in full.\<close>

lemma append_rr_fresh:
  assumes "name_ok name" "length d < 65536" "off + length (wire (labels_of name)) + 10 + length d \<le> blen" "blen \<le> length b" "d = take (length d) rd"
  shows "\<exists>cc'. append_rr (compress_reset cc) b off blen name type cls ttl rd (of_nat (length d))
    = Some (cc', patch b off (wire (labels_of name) @ rr_bytes type cls ttl (of_nat (length d)) d),
            Ok (off + length (wire (labels_of name)) + 10 + length d))"
proof -
  let ?w = "wire (labels_of name)"
  have t: "take 64 (labels_of name) = labels_of name" using assms(1) by (simp add: name_ok_def)
  obtain cc' where n: "name_to_wire_c (compress_reset cc) name b off blen off = Some (cc', patch b off ?w, Ok (length ?w))"
    using ntwc_fresh [OF name_ok_wf [OF assms(1)], of "[]" blen b off off off] assms(3,4) t
    by (auto simp: name_to_wire_c_def compress_reset_def)
  have u: "unat (of_nat (length d) :: u16) = length d" using assms(2) by (rule unat_of_nat_u16)
  have rd: "length d \<le> length rd" using assms(5) by (metis min.cobounded1 length_take)
  have l: "length (patch b off ?w) = length b" using assms(3,4) by (intro length_patch) simp
  have "rr_body (patch b off ?w) (off + length ?w) type cls ttl rd (of_nat (length d))
      = Some (patch (patch b off ?w) (off + length ?w) (rr_bytes type cls ttl (of_nat (length d)) d), off + length ?w + 10 + length d)"
    using rr_body_ok [of "off + length ?w" "of_nat (length d)" "patch b off ?w" rd type cls ttl] assms l rd unfolding u by simp
  moreover have "patch (patch b off ?w) (off + length ?w) (rr_bytes type cls ttl (of_nat (length d)) d)
      = patch b off (?w @ rr_bytes type cls ttl (of_nat (length d)) d)"
    using assms(3,4) by (intro patch_patch) (simp add: rr_bytes_def)
  ultimately show ?thesis using n assms(3) u by (simp add: append_rr_def)
qed

definition rr_msg :: "u16 \<Rightarrow> cstr \<Rightarrow> u16 \<Rightarrow> u32 \<Rightarrow> bytes \<Rightarrow> bytes" where
  "rr_msg qid name type ttl d = xfr_header qid 0 1 @ wire (labels_of name) @ rr_bytes type 1 ttl (of_nat (length d)) d"

lemma length_header [simp]: "length (xfr_header qid qd an) = 12"
  by (simp add: xfr_header_def)

lemma take_patch_all: "length xs = n \<Longrightarrow> n \<le> length b \<Longrightarrow> take n (patch b 0 xs) = xs"
  using take_patch_end [of 0 b xs] by simp

lemma axfr_emit_one_ok:
  assumes "length mb = BUF_SIZE" "name_ok name" "12 + length (wire (labels_of name)) + 10 + length d \<le> BUF_SIZE" "d = take (length d) rd"
  shows "axfr_emit_one hm G mb qid name type ttl rd (of_nat (length d)) m
    = Some (tcp_send_msg (rr_msg qid name type ttl d), tsig_axfr_mid hm G (rr_msg qid name type ttl d) m)"
proof -
  let ?x = "wire (labels_of name) @ rr_bytes type 1 ttl (of_nat (length d)) d"
  let ?b = "patch mb 0 (xfr_header qid 0 1)"
  let ?e = "12 + length (wire (labels_of name)) + 10 + length d"
  have bs: "BUF_SIZE = 4096" by (simp add: BUF_SIZE_def)
  have l: "length ?b = BUF_SIZE" using assms(1) bs by (intro trans [OF length_patch]) auto
  obtain cc' where a: "append_rr (compress_reset []) ?b 12 BUF_SIZE name type 1 ttl rd (of_nat (length d)) = Some (cc', patch ?b 12 ?x, Ok ?e)"
    using append_rr_fresh [OF assms(2) _ assms(3) _ assms(4), of ?b "[]" type 1 ttl] l assms(3) bs by auto
  have p: "patch ?b 12 ?x = patch mb 0 (rr_msg qid name type ttl d)"
    using patch_patch [of 0 "xfr_header qid 0 1" ?x mb] assms(1,3) by (simp add: rr_msg_def rr_bytes_def)
  have lm: "length (rr_msg qid name type ttl d) = ?e" by (simp add: rr_msg_def rr_bytes_def)
  have "length (patch mb 0 (rr_msg qid name type ttl d)) = BUF_SIZE" using assms(1,3) lm by (intro trans [OF length_patch]) auto
  then have "rdn (patch ?b 12 ?x) 0 ?e = Some (rr_msg qid name type ttl d)"
    unfolding p using assms(1,3) lm take_patch_all [OF lm, of mb] by (simp add: rdn_def)
  then show ?thesis using a assms(1) bs by (simp add: axfr_emit_one_def wrn_ok)
qed

text \<open>The data of an SOA record.\<close>

definition soa_wire :: "soa \<Rightarrow> u32 \<Rightarrow> bytes" where
  "soa_wire S serial = wire (labels_of (soa_mname S)) @ wire (labels_of (soa_rname S)) @ be32 serial @
     be32 (soa_refresh S) @ be32 (soa_retry S) @ be32 (soa_expire S) @ be32 (soa_minimum S)"

definition soa_ok :: "soa \<Rightarrow> bool" where
  "soa_ok S \<longleftrightarrow> name_ok (soa_mname S) \<and> name_ok (soa_rname S) \<and> length (soa_wire S 0) \<le> 512"

lemma length_soa_wire: "length (soa_wire S serial) = length (wire (labels_of (soa_mname S))) + length (wire (labels_of (soa_rname S))) + 20"
  by (simp add: soa_wire_def)

lemma put32_patch: "j = i + length xs \<Longrightarrow> j + 4 \<le> length b \<Longrightarrow> put32 (patch b i xs) j v = Some (patch b i (xs @ be32 v))"
  using patch_patch [of i xs "be32 v" b] by (simp add: put32_ok length_patch)

lemma build_soa_ok:
  assumes "soa_ok S" "length rd = 512"
  shows "build_soa_rdata_serial S rd 512 serial = Some (patch rd 0 (soa_wire S serial), Ok (length (soa_wire S serial)))"
proof -
  let ?m = "wire (labels_of (soa_mname S))" and ?r = "wire (labels_of (soa_rname S))"
  have l: "length ?m + length ?r + 20 \<le> 512" using assms(1) length_soa_wire [of S 0] by (simp add: soa_ok_def)
  have 1: "name_to_wire (soa_mname S) rd 0 512 = Some (patch rd 0 ?m, Ok (length ?m))"
    using assms l by (intro name_to_wire_ok) (auto simp: soa_ok_def name_ok_def)
  have "name_to_wire (soa_rname S) (patch rd 0 ?m) (length ?m) (512 - length ?m) = Some (patch (patch rd 0 ?m) (length ?m) ?r, Ok (length ?r))"
    using assms l by (intro name_to_wire_ok) (auto simp: soa_ok_def name_ok_def length_patch)
  moreover have "patch (patch rd 0 ?m) (length ?m) ?r = patch rd 0 (?m @ ?r)" using patch_patch [of 0 ?m ?r rd] assms(2) l by simp
  ultimately have 2: "name_to_wire (soa_rname S) (patch rd 0 ?m) (length ?m) (512 - length ?m) = Some (patch rd 0 (?m @ ?r), Ok (length ?r))" by simp
  show ?thesis using 1 2 l assms(2)
    by (simp add: build_soa_rdata_serial_def put32_patch soa_wire_def Let_def)
qed

section \<open>Reading a message\<close>

lemma name_suffix:
  assumes "drop off pkt = wire (labels_of name) @ r" "name_ok name"
  shows "name_from_wire pkt (length pkt) off 256 = Some (Ok (off + length (wire (labels_of name)), norm_name name))"
proof -
  let ?w = "wire (labels_of name)"
  have ne: "drop off pkt \<noteq> []" using assms(1) length_wire_pos [of "labels_of name"] by auto
  then have off: "off \<le> length pkt" by auto
  have p: "pkt = (take off pkt @ ?w) @ r" using assms(1) by (metis append.assoc append_take_drop_id)
  have "decodes (take off pkt @ ?w) (length (take off pkt)) (length (labels_of name)) (labels_of name) (length (take off pkt) + length ?w)"
    using name_ok_wf [OF assms(2)] by (intro decodes_wire) (auto simp: labels_wf_def)
  then have "decodes (take off pkt @ ?w) off (length (labels_of name)) (labels_of name) (off + length ?w)" using off by simp
  from decodes_append [OF this, of r] have "decodes pkt off (length (labels_of name)) (labels_of name) (off + length ?w)"
    using p by simp
  then show ?thesis
    using name_from_wire_decodes [of "length pkt" pkt off "length (labels_of name)" "labels_of name" "off + length ?w" 256]
      name_ok_join [OF assms(2)] assms(2) by (simp add: norm_name_def name_ok_def)
qed

lemma norm_name_cstr: "name_ok name \<Longrightarrow> cstr_of (norm_name name) = norm_name name"
proof -
  assume n: "name_ok name"
  have "0 \<notin> set (join 46 ls)" if "\<forall>l \<in> set ls. 0 \<notin> set l" for ls :: "cstr list"
    using that by (induction "46 :: u8" ls rule: join.induct) auto
  then have "0 \<notin> set (join 46 (labels_of name))" using n labels_of_no_nul by (auto simp: name_ok_def)
  then show ?thesis by (metis cstr_of_id norm_name_def nul_lower strlower_map)
qed

text \<open>What a message with one record says to the reader: a serial, or a record to keep.\<close>

definition xfr_item :: "u32 + xfr_rec \<Rightarrow> xfr_st \<Rightarrow> bool \<times> xfr_st" where
  "xfr_item x st = (case x of Inl s \<Rightarrow> (False, xfr_soa s st) | Inr r \<Rightarrow> xfr_data r (xfr_mode st))"

definition carries :: "bytes \<Rightarrow> u32 + xfr_rec \<Rightarrow> bool" where
  "carries msg x \<longleftrightarrow> 12 \<le> length msg \<and> length msg < 65536 \<and> (\<forall>st. \<not> fin st \<longrightarrow> xfr_message msg st = Some (xfr_item x st))"

text \<open>The record of an address, as the secondary keeps it.\<close>

definition addr_text :: "bytes \<Rightarrow> cstr" where
  "addr_text a = (if length a = 4 then dotted a else inet_ntop6 a)"

definition addr_rr :: "cstr \<Rightarrow> u16 \<Rightarrow> u32 \<Rightarrow> bytes \<Rightarrow> xfr_rec" where
  "addr_rr name type ttl a = \<lparr>x_name = norm_name name, x_type = type, x_ttl = ttl, x_val = addr_text a\<rparr>"

definition addr_ok :: "u16 \<Rightarrow> bytes \<Rightarrow> bool" where
  "addr_ok type a \<longleftrightarrow> (type = 1 \<and> length a = 4 \<or> type = 28 \<and> length a = 16) \<and> length (addr_text a) < 600"

lemma rr_suffix:
  assumes "drop off pkt = wire (labels_of name) @ rr_bytes type 1 ttl (of_nat (length d)) d @ r" "length d < 65536"
  defines "a \<equiv> off + length (wire (labels_of name))"
  shows "get16 pkt a = Some type" "get32 pkt (a + 4) = Some ttl" "get16 pkt (a + 8) = Some (of_nat (length d))"
    "drop (a + 10) pkt = d @ r" "a + 10 + length d \<le> length pkt"
proof -
  have 1: "drop a pkt = be16 type @ be16 1 @ be32 ttl @ be16 (of_nat (length d)) @ d @ r"
    using drop_suffix [OF assms(1), of a] by (simp add: a_def rr_bytes_def)
  have 2: "drop (a + 2) pkt = be16 1 @ be32 ttl @ be16 (of_nat (length d)) @ d @ r" by (rule drop_suffix [OF 1]) simp
  have 3: "drop (a + 4) pkt = be32 ttl @ be16 (of_nat (length d)) @ d @ r" by (rule drop_suffix [OF 2]) simp
  have 4: "drop (a + 8) pkt = be16 (of_nat (length d)) @ d @ r" by (rule drop_suffix [OF 3]) simp
  show 5: "drop (a + 10) pkt = d @ r" by (rule drop_suffix [OF 4]) simp
  show "get16 pkt a = Some type" "get32 pkt (a + 4) = Some ttl" "get16 pkt (a + 8) = Some (of_nat (length d))"
    using get16_suffix [OF 1] get32_suffix [OF 3] get16_suffix [OF 4] by auto
  have "length pkt - (a + 8) = 2 + length d + length r" using length_suffix [OF 4] by simp
  then show "a + 10 + length d \<le> length pkt" by linarith
qed

lemma answer_addr:
  assumes "drop off msg = wire (labels_of name) @ rr_bytes type 1 ttl (of_nat (length d)) d @ r" "name_ok name" "addr_ok type d" "\<not> fin st"
  shows "xfr_answers msg (length msg) 1 off st = Some (xfr_item (Inr (addr_rr name type ttl d)) st)"
proof -
  let ?a = "off + length (wire (labels_of name))"
  have d: "length d < 65536" "unat (of_nat (length d) :: u16) = length d" using assms(3) by (auto simp: addr_ok_def unat_of_nat_u16)
  note s = rr_suffix [OF assms(1) d(1)]
  have "rdn msg (?a + 10) (length d) = Some d" using rdn_suffix [OF s(4)] s(5) by simp
  then have v: "xfr_rdata_to_store msg (length msg) type (?a + 10) (length d) 600 = Some (Ok (addr_text d))"
    using assms(3) by (auto simp: xfr_rdata_to_store_def addr_ok_def addr_text_def safe_strcpy_def)
  have t: "type \<noteq> 6" using assms(3) by (auto simp: addr_ok_def)
  show ?thesis using name_suffix [OF assms(1,2)] s v t d(2) assms(4) norm_name_cstr [OF assms(2)]
    by (auto simp: xfr_item_def addr_rr_def split: prod.splits bool.splits)
qed

lemma answer_soa:
  assumes "drop off msg = wire (labels_of name) @ rr_bytes 6 1 ttl (of_nat (length (soa_wire S serial))) (soa_wire S serial) @ r"
    "name_ok name" "soa_ok S" "\<not> fin st"
  shows "xfr_answers msg (length msg) 1 off st = Some (xfr_item (Inl serial) st)"
proof -
  let ?a = "off + length (wire (labels_of name))" and ?d = "soa_wire S serial"
  have "length ?d \<le> 512" using assms(3) by (simp add: soa_ok_def length_soa_wire)
  then have d: "length ?d < 65536" "unat (of_nat (length ?d) :: u16) = length ?d" by (auto simp: unat_of_nat_u16)
  note s = rr_suffix [OF assms(1) d(1)]
  let ?m = "wire (labels_of (soa_mname S))" and ?r = "wire (labels_of (soa_rname S))"
  have 1: "drop (?a + 10) msg = ?m @ ?r @ be32 serial @ be32 (soa_refresh S) @ be32 (soa_retry S) @ be32 (soa_expire S) @ be32 (soa_minimum S) @ r"
    using s(4) by (simp add: soa_wire_def)
  have 2: "drop (?a + 10 + length ?m) msg = ?r @ be32 serial @ be32 (soa_refresh S) @ be32 (soa_retry S) @ be32 (soa_expire S) @ be32 (soa_minimum S) @ r"
    by (rule drop_suffix [OF 1]) simp
  have 3: "drop (?a + 10 + length ?m + length ?r) msg = be32 serial @ be32 (soa_refresh S) @ be32 (soa_retry S) @ be32 (soa_expire S) @ be32 (soa_minimum S) @ r"
    by (rule drop_suffix [OF 2]) simp
  have "xfr_soa_serial msg (length msg) (?a + 10) = Some serial"
    using name_suffix [OF 1] name_suffix [OF 2] get32_suffix [OF 3] assms(3) s(5)
    by (simp add: xfr_soa_serial_def soa_ok_def length_soa_wire)
  then show ?thesis using name_suffix [OF assms(1,2)] s d(2) assms(4) by (simp add: xfr_item_def)
qed

definition addr_bytes :: "cstr \<Rightarrow> u16 \<Rightarrow> u32 \<Rightarrow> bytes \<Rightarrow> bytes" where
  "addr_bytes name type ttl d = wire (labels_of name) @ rr_bytes type 1 ttl (of_nat (length d)) d"

text \<open>The bytes of the record behind an item, and the messages around them.\<close>

definition item_bytes :: "bytes \<Rightarrow> u32 + xfr_rec \<Rightarrow> bool" where
  "item_bytes b x \<longleftrightarrow>
     (case x of
        Inl serial \<Rightarrow> \<exists>name ttl S. name_ok name \<and> soa_ok S \<and> b = addr_bytes name 6 ttl (soa_wire S serial)
      | Inr r \<Rightarrow> \<exists>name type ttl d. name_ok name \<and> addr_ok type d \<and> r = addr_rr name type ttl d \<and> b = addr_bytes name type ttl d)"

lemma answers_item:
  assumes "item_bytes b x" "drop off msg = b @ r" "\<not> fin st"
  shows "xfr_answers msg (length msg) 1 off st = Some (xfr_item x st)"
  using assms answer_addr [of off msg _ _ _ _ r st] answer_soa [of off msg _ _ _ _ r st]
  by (cases x) (auto simp: item_bytes_def addr_bytes_def simp del: xfr_answers.simps)

definition question :: "cstr \<Rightarrow> bytes" where
  "question zname = wire (labels_of zname) @ be16 251 @ be16 1"

lemma carries_item:
  assumes "get16 msg 6 = Some 1" "item_bytes b x" "length msg < 65536"
    "get16 msg 4 = Some 0 \<and> drop 12 msg = b @ r \<or> get16 msg 4 = Some 1 \<and> drop 12 msg = question zname @ b @ r \<and> name_ok zname"
  shows "carries msg x"
proof -
  have b: "b \<noteq> []" using assms(2) by (auto simp: item_bytes_def addr_bytes_def rr_bytes_def be16_def split: sum.splits)
  then have "drop 12 msg \<noteq> []" using assms(4) by auto
  then have l: "12 \<le> length msg" by simp
  have "xfr_message msg st = Some (xfr_item x st)" if "\<not> fin st" for st
    using assms(4)
  proof (elim disjE conjE)
    assume "get16 msg 4 = Some 0" "drop 12 msg = b @ r"
    then show ?thesis using assms(1) answers_item [OF assms(2), of 12 msg r st] that by (simp add: xfr_message_def)
  next
    assume h: "get16 msg 4 = Some 1" "drop 12 msg = question zname @ b @ r" "name_ok zname"
    let ?a = "12 + length (wire (labels_of zname))"
    have 1: "drop 12 msg = wire (labels_of zname) @ (be16 251 @ be16 1) @ b @ r" using h(2) by (simp add: question_def)
    have 2: "drop ?a msg = (be16 251 @ be16 1) @ b @ r" by (rule drop_suffix [OF 1]) simp
    have 3: "drop (?a + 4) msg = b @ r" by (rule drop_suffix [OF 2]) simp
    have "?a + 4 \<le> length msg" using length_suffix [OF 2] by simp
    then have "xfr_questions msg (length msg) 1 12 = Some (Ok (?a + 4))" using name_suffix [OF 1 h(3)] by simp
    then show ?thesis using h(1) assms(1) answers_item [OF assms(2) 3 that] by (simp add: xfr_message_def)
  qed
  then show ?thesis using l assms(3) by (simp add: carries_def)
qed

lemma header_counts: "get16 (xfr_header qid qd an @ r) 4 = Some qd" "get16 (xfr_header qid qd an @ r) 6 = Some an"
  by (rule get16_suffix, simp add: xfr_header_def be16_def; fail)+

text \<open>A signature behind the message does not change what it says.\<close>

lemma carries_messages:
  assumes "item_bytes b x" "name_ok zname"
  shows "length b < 60000 \<Longrightarrow> carries (xfr_header qid 0 1 @ b) x"
    "length b + length (question zname) < 60000 \<Longrightarrow> carries (xfr_header qid 1 1 @ question zname @ b) x"
    "length b + length rr < 60000 \<Longrightarrow> carries (with_tsig (xfr_header qid 0 1 @ b) rr) x"
    "length b + length (question zname) + length rr < 60000 \<Longrightarrow> carries (with_tsig (xfr_header qid 1 1 @ question zname @ b) rr) x"
proof -
  have t: "get16 (with_tsig (xfr_header qid qd 1 @ c) rr) 4 = Some qd" "get16 (with_tsig (xfr_header qid qd 1 @ c) rr) 6 = Some 1"
    "drop 12 (with_tsig (xfr_header qid qd 1 @ c) rr) = c @ rr" "length (with_tsig (xfr_header qid qd 1 @ c) rr) = 12 + length c + length rr" for qd c
    by (auto simp: with_tsig_def xfr_header_def be16_def patch_def intro!: get16_suffix)
  show "length b < 60000 \<Longrightarrow> carries (xfr_header qid 0 1 @ b) x"
    by (rule carries_item [where r = "[]" and zname = zname]) (use assms in \<open>auto simp: header_counts\<close>)
  show "length b + length (question zname) < 60000 \<Longrightarrow> carries (xfr_header qid 1 1 @ question zname @ b) x"
    by (rule carries_item [where r = "[]" and zname = zname]) (use assms in \<open>auto simp: header_counts\<close>)
  show "length b + length rr < 60000 \<Longrightarrow> carries (with_tsig (xfr_header qid 0 1 @ b) rr) x"
    by (rule carries_item [where r = rr and zname = zname]) (use assms in \<open>auto simp: t\<close>)
  show "length b + length (question zname) + length rr < 60000 \<Longrightarrow> carries (with_tsig (xfr_header qid 1 1 @ question zname @ b) rr) x"
    by (rule carries_item [where r = rr and zname = zname]) (use assms in \<open>auto simp: t\<close>)
qed

section \<open>Reading a stream\<close>

text \<open>The items up to the closing one, and the chain of signatures up to the last message.\<close>

fun items_run :: "(u32 + xfr_rec) list \<Rightarrow> xfr_st \<Rightarrow> xfr_st option" where
  "items_run [] st = Some st"
| "items_run (x # xs) st =
     (if fin st then None else case xfr_item x st of (True, st) \<Rightarrow> None | (False, st) \<Rightarrow> items_run xs st)"

fun chain_run :: "hmac \<Rightarrow> tsig_cfg \<Rightarrow> bytes list \<Rightarrow> chain \<Rightarrow> chain option" where
  "chain_run hm G [] ch = Some ch"
| "chain_run hm G (m # ms) ch =
     (case xfr_tsig_step hm G m ch of Some (False, ch) \<Rightarrow> chain_run hm G ms ch | _ \<Rightarrow> None)"

lemma frame_length: "n < 65536 \<Longrightarrow> unat (of_nat (n div 256) :: u8) * 256 + unat (of_nat n :: u8) = n"
  by (simp add: unat_of_nat take_bit_eq_mod)

lemma stream_message:
  assumes "carries msg x" "\<not> fin st"
  shows "xfr_stream hm G (tcp_send_msg msg @ s) ch st = do {
     (bad, ch) \<leftarrow> xfr_tsig_step hm G msg ch;
     if bad then Some (st, True, fst (snd ch))
     else if fst (xfr_item x st) then Some (snd (xfr_item x st), False, fst (snd ch))
     else xfr_stream hm G s ch (snd (xfr_item x st)) }"
  using assms frame_length [of "length msg"]
  by (auto simp: tcp_send_msg_def carries_def Let_def split: Option.bind_splits prod.splits)

lemma stream_items:
  assumes "list_all2 carries ms xs" "chain_run hm G ms ch = Some ch'" "items_run xs st = Some st'"
  shows "xfr_stream hm G (concat (map tcp_send_msg ms) @ s) ch st = xfr_stream hm G s ch' st'"
  using assms
proof (induction ms xs arbitrary: ch st rule: list_all2_induct)
  case (Cons m ms x xs)
  have f: "\<not> fin st" using Cons.prems(2) by (auto split: if_splits)
  obtain ch1 where c: "xfr_tsig_step hm G m ch = Some (False, ch1)" "chain_run hm G ms ch1 = Some ch'"
    using Cons.prems(1) by (auto split: option.splits prod.splits bool.splits)
  obtain st1 where i: "xfr_item x st = (False, st1)" "items_run xs st1 = Some st'"
    using Cons.prems(2) f by (auto split: prod.splits bool.splits)
  show ?case using stream_message [OF Cons.hyps(1) f] c i Cons.IH [OF c(2) i(2)] by simp
qed simp

section \<open>Bounds on addresses\<close>

lemma length_dotted: "length a = 4 \<Longrightarrow> length (dotted a) \<le> 15"
proof -
  assume "length a = 4"
  then obtain w x y z where a: "a = [w, x, y, z]" by (auto simp: length_Suc_conv numeral_eq_Suc)
  have "length (dec (unat b)) \<le> 3" for b :: u8 using length_dec [of "unat b" 3] unat_u8 [of b] by simp
  from this [of w] this [of x] this [of y] this [of z] show ?thesis by (simp add: a dotted_def)
qed

lemma length_hexs: "n < 65536 \<Longrightarrow> length (hexs n) \<le> 4"
proof -
  assume "n < 65536"
  then have "n div 16 div 16 div 16 < 16" by simp
  then show ?thesis
    by (simp add: hexs.simps [of n] hexs.simps [of "n div 16"] hexs.simps [of "n div 16 div 16"] hexs.simps [of "n div 16 div 16 div 16"])
qed

lemma groups_bound: "w \<in> set (groups a) \<Longrightarrow> w < 65536"
proof (induction a rule: groups.induct)
  case (1 h l a)
  have "unat h * 256 + unat l < 65536" using unat_u8 [of h] unat_u8 [of l] by linarith
  then show ?case using 1 by auto
qed auto

lemma length_groups: "length (groups a) = length a div 2"
  by (induction a rule: groups.induct) auto

lemma length_ntop6_loop:
  "length a = 16 \<Longrightarrow> \<forall>w \<in> set r. w < 65536 \<Longrightarrow> length (ntop6_loop a run ws i r) \<le> 5 * length r + 16"
proof (induction r arbitrary: i)
  case (Cons w r)
  have "length (ntop6_loop a run ws (i + 1) r) \<le> 5 * length r + 16" using Cons by simp
  moreover have "length (hexs w) \<le> 4" using Cons.prems(2) by (intro length_hexs) simp
  moreover have "length (dotted (drop 12 a)) \<le> 15" using Cons.prems(1) by (intro length_dotted) simp
  ultimately show ?case by (auto simp: Let_def)
qed (auto split: option.splits)

lemma length_addr_text: "length a = 4 \<or> length a = 16 \<Longrightarrow> length (addr_text a) < 600"
proof (erule disjE)
  assume "length a = 4"
  then show ?thesis using length_dotted [of a] by (simp add: addr_text_def)
next
  assume a: "length a = 16"
  have "length (ntop6_loop a run (groups a) 0 (groups a)) \<le> 56" for run
    using length_ntop6_loop [OF a, of "groups a" run "groups a" 0] groups_bound [of _ a] length_groups [of a] a by simp
  then have "length (inet_ntop6 a) \<le> 56" unfolding inet_ntop6_def Let_def .
  then show ?thesis using a by (simp add: addr_text_def)
qed

lemma addr_rdata_ok: "addr_rdata v = Some (t, a) \<Longrightarrow> addr_ok t a"
proof -
  assume "addr_rdata v = Some (t, a)"
  then have "t = 1 \<and> length a = 4 \<or> t = 28 \<and> length a = 16"
    using inet_pton4_length [of v a] inet_pton6_length [of v a] by (auto simp: addr_rdata_def split: option.splits)
  then show ?thesis unfolding addr_ok_def using length_addr_text [of a] by blast
qed

section \<open>What the primary sends\<close>

definition entry_items :: "cstr \<Rightarrow> (u32 + xfr_rec) list" where
  "entry_items e =
     (case scan_entry e of (fs, ts, op, nm, v) \<Rightarrow>
        case addr_rdata v of
          None \<Rightarrow> []
        | Some (t, a) \<Rightarrow>
            let r = Inr (addr_rr nm t DEFAULT_TTL a)
            in Inl fs # (if op = 68 then [r] else []) @ Inl ts # (if op = 65 then [r] else []))"

definition soa_msg :: "xfr_job \<Rightarrow> u32 \<Rightarrow> bytes" where
  "soa_msg J serial = rr_msg (j_qid J) (j_zname J) 6 (soa_minimum (j_soa J)) (soa_wire (j_soa J) serial)"

definition entry_msgs :: "xfr_job \<Rightarrow> cstr \<Rightarrow> bytes list" where
  "entry_msgs J e =
     (case scan_entry e of (fs, ts, op, nm, v) \<Rightarrow>
        case addr_rdata v of
          None \<Rightarrow> []
        | Some (t, a) \<Rightarrow>
            let r = rr_msg (j_qid J) nm t DEFAULT_TTL a
            in soa_msg J fs # (if op = 68 then [r] else []) @ soa_msg J ts # (if op = 65 then [r] else []))"

text \<open>Entries that name an address belong to an owner name that can be written.\<close>

definition jentry_ok :: "cstr \<Rightarrow> bool" where
  "jentry_ok e = (case scan_entry e of (fs, ts, op, nm, v) \<Rightarrow> addr_rdata v \<noteq> None \<longrightarrow> name_ok nm)"

definition job_ok :: "xfr_job \<Rightarrow> bool" where
  "job_ok J \<longleftrightarrow> name_ok (j_zname J) \<and> soa_ok (j_soa J)"

lemma wire_bound: "length (wire (labels_of name)) \<le> 257"
  using labels_of_size [of name] by (simp add: length_wire)

lemma soa_wire_bound: "job_ok J \<Longrightarrow> length (soa_wire (j_soa J) serial) \<le> 512"
  by (simp add: job_ok_def soa_ok_def length_soa_wire)

lemma emit_soa:
  assumes "length mb = BUF_SIZE" "job_ok J"
  shows "axfr_emit_one hm G mb (j_qid J) (j_zname J) 6 (soa_minimum (j_soa J)) (patch (replicate 512 0) 0 (soa_wire (j_soa J) serial))
      (of_nat (length (soa_wire (j_soa J) serial))) m
    = Some (tcp_send_msg (soa_msg J serial), tsig_axfr_mid hm G (soa_msg J serial) m)"
  unfolding soa_msg_def
  by (rule axfr_emit_one_ok)
    (use assms soa_wire_bound [OF assms(2), of serial] wire_bound [of "j_zname J"] in
      \<open>simp_all add: job_ok_def BUF_SIZE_def take_patch_all\<close>)

lemma emit_addr:
  assumes "length mb = BUF_SIZE" "name_ok nm" "addr_ok t a"
  shows "axfr_emit_one hm G mb qid nm t ttl a (of_nat (length a)) m
    = Some (tcp_send_msg (rr_msg qid nm t ttl a), tsig_axfr_mid hm G (rr_msg qid nm t ttl a) m)"
  by (rule axfr_emit_one_ok) (use assms wire_bound [of nm] in \<open>auto simp: BUF_SIZE_def addr_ok_def\<close>)

lemma diff_seq_ok:
  assumes "length mb = BUF_SIZE" "job_ok J" "jentry_ok e"
  shows "ixfr_diff_seq hm G mb J e (out, m)
    = Some (out @ concat (map tcp_send_msg (entry_msgs J e)), fold (tsig_axfr_mid hm G) (entry_msgs J e) m)"
proof (cases "scan_entry e")
  case (fields fs ts op nm v)
  have b: "build_soa_rdata_serial (j_soa J) (replicate 512 0) 512 s
      = Some (patch (replicate 512 0) 0 (soa_wire (j_soa J) s), Ok (length (soa_wire (j_soa J) s)))" for s
    using assms(2) by (intro build_soa_ok) (simp_all add: job_ok_def)
  show ?thesis
  proof (cases "addr_rdata v")
    case None
    then show ?thesis using fields by (simp add: ixfr_diff_seq_def entry_msgs_def)
  next
    case (Some x)
    obtain t a where x: "x = (t, a)" by (cases x)
    have "name_ok nm" using assms(3) fields Some by (simp add: jentry_ok_def)
    then show ?thesis using fields Some x b emit_soa [OF assms(1,2)] emit_addr [OF assms(1) _ addr_rdata_ok [OF Some [unfolded x]]]
      by (simp add: ixfr_diff_seq_def entry_msgs_def emit_if_def Let_def)
  qed
qed

lemma diff_seqs_ok:
  assumes "length mb = BUF_SIZE" "job_ok J" "\<forall>e \<in> set es. jentry_ok e"
  shows "ixfr_diff_seqs hm G mb J es (out, m)
    = Some (out @ concat (map tcp_send_msg (concat (map (entry_msgs J) es))), fold (tsig_axfr_mid hm G) (concat (map (entry_msgs J) es)) m)"
  using assms(3) by (induction es arbitrary: out m) (simp_all add: diff_seq_ok [OF assms(1,2)])

lemma soa_item: "job_ok J \<Longrightarrow> item_bytes (addr_bytes (j_zname J) 6 (soa_minimum (j_soa J)) (soa_wire (j_soa J) serial)) (Inl serial)"
  by (auto simp: item_bytes_def job_ok_def)

lemma length_addr_bytes: "length (addr_bytes nm t ttl d) \<le> 267 + length d"
  using wire_bound [of nm] by (simp add: addr_bytes_def rr_bytes_def)

lemma soa_msg_carries: "job_ok J \<Longrightarrow> carries (soa_msg J serial) (Inl serial)"
  using carries_messages(1) [OF soa_item, of J "j_zname J" serial "j_qid J"] soa_wire_bound [of J serial]
    length_addr_bytes [of "j_zname J" 6 "soa_minimum (j_soa J)" "soa_wire (j_soa J) serial"]
  by (simp add: soa_msg_def rr_msg_def addr_bytes_def job_ok_def)

lemma addr_msg_carries:
  assumes "name_ok nm" "addr_ok t a"
  shows "carries (rr_msg qid nm t ttl a) (Inr (addr_rr nm t ttl a))"
proof -
  have "item_bytes (addr_bytes nm t ttl a) (Inr (addr_rr nm t ttl a))" using assms by (auto simp: item_bytes_def)
  moreover have "length a \<le> 16" using assms(2) by (auto simp: addr_ok_def)
  then have "length (addr_bytes nm t ttl a) < 60000" using length_addr_bytes [of nm t ttl a] by linarith
  ultimately show ?thesis using carries_messages(1) [OF _ assms(1), of "addr_bytes nm t ttl a"] by (simp add: rr_msg_def addr_bytes_def)
qed

lemma entry_carries: "job_ok J \<Longrightarrow> jentry_ok e \<Longrightarrow> list_all2 carries (entry_msgs J e) (entry_items e)"
  by (auto simp: entry_msgs_def entry_items_def jentry_ok_def Let_def soa_msg_carries addr_msg_carries addr_rdata_ok
      split: prod.splits option.splits)

lemma entries_carry:
  "job_ok J \<Longrightarrow> \<forall>e \<in> set es. jentry_ok e \<Longrightarrow> list_all2 carries (concat (map (entry_msgs J) es)) (concat (map entry_items es))"
  by (induction es) (auto intro!: list_all2_appendI entry_carries)

definition first_msg :: "xfr_job \<Rightarrow> bytes" where
  "first_msg J = xfr_header (j_qid J) 1 1 @ question (j_zname J) @
     addr_bytes (j_zname J) 6 (soa_minimum (j_soa J)) (soa_wire (j_soa J) (j_serial J))"

lemma length_first_msg: "job_ok J \<Longrightarrow> length (first_msg J) \<le> 1100"
  using soa_wire_bound [of J "j_serial J"] wire_bound [of "j_zname J"]
    length_addr_bytes [of "j_zname J" 6 "soa_minimum (j_soa J)" "soa_wire (j_soa J) (j_serial J)"]
  by (simp add: first_msg_def question_def)

lemma length_soa_msg: "job_ok J \<Longrightarrow> length (soa_msg J serial) \<le> 800"
  using soa_wire_bound [of J serial] wire_bound [of "j_zname J"] by (simp add: soa_msg_def rr_msg_def rr_bytes_def)

lemma put_soa_ok:
  assumes "job_ok J" "length mb = BUF_SIZE" "mo \<le> 1000"
  defines "x \<equiv> addr_bytes (j_zname J) 6 (soa_minimum (j_soa J)) (soa_wire (j_soa J) (j_serial J))"
  shows "put_soa J mb mo = Some (patch mb mo x, mo + length x)"
proof -
  let ?d = "soa_wire (j_soa J) (j_serial J)"
  have b: "build_soa_rdata_serial (j_soa J) (replicate 512 0) 512 (j_serial J) = Some (patch (replicate 512 0) 0 ?d, Ok (length ?d))"
    using assms(1) by (intro build_soa_ok) (simp_all add: job_ok_def)
  have l: "length ?d \<le> 512" using soa_wire_bound [OF assms(1)] .
  then have t: "?d = take (length ?d) (patch (replicate 512 0) 0 ?d)" using take_patch_all [of ?d "length ?d" "replicate 512 0"] by simp
  obtain cc' where "append_rr (compress_reset []) mb mo BUF_SIZE (j_zname J) 6 1 (soa_minimum (j_soa J)) (patch (replicate 512 0) 0 ?d) (of_nat (length ?d))
      = Some (cc', patch mb mo x, Ok (mo + length (wire (labels_of (j_zname J))) + 10 + length ?d))"
    using append_rr_fresh [OF _ _ _ _ t, of "j_zname J" mo BUF_SIZE mb "[]" 6 1 "soa_minimum (j_soa J)"] assms(1-3) l wire_bound [of "j_zname J"]
    unfolding x_def addr_bytes_def by (auto simp: job_ok_def BUF_SIZE_def)
  then show ?thesis using b by (simp add: put_soa_def ok_of_def x_def addr_bytes_def rr_bytes_def)
qed

text \<open>What is in the buffer when the first and the last message are signed.\<close>

lemma ixfr_first_signs:
  assumes "job_ok J" "length mb = BUF_SIZE"
  shows "\<exists>b. length b = BUF_SIZE \<and> take (length (first_msg J)) b = first_msg J \<and>
    ixfr_first hm G now mb J req = do {
      (b, mo, m, req) \<leftarrow> tsig_axfr_first hm G now b (length (first_msg J)) BUF_SIZE (j_qid J) req;
      msg \<leftarrow> rdn b 0 mo;
      Some (tcp_send_msg msg, m) }"
proof -
  let ?w = "wire (labels_of (j_zname J))" and ?h = "\<lambda>qd. xfr_header (j_qid J) qd 1"
  let ?x = "addr_bytes (j_zname J) 6 (soa_minimum (j_soa J)) (soa_wire (j_soa J) (j_serial J))"
  have bs: "BUF_SIZE = 4096" by (simp add: BUF_SIZE_def)
  have w: "length ?w \<le> 257" by (rule wire_bound)
  have lf: "length (first_msg J) \<le> 1100" using length_first_msg [OF assms(1)] .
  define b1 where "b1 = patch mb 0 (?h 0 @ ?w)"
  have n: "name_to_wire (j_zname J) (patch mb 0 (?h 0)) 12 (BUF_SIZE - 12) = Some (b1, Ok (length ?w))"
    using name_to_wire_ok [of 12 "BUF_SIZE - 12" "patch mb 0 (?h 0)" "j_zname J"] patch_patch [of 0 "?h 0" ?w mb] assms w bs
    by (auto simp: job_ok_def name_ok_def b1_def length_patch)
  have p1: "put16 b1 (12 + length ?w) 251 = Some (patch mb 0 (?h 0 @ ?w @ be16 251))"
    using patch_patch [of 0 "?h 0 @ ?w" "be16 251" mb] assms(2) w bs by (simp add: b1_def put16_ok length_patch)
  have p2: "put16 (patch mb 0 (?h 0 @ ?w @ be16 251)) (12 + length ?w + 2) 1 = Some (patch mb 0 (?h 0 @ question (j_zname J)))"
    using patch_patch [of 0 "?h 0 @ ?w @ be16 251" "be16 1" mb] assms(2) w bs by (simp add: put16_ok length_patch question_def)
  have "patch (patch mb 0 (?h 0 @ question (j_zname J))) 4 (be16 1) = patch mb 0 (?h 1 @ question (j_zname J))"
    using assms(2) w bs by (simp add: patch_def xfr_header_def be16_def question_def)
  then have p3: "put16 (patch mb 0 (?h 0 @ question (j_zname J))) 4 1 = Some (patch mb 0 (?h 1 @ question (j_zname J)))"
    using assms(2) w bs by (simp add: put16_ok length_patch question_def)
  define b2 where "b2 = patch mb 0 (?h 1 @ question (j_zname J))"
  have l2: "length b2 = BUF_SIZE" using assms(2) w bs by (simp add: b2_def length_patch question_def)
  have s: "put_soa J b2 (12 + length ?w + 4) = Some (patch b2 (12 + length ?w + 4) ?x, length (first_msg J))"
    using put_soa_ok [OF assms(1) l2, of "12 + length ?w + 4"] w by (simp add: first_msg_def question_def)
  have p4: "patch b2 (12 + length ?w + 4) ?x = patch mb 0 (first_msg J)"
    using patch_patch [of 0 "?h 1 @ question (j_zname J)" ?x mb] lf assms(2) bs by (simp add: b2_def first_msg_def question_def)
  have "take (length (first_msg J)) (patch mb 0 (first_msg J)) = first_msg J" "length (patch mb 0 (first_msg J)) = BUF_SIZE"
    using take_patch_all [of "first_msg J" _ mb] lf assms(2) bs by (auto simp: length_patch)
  moreover have "ixfr_first hm G now mb J req = do {
      (b, mo, m, req) \<leftarrow> tsig_axfr_first hm G now (patch mb 0 (first_msg J)) (length (first_msg J)) BUF_SIZE (j_qid J) req;
      msg \<leftarrow> rdn b 0 mo;
      Some (tcp_send_msg msg, m) }"
    using n p1 p2 p3 s p4 assms(2) bs by (simp add: ixfr_first_def wrn_ok b2_def)
  ultimately show ?thesis by blast
qed

lemma soa_buffer:
  assumes "job_ok J" "length mb = BUF_SIZE"
  shows "\<exists>b. length b = BUF_SIZE \<and> take (length (soa_msg J (j_serial J))) b = soa_msg J (j_serial J) \<and>
    wrn mb 0 (xfr_header (j_qid J) 0 1) \<bind> (\<lambda>mb. put_soa J mb 12) = Some (b, length (soa_msg J (j_serial J)))"
proof -
  let ?b = "patch mb 0 (xfr_header (j_qid J) 0 1)"
  let ?x = "addr_bytes (j_zname J) 6 (soa_minimum (j_soa J)) (soa_wire (j_soa J) (j_serial J))"
  have m: "soa_msg J (j_serial J) = xfr_header (j_qid J) 0 1 @ ?x" by (simp add: soa_msg_def rr_msg_def addr_bytes_def)
  have bs: "BUF_SIZE = 4096" by (simp add: BUF_SIZE_def)
  have l: "length ?b = BUF_SIZE" using assms(2) bs by (simp add: length_patch)
  have lm: "length (soa_msg J (j_serial J)) \<le> 800" using length_soa_msg [OF assms(1)] .
  have p: "patch ?b 12 ?x = patch mb 0 (soa_msg J (j_serial J))"
    using patch_patch [of 0 "xfr_header (j_qid J) 0 1" ?x mb] lm assms(2) bs by (simp add: m)
  have "wrn mb 0 (xfr_header (j_qid J) 0 1) \<bind> (\<lambda>mb. put_soa J mb 12) = Some (patch mb 0 (soa_msg J (j_serial J)), length (soa_msg J (j_serial J)))"
    using put_soa_ok [OF assms(1) l, of 12] p assms(2) bs by (simp add: wrn_ok m)
  moreover have "length (patch mb 0 (soa_msg J (j_serial J))) = BUF_SIZE" using lm assms(2) bs by (simp add: length_patch)
  ultimately show ?thesis using take_patch_all [of "soa_msg J (j_serial J)" _ mb] lm assms(2) bs by auto
qed

lemma ixfr_last_signs:
  assumes "job_ok J" "length mb = BUF_SIZE"
  shows "\<exists>b. length b = BUF_SIZE \<and> take (length (soa_msg J (j_serial J))) b = soa_msg J (j_serial J) \<and>
    ixfr_last hm G now mb J m = do {
      (b, mo) \<leftarrow> tsig_axfr_last hm G now b (length (soa_msg J (j_serial J))) BUF_SIZE (j_qid J) m;
      msg \<leftarrow> rdn b 0 mo;
      Some (tcp_send_msg msg) }"
proof -
  obtain b where b: "length b = BUF_SIZE" "take (length (soa_msg J (j_serial J))) b = soa_msg J (j_serial J)"
    "wrn mb 0 (xfr_header (j_qid J) 0 1) \<bind> (\<lambda>mb. put_soa J mb 12) = Some (b, length (soa_msg J (j_serial J)))"
    using soa_buffer [OF assms] by blast
  obtain mb1 where "wrn mb 0 (xfr_header (j_qid J) 0 1) = Some mb1" "put_soa J mb1 12 = Some (b, length (soa_msg J (j_serial J)))"
    using b(3) by (cases "wrn mb 0 (xfr_header (j_qid J) 0 1)") auto
  then have "ixfr_last hm G now mb J m = do {
      (b, mo) \<leftarrow> tsig_axfr_last hm G now b (length (soa_msg J (j_serial J))) BUF_SIZE (j_qid J) m;
      msg \<leftarrow> rdn b 0 mo;
      Some (tcp_send_msg msg) }"
    by (simp add: ixfr_last_def)
  then show ?thesis using b(1,2) by blast
qed

text \<open>The messages are such as the signature functions take.\<close>

lemma plain_messages:
  assumes "name_ok nm" "length d < 65536"
  shows "plain_msg (xfr_header qid 0 1 @ addr_bytes nm t ttl d)"
    "name_ok z \<Longrightarrow> plain_msg (xfr_header qid 1 1 @ question z @ addr_bytes nm t ttl d)"
proof -
  have u: "unat (of_nat (length d) :: u16) = length d" using assms(2) by (rule unat_of_nat_u16)
  have wf: "\<forall>l \<in> set (labels_of n). l \<noteq> [] \<and> length l \<le> 63" if "name_ok n" for n
    using name_ok_wf [OF that] by (simp add: labels_wf_def)
  have h: "get16 (xfr_header qid qd 1 @ c) 4 = Some qd" "get16 (xfr_header qid qd 1 @ c) 6 = Some 1"
    "get16 (xfr_header qid qd 1 @ c) 8 = Some 0" "get16 (xfr_header qid qd 1 @ c) 10 = Some 0" for qd c
    by (auto simp: xfr_header_def be16_def intro!: get16_suffix)
  have sk: "tsig_skip msg (length msg) qd i 1 off = Some (Ok (length msg))"
    if "drop off msg = addr_bytes nm t ttl d" "qd \<le> i" for msg qd i off
  proof -
    let ?a = "off + length (wire (labels_of nm))"
    have d: "drop off msg = wire (labels_of nm) @ rr_bytes t 1 ttl (of_nat (length d)) d @ []" using that(1) by (simp add: addr_bytes_def)
    note r = rr_suffix [OF d assms(2)]
    have "length msg = ?a + 10 + length d" using length_suffix [OF r(4)] r(5) by simp
    then show ?thesis using tsig_skip_wire [OF d wf [OF assms(1)]] r that(2) u by simp
  qed
  let ?m = "xfr_header qid 0 1 @ addr_bytes nm t ttl d"
  have "tsig_skip ?m (length ?m) 0 0 1 12 = Some (Ok (length ?m))" by (rule sk) simp_all
  then show "plain_msg ?m" using h [of 0 "addr_bytes nm t ttl d"] by (simp add: plain_msg_def arcount_def del: tsig_skip.simps)
  let ?n = "xfr_header qid 1 1 @ question z @ addr_bytes nm t ttl d"
  assume z: "name_ok z"
  let ?a = "12 + length (wire (labels_of z))"
  have 1: "drop 12 ?n = wire (labels_of z) @ (be16 251 @ be16 1) @ addr_bytes nm t ttl d" by (simp add: question_def)
  have 2: "drop (?a + 4) ?n = addr_bytes nm t ttl d" by (simp add: question_def)
  have "tsig_skip ?n (length ?n) 1 0 (Suc (Suc 0)) 12 = tsig_skip ?n (length ?n) 1 1 1 (?a + 4)"
    using tsig_skip_wire [OF 1 wf [OF z]] by (simp add: question_def del: tsig_skip.simps(1))
  also have "\<dots> = Some (Ok (length ?n))" by (rule sk [OF 2]) simp
  finally show "plain_msg ?n" using h [of 1 "question z @ addr_bytes nm t ttl d"] by (simp add: plain_msg_def arcount_def del: tsig_skip.simps)
qed

lemma plain_ours:
  "job_ok J \<Longrightarrow> plain_msg (first_msg J)"
  "job_ok J \<Longrightarrow> plain_msg (soa_msg J serial)"
  "name_ok nm \<Longrightarrow> addr_ok t a \<Longrightarrow> plain_msg (rr_msg qid nm t ttl a)"
proof -
  show "plain_msg (first_msg J)" if "job_ok J"
    unfolding first_msg_def using that soa_wire_bound [OF that, of "j_serial J"]
    by (intro plain_messages(2)) (auto simp: job_ok_def)
  show "plain_msg (soa_msg J serial)" if "job_ok J"
    using plain_messages(1) [of "j_zname J"] that soa_wire_bound [OF that, of serial]
    by (simp add: soa_msg_def rr_msg_def addr_bytes_def job_ok_def)
  show "plain_msg (rr_msg qid nm t ttl a)" if "name_ok nm" "addr_ok t a"
    using plain_messages(1) [OF that(1), of a] that(2) by (auto simp: rr_msg_def addr_bytes_def addr_ok_def)
qed

lemma plain_entry: "job_ok J \<Longrightarrow> jentry_ok e \<Longrightarrow> m \<in> set (entry_msgs J e) \<Longrightarrow> plain_msg m"
proof -
  assume h: "job_ok J" "jentry_ok e" "m \<in> set (entry_msgs J e)"
  obtain fs ts op nm v where f: "scan_entry e = (fs, ts, op, nm, v)" by (cases "scan_entry e")
  obtain t a where v: "addr_rdata v = Some (t, a)" using h(3) f by (cases "addr_rdata v") (auto simp: entry_msgs_def)
  have "plain_msg (rr_msg (j_qid J) nm t DEFAULT_TTL a)" using h(2) f v by (intro plain_ours(3) addr_rdata_ok) (auto simp: jentry_ok_def)
  then show ?thesis using h(1,3) f v plain_ours(2) by (auto simp: entry_msgs_def Let_def split: if_splits)
qed

lemma length_our_record: "tsig_key G \<Longrightarrow> length m = 32 \<Longrightarrow> length (our_record G now fu oid er m) \<le> 300"
  by (simp add: our_record_def tsig_record_def tsig_rdata_def tsig_key_def key_labels_def)

section \<open>The stream between the two\<close>

text \<open>The messages of a transfer, as they leave the primary without a key.\<close>

lemma first_carries:
  assumes "job_ok J" "length rr \<le> 300"
  shows "carries (first_msg J) (Inl (j_serial J))" "carries (with_tsig (first_msg J) rr) (Inl (j_serial J))"
    "carries (with_tsig (soa_msg J s) rr) (Inl s)"
proof -
  let ?b = "\<lambda>s. addr_bytes (j_zname J) 6 (soa_minimum (j_soa J)) (soa_wire (j_soa J) s)"
  have z: "name_ok (j_zname J)" using assms(1) by (simp add: job_ok_def)
  have l: "length (?b s) + length (question (j_zname J)) < 1500" for s
    using length_addr_bytes [of "j_zname J" 6 "soa_minimum (j_soa J)" "soa_wire (j_soa J) s"] soa_wire_bound [OF assms(1), of s]
      wire_bound [of "j_zname J"] by (simp add: question_def)
  show "carries (first_msg J) (Inl (j_serial J))"
    unfolding first_msg_def by (rule carries_messages(2) [OF soa_item [OF assms(1)] z]) (use l [of "j_serial J"] in linarith)
  show "carries (with_tsig (first_msg J) rr) (Inl (j_serial J))"
    unfolding first_msg_def by (rule carries_messages(4) [OF soa_item [OF assms(1)] z]) (use l [of "j_serial J"] assms(2) in linarith)
  have "carries (with_tsig (xfr_header (j_qid J) 0 1 @ ?b s) rr) (Inl s)"
    by (rule carries_messages(3) [OF soa_item [OF assms(1)] z]) (use l [of s] assms(2) in linarith)
  then show "carries (with_tsig (soa_msg J s) rr) (Inl s)" by (simp add: soa_msg_def rr_msg_def addr_bytes_def)
qed

lemma chain_run_unkeyed: "g_tsig_secret G = [] \<Longrightarrow> chain_run hm G ms ch = Some ch"
  by (induction ms) (simp_all add: xfr_tsig_step_def split: prod.splits)

lemma chain_run_keyed:
  assumes "g_tsig_secret G \<noteq> []" "xfr_tsig_run hm G ms p ls u = Some (False, p', ls', u')"
  shows "chain_run hm G ms (p, ls, u) = Some (p', ls', u')"
  using assms(2)
proof (induction ms arbitrary: p ls u)
  case (Cons m ms)
  then show ?case using assms(1)
    by (auto simp: xfr_tsig_step_def Let_def split: Option.bind_splits prod.splits if_splits)
qed simp

definition ixfr_items :: "xfr_job \<Rightarrow> cstr list \<Rightarrow> (u32 + xfr_rec) list" where
  "ixfr_items J es = Inl (j_serial J) # concat (map entry_items es) @ [Inl (j_serial J)]"

text \<open>Either no key is configured, or the keyed transfer is short enough and answers a signed query.\<close>

definition xfr_auth :: "hmac \<Rightarrow> tsig_cfg \<Rightarrow> bytes \<Rightarrow> nat \<Rightarrow> bool" where
  "xfr_auth hm G req n \<longleftrightarrow> g_tsig_secret G = [] \<or> hmac_ok hm \<and> tsig_key G \<and> req \<noteq> [] \<and> n \<le> 99"

lemma ixfr_transfer_unkeyed:
  assumes "job_ok J" "length mb = BUF_SIZE" "\<forall>e \<in> set es. jentry_ok e" "g_tsig_secret G = []"
  shows "\<exists>ms. ixfr_stream hm G now mb J es req = Some (concat (map tcp_send_msg ms)) \<and> list_all2 carries ms (ixfr_items J es)"
proof -
  let ?ms = "first_msg J # concat (map (entry_msgs J) es) @ [soa_msg J (j_serial J)]"
  obtain b where b: "length b = BUF_SIZE" "take (length (first_msg J)) b = first_msg J"
    "ixfr_first hm G (fst now) mb J req = do {
      (b, mo, m, req) \<leftarrow> tsig_axfr_first hm G (fst now) b (length (first_msg J)) BUF_SIZE (j_qid J) req;
      msg \<leftarrow> rdn b 0 mo; Some (tcp_send_msg msg, m) }"
    using ixfr_first_signs [OF assms(1,2)] by blast
  have 1: "ixfr_first hm G (fst now) mb J req = Some (tcp_send_msg (first_msg J), [])"
    using b length_first_msg [OF assms(1)] assms(4) by (simp add: tsig_axfr_first_def rdn_def BUF_SIZE_def)
  have 2: "ixfr_last hm G (snd now) mb J m = Some (tcp_send_msg (soa_msg J (j_serial J)))" for m
  proof -
    obtain c where c: "length c = BUF_SIZE" "take (length (soa_msg J (j_serial J))) c = soa_msg J (j_serial J)"
      "ixfr_last hm G (snd now) mb J m = do {
        (b, mo) \<leftarrow> tsig_axfr_last hm G (snd now) c (length (soa_msg J (j_serial J))) BUF_SIZE (j_qid J) m;
        msg \<leftarrow> rdn b 0 mo; Some (tcp_send_msg msg) }"
      using ixfr_last_signs [OF assms(1,2)] by blast
    then show ?thesis using length_soa_msg [OF assms(1), of "j_serial J"] assms(4)
      by (simp add: tsig_axfr_last_def rdn_def BUF_SIZE_def)
  qed
  have "ixfr_stream hm G now mb J es req = Some (concat (map tcp_send_msg ?ms))"
    using diff_seqs_ok [OF assms(2,1,3)] 1 2 by (simp add: ixfr_stream_def)
  moreover have "list_all2 carries ?ms (ixfr_items J es)"
    unfolding ixfr_items_def
    using first_carries(1) [OF assms(1), of "[]"] entries_carry [OF assms(1,3)] soa_msg_carries [OF assms(1)]
    by (auto intro!: list_all2_appendI)
  ultimately show ?thesis by blast
qed

lemma ixfr_transfer_keyed:
  assumes "job_ok J" "length mb = BUF_SIZE" "\<forall>e \<in> set es. jentry_ok e" "hmac_ok hm" "tsig_key G" "req \<noteq> []"
    "length (concat (map (entry_msgs J) es)) \<le> 99"
  shows "\<exists>ms p. ixfr_stream hm G now mb J es req = Some (concat (map tcp_send_msg ms)) \<and> list_all2 carries ms (ixfr_items J es) \<and>
    xfr_tsig_run hm G ms req False 0 = Some (False, p, True, 0)"
proof -
  let ?mids = "concat (map (entry_msgs J) es)" and ?l1 = "length (first_msg J)" and ?l2 = "length (soa_msg J (j_serial J))"
  obtain b where b: "length b = BUF_SIZE" "take ?l1 b = first_msg J"
    "ixfr_first hm G (fst now) mb J req = do {
      (b, mo, m, req) \<leftarrow> tsig_axfr_first hm G (fst now) b ?l1 BUF_SIZE (j_qid J) req; msg \<leftarrow> rdn b 0 mo; Some (tcp_send_msg msg, m) }"
    using ixfr_first_signs [OF assms(1,2)] by blast
  have s1: "signable b ?l1 BUF_SIZE"
    using b length_first_msg [OF assms(1)] plain_ours(1) [OF assms(1)] by (simp add: signable_def BUF_SIZE_def)
  obtain b' o' m where f: "tsig_axfr_first hm G (fst now) b ?l1 BUF_SIZE (j_qid J) req = Some (b', o', m, [])" "m \<noteq> []" "length m = 32"
    "o' \<le> length b'" "take o' b' = with_tsig (take ?l1 b) (our_record G (fst now) 5 (j_qid J) 0 m)"
    "\<forall>ws. xfr_tsig_verify_msg hm G (take o' b') (length (take o' b')) req ws = Some (True, m, True)"
    using axfr_first_ok [OF assms(4,5) s1 assms(6)] by blast
  have pl: "\<forall>m \<in> set ?mids. plain_msg m" using plain_entry [OF assms(1)] assms(3) by auto
  let ?p = "fold (tsig_axfr_mid hm G) ?mids m"
  have p: "?p \<noteq> []" using run_plain [OF pl assms(4,5) f(2), of 0] assms(7) by simp
  obtain c where c: "length c = BUF_SIZE" "take ?l2 c = soa_msg J (j_serial J)"
    "ixfr_last hm G (snd now) mb J ?p = do {
      (b, mo) \<leftarrow> tsig_axfr_last hm G (snd now) c ?l2 BUF_SIZE (j_qid J) ?p; msg \<leftarrow> rdn b 0 mo; Some (tcp_send_msg msg) }"
    using ixfr_last_signs [OF assms(1,2)] by blast
  have s2: "signable c ?l2 BUF_SIZE"
    using c length_soa_msg [OF assms(1), of "j_serial J"] plain_ours(2) [OF assms(1)] by (simp add: signable_def BUF_SIZE_def)
  obtain c' o2 m2 where l: "tsig_axfr_last hm G (snd now) c ?l2 BUF_SIZE (j_qid J) ?p = Some (c', o2)" "length m2 = 32"
    "o2 \<le> length c'" "take o2 c' = with_tsig (take ?l2 c) (our_record G (snd now) 5 (j_qid J) 0 m2)"
    "\<forall>ws. xfr_tsig_verify_msg hm G (take o2 c') (length (take o2 c')) ?p ws = Some (True, m2, True)"
    using axfr_last_ok [OF assms(4,5) s2 p] by blast
  let ?ms = "take o' b' # ?mids @ [take o2 c']"
  have "ixfr_stream hm G now mb J es req = Some (concat (map tcp_send_msg ?ms))"
    using b(3) f(1,4) c(3) l(1,3) diff_seqs_ok [OF assms(2,1,3), of hm G "tcp_send_msg (take o' b')" m]
    by (simp add: ixfr_stream_def rdn_def)
  moreover have "list_all2 carries ?ms (ixfr_items J es)"
    unfolding ixfr_items_def f(5) l(4) b(2) c(2)
    using first_carries(2,3) [OF assms(1) length_our_record [OF assms(5)]] f(3) l(2) entries_carry [OF assms(1,3)]
    by (auto intro!: list_all2_appendI)
  moreover obtain ls where "xfr_tsig_run hm G (?mids @ [take o2 c']) m True 0 = xfr_tsig_run hm G [take o2 c'] ?p ls (length ?mids)"
    using run_plain [OF pl assms(4,5) f(2), of 0 "[take o2 c']" True] assms(7) by auto
  then have "xfr_tsig_run hm G ?ms req False 0 = Some (False, m2, True, 0)" using f(6) l(5) by simp
  ultimately show ?thesis by blast
qed

lemma ixfr_transfer:
  assumes "job_ok J" "length mb = BUF_SIZE" "\<forall>e \<in> set es. jentry_ok e"
    "xfr_auth hm G req (length (concat (map (entry_msgs J) es)))"
  shows "\<exists>ms ch. ixfr_stream hm G now mb J es req = Some (concat (map tcp_send_msg ms)) \<and> list_all2 carries ms (ixfr_items J es) \<and>
    chain_run hm G ms (req, False, 0) = Some ch \<and> (g_tsig_secret G = [] \<or> fst (snd ch))"
proof (cases "g_tsig_secret G = []")
  case True
  then show ?thesis using ixfr_transfer_unkeyed [OF assms(1-3) True] chain_run_unkeyed [OF True] by blast
next
  case False
  then obtain ms p where m: "ixfr_stream hm G now mb J es req = Some (concat (map tcp_send_msg ms))" "list_all2 carries ms (ixfr_items J es)"
    "xfr_tsig_run hm G ms req False 0 = Some (False, p, True, 0)"
    using ixfr_transfer_keyed [OF assms(1-3)] assms(4) unfolding xfr_auth_def by blast
  then show ?thesis using chain_run_keyed [OF False m(3)] by auto
qed

section \<open>What the secondary makes of it\<close>

text \<open>The change that an entry stands for; \<open>None\<close> for entries that are not sent.\<close>

definition entry_diffs :: "cstr \<Rightarrow> xfr_diff list" where
  "entry_diffs e =
     (case scan_entry e of (fs, ts, op, nm, v) \<Rightarrow>
        case addr_rdata v of
          None \<Rightarrow> []
        | Some (t, a) \<Rightarrow> if op \<in> {65, 68} then [(op, addr_rr nm t DEFAULT_TTL a)] else [])"

definition is_addr :: "cstr \<Rightarrow> bool" where
  "is_addr e = (case scan_entry e of (fs, ts, op, nm, v) \<Rightarrow> addr_rdata v \<noteq> None)"

definition entry_from :: "cstr \<Rightarrow> u32" where
  "entry_from e = fst (scan_entry e)"

lemma items_run_append: "items_run (xs @ ys) st = (case items_run xs st of None \<Rightarrow> None | Some st \<Rightarrow> items_run ys st)"
  by (induction xs arbitrary: st) (auto split: prod.splits bool.splits)

text \<open>Between two entries an odd number of SOA records has been seen.\<close>

definition between :: "u32 \<Rightarrow> xfr_st \<Rightarrow> bool" where
  "between c st \<longleftrightarrow> odd (soa_count st) \<and> target st = c \<and> \<not> fin st \<and> mode st \<in> {0, 2}"

lemma run_entry:
  assumes "between c st" "entry_from e \<noteq> c" "length (diffs st) + length (entry_diffs e) \<le> XFR_MAX_DIFFS"
  shows "\<exists>st'. items_run (entry_items e) st = Some st' \<and> between c st' \<and> diffs st' = diffs st @ entry_diffs e \<and>
    recs st' = recs st \<and> overflow st' = overflow st \<and> mode st' = (if is_addr e then 2 else mode st) \<and>
    soa_count st \<le> soa_count st' \<and> (is_addr e \<longrightarrow> soa_count st < soa_count st')"
proof -
  obtain fs ts op nm v where f: "scan_entry e = (fs, ts, op, nm, v)" by (cases "scan_entry e")
  show ?thesis
  proof (cases "addr_rdata v")
    case None
    then show ?thesis using assms(1) f by (simp add: entry_items_def entry_diffs_def is_addr_def)
  next
    case (Some x)
    obtain t a where x: "x = (t, a)" by (cases x)
    obtain k where k: "soa_count st = 2 * k + 1" using assms(1) by (auto simp: between_def elim: oddE)
    have "fs \<noteq> c" using assms(2) f by (simp add: entry_from_def)
    then show ?thesis using assms(1,3) f Some x k
      by (auto simp: entry_items_def entry_diffs_def is_addr_def between_def xfr_item_def xfr_soa_def xfr_mode_def xfr_data_def Let_def)
  qed
qed

lemma run_entries:
  assumes "between c st" "\<forall>e \<in> set es. entry_from e \<noteq> c" "length (diffs st) + length (concat (map entry_diffs es)) \<le> XFR_MAX_DIFFS"
  shows "\<exists>st'. items_run (concat (map entry_items es)) st = Some st' \<and> between c st' \<and> diffs st' = diffs st @ concat (map entry_diffs es) \<and>
    recs st' = recs st \<and> overflow st' = overflow st \<and> mode st' = (if \<exists>e \<in> set es. is_addr e then 2 else mode st) \<and> soa_count st \<le> soa_count st'"
  using assms
proof (induction es arbitrary: st)
  case (Cons e es)
  obtain st1 where 1: "items_run (entry_items e) st = Some st1" "between c st1" "diffs st1 = diffs st @ entry_diffs e"
    "recs st1 = recs st" "overflow st1 = overflow st" "mode st1 = (if is_addr e then 2 else mode st)" "soa_count st \<le> soa_count st1"
    using run_entry [OF Cons.prems(1), of e] Cons.prems by auto
  obtain st2 where 2: "items_run (concat (map entry_items es)) st1 = Some st2" "between c st2" "diffs st2 = diffs st1 @ concat (map entry_diffs es)"
    "recs st2 = recs st1" "overflow st2 = overflow st1" "mode st2 = (if \<exists>e \<in> set es. is_addr e then 2 else mode st1)" "soa_count st1 \<le> soa_count st2"
    using Cons.IH [OF 1(2)] Cons.prems 1(3) by auto
  show ?case using 1 2 by (auto simp: items_run_append)
qed simp

definition ixfr_result :: "xfr_job \<Rightarrow> cstr list \<Rightarrow> xfr_st \<Rightarrow> bool" where
  "ixfr_result J es st \<longleftrightarrow> fin st \<and> \<not> overflow st \<and> target st = j_serial J \<and> recs st = [] \<and> soa_count st \<noteq> 1 \<and>
     diffs st = concat (map entry_diffs es) \<and> mode st = (if \<exists>e \<in> set es. is_addr e then 2 else 0)"

lemma run_ixfr_items:
  assumes "\<forall>e \<in> set es. entry_from e \<noteq> j_serial J" "length (concat (map entry_diffs es)) \<le> XFR_MAX_DIFFS"
  shows "\<exists>st. items_run (ixfr_items J es) xfr_start = Some st \<and> ixfr_result J es st"
proof -
  let ?s = "xfr_start\<lparr>soa_count := 1, target := j_serial J\<rparr>"
  have 1: "xfr_item (Inl (j_serial J)) xfr_start = (False, ?s)" by (simp add: xfr_item_def xfr_soa_def xfr_start_def)
  have "between (j_serial J) ?s" by (simp add: between_def xfr_start_def)
  then obtain st where st: "items_run (concat (map entry_items es)) ?s = Some st" "between (j_serial J) st" "diffs st = concat (map entry_diffs es)"
    "recs st = []" "\<not> overflow st" "mode st = (if \<exists>e \<in> set es. is_addr e then 2 else 0)" "1 \<le> soa_count st"
    using run_entries [of "j_serial J" ?s es] assms by (auto simp: xfr_start_def)
  then have "xfr_item (Inl (j_serial J)) st = (False, st\<lparr>soa_count := soa_count st + 1, fin := True\<rparr>)"
    by (auto simp: xfr_item_def xfr_soa_def between_def Let_def elim!: oddE)
  then show ?thesis using 1 st by (auto simp: ixfr_items_def items_run_append between_def ixfr_result_def xfr_start_def)
qed

text \<open>Both sides together: the state of the reader at the end of the stream.\<close>

lemma ixfr_end_to_end:
  assumes "job_ok J" "length mb = BUF_SIZE" "\<forall>e \<in> set es. jentry_ok e \<and> entry_from e \<noteq> j_serial J"
    "xfr_auth hm G req (length (concat (map (entry_msgs J) es)))" "length es \<le> XFR_MAX_DIFFS"
  shows "\<exists>out st ls. ixfr_stream hm G now mb J es req = Some out \<and>
    xfr_stream hm G out (req, False, 0) xfr_start = Some (st, False, ls) \<and> ixfr_result J es st \<and> (g_tsig_secret G = [] \<or> ls)"
proof -
  obtain ms ch where m: "ixfr_stream hm G now mb J es req = Some (concat (map tcp_send_msg ms))" "list_all2 carries ms (ixfr_items J es)"
    "chain_run hm G ms (req, False, 0) = Some ch" "g_tsig_secret G = [] \<or> fst (snd ch)"
    using ixfr_transfer [OF assms(1,2) _ assms(4)] assms(3) by blast
  have "length (concat (map entry_diffs es)) \<le> length es"
    by (induction es) (auto simp: entry_diffs_def split: prod.splits option.splits)
  then obtain st where st: "items_run (ixfr_items J es) xfr_start = Some st" "ixfr_result J es st"
    using run_ixfr_items [of es J] assms(3,5) by auto
  have "xfr_stream hm G (concat (map tcp_send_msg ms)) (req, False, 0) xfr_start = Some (st, False, fst (snd ch))"
    using stream_items [OF m(2,3) st(1), of "[]"] by simp
  then show ?thesis using m st by blast
qed

section \<open>The journal holds the history\<close>

lemma strtoul_dec:
  assumes "n \<le> ULONG_MAX" "r = [] \<or> digit_val 10 (hd r) = None"
  shows "strtoul (dec n @ r) = (of_nat n, r)"
proof -
  obtain d r' where d: "d < 10" "dec n = of_nat (48 + d) # r'" using dec_hd by blast
  have u: "unat (of_nat (48 + d) :: u8) = 48 + d" using d(1) by (intro unat_of_nat_u8) simp
  have c: "\<not> isspace (of_nat (48 + d))" "(of_nat (48 + d) :: u8) \<noteq> 45" "(of_nat (48 + d) :: u8) \<noteq> 43"
    using u d(1) by (auto simp: isspace_def word_le_nat_alt simp del: of_nat_add dest: arg_cong [of _ _ unat])
  have "dropWhile isspace (dec n @ r) = dec n @ r" using d(2) c(1) by simp
  moreover have "digit_val 10 (hd (dec n @ r)) \<noteq> None" using d digit_val_dec [OF d(1)] by simp
  moreover have "digits_val 10 0 (dec n @ r) = (n, r)" using digits_val_dec [of 0 n r] assms(2) by (cases r) auto
  ultimately show ?thesis using assms(1) d(2) c(2,3) by (simp add: strtoul_def Let_def del: of_nat_add)
qed

lemma scan_u_dec:
  assumes "r = [] \<or> digit_val 10 (hd r) = None"
  shows "scan_u (dec (unat (w :: u32)) @ r) = Some (w, r)"
proof -
  have b: "unat w < 2 ^ 32" using unsigned_less [of w, where 'a = nat] by simp
  then have n: "unat w \<le> ULONG_MAX" by (simp add: ULONG_MAX_def)
  have "(of_nat (unat w) :: u64) = ucast w" by simp
  moreover have "ucast (ucast w :: u64) = w" by (rule bit_word_eqI) (simp add: bit_simps)
  ultimately have "ucast (of_nat (unat w) :: u64) = w" by simp
  then show ?thesis using strtoul_dec [OF n assms] by (simp add: scan_u_def)
qed

text \<open>A change as the primary journals it.\<close>

record change =
  c_from :: u32
  c_to :: u32
  c_op :: u8
  c_name :: cstr
  c_val :: cstr

definition change_entry :: "change \<Rightarrow> cstr" where
  "change_entry c = ixfr_entry (c_from c) (c_to c) (c_op c) (c_name c) (c_val c)"

definition change_ok :: "change \<Rightarrow> bool" where
  "change_ok c \<longleftrightarrow> c_name c \<noteq> [] \<and> 124 \<notin> set (c_name c) \<and> length (c_name c) \<le> 255 \<and> 10 \<notin> set (c_val c) \<and> length (c_val c) \<le> 255"

lemma change_entry_untruncated:
  assumes "change_ok c"
  shows "change_entry c = dec (unat (c_from c)) @ 124 # dec (unat (c_to c)) @ 124 # c_op c # 124 # c_name c @ 124 # c_val c"
proof -
  have "length (dec (unat w)) \<le> 10" for w :: u32 using length_dec [of "unat w" 10] unsigned_less [of w, where 'a = nat] by simp
  from this [of "c_from c"] this [of "c_to c"]
  have "length (dec (unat (c_from c))) + (length (dec (unat (c_to c))) + (length (c_name c) + length (c_val c))) \<le> 530" using assms by (simp add: change_ok_def)
  then show ?thesis by (simp add: change_entry_def ixfr_entry_def)
qed

lemma scan_change_serials:
  assumes "change_ok c"
  shows "scan_serials (change_entry c) = Some (c_from c, c_to c, 124 # c_op c # 124 # c_name c @ 124 # c_val c)"
proof -
  have "digit_val 10 124 = None" by code_simp
  then show ?thesis using change_entry_untruncated [OF assms] by (simp add: scan_serials_def scan_u_dec)
qed

lemma scan_change:
  assumes "change_ok c"
  shows "scan_entry (change_entry c) = (c_from c, c_to c, c_op c, c_name c, c_val c)"
proof -
  have n: "takeWhile (\<lambda>x. x \<noteq> 124) (take 255 (c_name c @ 124 # c_val c)) = c_name c"
    using assms by (auto simp: change_ok_def takeWhile_append takeWhile_eq_all_conv take_Cons')
  have v: "takeWhile (\<lambda>x. x \<noteq> 10) (take 255 (c_val c)) = c_val c"
    using assms by (auto simp: change_ok_def takeWhile_eq_all_conv)
  show ?thesis using scan_change_serials [OF assms] n v assms by (simp add: scan_entry_def Let_def change_ok_def)
qed

text \<open>A sequence of changes in which each one starts at the serial where the one before ended.\<close>

fun serial_chain :: "u32 \<Rightarrow> change list \<Rightarrow> u32 \<Rightarrow> bool" where
  "serial_chain a [] b \<longleftrightarrow> a = b"
| "serial_chain a (c # cs) b \<longleftrightarrow> c_from c = a \<and> serial_chain (c_to c) cs b"

lemma walk_chain:
  assumes "serial_chain a cs b" "\<forall>c \<in> set cs. change_ok c \<and> c_from c \<noteq> b" "cs \<noteq> []" "length out + length cs \<le> n"
  shows "journal_walk from b n (map change_entry cs @ es) True a out = Some (out @ map change_entry cs)"
  using assms
proof (induction cs arbitrary: a out)
  case (Cons c cs)
  show ?case
  proof (cases cs)
    case Nil
    then show ?thesis using Cons.prems scan_change_serials [of c] by simp
  next
    case (Cons d ds)
    have "c_to c \<noteq> b" using Cons Cons.prems by auto
    then show ?thesis using Cons Cons.prems Cons.IH [of "c_to c" "out @ [change_entry c]"] scan_change_serials [of c] by simp
  qed
qed simp

lemma walk_from:
  assumes "serial_chain from cs b" "\<forall>c \<in> set cs. change_ok c \<and> c_from c \<noteq> b" "cs \<noteq> []" "length out + length cs \<le> n"
  shows "journal_walk from b n (map change_entry cs @ es) False w out = Some (out @ map change_entry cs)"
proof -
  obtain c ds where c: "cs = c # ds" using assms(3) by (cases cs) auto
  show ?thesis using walk_chain [OF assms, of "from" es] assms(1,2) c scan_change_serials [of c] by simp
qed

lemma walk_skips:
  assumes "\<forall>c \<in> set pre. change_ok c \<and> c_from c \<noteq> from"
  shows "journal_walk from b n (map change_entry pre @ es) False w out = journal_walk from b n es False w out"
  using assms by (induction pre) (simp_all add: scan_change_serials)

text \<open>
  What the list commands of the server do: \<open>RPUSH\<close> appends and returns the length, \<open>LTRIM\<close> with \<open>-n\<close> and \<open>-1\<close> keeps the last \<open>n\<close> elements,
  \<open>LRANGE\<close> with \<open>0\<close> and \<open>-1\<close> returns all of them.
\<close>

definition jlist :: "'s lists \<Rightarrow> 's \<Rightarrow> cstr \<Rightarrow> cstr list" where
  "jlist L s k = (case lrange L s k (str ''0'') (str ''-1'') of Some es \<Rightarrow> List.map_filter id es | None \<Rightarrow> [])"

definition lastn :: "nat \<Rightarrow> 'a list \<Rightarrow> 'a list" where
  "lastn n xs = drop (length xs - n) xs"

definition lists_ok :: "'s lists \<Rightarrow> bool" where
  "lists_ok L \<longleftrightarrow>
     (\<forall>s k v. \<exists>s'. rpush L s k v = (s', Some (int (length (jlist L s k) + 1))) \<and>
        lrange L s' k (str ''0'') (str ''-1'') = Some (map Some (jlist L s k @ [v]))) \<and>
     (\<forall>s k n. lrange L (ltrim L s k (45 # dec n) (str ''-1'')) k (str ''0'') (str ''-1'') = Some (map Some (lastn n (jlist L s k))))"

lemma map_filter_Some [simp]: "List.map_filter id (map Some xs) = xs"
  by (induction xs) (simp_all add: List.map_filter_def)

lemma lastn_lastn: "lastn n (lastn n xs @ ys) = lastn n (xs @ ys)"
  by (cases "n \<le> length xs") (simp_all add: lastn_def add.commute)

lemma lastn_le: "length (lastn n xs) \<le> n"
  by (simp add: lastn_def)

lemma append_lrange:
  assumes "lists_ok L"
  shows "lrange L (ixfr_journal_append L g zone f t op nm v s) (ixfr_journal_key g zone) (str ''0'') (str ''-1'')
    = Some (map Some (lastn IXFR_JOURNAL_MAX (jlist L s (ixfr_journal_key g zone) @ [ixfr_entry f t op nm v])))"
proof -
  let ?k = "ixfr_journal_key g zone" and ?e = "ixfr_entry f t op nm v"
  obtain s' where s': "rpush L s ?k ?e = (s', Some (int (length (jlist L s ?k) + 1)))"
    "lrange L s' ?k (str ''0'') (str ''-1'') = Some (map Some (jlist L s ?k @ [?e]))"
    using assms unfolding lists_ok_def by blast
  have j: "jlist L s' ?k = jlist L s ?k @ [?e]" using s'(2) by (simp add: jlist_def del: map_append)
  show ?thesis
  proof (cases "length (jlist L s ?k) + 1 > IXFR_JOURNAL_MAX")
    case True
    then have "int (length (jlist L s ?k) + 1) > int IXFR_JOURNAL_MAX" by linarith
    then show ?thesis using s' j assms by (simp add: ixfr_journal_append_def Let_def lists_ok_def)
  next
    case False
    then have "\<not> int (length (jlist L s ?k) + 1) > int IXFR_JOURNAL_MAX" by linarith
    then show ?thesis using s' False by (simp add: ixfr_journal_append_def Let_def lastn_def)
  qed
qed

lemma append_jlist:
  "lists_ok L \<Longrightarrow> jlist L (ixfr_journal_append L g zone f t op nm v s) (ixfr_journal_key g zone)
    = lastn IXFR_JOURNAL_MAX (jlist L s (ixfr_journal_key g zone) @ [ixfr_entry f t op nm v])"
  by (subst jlist_def) (simp add: append_lrange)

definition journal_change :: "'s lists \<Rightarrow> cstr \<Rightarrow> cstr \<Rightarrow> change \<Rightarrow> 's \<Rightarrow> 's" where
  "journal_change L g zone c = ixfr_journal_append L g zone (c_from c) (c_to c) (c_op c) (c_name c) (c_val c)"

lemma journal_changes:
  assumes "lists_ok L" "cs \<noteq> []"
  shows "lrange L (fold (journal_change L g zone) cs s) (ixfr_journal_key g zone) (str ''0'') (str ''-1'')
    = Some (map Some (lastn IXFR_JOURNAL_MAX (jlist L s (ixfr_journal_key g zone) @ map change_entry cs)))"
  using assms(2)
proof (induction cs arbitrary: s)
  case (Cons c cs)
  show ?case
  proof (cases cs)
    case Nil
    then show ?thesis using append_lrange [OF assms(1)] by (simp add: journal_change_def change_entry_def)
  next
    case (Cons d ds)
    show ?thesis using Cons.IH [of "journal_change L g zone c s"] Cons
      by (simp add: lastn_lastn journal_change_def append_jlist [OF assms(1)] change_entry_def)
  qed
qed simp


lemma serial_chain_drop: "serial_chain a cs b \<Longrightarrow> i < length cs \<Longrightarrow> serial_chain (c_from (cs ! i)) (drop i cs) b"
proof (induction cs arbitrary: a i)
  case (Cons c cs)
  then show ?case by (cases i) auto
qed simp

text \<open>Fetching from a serial of the history returns the changes since, as long as the journal still holds them.\<close>

lemma fetch_history:
  assumes L: "lists_ok L" and s: "jlist L s (ixfr_journal_key g zone) = []" and ch: "serial_chain a cs b"
    and ok: "\<forall>c \<in> set cs. change_ok c" and d: "distinct (map c_from cs)" "b \<notin> set (map c_from cs)" and i: "i < length cs"
  shows "ixfr_journal_fetch L g zone (c_from (cs ! i)) b IXFR_JOURNAL_MAX (fold (journal_change L g zone) cs s)
    = (if length cs - i \<le> IXFR_JOURNAL_MAX then Some (map change_entry (drop i cs)) else None)"
proof -
  let ?M = IXFR_JOURNAL_MAX and ?n = "length cs - IXFR_JOURNAL_MAX" and ?f = "c_from (cs ! i)"
  have M: "?M > 0" by (simp add: IXFR_JOURNAL_MAX_def)
  have cs: "cs \<noteq> []" using i by auto
  have "lrange L (fold (journal_change L g zone) cs s) (ixfr_journal_key g zone) (str ''0'') (str ''-1'') = Some (map Some (map change_entry (drop ?n cs)))"
    using journal_changes [OF L cs, of g zone s] s by (simp add: lastn_def drop_map del: map_map)
  moreover have "drop ?n cs \<noteq> []" using i M by simp
  ultimately have f: "ixfr_journal_fetch L g zone ?f b ?M (fold (journal_change L g zone) cs s)
      = journal_walk ?f b ?M (map change_entry (drop ?n cs)) False ?f []"
    by (simp add: ixfr_journal_fetch_def del: map_map)
  have "distinct (map c_from (take i cs @ cs ! i # drop (Suc i) cs))" by (subst id_take_nth_drop [OF i, symmetric]) (rule d(1))
  then have df: "?f \<notin> c_from ` set (take i cs)" "?f \<notin> c_from ` set (drop (Suc i) cs)" by auto
  show ?thesis
  proof (cases "length cs - i \<le> ?M")
    case True
    have n: "?n \<le> i" using True by linarith
    have split: "drop ?n cs = drop ?n (take i cs) @ drop i cs"
      using n i drop_append [of ?n "take i cs" "drop i cs"] by simp
    have "\<forall>c \<in> set (drop ?n (take i cs)). change_ok c \<and> c_from c \<noteq> ?f"
    proof
      fix c assume "c \<in> set (drop ?n (take i cs))"
      then have "c \<in> set (take i cs)" by (rule in_set_dropD)
      then have "c \<in> set cs" "c_from c \<in> c_from ` set (take i cs)" by (auto dest: in_set_takeD)
      then show "change_ok c \<and> c_from c \<noteq> ?f" using ok df(1) by metis
    qed
    then have "journal_walk ?f b ?M (map change_entry (drop ?n (take i cs)) @ map change_entry (drop i cs)) False ?f []
        = journal_walk ?f b ?M (map change_entry (drop i cs) @ []) False ?f []"
      by (subst walk_skips) simp_all
    also have "\<dots> = Some ([] @ map change_entry (drop i cs))"
      using serial_chain_drop [OF ch i] ok d(2) i True by (intro walk_from) (auto dest: in_set_dropD)
    finally have "journal_walk ?f b ?M (map change_entry (drop ?n cs)) False ?f [] = Some (map change_entry (drop i cs))"
      by (subst split) simp
    then show ?thesis using f True by simp
  next
    case False
    then have "Suc i \<le> ?n" by linarith
    then have sub: "set (drop ?n cs) \<subseteq> set (drop (Suc i) cs)" by (rule set_drop_subset_set_drop)
    have "\<forall>c \<in> set (drop ?n cs). change_ok c \<and> c_from c \<noteq> ?f"
    proof
      fix c assume c: "c \<in> set (drop ?n cs)"
      then have "change_ok c" using ok by (meson in_set_dropD)
      moreover have "c_from c \<in> c_from ` set (drop (Suc i) cs)" using sub c by blast
      ultimately show "change_ok c \<and> c_from c \<noteq> ?f" using df(2) by metis
    qed
    then have "journal_walk ?f b ?M (map change_entry (drop ?n cs) @ []) False ?f [] = None"
      by (subst walk_skips) simp_all
    then show ?thesis using f False by simp
  qed
qed

end
