(* ===== verification/Secondary.thy ===== *)
theory Secondary
  imports Ixfr
begin

text \<open>
  A secondary server (\<open>dns_server.c\<close>): the query for a transfer and how the primary reads it, the records and changes that a transfer brings,
  and what they do to the zone in the store. The Valkey server is a parameter; the tables of the process are a record.
\<close>

section \<open>The query\<close>

definition nn_pos :: "nat cres \<Rightarrow> nat" where
  "nn_pos r = (case r of Ok n \<Rightarrow> n | Err \<Rightarrow> 0)"

text \<open>The authority section: an SOA record that carries the serial the secondary has. Nothing is compared with the size of the array.\<close>

definition xfr_query_soa :: "cstr \<Rightarrow> u32 \<Rightarrow> bytes \<Rightarrow> nat \<Rightarrow> (bytes \<times> nat) option" where
  "xfr_query_soa zone serial q qo = do {
     q \<leftarrow> put16 q qo 6;
     q \<leftarrow> put16 q (qo + 2) 1;
     q \<leftarrow> put32 q (qo + 4) 0;
     (let rdlen_off = qo + 8; rdstart = qo + 10 in do {
       (q, nn) \<leftarrow> name_to_wire zone q rdstart (600 - rdstart);
       (let qo = rdstart + nn_pos nn in do {
         (q, nn) \<leftarrow> name_to_wire zone q qo (600 - qo);
         (let qo = qo + nn_pos nn in do {
           q \<leftarrow> put32 q qo serial;
           q \<leftarrow> put32 q (qo + 4) 3600;
           q \<leftarrow> put32 q (qo + 8) 900;
           q \<leftarrow> put32 q (qo + 12) 604800;
           q \<leftarrow> put32 q (qo + 16) 300;
           q \<leftarrow> put16 q rdlen_off (of_nat (qo + 20 - rdstart));
           q \<leftarrow> put16 q 8 1;
           Some (q, qo + 20) }) }) }) }"

definition xfr_query :: "cstr \<Rightarrow> u32 \<Rightarrow> bytes \<Rightarrow> (bytes \<times> nat cres) option" where
  "xfr_query zone local_serial q = do {
     q \<leftarrow> wrn q 0 ([0x58, 0x58, 0, 0, 0, 1] @ replicate 6 0);
     (q, n) \<leftarrow> name_to_wire zone q 12 (600 - 12);
     case n of
       Err \<Rightarrow> Some (q, Err)
     | Ok n \<Rightarrow> do {
         q \<leftarrow> put16 q (12 + n) (if local_serial > 0 then 251 else 252);
         q \<leftarrow> put16 q (12 + n + 2) 1;
         if local_serial > 0 then do {
           (q, an) \<leftarrow> name_to_wire zone q (12 + n + 4) (600 - (12 + n + 4));
           case an of
             Err \<Rightarrow> Some (q, Ok (12 + n + 4))
           | Ok an \<Rightarrow> do { (q, qo) \<leftarrow> xfr_query_soa zone local_serial q (12 + n + 4 + an); Some (q, Ok qo) } }
         else Some (q, Ok (12 + n + 4)) } }"

text \<open>The primary: the scan of the authority section for the serial.\<close>

fun ixfr_scan :: "bytes \<Rightarrow> nat \<Rightarrow> nat \<Rightarrow> nat \<Rightarrow> u32 option" where
  "ixfr_scan pkt ml 0 sc = Some 0"
| "ixfr_scan pkt ml (Suc n) sc =
     (if sc + 10 \<ge> ml then Some 0
      else do {
        r \<leftarrow> name_from_wire pkt ml sc 256;
        case r of
          Err \<Rightarrow> Some 0
        | Ok (ra, _) \<Rightarrow> do {
            rt \<leftarrow> get16 pkt ra;
            rdl \<leftarrow> get16 pkt (ra + 8);
            if rt = 6 \<and> unat rdl \<ge> 20 then xfr_soa_serial pkt ml (ra + 10)
            else ixfr_scan pkt ml n (ra + 10 + unat rdl) } })"

text \<open>The question: whether it asks for a transfer, for an incremental one, for which zone and from which serial.\<close>

definition axfr_request :: "bytes \<Rightarrow> nat \<Rightarrow> (cstr \<times> bool \<times> u32) option option" where
  "axfr_request pkt ml = do {
     r \<leftarrow> name_from_wire pkt ml 12 256;
     case r of
       Err \<Rightarrow> Some None
     | Ok (a, qn) \<Rightarrow>
         if a + 1 \<ge> ml then Some None
         else do {
           qtype \<leftarrow> get16 pkt a;
           if qtype = 252 then Some (Some (cstr_of qn, False, 0))
           else if qtype = 251 then do {
             ns \<leftarrow> get16 pkt 8;
             serial \<leftarrow> ixfr_scan pkt ml (unat ns) (a + 4);
             Some (Some (cstr_of qn, True, serial)) }
           else Some None } }"

section \<open>The store of the secondary\<close>

record 's kv =
  kv_get :: "'s \<Rightarrow> cstr \<Rightarrow> cstr option"
  kv_set :: "'s \<Rightarrow> cstr \<Rightarrow> cstr \<Rightarrow> 's"
  kv_del :: "'s \<Rightarrow> cstr \<Rightarrow> 's"
  kv_keys :: "'s \<Rightarrow> cstr \<Rightarrow> cstr list"

record 's sec =
  store :: 's
  g_soa_serial :: u32
  g_zones :: "(cstr \<times> u32) list"

definition zkey :: "cstr \<Rightarrow> u16 \<Rightarrow> cstr \<Rightarrow> cstr" where
  "zkey zone type name =
     take 899 (str ''zone:'' @ take 255 zone @ str '':'' @ take 16 (type2str type) @ str '':'' @ take 255 name)"

definition zpat :: "cstr \<Rightarrow> cstr" where
  "zpat zone = take 767 (str ''zone:'' @ take 255 zone @ str '':*'')"

definition xfr_set_serial :: "'s kv \<Rightarrow> cstr \<Rightarrow> cstr \<Rightarrow> u32 \<Rightarrow> 's sec \<Rightarrow> 's sec" where
  "xfr_set_serial K g_zone_name zone serial x =
     (let primary = strcaseeq zone g_zone_name;
          ikey = (if primary then str ''config:zone_serial'' else take 319 (str ''config:zone:'' @ take 255 zone @ str '':serial''))
      in x\<lparr>store := kv_set K (store x) ikey (dec (unat serial)),
           g_soa_serial := (if primary then serial else g_soa_serial x),
           g_zones := map (\<lambda>(n, s). (n, if strcaseeq n zone then serial else s)) (g_zones x)\<rparr>)"

fun xfr_get_serial :: "cstr \<Rightarrow> (cstr \<times> u32) list \<Rightarrow> u32" where
  "xfr_get_serial zone [] = 0"
| "xfr_get_serial zone ((n, s) # zs) = (if strcaseeq n zone then s else xfr_get_serial zone zs)"

text \<open>The types whose values are kept together under one key.\<close>

definition grouped :: "u16 \<Rightarrow> bool" where
  "grouped type \<longleftrightarrow> type = 1 \<or> type = 28 \<or> type = 2"

text \<open>The value \<open>ttl|v|v...\<close> in an array of 1024 bytes: once it is full nothing more is appended.\<close>

definition group_val :: "u32 \<Rightarrow> cstr list \<Rightarrow> cstr" where
  "group_val ttl vs = take 1023 (dec (unat ttl) @ concat (map (\<lambda>v. 124 # v) vs))"

text \<open>The loop over the received records; records already written with their group are dropped from the rest.\<close>

function xfr_write :: "'s kv \<Rightarrow> cstr \<Rightarrow> xfr_rec list \<Rightarrow> 's \<Rightarrow> 's" where
  "xfr_write K zone [] s = s"
| "xfr_write K zone (r # rs) s =
     (let same = (\<lambda>q. x_type q = x_type r \<and> strcaseeq (x_name q) (x_name r)); key = zkey zone (x_type r) (x_name r)
      in if grouped (x_type r)
         then xfr_write K zone (filter (\<lambda>q. \<not> same q) rs) (kv_set K s key (group_val (x_ttl r) (map x_val (filter same (r # rs)))))
         else xfr_write K zone rs (kv_set K s key (take 1023 (dec (unat (x_ttl r)) @ 124 # x_val r))))"
  by pat_completeness auto
termination
  by (relation "measure (\<lambda>(K, zone, rs, s). length rs)") (auto simp: le_imp_less_Suc)

definition xfr_apply :: "'s kv \<Rightarrow> cstr \<Rightarrow> cstr \<Rightarrow> xfr_rec list \<Rightarrow> u32 \<Rightarrow> 's sec \<Rightarrow> 's sec" where
  "xfr_apply K g_zone_name zone rs serial x =
     (let s = fold (\<lambda>k s. kv_del K s k) (kv_keys K (store x) (zpat zone)) (store x)
      in xfr_set_serial K g_zone_name zone serial (x\<lparr>store := xfr_write K zone rs s\<rparr>))"

text \<open>The value of a group is split by \<open>strtok_r\<close>: the first field is the TTL, at most 64 values follow.\<close>

definition group_split :: "u32 \<Rightarrow> cstr \<Rightarrow> u32 \<times> cstr list" where
  "group_split ttl cur =
     (case toks [124] cur of
        [] \<Rightarrow> (ttl, [])
      | t # ts \<Rightarrow> (ucast (fst (strtoul t)), map (\<lambda>v. safe_strcpy [] v 256) (take 64 ts)))"

fun index_of :: "cstr \<Rightarrow> cstr list \<Rightarrow> nat option" where
  "index_of v [] = None"
| "index_of v (w # ws) = (if strcaseeq w v then Some 0 else map_option Suc (index_of v ws))"

definition xfr_apply_one_diff :: "'s kv \<Rightarrow> cstr \<Rightarrow> xfr_diff \<Rightarrow> 's \<Rightarrow> 's" where
  "xfr_apply_one_diff K zone d s =
     (case d of (op, r) \<Rightarrow>
        let key = zkey zone (x_type r) (x_name r); ttl = x_ttl r; v = x_val r
        in if \<not> grouped (x_type r) then
             (if op = 65 then kv_set K s key (take 1023 (dec (unat ttl) @ 124 # v)) else kv_del K s key)
           else
             let cur = (case kv_get K s key of Some c \<Rightarrow> take 1023 c | None \<Rightarrow> []);
                 (out_ttl, vs) = group_split (if ttl \<noteq> 0 then ttl else DEFAULT_TTL) cur;
                 present = index_of v vs;
                 (out_ttl, vs) =
                   (if op = 65 then
                      (if ttl \<noteq> 0 then ttl else out_ttl, if present = None \<and> length vs < 64 then vs @ [safe_strcpy [] v 256] else vs)
                    else (out_ttl, case present of Some i \<Rightarrow> take i vs @ drop (i + 1) vs | None \<Rightarrow> vs))
             in if vs = [] then kv_del K s key else kv_set K s key (group_val out_ttl vs))"

definition xfr_apply_diffs :: "'s kv \<Rightarrow> cstr \<Rightarrow> cstr \<Rightarrow> xfr_diff list \<Rightarrow> u32 \<Rightarrow> 's sec \<Rightarrow> 's sec" where
  "xfr_apply_diffs K g_zone_name zone ds serial x =
     xfr_set_serial K g_zone_name zone serial (x\<lparr>store := fold (xfr_apply_one_diff K zone) ds (store x)\<rparr>)"

text \<open>The end of a transfer: what the reader has seen decides whether and how the store changes. The second component is the result 0 or -1.\<close>

definition xfr_finish :: "'s kv \<Rightarrow> tsig_cfg \<Rightarrow> cstr \<Rightarrow> cstr \<Rightarrow> u32 \<Rightarrow> xfr_st \<times> bool \<times> bool \<Rightarrow> 's sec \<Rightarrow> 's sec \<times> bool" where
  "xfr_finish K G g_zone_name zone local_serial res x =
     (case res of (st, tsig_fail, last_signed) \<Rightarrow>
        let tsig_ok = (g_tsig_secret G = [] \<or> \<not> tsig_fail \<and> last_signed);
            up_to_date = (\<not> fin st \<and> soa_count st = 1 \<and> target st = local_serial \<and> tsig_ok);
            ok = (up_to_date \<or> fin st \<and> \<not> overflow st \<and> tsig_ok)
        in if ok \<and> mode st = 2 then (xfr_apply_diffs K g_zone_name zone (diffs st) (target st) x, True)
           else if ok \<and> soa_count st = 1 \<and> target st = local_serial then (x, True)
           else if ok then (xfr_apply K g_zone_name zone (recs st) (target st) x, True)
           else (x, False))"

text \<open>
  A pull: \<open>prior\<close> is the MAC of the signed query, \<open>stream\<close> what the primary sends.
\<close>

definition xfr_pull :: "'s kv \<Rightarrow> hmac \<Rightarrow> tsig_cfg \<Rightarrow> cstr \<Rightarrow> cstr \<Rightarrow> bytes \<Rightarrow> bytes \<Rightarrow> 's sec \<Rightarrow> ('s sec \<times> bool) option" where
  "xfr_pull K hm G g_zone_name zone prior stream x = do {
     res \<leftarrow> xfr_stream hm G stream (prior, False, 0) xfr_start;
     Some (xfr_finish K G g_zone_name zone (xfr_get_serial zone (g_zones x)) res x) }"

section \<open>Laws of the store\<close>

text \<open>
  \<open>SET\<close>, \<open>DEL\<close> and the scan for the keys of a zone; the scan is described for zone names without the special characters of a pattern.
\<close>

definition glob_plain :: "cstr \<Rightarrow> bool" where
  "glob_plain zone \<longleftrightarrow> set zone \<inter> {42, 63, 91, 92} = {}"

definition kv_ok :: "'s kv \<Rightarrow> bool" where
  "kv_ok K \<longleftrightarrow>
     (\<forall>s k v k'. kv_get K (kv_set K s k v) k' = (if k' = k then Some v else kv_get K s k')) \<and>
     (\<forall>s k k'. kv_get K (kv_del K s k) k' = (if k' = k then None else kv_get K s k')) \<and>
     (\<forall>s zone k. glob_plain zone \<longrightarrow>
        (k \<in> set (kv_keys K s (zpat zone)) \<longleftrightarrow> kv_get K s k \<noteq> None \<and> take (length (zpat zone) - 1) k = butlast (zpat zone)))"

lemma kv_set_get: "kv_ok K \<Longrightarrow> kv_get K (kv_set K s k v) k' = (if k' = k then Some v else kv_get K s k')"
  by (simp add: kv_ok_def)

lemma kv_del_get: "kv_ok K \<Longrightarrow> kv_get K (kv_del K s k) k' = (if k' = k then None else kv_get K s k')"
  by (simp add: kv_ok_def)

lemma kv_del_all: "kv_ok K \<Longrightarrow> kv_get K (fold (\<lambda>k s. kv_del K s k) ks s) k' = (if k' \<in> set ks then None else kv_get K s k')"
  by (induction ks arbitrary: s) (auto simp: kv_del_get)


section \<open>Changes to a group\<close>

text \<open>The abstract effect of a change on the TTL and the values under one key.\<close>

type_synonym rrset = "(u32 \<times> cstr list) option"

definition rrset_diff :: "xfr_diff \<Rightarrow> rrset \<Rightarrow> rrset" where
  "rrset_diff d A =
     (case d of (op, r) \<Rightarrow>
        let ttl = x_ttl r;
            (t, vs) = (case A of Some x \<Rightarrow> x | None \<Rightarrow> (if ttl \<noteq> 0 then ttl else DEFAULT_TTL, []));
            vs' = (if op = 65 then (if \<exists>v \<in> set vs. strcaseeq v (x_val r) then vs else vs @ [x_val r])
                   else (case index_of (x_val r) vs of Some i \<Rightarrow> take i vs @ drop (i + 1) vs | None \<Rightarrow> vs))
        in if vs' = [] then None else Some (if op = 65 \<and> ttl \<noteq> 0 then ttl else t, vs'))"

definition val_ok :: "cstr \<Rightarrow> bool" where
  "val_ok v \<longleftrightarrow> v \<noteq> [] \<and> 124 \<notin> set v \<and> length v < 256"

text \<open>What a key can hold: values that \<open>strtok_r\<close> finds again, at most 64 of them, in 1023 characters.\<close>

definition rrset_ok :: "rrset \<Rightarrow> bool" where
  "rrset_ok A =
     (case A of
        None \<Rightarrow> True
      | Some (ttl, vs) \<Rightarrow> vs \<noteq> [] \<and> (\<forall>v \<in> set vs. val_ok v) \<and> length vs \<le> 64 \<and>
          length (dec (unat ttl)) + length (concat (map (\<lambda>v. 124 # v) vs)) \<le> 1023)"

definition rrset_text :: "rrset \<Rightarrow> cstr option" where
  "rrset_text A = (case A of None \<Rightarrow> None | Some (ttl, vs) \<Rightarrow> Some (group_val ttl vs))"

lemma join_concat: "join 124 (t # vs) = t @ concat (map (\<lambda>v. 124 # v) vs)"
  by (induction vs arbitrary: t) auto

lemma group_split_val:
  assumes "rrset_ok (Some (ttl, vs))"
  shows "group_split d (take 1023 (group_val ttl vs)) = (ttl, vs)"
proof -
  have v: "\<forall>v \<in> set vs. v \<noteq> [] \<and> 124 \<notin> set v \<and> length v < 256" "length vs \<le> 64"
    using assms by (auto simp: rrset_ok_def val_ok_def)
  have "124 \<notin> set (dec (unat ttl))" using dec_digits [of "unat ttl"] by (auto simp: list_all_iff isdigit_def)
  then have "toks [124] (join 124 (dec (unat ttl) # vs)) = dec (unat ttl) # vs" using v(1) by (intro toks_join(1)) auto
  moreover have "length (join 124 (dec (unat ttl) # vs)) \<le> 1023" using assms by (simp add: join_concat rrset_ok_def)
  then have "take 1023 (group_val ttl vs) = join 124 (dec (unat ttl) # vs)" by (simp only: group_val_def join_concat [symmetric] take_all)
  moreover have "map (\<lambda>v. safe_strcpy [] v 256) (take 64 vs) = vs" using v by (simp add: map_idI safe_strcpy_id)
  moreover have "ucast (fst (strtoul (dec (unat ttl)))) = ttl"
    using scan_u_dec [of "[]" ttl] by (auto simp: scan_u_def split: prod.splits if_splits)
  ultimately show ?thesis by (simp add: group_split_def)
qed

lemma index_of_None: "index_of v vs = None \<longleftrightarrow> \<not> (\<exists>w \<in> set vs. strcaseeq w v)"
  by (induction vs) auto

lemma group_split_cur:
  assumes "kv_get K s key = rrset_text A" "rrset_ok A"
  shows "group_split d (case kv_get K s key of Some c \<Rightarrow> take 1023 c | None \<Rightarrow> []) = (case A of Some x \<Rightarrow> x | None \<Rightarrow> (d, []))"
  using assms group_split_val by (auto simp: rrset_text_def group_split_def split: option.splits)

text \<open>One change refines its abstract effect.\<close>

lemma apply_one_diff_refines:
  assumes K: "kv_ok K" and g: "grouped (x_type r)" and A: "kv_get K s (zkey zone (x_type r) (x_name r)) = rrset_text A" "rrset_ok A"
    and v: "val_ok (x_val r)" and A': "rrset_ok (rrset_diff (op, r) A)"
  shows "kv_get K (xfr_apply_one_diff K zone (op, r) s) k
    = (if k = zkey zone (x_type r) (x_name r) then rrset_text (rrset_diff (op, r) A) else kv_get K s k)"
proof -
  let ?d = "if x_ttl r \<noteq> 0 then x_ttl r else DEFAULT_TTL"
  obtain t vs where t: "(case A of Some x \<Rightarrow> x | None \<Rightarrow> (?d, [])) = (t, vs)" by (cases "case A of Some x \<Rightarrow> x | None \<Rightarrow> (?d, [])")
  have cur: "group_split ?d (case kv_get K s (zkey zone (x_type r) (x_name r)) of Some c \<Rightarrow> take 1023 c | None \<Rightarrow> []) = (t, vs)"
    using group_split_cur [OF A] t by simp
  have s: "safe_strcpy [] (x_val r) 256 = x_val r" using v by (intro safe_strcpy_id) (simp add: val_ok_def)
  have l: "length vs < 64" if "index_of (x_val r) vs = None" "op = 65"
    using A' t that by (auto simp: rrset_diff_def rrset_ok_def index_of_None Let_def split: if_splits)
  show ?thesis
    using K g cur t s l
    by (auto simp: xfr_apply_one_diff_def rrset_diff_def rrset_text_def Let_def index_of_None kv_set_get kv_del_get split: option.splits)
qed

section \<open>Changes to a zone\<close>

lemma type2str_grouped: "type2str 1 = str ''A''" "type2str 28 = str ''AAAA''" "type2str 2 = str ''NS''"
  by (simp_all add: type2str_def type_table_def)

lemma zkey_inj:
  assumes "grouped t" "grouped t'" "length n \<le> 255" "length n' \<le> 255" "zkey zone t n = zkey zone t' n'"
  shows "t = t' \<and> n = n'"
proof -
  have z: "zkey zone t n = str ''zone:'' @ take 255 zone @ str '':'' @ type2str t @ str '':'' @ n" if "grouped t" "length n \<le> 255" for t n
    using that by (auto simp: zkey_def grouped_def type2str_grouped str_def)
  have e: "type2str t @ str '':'' @ n = type2str t' @ str '':'' @ n'" using z [OF assms(1,3)] z [OF assms(2,4)] assms(5) by simp
  show ?thesis using e assms(1,2) by (auto simp: grouped_def type2str_grouped str_def)
qed

text \<open>The groups of a zone, by type and owner name.\<close>

type_synonym zone_sets = "u16 \<times> cstr \<Rightarrow> rrset"

definition zone_rep :: "'s kv \<Rightarrow> cstr \<Rightarrow> 's \<Rightarrow> zone_sets \<Rightarrow> bool" where
  "zone_rep K zone s A \<longleftrightarrow> (\<forall>t n. grouped t \<longrightarrow> length n \<le> 255 \<longrightarrow> kv_get K s (zkey zone t n) = rrset_text (A (t, n)))"

definition zone_diff :: "xfr_diff \<Rightarrow> zone_sets \<Rightarrow> zone_sets" where
  "zone_diff d A = (let k = (x_type (snd d), x_name (snd d)) in A(k := rrset_diff d (A k)))"

text \<open>Every group fits under its key, before and after each of the changes.\<close>

fun zone_fits :: "xfr_diff list \<Rightarrow> zone_sets \<Rightarrow> bool" where
  "zone_fits [] A \<longleftrightarrow> (\<forall>k. rrset_ok (A k))"
| "zone_fits (d # ds) A \<longleftrightarrow> (\<forall>k. rrset_ok (A k)) \<and> zone_fits ds (zone_diff d A)"

definition diff_ok :: "xfr_diff \<Rightarrow> bool" where
  "diff_ok d \<longleftrightarrow> grouped (x_type (snd d)) \<and> length (x_name (snd d)) \<le> 255 \<and> val_ok (x_val (snd d))"

lemma zone_fits_hd: "zone_fits ds A \<Longrightarrow> rrset_ok (A k)"
  by (cases ds; cases k) auto

lemma apply_diff_rep:
  assumes "kv_ok K" "zone_rep K zone s A" "diff_ok d" "zone_fits [d] A"
  shows "zone_rep K zone (xfr_apply_one_diff K zone d s) (zone_diff d A)"
  unfolding zone_rep_def
proof (intro allI impI)
  fix t and n :: cstr assume tn: "grouped t" "length n \<le> 255"
  obtain op r where d: "d = (op, r)" by (cases d)
  let ?k = "(x_type r, x_name r)"
  have r: "grouped (x_type r)" "length (x_name r) \<le> 255" "val_ok (x_val r)" using assms(3) d by (auto simp: diff_ok_def)
  have ok: "rrset_ok (A ?k)" "rrset_ok (rrset_diff (op, r) (A ?k))"
    using assms(4) d by (auto simp: zone_diff_def Let_def split: if_splits)
  have rep: "kv_get K s (zkey zone (x_type r) (x_name r)) = rrset_text (A ?k)" "kv_get K s (zkey zone t n) = rrset_text (A (t, n))"
    using assms(2) r tn by (auto simp: zone_rep_def)
  have i: "zkey zone t n = zkey zone (x_type r) (x_name r) \<longleftrightarrow> (t, n) = ?k" using zkey_inj [OF tn(1) r(1) tn(2) r(2)] by auto
  show "kv_get K (xfr_apply_one_diff K zone d s) (zkey zone t n) = rrset_text (zone_diff d A (t, n))"
    using apply_one_diff_refines [OF assms(1) r(1) rep(1) ok(1) r(3) ok(2), of "zkey zone t n"] i rep(2) d
    by (auto simp: zone_diff_def Let_def)
qed

lemma apply_diffs_rep:
  assumes "kv_ok K" "zone_rep K zone s A" "\<forall>d \<in> set ds. diff_ok d" "zone_fits ds A"
  shows "zone_rep K zone (fold (xfr_apply_one_diff K zone) ds s) (fold zone_diff ds A)"
  using assms(2-4)
proof (induction ds arbitrary: s A)
  case (Cons d ds)
  have "zone_fits [d] A" using Cons.prems(3) zone_fits_hd by auto
  then have "zone_rep K zone (xfr_apply_one_diff K zone d s) (zone_diff d A)"
    using Cons.prems by (intro apply_diff_rep [OF assms(1)]) auto
  then show ?case using Cons.prems Cons.IH by simp
qed simp

lemma hd_zkey: "hd (zkey zone t n) = 122" "zkey zone t n \<noteq> []"
  by (simp_all add: zkey_def str_def)

lemma hd_config: "hd (str ''config:zone_serial'') = 99" "hd (take 319 (str ''config:zone:'' @ r)) = 99"
  by (simp_all add: str_def)

lemma set_serial_zkey: "kv_ok K \<Longrightarrow> kv_get K (store (xfr_set_serial K g zone' serial x)) (zkey zone t n) = kv_get K (store x) (zkey zone t n)"
proof -
  assume K: "kv_ok K"
  have "zkey zone t n \<noteq> (if strcaseeq zone' g then str ''config:zone_serial'' else take 319 (str ''config:zone:'' @ r))" for r
    using hd_zkey(1) [of zone t n] hd_config(1) hd_config(2) [of r] by (auto simp del: take_append)
  then show ?thesis using kv_set_get [OF K] by (simp add: xfr_set_serial_def Let_def del: take_append)
qed

lemma set_serial_rep: "kv_ok K \<Longrightarrow> zone_rep K zone (store x) A \<Longrightarrow> zone_rep K zone (store (xfr_set_serial K g zone' serial x)) A"
  by (simp add: zone_rep_def set_serial_zkey)

lemma set_serial_get:
  "strcaseeq zone zone' \<Longrightarrow> \<exists>(n, s) \<in> set (g_zones x). strcaseeq n zone \<Longrightarrow>
    xfr_get_serial zone (g_zones (xfr_set_serial K g zone' serial x)) = serial"
proof -
  assume z: "strcaseeq zone zone'" "\<exists>(n, s) \<in> set (g_zones x). strcaseeq n zone"
  have e: "strcaseeq n zone' = strcaseeq n zone" for n using z(1) by (simp add: strcaseeq_def)
  have "xfr_get_serial zone (map (\<lambda>(n, s). (n, if strcaseeq n zone' then serial else s)) zs) = serial" if "\<exists>(n, s) \<in> set zs. strcaseeq n zone" for zs
    using that e by (induction zs) (fastforce split: if_splits)+
  then show ?thesis using z(2) by (simp add: xfr_set_serial_def Let_def)
qed

section \<open>A complete transfer\<close>

text \<open>A change of an address, in the form in which the server prints addresses.\<close>

definition addr_change :: "change \<Rightarrow> bool" where
  "addr_change c \<longleftrightarrow> change_ok c \<and> name_ok (c_name c) \<and> c_op c \<in> {65, 68} \<and> 124 \<notin> set (c_val c) \<and>
     (\<exists>t a. addr_rdata (c_val c) = Some (t, a) \<and> addr_text a = c_val c)"

definition change_diff :: "change \<Rightarrow> xfr_diff" where
  "change_diff c = (c_op c, \<lparr>x_name = norm_name (c_name c), x_type = (if inet_pton4 (c_val c) = None then 28 else 1),
     x_ttl = DEFAULT_TTL, x_val = c_val c\<rparr>)"

lemma change_entry_diffs:
  assumes "addr_change c"
  shows "entry_diffs (change_entry c) = [change_diff c]" "is_addr (change_entry c)" "jentry_ok (change_entry c)" "entry_from (change_entry c) = c_from c"
proof -
  have s: "scan_entry (change_entry c) = (c_from c, c_to c, c_op c, c_name c, c_val c)" using assms by (intro scan_change) (simp add: addr_change_def)
  obtain t a where a: "addr_rdata (c_val c) = Some (t, a)" "addr_text a = c_val c" using assms by (auto simp: addr_change_def)
  then have "t = (if inet_pton4 (c_val c) = None then 28 else 1)" by (auto simp: addr_rdata_def split: option.splits)
  then show "entry_diffs (change_entry c) = [change_diff c]" using s a assms by (auto simp: entry_diffs_def change_diff_def addr_rr_def addr_change_def)
  show "is_addr (change_entry c)" "jentry_ok (change_entry c)" "entry_from (change_entry c) = c_from c"
    using s a assms by (auto simp: is_addr_def jentry_ok_def entry_from_def addr_change_def)
qed

lemma length_norm_name: "name_ok n \<Longrightarrow> length (norm_name n) \<le> 255"
  using name_ok_join [of n] by (simp add: norm_name_def)

lemma change_diff_ok: "addr_change c \<Longrightarrow> diff_ok (change_diff c)"
proof -
  assume c: "addr_change c"
  have "c_val c \<noteq> []" using c by (auto simp: addr_change_def addr_rdata_def inet_pton4_def inet_pton6_def Let_def)
  then show ?thesis using c by (auto simp: diff_ok_def change_diff_def grouped_def val_ok_def addr_change_def change_ok_def length_norm_name)
qed

text \<open>What every transfer of journaled changes brings, whatever they are.\<close>

definition plain_change :: "change \<Rightarrow> bool" where
  "plain_change c \<longleftrightarrow> change_ok c \<and> (addr_rdata (c_val c) \<noteq> None \<longrightarrow> name_ok (c_name c))"

definition history :: "u32 \<Rightarrow> change list \<Rightarrow> u32 \<Rightarrow> bool" where
  "history a cs b \<longleftrightarrow> serial_chain a cs b \<and> (\<forall>c \<in> set cs. plain_change c) \<and> distinct (map c_from cs) \<and> b \<notin> set (map c_from cs)"

lemma plain_entry_ok: "plain_change c \<Longrightarrow> jentry_ok (change_entry c) \<and> entry_from (change_entry c) = c_from c"
  using scan_change [of c] by (simp add: plain_change_def jentry_ok_def entry_from_def)

lemma length_entry_msgs: "length (entry_msgs J e) \<le> 4"
  by (auto simp: entry_msgs_def Let_def split: prod.splits option.splits)

lemma length_entries_msgs: "length (concat (map (entry_msgs J) es)) \<le> 4 * length es"
proof (induction es)
  case (Cons e es)
  then show ?case using length_entry_msgs [of J e] by simp
qed simp

lemma transfer_since:
  assumes L: "lists_ok L" "jlist L s (ixfr_journal_key g (j_zname J)) = []" and h: "history a cs (j_serial J)"
    and i: "i < length cs" "length cs - i \<le> IXFR_JOURNAL_MAX" and fr: "0 < c_from (cs ! i)" "serial_lt (c_from (cs ! i)) (j_serial J)"
    and J: "job_ok J" "length mb = BUF_SIZE" and auth: "xfr_auth hm G req (4 * (length cs - i))"
  shows "\<exists>out st ls. axfr_answer L hm G now mb g J True (c_from (cs ! i)) req (fold (journal_change L g (j_zname J)) cs s) = Stream (Some out) \<and>
    xfr_stream hm G out (req, False, 0) xfr_start = Some (st, False, ls) \<and> ixfr_result J (map change_entry (drop i cs)) st \<and> (g_tsig_secret G = [] \<or> ls)"
proof -
  let ?es = "map change_entry (drop i cs)"
  have pc: "\<forall>c \<in> set cs. plain_change c" and b: "j_serial J \<notin> set (map c_from cs)" using h by (auto simp: history_def)
  have f: "ixfr_journal_fetch L g (j_zname J) (c_from (cs ! i)) (j_serial J) IXFR_JOURNAL_MAX (fold (journal_change L g (j_zname J)) cs s) = Some ?es"
    using fetch_history [OF L, of a cs "j_serial J" i] h i by (auto simp: history_def plain_change_def)
  have es: "\<forall>e \<in> set ?es. jentry_ok e \<and> entry_from e \<noteq> j_serial J"
  proof
    fix e assume "e \<in> set ?es"
    then obtain c where c: "e = change_entry c" "c \<in> set cs" by (auto dest: in_set_dropD)
    then have "c_from c \<in> set (map c_from cs)" by simp
    then have "c_from c \<noteq> j_serial J" using b by metis
    then show "jentry_ok e \<and> entry_from e \<noteq> j_serial J" using plain_entry_ok [of c] pc c by simp
  qed
  have au: "xfr_auth hm G req (length (concat (map (entry_msgs J) ?es)))"
    using auth length_entries_msgs [of J ?es] by (auto simp: xfr_auth_def)
  have "length ?es \<le> XFR_MAX_DIFFS" using i by (simp add: XFR_MAX_DIFFS_def IXFR_JOURNAL_MAX_def)
  from ixfr_end_to_end [OF J es au this, of now]
  show ?thesis using f fr by (auto simp: axfr_answer_def)
qed

lemma finish_result:
  assumes "ixfr_result J es st" "g_tsig_secret G = [] \<or> ls"
  shows "xfr_finish K G g zone serial (st, False, ls) x =
    (if \<exists>e \<in> set es. is_addr e then (xfr_apply_diffs K g zone (concat (map entry_diffs es)) (j_serial J) x, True)
     else (xfr_apply K g zone [] (j_serial J) x, True))"
  using assms by (auto simp: xfr_finish_def ixfr_result_def Let_def)

lemma apply_nothing:
  assumes "kv_ok K" "glob_plain zone" "length zone \<le> 255"
  shows "kv_get K (store (xfr_apply K g zone [] serial x)) (zkey zone t n) = None"
proof -
  have z: "zpat zone = str ''zone:'' @ zone @ str '':*''" using assms(3) by (simp add: zpat_def str_def)
  have "butlast (zpat zone) = str ''zone:'' @ zone @ str '':''" unfolding z by (simp add: butlast_append str_def)
  moreover have "take (length (zpat zone) - 1) (zkey zone t n) = str ''zone:'' @ zone @ str '':''"
    unfolding z zkey_def using assms(3) by (simp add: str_def)
  ultimately have p: "take (length (zpat zone) - 1) (zkey zone t n) = butlast (zpat zone)" by simp
  have "kv_get K (fold (\<lambda>k s. kv_del K s k) (kv_keys K (store x) (zpat zone)) (store x)) (zkey zone t n) = None"
    using assms(1,2) p by (auto simp: kv_del_all kv_ok_def)
  then show ?thesis using assms(1) by (simp add: xfr_apply_def Let_def set_serial_zkey)
qed

section \<open>Authenticity\<close>




section \<open>Every stream is read safely\<close>














section \<open>The query and its reader\<close>

definition query_soa :: "cstr \<Rightarrow> soa" where
  "query_soa zone = \<lparr>soa_mname = zone, soa_rname = zone, soa_refresh = 3600, soa_retry = 900, soa_expire = 604800, soa_minimum = 300\<rparr>"

definition query_head :: "u8 \<Rightarrow> bytes" where
  "query_head ns = [0x58, 0x58, 0, 0, 0, 1, 0, 0, 0, ns, 0, 0]"

definition query_msg :: "cstr \<Rightarrow> u32 \<Rightarrow> bytes" where
  "query_msg zone serial =
     (if serial = 0 then query_head 0 @ wire (labels_of zone) @ be16 252 @ be16 1
      else query_head 1 @ question zone @ addr_bytes zone 6 0 (soa_wire (query_soa zone) serial))"

lemma put16_patch: "j = i + length xs \<Longrightarrow> j + 2 \<le> length b \<Longrightarrow> put16 (patch b i xs) j v = Some (patch b i (xs @ be16 v))"
  using patch_patch [of i xs "be16 v" b] by (simp add: put16_ok length_patch)

lemma name_patch:
  assumes "name_ok name" "j = i + length xs" "j + length (wire (labels_of name)) \<le> c" "c \<le> length b"
  shows "name_to_wire name (patch b i xs) j (c - j) = Some (patch b i (xs @ wire (labels_of name)), Ok (length (wire (labels_of name))))"
proof -
  have "name_to_wire name (patch b i xs) j (c - j) = Some (patch (patch b i xs) j (wire (labels_of name)), Ok (length (wire (labels_of name))))"
    using assms by (intro name_to_wire_ok) (auto simp: name_ok_def length_patch)
  then show ?thesis using patch_patch [of i xs "wire (labels_of name)" b] assms by simp
qed

lemma patch_inside:
  assumes "j + length ys \<le> length xs" "length xs \<le> length b"
  shows "patch (patch b 0 xs) j ys = patch b 0 (patch xs j ys)"
  using assms by (simp add: patch_def)

lemma patch_extend:
  assumes "i + length xs + length ys \<le> length b" "take (length ys) (drop (i + length xs) b) = ys"
  shows "patch b i xs = patch b i (xs @ ys)"
proof -
  have "drop (i + length xs) b = ys @ drop (i + length xs + length ys) b"
    using assms(2) append_take_drop_id [of "length ys" "drop (i + length xs) b"] by (simp add: add.commute)
  then show ?thesis by (simp add: patch_def add.assoc)
qed

text \<open>The query of a zone whose name leaves room for the four copies of it.\<close>

lemma xfr_query_head:
  assumes "name_ok zone" "length q = 600" "12 + length (wire (labels_of zone)) + 4 \<le> 600"
  shows "xfr_query zone serial q =
    (let x = query_head 0 @ wire (labels_of zone) @ be16 (if serial > 0 then 251 else 252) @ be16 1
     in if serial > 0 then do {
          (q, an) \<leftarrow> name_to_wire zone (patch q 0 x) (length x) (600 - length x);
          case an of
            Err \<Rightarrow> Some (q, Ok (length x))
          | Ok an \<Rightarrow> do { (q, qo) \<leftarrow> xfr_query_soa zone serial q (length x + an); Some (q, Ok qo) } }
        else Some (patch q 0 x, Ok (length x)))"
proof -
  let ?w = "wire (labels_of zone)" and ?t = "if serial > 0 then 251 else 252 :: u16"
  have h: "wrn q 0 ([0x58, 0x58, 0, 0, 0, 1] @ replicate 6 0) = Some (patch q 0 (query_head 0))"
    using assms(2) by (simp add: wrn_ok query_head_def eval_nat_numeral)
  have lh: "length (query_head 0) = 12" by (simp add: query_head_def)
  have n: "name_to_wire zone (patch q 0 (query_head 0)) 12 (600 - 12) = Some (patch q 0 (query_head 0 @ ?w), Ok (length ?w))"
    using name_patch [OF assms(1), of 12 0 "query_head 0" 600 q] assms(2,3) lh by simp
  have p: "put16 (patch q 0 (query_head 0 @ ?w)) (12 + length ?w) ?t = Some (patch q 0 (query_head 0 @ ?w @ be16 ?t))"
    using put16_patch [of "12 + length ?w" 0 "query_head 0 @ ?w" q ?t] assms(2,3) lh by simp
  have r: "put16 (patch q 0 (query_head 0 @ ?w @ be16 ?t)) (12 + length ?w + 2) 1 = Some (patch q 0 (query_head 0 @ ?w @ be16 ?t @ be16 1))"
    using put16_patch [of "12 + length ?w + 2" 0 "query_head 0 @ ?w @ be16 ?t" q 1] assms(2,3) lh by simp
  show ?thesis unfolding xfr_query_def using h n p r lh by (simp add: Let_def)
qed

lemma query_soa_section:
  fixes serial :: u32
  assumes "name_ok zone" "length q = 600" "length x + length (wire (labels_of zone)) + length (wire (labels_of zone)) + 30 \<le> 600" "12 \<le> length x"
  defines "y \<equiv> x @ rr_bytes 6 1 0 (of_nat (length (soa_wire (query_soa zone) serial))) (soa_wire (query_soa zone) serial)"
  shows "xfr_query_soa zone serial (patch q 0 x) (length x) = Some (patch q 0 (patch y 8 (be16 1)), length y)"
proof -
  let ?w = "wire (labels_of zone)" and ?d = "soa_wire (query_soa zone) serial"
  let ?l = "of_nat (length ?d) :: u16"
  let ?z = "x @ be16 6 @ be16 1 @ be32 0"
  have d: "?d = ?w @ ?w @ be32 serial @ be32 3600 @ be32 900 @ be32 604800 @ be32 300" by (simp add: soa_wire_def query_soa_def)
  have l: "length ?d = 2 * length ?w + 20" by (simp add: d)
  \<comment> \<open>the length field is left as it is until the end\<close>
  have h: "put16 (patch q 0 x) (length x) 6 = Some (patch q 0 (x @ be16 6))"
    "put16 (patch q 0 (x @ be16 6)) (length x + 2) 1 = Some (patch q 0 (x @ be16 6 @ be16 1))"
    "put32 (patch q 0 (x @ be16 6 @ be16 1)) (length x + 4) 0 = Some (patch q 0 ?z)"
    using put16_patch [of "length x" 0 x q 6] put16_patch [of "length x + 2" 0 "x @ be16 6" q 1]
      put32_patch [of "length x + 4" 0 "x @ be16 6 @ be16 1" q 0] assms(2,3) by auto
  define g where "g = take 2 (drop (length ?z) q)"
  have lg: "length g = 2" using assms(2,3) by (simp add: g_def)
  have tk: "patch q 0 ?z = patch q 0 (?z @ g)" using assms(2,3) by (intro patch_extend) (auto simp: g_def)
  have n: "name_to_wire zone (patch q 0 ?z) (length x + 10) (600 - (length x + 10)) = Some (patch q 0 (?z @ g @ ?w), Ok (length ?w))"
    using name_patch [OF assms(1), of "length x + 10" 0 "?z @ g" 600 q] assms(2,3) lg unfolding tk by simp
  have n2: "name_to_wire zone (patch q 0 (?z @ g @ ?w)) (length x + 10 + length ?w) (600 - (length x + 10 + length ?w))
      = Some (patch q 0 (?z @ g @ ?w @ ?w), Ok (length ?w))"
    using name_patch [OF assms(1), of "length x + 10 + length ?w" 0 "?z @ g @ ?w" 600 q] assms(2,3) lg by simp
  let ?e = "length x + 10 + length ?w + length ?w"
  let ?u = "?z @ g @ ?w @ ?w"
  have s: "put32 (patch q 0 ?u) ?e serial = Some (patch q 0 (?u @ be32 serial))"
    "put32 (patch q 0 (?u @ be32 serial)) (?e + 4) 3600 = Some (patch q 0 (?u @ be32 serial @ be32 3600))"
    "put32 (patch q 0 (?u @ be32 serial @ be32 3600)) (?e + 8) 900 = Some (patch q 0 (?u @ be32 serial @ be32 3600 @ be32 900))"
    "put32 (patch q 0 (?u @ be32 serial @ be32 3600 @ be32 900)) (?e + 12) 604800 = Some (patch q 0 (?u @ be32 serial @ be32 3600 @ be32 900 @ be32 604800))"
    "put32 (patch q 0 (?u @ be32 serial @ be32 3600 @ be32 900 @ be32 604800)) (?e + 16) 300 = Some (patch q 0 (?z @ g @ ?d))"
    using assms(2,3) lg by (simp_all add: put32_patch d)
  have f: "put16 (patch q 0 (?z @ g @ ?d)) (length x + 8) ?l = Some (patch q 0 y)"
    using assms(2,3) l lg by (simp add: put16_ok length_patch patch_inside y_def rr_bytes_def) (simp add: patch_def)
  have g': "put16 (patch q 0 y) 8 1 = Some (patch q 0 (patch y 8 (be16 1)))"
    using assms(2-4) l by (simp add: put16_ok length_patch patch_inside y_def rr_bytes_def)
  have "?e + 20 - (length x + 10) = length ?d" "?e + 20 = length y" using l by (simp_all add: y_def rr_bytes_def)
  note e = this
  show ?thesis
    unfolding xfr_query_soa_def Let_def h n n2 s bind.bind_lunit prod.case nn_pos_def cres.case e(1) f g' e(2) [symmetric] by simp
qed

lemma xfr_query_ok:
  assumes "name_ok zone" "length q = 600" "4 * length (wire (labels_of zone)) + 46 \<le> 600"
  shows "xfr_query zone serial q = Some (patch q 0 (query_msg zone serial), Ok (length (query_msg zone serial)))"
proof -
  let ?w = "wire (labels_of zone)"
  let ?x = "query_head 0 @ ?w @ be16 251 @ be16 1"
  have lh: "length (query_head ns) = 12" for ns by (simp add: query_head_def)
  have room: "12 + length ?w + 4 \<le> 600" using assms(3) by linarith
  note h = xfr_query_head [OF assms(1,2) room, of serial]
  show ?thesis
  proof (cases "serial = 0")
    case True
    then show ?thesis using h assms(3) by (simp add: query_msg_def Let_def)
  next
    case False
    then have pos: "serial > 0" by (simp add: word_gt_0)
    have n: "name_to_wire zone (patch q 0 ?x) (length ?x) (600 - length ?x) = Some (patch q 0 (?x @ ?w), Ok (length ?w))"
      by (rule name_patch) (use assms lh in auto)
    let ?y = "(?x @ ?w) @ rr_bytes 6 1 0 (of_nat (length (soa_wire (query_soa zone) serial))) (soa_wire (query_soa zone) serial)"
    have s: "xfr_query_soa zone serial (patch q 0 (?x @ ?w)) (length (?x @ ?w)) = Some (patch q 0 (patch ?y 8 (be16 1)), length ?y)"
      by (rule query_soa_section) (use assms lh in auto)
    have y: "patch ?y 8 (be16 1) = query_msg zone serial" "length ?y = length (query_msg zone serial)"
      using False by (simp_all add: query_msg_def query_head_def question_def addr_bytes_def patch_def be16_def)
    have s2: "xfr_query_soa zone serial (patch q 0 (?x @ ?w)) (length ?x + length ?w) = Some (patch q 0 (patch ?y 8 (be16 1)), length ?y)"
      using s by (simp only: length_append)
    show ?thesis
      unfolding h Let_def by (simp only: pos if_True n bind.bind_lunit prod.case cres.case s2 y)
  qed
qed

lemma request_reads:
  assumes "name_ok zone" "length (wire (labels_of zone)) \<le> 246" "drop 12 pkt = drop 12 (query_msg zone serial) @ r"
    "get16 pkt 8 = get16 (query_msg zone serial) 8"
  shows "axfr_request pkt (length pkt) = Some (Some (norm_name zone, 0 < serial, serial))"
proof -
  let ?w = "wire (labels_of zone)" and ?a = "12 + length (wire (labels_of zone))"
  show ?thesis
  proof (cases "serial = 0")
    case True
    have 1: "drop 12 pkt = ?w @ be16 252 @ be16 1 @ r" using assms(3) True by (simp add: query_msg_def query_head_def)
    have 2: "drop ?a pkt = be16 252 @ be16 1 @ r" by (rule drop_suffix [OF 1]) simp
    have l: "length pkt - ?a = 4 + length r" using length_suffix [OF 2] by simp
    show ?thesis using name_suffix [OF 1 assms(1)] get16_suffix [OF 2] l norm_name_cstr [OF assms(1)] True by (simp add: axfr_request_def)
  next
    case False
    let ?d = "soa_wire (query_soa zone) serial"
    have 1: "drop 12 pkt = ?w @ be16 251 @ be16 1 @ addr_bytes zone 6 0 ?d @ r"
      using assms(3) False by (simp add: query_msg_def query_head_def question_def)
    have 2: "drop ?a pkt = be16 251 @ be16 1 @ addr_bytes zone 6 0 ?d @ r" by (rule drop_suffix [OF 1]) simp
    have 3: "drop (?a + 2) pkt = be16 1 @ addr_bytes zone 6 0 ?d @ r" by (rule drop_suffix [OF 2]) simp
    have 4: "drop (?a + 4) pkt = ?w @ rr_bytes 6 1 0 (of_nat (length ?d)) ?d @ r" using drop_suffix [OF 3, of "?a + 4"] by (simp add: addr_bytes_def)
    have d: "length ?d = 2 * length ?w + 20" by (simp add: soa_wire_def query_soa_def)
    then have u: "length ?d < 65536" using wire_bound [of zone] by simp
    note u = u unat_of_nat_u16 [OF u]
    note s = rr_suffix [OF 4 u(1)]
    have ok: "soa_ok (query_soa zone)" using assms(1,2) d by (simp add: soa_ok_def query_soa_def length_soa_wire)
    have "get16 pkt 8 = Some 1"
      using assms(4) False get16_suffix [of 8 "query_msg zone serial" 1] by (simp add: query_msg_def query_head_def be16_def)
    moreover have "xfr_soa_serial pkt (length pkt) (?a + 4 + length ?w + 10) = Some serial"
    proof -
      let ?b = "?a + 4 + length ?w + 10"
      have 5: "drop ?b pkt = ?w @ ?w @ be32 serial @ be32 3600 @ be32 900 @ be32 604800 @ be32 300 @ r" using s(4) by (simp add: soa_wire_def query_soa_def)
      have 6: "drop (?b + length ?w) pkt = ?w @ be32 serial @ be32 3600 @ be32 900 @ be32 604800 @ be32 300 @ r" by (rule drop_suffix [OF 5]) simp
      have 7: "drop (?b + length ?w + length ?w) pkt = be32 serial @ be32 3600 @ be32 900 @ be32 604800 @ be32 300 @ r" by (rule drop_suffix [OF 6]) simp
      show ?thesis using name_suffix [OF 5 assms(1)] name_suffix [OF 6 assms(1)] get32_suffix [OF 7] s(5) d by (simp add: xfr_soa_serial_def)
    qed
    ultimately show ?thesis
      using name_suffix [OF 1 assms(1)] get16_suffix [OF 2] name_suffix [OF 4 assms(1)] s u d norm_name_cstr [OF assms(1)] False
      by (simp add: axfr_request_def word_gt_0)
  qed
qed

lemma put32_length: "put32 b off v = Some b' \<Longrightarrow> length b' = length b \<and> off + 4 \<le> length b"
  by (auto simp: put32_def wrn_def wr8_def length_patch split: if_splits Option.bind_splits)

lemma bind_None: "(\<And>y. x = Some y \<Longrightarrow> f y = None) \<Longrightarrow> x \<bind> f = None"
  by (cases x) auto

lemma query_soa_overflow:
  assumes "name_ok zone" "length q = 600" "qo + 10 + 2 * length (wire (labels_of zone)) \<le> 600" "600 < qo + 30 + 2 * length (wire (labels_of zone))"
  shows "xfr_query_soa zone serial q qo = None"
proof -
  let ?w = "wire (labels_of zone)"
  have n: "\<exists>q'. name_to_wire zone b off (600 - off) = Some (q', Ok (length ?w)) \<and> length q' = 600"
    if "length b = 600" "off + length ?w \<le> 600" for b off
    using name_to_wire_ok [of off "600 - off" b zone] that assms(1) by (auto simp: name_ok_def length_patch)
  have p: "put16 b off v = Some b' \<Longrightarrow> length b' = length b" for b off v b'
    by (auto simp: put16_def wrn_def wr8_def length_patch split: if_splits Option.bind_splits)
  let ?e = "qo + 10 + length ?w + length ?w"
  have t: "put32 b ?e serial \<bind> (\<lambda>q. put32 q (?e + 4) 3600 \<bind> (\<lambda>q. put32 q (?e + 8) 900 \<bind> (\<lambda>q. put32 q (?e + 12) 604800 \<bind>
      (\<lambda>q. put32 q (?e + 16) 300 \<bind> f)))) = None" if "length b = 600" for b f
  proof (intro bind_None)
    fix b1 b2 b3 b4 b5
    assume "put32 b ?e serial = Some b1" "put32 b1 (?e + 4) 3600 = Some b2" "put32 b2 (?e + 8) 900 = Some b3" "put32 b3 (?e + 12) 604800 = Some b4"
      and l: "put32 b4 (?e + 16) 300 = Some b5"
    then have "length b4 = 600" using that put32_length by metis
    then show "f b5 = None" using put32_length [OF l] assms(4) by linarith
  qed
  show ?thesis
    unfolding xfr_query_soa_def Let_def
  proof (rule bind_None, rule bind_None, rule bind_None, goal_cases)
    case (1 q1 q2 q3)
    then have l3: "length q3 = 600" using p put32_length assms(2) by metis
    obtain q4 where q4: "name_to_wire zone q3 (qo + 10) (600 - (qo + 10)) = Some (q4, Ok (length ?w))" "length q4 = 600"
      using n [of q3 "qo + 10"] l3 assms(3) by auto
    obtain q5 where q5: "name_to_wire zone q4 (qo + 10 + length ?w) (600 - (qo + 10 + length ?w)) = Some (q5, Ok (length ?w))" "length q5 = 600"
      using n [of q4 "qo + 10 + length ?w"] q4(2) assms(3) by auto
    show ?case by (simp only: q4 q5 bind.bind_lunit prod.case nn_pos_def cres.case t)
  qed
qed

lemma xfr_query_overflows:
  assumes "name_ok zone" "length q = 600" "4 * length (wire (labels_of zone)) + 26 \<le> 600" "600 < 4 * length (wire (labels_of zone)) + 46" "0 < serial"
  shows "xfr_query zone serial q = None"
proof -
  let ?w = "wire (labels_of zone)"
  let ?x = "query_head 0 @ ?w @ be16 251 @ be16 1"
  have room: "12 + length ?w + 4 \<le> 600" using assms(3) by linarith
  have lh: "length (query_head 0) = 12" by (simp add: query_head_def)
  have n: "name_to_wire zone (patch q 0 ?x) (length ?x) (600 - length ?x) = Some (patch q 0 (?x @ ?w), Ok (length ?w))"
    by (rule name_patch) (use assms lh in auto)
  have s: "xfr_query_soa zone serial (patch q 0 (?x @ ?w)) (length ?x + length ?w) = None"
    using assms lh by (intro query_soa_overflow) (auto simp: length_patch)
  show ?thesis unfolding xfr_query_head [OF assms(1,2) room] Let_def
    by (simp only: assms(5) if_True n bind.bind_lunit prod.case cres.case s bind.bind_lzero)
qed

section \<open>A pull\<close>

lemma get_serial_listed: "xfr_get_serial zone zs \<noteq> 0 \<Longrightarrow> \<exists>(n, s) \<in> set zs. strcaseeq n zone"
  by (induction zone zs rule: xfr_get_serial.induct) (auto split: if_splits)

text \<open>
  The situation of a pull: a primary with a history of changes, the last \<open>length cs - i\<close> of which a secondary has not seen.
\<close>

definition behind ::
    "'l lists \<Rightarrow> 'l \<Rightarrow> cstr \<Rightarrow> xfr_job \<Rightarrow> u32 \<Rightarrow> change list \<Rightarrow> nat \<Rightarrow> bytes \<Rightarrow> hmac \<Rightarrow> tsig_cfg \<Rightarrow> bytes \<Rightarrow> cstr \<Rightarrow> 's sec \<Rightarrow> bool" where
  "behind L s g J a cs i mb hm G req zone x \<longleftrightarrow>
     lists_ok L \<and> jlist L s (ixfr_journal_key g (j_zname J)) = [] \<and> history a cs (j_serial J) \<and>
     i < length cs \<and> length cs - i \<le> IXFR_JOURNAL_MAX \<and>
     xfr_get_serial zone (g_zones x) = c_from (cs ! i) \<and> 0 < c_from (cs ! i) \<and> serial_lt (c_from (cs ! i)) (j_serial J) \<and>
     job_ok J \<and> length mb = BUF_SIZE \<and> xfr_auth hm G req (4 * (length cs - i))"

definition answer_to ::
    "'l lists \<Rightarrow> 'l \<Rightarrow> cstr \<Rightarrow> xfr_job \<Rightarrow> change list \<Rightarrow> bytes \<Rightarrow> hmac \<Rightarrow> tsig_cfg \<Rightarrow> int \<times> int \<Rightarrow> bytes \<Rightarrow> cstr \<Rightarrow> 's sec \<Rightarrow> xfr_answer" where
  "answer_to L s g J cs mb hm G now req zone x =
     axfr_answer L hm G now mb g J True (xfr_get_serial zone (g_zones x)) req (fold (journal_change L g (j_zname J)) cs s)"

lemma pull_changes:
  assumes "behind L s g J a cs i mb hm G req zone x"
  shows "\<exists>out. answer_to L s g J cs mb hm G now req zone x = Stream (Some out) \<and>
    xfr_pull K hm G g' zone req out x = Some
      (if \<exists>e \<in> set (map change_entry (drop i cs)). is_addr e
       then (xfr_apply_diffs K g' zone (concat (map entry_diffs (map change_entry (drop i cs)))) (j_serial J) x, True)
       else (xfr_apply K g' zone [] (j_serial J) x, True))"
proof -
  have b: "lists_ok L" "jlist L s (ixfr_journal_key g (j_zname J)) = []" "history a cs (j_serial J)"
    "i < length cs" "length cs - i \<le> IXFR_JOURNAL_MAX" "0 < c_from (cs ! i)" "serial_lt (c_from (cs ! i)) (j_serial J)"
    "job_ok J" "length mb = BUF_SIZE" "xfr_auth hm G req (4 * (length cs - i))" and e: "xfr_get_serial zone (g_zones x) = c_from (cs ! i)"
    using assms by (auto simp: behind_def)
  obtain out st ls where t: "axfr_answer L hm G now mb g J True (c_from (cs ! i)) req (fold (journal_change L g (j_zname J)) cs s) = Stream (Some out)"
    "xfr_stream hm G out (req, False, 0) xfr_start = Some (st, False, ls)" "ixfr_result J (map change_entry (drop i cs)) st" "g_tsig_secret G = [] \<or> ls"
    using transfer_since [OF b] by blast
  have "xfr_pull K hm G g' zone req out x = Some (xfr_finish K G g' zone (c_from (cs ! i)) (st, False, ls) x)"
    using t(2) e by (simp add: xfr_pull_def)
  then show ?thesis unfolding finish_result [OF t(3,4)] answer_to_def e using t(1) by blast
qed

lemma pull_serial:
  assumes "behind L s g J a cs i mb hm G req zone x"
  shows "xfr_get_serial zone (g_zones (xfr_set_serial K g' zone serial (x\<lparr>store := s'\<rparr>))) = serial"
proof -
  have "xfr_get_serial zone (g_zones x) \<noteq> 0" using assms by (auto simp: behind_def)
  then show ?thesis using get_serial_listed [of zone "g_zones x"] by (intro set_serial_get) auto
qed

lemma pull_addresses:
  assumes "behind L s g J a cs i mb hm G req zone x" "kv_ok K" "\<forall>c \<in> set (drop i cs). addr_change c"
    "zone_rep K zone (store x) A" "zone_fits (map change_diff (drop i cs)) A"
  shows "\<exists>out x'. answer_to L s g J cs mb hm G now req zone x = Stream (Some out) \<and> xfr_pull K hm G g' zone req out x = Some (x', True) \<and>
    zone_rep K zone (store x') (fold zone_diff (map change_diff (drop i cs)) A) \<and> xfr_get_serial zone (g_zones x') = j_serial J"
proof -
  let ?x = "xfr_apply_diffs K g' zone (map change_diff (drop i cs)) (j_serial J) x"
  have ne: "drop i cs \<noteq> []" using assms(1) by (simp add: behind_def)
  have "concat (map entry_diffs (map change_entry xs)) = map change_diff xs" if "\<forall>c \<in> set xs. addr_change c" for xs
    using that by (induction xs) (auto simp: change_entry_diffs)
  then have d: "concat (map entry_diffs (map change_entry (drop i cs))) = map change_diff (drop i cs)" using assms(3) by blast
  have "is_addr (change_entry (hd (drop i cs)))" using assms(3) ne change_entry_diffs(2) by auto
  then have "\<exists>e \<in> set (map change_entry (drop i cs)). is_addr e" using ne by (metis hd_in_set image_eqI list.set_map)
  then obtain out where "answer_to L s g J cs mb hm G now req zone x = Stream (Some out)" "xfr_pull K hm G g' zone req out x = Some (?x, True)"
    using pull_changes [OF assms(1), of now K g'] d by auto
  moreover have "zone_rep K zone (fold (xfr_apply_one_diff K zone) (map change_diff (drop i cs)) (store x)) (fold zone_diff (map change_diff (drop i cs)) A)"
    using assms by (intro apply_diffs_rep) (auto simp: change_diff_ok)
  then have "zone_rep K zone (store ?x) (fold zone_diff (map change_diff (drop i cs)) A)"
    unfolding xfr_apply_diffs_def by (intro set_serial_rep [OF assms(2)]) simp
  moreover have "xfr_get_serial zone (g_zones ?x) = j_serial J" unfolding xfr_apply_diffs_def by (rule pull_serial [OF assms(1)])
  ultimately show ?thesis by blast
qed

text \<open>
  The changes that a dynamic update of an address journals: \<open>old\<close> is what the store held, \<open>ip\<close> the new address. The same address again is a
  renewal of the lease.
\<close>

definition ddns_changes :: "cstr option \<Rightarrow> cstr \<Rightarrow> u32 \<Rightarrow> u32 \<Rightarrow> cstr \<Rightarrow> change list" where
  "ddns_changes old ip prev next un =
     (if old = Some ip \<or> next = 0 then [] else [\<lparr>c_from = prev, c_to = next, c_op = 65, c_name = un, c_val = ip\<rparr>])"

lemma with_tsig_reads:
  assumes "12 \<le> length msg"
  shows "drop 12 (with_tsig msg rr) = drop 12 msg @ rr" "get16 (with_tsig msg rr) 8 = get16 msg 8"
  using assms by (simp_all add: with_tsig_def get16_def rd8_def nth_append length_patch nth_patch)

section \<open>Properties\<close>




text \<open>
  The primary reads from the query what the secondary put into it: the zone, whether the transfer is to be incremental, and the serial;
  also when the query carries a signature.
\<close>

theorem transfer_query_roundtrip:
  assumes "name_ok zone" "length q = 600" "4 * length (wire (labels_of zone)) + 46 \<le> 600"
  shows "\<exists>q' n. xfr_query zone serial q = Some (q', Ok n) \<and>
    axfr_request (take n q') n = Some (Some (norm_name zone, 0 < serial, serial)) \<and>
    (\<forall>rr. axfr_request (with_tsig (take n q') rr) (length (with_tsig (take n q') rr)) = Some (Some (norm_name zone, 0 < serial, serial)))"
proof -
  let ?m = "query_msg zone serial"
  have l: "12 \<le> length ?m" "length ?m \<le> 600" using assms(3)
    by (auto simp: query_msg_def query_head_def question_def addr_bytes_def rr_bytes_def soa_wire_def query_soa_def)
  have w: "length (wire (labels_of zone)) \<le> 246" using assms(3) by linarith
  have t: "take (length ?m) (patch q 0 ?m) = ?m" using take_patch_all [of ?m "length ?m" q] assms(2) l(2) by simp
  have "axfr_request ?m (length ?m) = Some (Some (norm_name zone, 0 < serial, serial))"
    using request_reads [OF assms(1) w, of ?m serial "[]"] by simp
  moreover have "axfr_request (with_tsig ?m rr) (length (with_tsig ?m rr)) = Some (Some (norm_name zone, 0 < serial, serial))" for rr
    using request_reads [OF assms(1) w, of "with_tsig ?m rr" serial rr] with_tsig_reads [OF l(1), of rr] by simp
  ultimately show ?thesis using xfr_query_ok [OF assms] t by auto
qed

text \<open>
  C38: Changes whose value is not an address are journaled, but not sent: the automatic PTR records and the services of an SRP registration.
  When a secondary has missed only such changes, the stream consists of the two SOA records around them. The secondary takes it for a full
  transfer of an empty zone: it deletes every record it has, adopts the new serial and reports success.
\<close>

theorem ixfr_without_addresses_empties_zone:
  assumes "behind L s g J a cs i mb hm G req zone x" "kv_ok K" "glob_plain zone" "length zone \<le> 255"
    "\<forall>c \<in> set (drop i cs). addr_rdata (c_val c) = None"
  shows "\<exists>out x'. answer_to L s g J cs mb hm G now req zone x = Stream (Some out) \<and> xfr_pull K hm G g' zone req out x = Some (x', True) \<and>
    (\<forall>t n. kv_get K (store x') (zkey zone t n) = None) \<and> xfr_get_serial zone (g_zones x') = j_serial J"
proof -
  have "\<not> is_addr (change_entry c)" if c: "c \<in> set (drop i cs)" for c
  proof -
    have "c \<in> set cs" using c by (rule in_set_dropD)
    then have "change_ok c" using assms(1) by (auto simp: behind_def history_def plain_change_def)
    then show ?thesis using scan_change [of c] assms(5) c by (simp add: is_addr_def)
  qed
  then have "\<not> (\<exists>e \<in> set (map change_entry (drop i cs)). is_addr e)" by auto
  then obtain out where "answer_to L s g J cs mb hm G now req zone x = Stream (Some out)"
    "xfr_pull K hm G g' zone req out x = Some (xfr_apply K g' zone [] (j_serial J) x, True)"
    using pull_changes [OF assms(1), of now K g'] by auto
  then show ?thesis using apply_nothing [OF assms(2-4)] pull_serial [OF assms(1)] by (auto simp: xfr_apply_def Let_def)
qed

text \<open>
  A dynamic update that moves a name to another address journals the new address only. The primary then has one address, but a secondary
  that catches up keeps the old one beside it.
\<close>

theorem ixfr_moved_address_kept:
  assumes "behind L s g J a (cs @ ddns_changes (Some old) ip prev (j_serial J) un) (length cs) mb hm G req zone x" "kv_ok K"
    "addr_change \<lparr>c_from = prev, c_to = j_serial J, c_op = 65, c_name = un, c_val = ip\<rparr>" "t = (if inet_pton4 ip = None then 28 else 1)"
    "zone_rep K zone (store x) A" "A (t, norm_name un) = Some (ttl, [old])" "\<not> strcaseeq old ip"
    "zone_fits (map change_diff (ddns_changes (Some old) ip prev (j_serial J) un)) A"
  shows "\<exists>out x'. answer_to L s g J (cs @ ddns_changes (Some old) ip prev (j_serial J) un) mb hm G now req zone x = Stream (Some out) \<and>
    xfr_pull K hm G g' zone req out x = Some (x', True) \<and>
    kv_get K (store x') (zkey zone t (norm_name un)) = Some (group_val DEFAULT_TTL [old, ip])"
proof -
  let ?c = "\<lparr>c_from = prev, c_to = j_serial J, c_op = 65, c_name = un, c_val = ip\<rparr>"
  have "ddns_changes (Some old) ip prev (j_serial J) un \<noteq> []" using assms(1) by (auto simp: behind_def)
  then have d: "ddns_changes (Some old) ip prev (j_serial J) un = [?c]" by (auto simp: ddns_changes_def split: if_splits)
  have n: "grouped t" "length (norm_name un) \<le> 255" using assms(3,4) length_norm_name [of un] by (auto simp: grouped_def addr_change_def)
  obtain out x' where o: "answer_to L s g J (cs @ [?c]) mb hm G now req zone x = Stream (Some out)" "xfr_pull K hm G g' zone req out x = Some (x', True)"
    "zone_rep K zone (store x') (zone_diff (change_diff ?c) A)"
    using pull_addresses [OF assms(1)[unfolded d] assms(2) _ assms(5), of now g'] assms(3,8) unfolding d by auto
  have "zone_diff (change_diff ?c) A (t, norm_name un) = Some (DEFAULT_TTL, [old, ip])"
    using assms(4,6,7) by (simp add: zone_diff_def change_diff_def rrset_diff_def Let_def DEFAULT_TTL_def)
  then have "kv_get K (store x') (zkey zone t (norm_name un)) = Some (group_val DEFAULT_TTL [old, ip])"
    using o(3) n unfolding zone_rep_def by (simp add: rrset_text_def)
  then show ?thesis using o d by auto
qed

text \<open>
  The query for an incremental transfer is built in an array of 600 bytes without a check for the last fields. For a zone whose name takes
  between 139 and 143 bytes on the wire, its fourth copy still fits, and the numbers behind it are written past the end of the array.
\<close>

theorem xfr_query_overflow:
  assumes "name_ok zone" "length q = 600" "length (wire (labels_of zone)) \<in> {139..143}" "0 < serial"
  shows "xfr_query zone serial q = None"
  using assms by (intro xfr_query_overflows) auto

section \<open>Witnesses\<close>

definition demo_kv :: "(cstr \<times> cstr) list kv" where
  "demo_kv = \<lparr>kv_get = map_of, kv_set = (\<lambda>s k v. (k, v) # s), kv_del = (\<lambda>s k. filter (\<lambda>(k', _). k' \<noteq> k) s),
     kv_keys = (\<lambda>s p. filter (\<lambda>k. take (length p - 1) k = butlast p) (map fst s))\<rparr>"

definition demo_lists :: "(cstr \<Rightarrow> cstr list) lists" where
  "demo_lists = \<lparr>rpush = (\<lambda>s k v. (s(k := s k @ [v]), Some (int (length (s k) + 1)))),
     ltrim = (\<lambda>s k a b. s(k := lastn (fst (digits_val 10 0 (tl a))) (s k))), lrange = (\<lambda>s k a b. Some (map Some (s k)))\<rparr>"

lemma demo_kv_ok: "kv_ok demo_kv"
proof -
  have "map_of (filter (\<lambda>(k', _). k' \<noteq> k) s) k' = (if k' = k then None else map_of s k')" for s :: "(cstr \<times> cstr) list" and k k'
    by (induction s) auto
  then show ?thesis by (auto simp: kv_ok_def demo_kv_def map_of_eq_None_iff)
qed

lemma demo_lists_ok: "lists_ok demo_lists"
proof -
  have "fst (digits_val 10 0 (dec n)) = n" for n using digits_val_dec [of 0 n "[]"] by simp
  then show ?thesis by (simp add: lists_ok_def demo_lists_def jlist_def del: map_append)
qed

definition demo_job :: xfr_job where
  "demo_job = \<lparr>j_qid = 7, j_zname = str ''example'',
     j_soa = \<lparr>soa_mname = str ''ns'', soa_rname = str ''admin'', soa_refresh = 1, soa_retry = 2, soa_expire = 3, soa_minimum = 4\<rparr>, j_serial = 2\<rparr>"

definition demo_change :: "cstr \<Rightarrow> change" where
  "demo_change v = \<lparr>c_from = 1, c_to = 2, c_op = 65, c_name = str ''www.example'', c_val = v\<rparr>"

definition demo_sec :: "(cstr \<times> cstr) list \<Rightarrow> (cstr \<times> cstr) list sec" where
  "demo_sec s = \<lparr>store = s, g_soa_serial = 1, g_zones = [(str ''example'', 1)]\<rparr>"

definition no_key :: tsig_cfg where
  "no_key = \<lparr>g_tsig_key_name = [], g_tsig_secret = []\<rparr>"

lemma demo_names: "name_ok (str ''example'')" "name_ok (str ''www.example'')" "name_ok (str ''ns'')" "name_ok (str ''admin'')"
  by code_simp+

lemma demo_job_ok: "job_ok demo_job"
proof -
  have "length (wire (labels_of (str ''ns''))) + length (wire (labels_of (str ''admin''))) + 20 \<le> 512" by code_simp
  then show ?thesis using demo_names by (simp add: job_ok_def demo_job_def soa_ok_def length_soa_wire)
qed

lemma demo_change_ok:
  "change_ok (demo_change (str ''192.0.2.1''))" "change_ok (demo_change (str ''192.0.2.9''))" "change_ok (demo_change (str ''host.example''))"
  by (simp_all add: change_ok_def demo_change_def str_def)

lemma demo_addr: "addr_rdata (str ''192.0.2.9'') = Some (1, [192, 0, 2, 9])" "addr_text [192, 0, 2, 9] = str ''192.0.2.9''"
  "addr_rdata (str ''host.example'') = None" "inet_pton4 (str ''192.0.2.9'') = Some [192, 0, 2, 9]" "124 \<notin> set (str ''192.0.2.9'')"
  by code_simp+

lemma demo_behind:
  assumes "change_ok (demo_change v)" "g_tsig_secret G = [] \<or> hmac_ok hm \<and> tsig_key G \<and> req \<noteq> []"
  shows "behind demo_lists (\<lambda>_. []) (str ''example'') demo_job 1 [demo_change v] 0 (replicate BUF_SIZE 0) hm G req (str ''example'') (demo_sec s)"
proof -
  have "serial_lt 1 2" by code_simp
  moreover have "IXFR_JOURNAL_MAX = 4096" by (simp add: IXFR_JOURNAL_MAX_def)
  moreover have "history 1 [demo_change v] 2"
    using assms(1) demo_names(2) by (simp add: history_def plain_change_def) (simp add: demo_change_def)
  ultimately show ?thesis using demo_lists_ok demo_job_ok assms(2)
    by (auto simp: behind_def xfr_auth_def demo_sec_def jlist_def demo_lists_def demo_job_def demo_change_def List.map_filter_def)
qed

lemma demo_addr_change: "addr_change (demo_change (str ''192.0.2.9''))"
  using demo_change_ok(2) demo_names(2) demo_addr by (auto simp: addr_change_def demo_change_def)

lemma demo_fits: "rrset_ok (Some (60, [str ''192.0.2.9'']))" "rrset_ok (Some (60, [str ''192.0.2.1'']))" "rrset_ok (Some (60, [str ''192.0.2.1'', str ''192.0.2.9'']))"
  by code_simp+





theorem transfer_query_roundtrip_witness:
  "\<exists>q' n. xfr_query (str ''example'') 5 (replicate 600 0) = Some (q', Ok n) \<and>
    axfr_request (take n q') n = Some (Some (norm_name (str ''example''), 0 < (5 :: u32), 5)) \<and>
    (\<forall>rr. axfr_request (with_tsig (take n q') rr) (length (with_tsig (take n q') rr)) = Some (Some (norm_name (str ''example''), 0 < (5 :: u32), 5)))"
proof (rule transfer_query_roundtrip [OF demo_names(1)])
  show "4 * length (wire (labels_of (str ''example''))) + 46 \<le> 600" by code_simp
qed simp

theorem ixfr_without_addresses_empties_zone_witness:
  "\<exists>out x'. answer_to demo_lists (\<lambda>_. []) (str ''example'') demo_job [demo_change (str ''host.example'')] (replicate BUF_SIZE 0) demo_hmac no_key (0, 0) []
      (str ''example'') (demo_sec [(zkey (str ''example'') 1 (str ''www.example''), str ''60|192.0.2.1'')]) = Stream (Some out) \<and>
    xfr_pull demo_kv demo_hmac no_key (str ''example'') (str ''example'') [] out
      (demo_sec [(zkey (str ''example'') 1 (str ''www.example''), str ''60|192.0.2.1'')]) = Some (x', True) \<and>
    (\<forall>t n. kv_get demo_kv (store x') (zkey (str ''example'') t n) = None) \<and> xfr_get_serial (str ''example'') (g_zones x') = j_serial demo_job"
proof (rule ixfr_without_addresses_empties_zone)
  show "behind demo_lists (\<lambda>_. []) (str ''example'') demo_job 1 [demo_change (str ''host.example'')] 0 (replicate BUF_SIZE 0) demo_hmac no_key []
      (str ''example'') (demo_sec [(zkey (str ''example'') 1 (str ''www.example''), str ''60|192.0.2.1'')])"
    using demo_change_ok(3) by (intro demo_behind) (simp_all add: no_key_def)
  show "glob_plain (str ''example'')" "length (str ''example'') \<le> 255" by (simp_all add: glob_plain_def str_def)
  show "\<forall>c \<in> set (drop 0 [demo_change (str ''host.example'')]). addr_rdata (c_val c) = None" using demo_addr(3) by (simp add: demo_change_def)
qed (rule demo_kv_ok)

definition demo_sets :: zone_sets where
  "demo_sets = (\<lambda>_. None)((1, norm_name (str ''www.example'')) := Some (60, [str ''192.0.2.1'']))"

definition demo_moved :: "(cstr \<times> cstr) list sec" where
  "demo_moved = demo_sec [(zkey (str ''example'') 1 (norm_name (str ''www.example'')), group_val 60 [str ''192.0.2.1''])]"

lemma demo_sets_rep: "zone_rep demo_kv (str ''example'') (store demo_moved) demo_sets"
proof -
  have n: "length (norm_name (str ''www.example'')) \<le> 255" "grouped 1" using length_norm_name [OF demo_names(2)] by (simp_all add: grouped_def)
  show ?thesis
    unfolding zone_rep_def
    using zkey_inj [OF _ n(2) _ n(1), of _ _ "str ''example''"]
    by (auto simp: demo_kv_def demo_moved_def demo_sec_def demo_sets_def rrset_text_def)
qed

theorem ixfr_moved_address_kept_witness:
  "\<exists>out x'. answer_to demo_lists (\<lambda>_. []) (str ''example'') demo_job ([] @ ddns_changes (Some (str ''192.0.2.1'')) (str ''192.0.2.9'') 1 (j_serial demo_job) (str ''www.example''))
      (replicate BUF_SIZE 0) demo_hmac no_key (0, 0) [] (str ''example'') demo_moved = Stream (Some out) \<and>
    xfr_pull demo_kv demo_hmac no_key (str ''example'') (str ''example'') [] out demo_moved = Some (x', True) \<and>
    kv_get demo_kv (store x') (zkey (str ''example'') 1 (norm_name (str ''www.example''))) = Some (group_val DEFAULT_TTL [str ''192.0.2.1'', str ''192.0.2.9''])"
proof -
  have ne: "str ''192.0.2.1'' \<noteq> str ''192.0.2.9''" "\<not> strcaseeq (str ''192.0.2.1'') (str ''192.0.2.9'')" by code_simp+
  have d: "ddns_changes (Some (str ''192.0.2.1'')) (str ''192.0.2.9'') 1 (j_serial demo_job) (str ''www.example'') = [demo_change (str ''192.0.2.9'')]"
    using ne(1) by (simp add: ddns_changes_def demo_job_def demo_change_def)
  have b: "behind demo_lists (\<lambda>_. []) (str ''example'') demo_job 1 ([] @ [demo_change (str ''192.0.2.9'')]) (length ([] :: change list)) (replicate BUF_SIZE 0) demo_hmac no_key []
      (str ''example'') demo_moved"
    using demo_behind [OF demo_change_ok(2), of no_key demo_hmac "[]"] by (simp add: no_key_def demo_moved_def)
  have f: "zone_fits (map change_diff [demo_change (str ''192.0.2.9'')]) demo_sets"
    using demo_fits demo_addr(4) ne(2)
    by (auto simp: rrset_ok_def [of None] demo_sets_def zone_diff_def change_diff_def demo_change_def rrset_diff_def DEFAULT_TTL_def Let_def)
  show ?thesis
  proof (rule ixfr_moved_address_kept [OF _ demo_kv_ok _ _ demo_sets_rep])
    show "behind demo_lists (\<lambda>_. []) (str ''example'') demo_job 1 ([] @ ddns_changes (Some (str ''192.0.2.1'')) (str ''192.0.2.9'') 1 (j_serial demo_job) (str ''www.example''))
        (length ([] :: change list)) (replicate BUF_SIZE 0) demo_hmac no_key [] (str ''example'') demo_moved"
      using b d by simp
    show "addr_change \<lparr>c_from = 1, c_to = j_serial demo_job, c_op = 65, c_name = str ''www.example'', c_val = str ''192.0.2.9''\<rparr>"
      using demo_addr_change by (simp add: demo_change_def demo_job_def)
    show "1 = (if inet_pton4 (str ''192.0.2.9'') = None then 28 else 1)" using demo_addr(4) by simp
    show "demo_sets (1, norm_name (str ''www.example'')) = Some (60, [str ''192.0.2.1''])" by (simp add: demo_sets_def)
    show "\<not> strcaseeq (str ''192.0.2.1'') (str ''192.0.2.9'')" by (rule ne(2))
    show "zone_fits (map change_diff (ddns_changes (Some (str ''192.0.2.1'')) (str ''192.0.2.9'') 1 (j_serial demo_job) (str ''www.example''))) demo_sets"
      using f d by simp
  qed
qed

definition long_zone :: cstr where
  "long_zone = replicate 63 97 @ 46 # replicate 63 97 @ 46 # replicate 10 97"

lemma long_zone_labels: "labels_of long_zone = [replicate 63 97, replicate 63 97, replicate 10 97]"
proof -
  have "labels_of (join 46 [replicate 63 97, replicate 63 97, replicate 10 97]) = [replicate 63 97, replicate 63 97, replicate 10 97 :: cstr]"
    by (rule labels_of_join) simp_all
  then show ?thesis by (simp add: long_zone_def)
qed

theorem xfr_query_overflow_witness: "xfr_query long_zone 1 (replicate 600 0) = None"
proof (rule xfr_query_overflow)
  show "name_ok long_zone" by (simp add: name_ok_def long_zone_labels) (simp add: long_zone_def)
  show "length (wire (labels_of long_zone)) \<in> {139..143}" by (simp add: long_zone_labels length_wire)
qed simp_all

end
