(* ===== verification/Xml.thy ===== *)
theory Xml
  imports CString
begin

text \<open>
  The XML of the EPP daemon (\<open>xml_next_tag\<close>, \<open>xml_skip_to_close\<close>, \<open>xml_find_child\<close>, \<open>xml_find_child_attr\<close>, \<open>epp_xml_attr_extract\<close> and
  \<open>xml_text_decode\<close> of \<open>eppd.c\<close>). The frame is an array of octets and a range is a pair of offsets into it; a read outside of the array is \<open>None\<close>.
  \<open>xml_skip_to_close\<close> is recursive in C and the searches are loops; all are partial functions here, and the first lemmas show that they return,
  stay inside their range and move forward. The second half relates them to document trees: a tree is rendered to text, and the searches and the decoder
  read it back.
\<close>

section \<open>Tags\<close>

definition EPP_XML_MAX_DEPTH :: nat where "EPP_XML_MAX_DEPTH = 32"

datatype xml_tagkind_t = XMLTAG_OPEN | XMLTAG_CLOSE | XMLTAG_SELFCLOSE | XMLTAG_SKIP | XMLTAG_ERROR | XMLTAG_EOF

text \<open>What \<open>xml_next_tag\<close> returns and leaves behind its pointers: the kind, \<open>*pos\<close>, the name and \<open>*tag_start\<close>.\<close>

record xml_tok =
  kind :: xml_tagkind_t
  tpos :: nat
  tname :: bytes
  tstart :: nat

definition tok :: "xml_tagkind_t \<Rightarrow> nat \<Rightarrow> bytes \<Rightarrow> nat \<Rightarrow> xml_tok option" where
  "tok k p n s = Some \<lparr>kind = k, tpos = p, tname = n, tstart = s\<rparr>"

abbreviation "c_lt \<equiv> 60 :: u8"
abbreviation "c_gt \<equiv> 62 :: u8"
abbreviation "c_slash \<equiv> 47 :: u8"
abbreviation "c_bang \<equiv> 33 :: u8"
abbreviation "c_qm \<equiv> 63 :: u8"
abbreviation "c_dquote \<equiv> 34 :: u8"
abbreviation "c_quote \<equiv> 39 :: u8"
abbreviation "c_amp \<equiv> 38 :: u8"
abbreviation "c_semi \<equiv> 59 :: u8"
abbreviation "c_eq \<equiv> 61 :: u8"

definition is_blank :: "u8 \<Rightarrow> bool" where
  "is_blank c \<longleftrightarrow> c = 32 \<or> c = 9 \<or> c = 13 \<or> c = 10"

text \<open>The loop \<open>while (p < end && !(stop at buf[p])) p++\<close>.\<close>

function scan_until :: "(u8 \<Rightarrow> bool) \<Rightarrow> bytes \<Rightarrow> nat \<Rightarrow> nat \<Rightarrow> nat option" where
  "scan_until halt buf p lim =
     (if p < lim then do { c \<leftarrow> rd8 buf p; if halt c then Some p else scan_until halt buf (p + 1) lim } else Some p)"
  by pat_completeness auto
termination by (relation "measure (\<lambda>(halt, buf, p, lim). lim - p)") auto

text \<open>The loop that looks for the bytes \<open>mark\<close> that end a comment, a CDATA section or a processing instruction.\<close>

function scan_mark :: "bytes \<Rightarrow> bytes \<Rightarrow> nat \<Rightarrow> nat \<Rightarrow> nat option" where
  "scan_mark mark buf q lim =
     (if q + length mark \<le> lim
      then do { w \<leftarrow> rdn buf q (length mark); if w = mark then Some q else scan_mark mark buf (q + 1) lim }
      else Some q)"
  by pat_completeness auto
termination by (relation "measure (\<lambda>(mark, buf, q, lim). Suc lim - q)") auto

declare scan_until.simps [simp del] scan_mark.simps [simp del]

lemma scan_until_ge: "scan_until halt buf p lim = Some q \<Longrightarrow> p \<le> q"
proof (induction halt buf p lim rule: scan_until.induct)
  case (1 halt buf p lim)
  then show ?case
    by (subst (asm) (2) scan_until.simps) (force simp: bind_eq_Some_conv split: if_splits)
qed

text \<open>The end of the attributes: the position behind the tag, whether it closes itself, and the quote that is still open (0 for none).\<close>

function skip_attrs :: "bytes \<Rightarrow> nat \<Rightarrow> nat \<Rightarrow> u8 \<Rightarrow> (nat \<times> bool \<times> u8) option" where
  "skip_attrs buf p lim quote =
     (if p < lim then do {
        c \<leftarrow> rd8 buf p;
        if quote \<noteq> 0 then skip_attrs buf (p + 1) lim (if c = quote then 0 else quote)
        else if c = c_dquote \<or> c = c_quote then skip_attrs buf (p + 1) lim c
        else if c = c_slash \<and> p + 1 < lim then do {
          d \<leftarrow> rd8 buf (p + 1);
          if d = c_gt then Some (p + 2, True, 0) else skip_attrs buf (p + 1) lim 0 }
        else if c = c_gt then Some (p + 1, False, 0)
        else skip_attrs buf (p + 1) lim 0 }
      else Some (p, False, quote))"
  by pat_completeness auto
termination by (relation "measure (\<lambda>(buf, p, lim, quote). lim - p)") auto

declare skip_attrs.simps [simp del]

text \<open>A comment, CDATA section or processing instruction that began at \<open>p\<close>: \<open>q\<close> is where its body begins.\<close>

definition skip_section :: "bytes \<Rightarrow> bytes \<Rightarrow> nat \<Rightarrow> nat \<Rightarrow> nat \<Rightarrow> nat \<Rightarrow> xml_tok option" where
  "skip_section mark buf pos p q lim = do {
     q \<leftarrow> scan_mark mark buf q lim;
     if q + length mark > lim then tok XMLTAG_ERROR pos [] p
     else tok XMLTAG_SKIP (q + length mark) [] p }"

definition xml_markup :: "bytes \<Rightarrow> nat \<Rightarrow> nat \<Rightarrow> nat \<Rightarrow> xml_tok option" where
  "xml_markup buf pos p lim = do {
     dashes \<leftarrow> (if p + 3 < lim then do { w \<leftarrow> rdn buf (p + 2) 2; Some (w = str ''--'') } else Some False);
     if dashes then skip_section (str ''-->'') buf pos p (p + 4) lim
     else do {
       cdata \<leftarrow> (if p + 8 < lim then do { w \<leftarrow> rdn buf (p + 2) 7; Some (w = str ''[CDATA['') } else Some False);
       if cdata then skip_section (str '']]>'') buf pos p (p + 9) lim
       else tok XMLTAG_ERROR pos [] p } }"

definition xml_element :: "bytes \<Rightarrow> nat \<Rightarrow> nat \<Rightarrow> nat \<Rightarrow> xml_tok option" where
  "xml_element buf pos start lim = do {
     is_close \<leftarrow> (if start + 1 < lim then do { c \<leftarrow> rd8 buf (start + 1); Some (c = c_slash) } else Some False);
     let nstart = (if is_close then start + 2 else start + 1);
     p \<leftarrow> scan_until (\<lambda>c. c = c_gt \<or> c = c_slash \<or> is_blank c) buf nstart lim;
     if p = nstart \<or> p \<ge> lim then tok XMLTAG_ERROR pos [] start
     else do {
       name \<leftarrow> rdn buf nstart (p - nstart);
       (p, selfclose, quote) \<leftarrow> skip_attrs buf p lim 0;
       if quote \<noteq> 0 \<or> p > lim then tok XMLTAG_ERROR pos name start
       else tok (if is_close then (if selfclose then XMLTAG_ERROR else XMLTAG_CLOSE)
                 else (if selfclose then XMLTAG_SELFCLOSE else XMLTAG_OPEN)) p name start } }"

definition xml_next_tag :: "bytes \<Rightarrow> nat \<Rightarrow> nat \<Rightarrow> xml_tok option" where
  "xml_next_tag buf pos lim = do {
     p \<leftarrow> scan_until (\<lambda>c. c = c_lt) buf pos lim;
     if p \<ge> lim then tok XMLTAG_EOF lim [] pos
     else do {
       c \<leftarrow> (if p + 1 < lim then rd8 buf (p + 1) else Some 0);
       if p + 1 < lim \<and> c = c_bang then xml_markup buf pos p lim
       else if p + 1 < lim \<and> c = c_qm then skip_section (str ''?>'') buf pos p (p + 2) lim
       else xml_element buf pos p lim } }"

section \<open>Elements\<close>

text \<open>
  The loop of \<open>xml_skip_to_close\<close>; the result is the offset behind the close tag and the one where it begins, or \<open>Err\<close> for -1.
\<close>

partial_function (option) xml_skip_to_close :: "bytes \<Rightarrow> nat \<Rightarrow> nat \<Rightarrow> bytes \<Rightarrow> nat \<Rightarrow> (nat \<times> nat) cres option" where
  "xml_skip_to_close buf pos lim name depth =
     (if depth > EPP_XML_MAX_DEPTH then Some Err
      else do {
        t \<leftarrow> xml_next_tag buf pos lim;
        case kind t of
          XMLTAG_SKIP \<Rightarrow> xml_skip_to_close buf (tpos t) lim name depth
        | XMLTAG_OPEN \<Rightarrow> do {
            r \<leftarrow> xml_skip_to_close buf (tpos t) lim (tname t) (depth + 1);
            case r of Err \<Rightarrow> Some Err | Ok (np, _) \<Rightarrow> xml_skip_to_close buf np lim name depth }
        | XMLTAG_SELFCLOSE \<Rightarrow> xml_skip_to_close buf (tpos t) lim name depth
        | XMLTAG_CLOSE \<Rightarrow> Some (if tname t = name then Ok (tpos t, tstart t) else Err)
        | XMLTAG_ERROR \<Rightarrow> Some Err
        | XMLTAG_EOF \<Rightarrow> Some Err })"

text \<open>The results 1, 0 and -1 of the searches; a match has the range of the content and the place behind the element.\<close>

datatype 'a found = Found 'a | Absent | Malformed

partial_function (option) xml_find_child :: "bytes \<Rightarrow> nat \<Rightarrow> nat \<Rightarrow> cstr \<Rightarrow> (nat \<times> nat \<times> nat) found option" where
  "xml_find_child buf pos lim tag = do {
     t \<leftarrow> xml_next_tag buf pos lim;
     case kind t of
       XMLTAG_SKIP \<Rightarrow> xml_find_child buf (tpos t) lim tag
     | XMLTAG_CLOSE \<Rightarrow> Some Absent
     | XMLTAG_EOF \<Rightarrow> Some Absent
     | XMLTAG_SELFCLOSE \<Rightarrow>
         (if tname t = tag then Some (Found (tpos t, tpos t, tpos t)) else xml_find_child buf (tpos t) lim tag)
     | XMLTAG_OPEN \<Rightarrow> do {
         r \<leftarrow> xml_skip_to_close buf (tpos t) lim (tname t) 1;
         case r of Err \<Rightarrow> Some Malformed
         | Ok (np, close_start) \<Rightarrow>
             if tname t = tag then Some (Found (tpos t, close_start, np)) else xml_find_child buf np lim tag }
     | XMLTAG_ERROR \<Rightarrow> Some Malformed }"

text \<open>
  \<open>epp_xml_attr_extract\<close>: the scan over the raw text of a tag; the result is the string left in \<open>out\<close>.
\<close>

definition isalnum :: "u8 \<Rightarrow> bool" where
  "isalnum c \<longleftrightarrow> isdigit c \<or> 65 \<le> c \<and> c \<le> 90 \<or> 97 \<le> c \<and> c \<le> 122"

abbreviation not_gap :: "u8 \<Rightarrow> bool" where
  "not_gap c \<equiv> c \<noteq> 32 \<and> c \<noteq> 9"

text \<open>One candidate at \<open>i\<close>: \<open>Absent\<close> is \<open>continue\<close>, \<open>Malformed\<close> the early return that leaves \<open>out\<close> empty.\<close>

definition attr_at :: "bytes \<Rightarrow> nat \<Rightarrow> nat \<Rightarrow> nat \<Rightarrow> cstr \<Rightarrow> bytes found option" where
  "attr_at xml tag_start tag_end i attr = do {
     mid \<leftarrow> (if i > tag_start then do { c \<leftarrow> rd8 xml (i - 1); Some (isalnum c \<or> c = 58 \<or> c = 45) } else Some False);
     if mid then Some Absent
     else do {
       w \<leftarrow> rdn xml i (length attr);
       if w \<noteq> attr then Some Absent
       else do {
         j \<leftarrow> scan_until not_gap xml (i + length attr) tag_end;
         c \<leftarrow> (if j < tag_end then rd8 xml j else Some 0);
         if j \<ge> tag_end \<or> c \<noteq> c_eq then Some Absent
         else do {
           j \<leftarrow> scan_until not_gap xml (j + 1) tag_end;
           q \<leftarrow> (if j < tag_end then rd8 xml j else Some 0);
           if j \<ge> tag_end \<or> q \<noteq> c_dquote \<and> q \<noteq> c_quote then Some Absent
           else do {
             k \<leftarrow> scan_until (\<lambda>c. c = q) xml (j + 1) tag_end;
             if k \<ge> tag_end then Some Malformed
             else do { v \<leftarrow> rdn xml (j + 1) (k - (j + 1)); Some (Found v) } } } } } }"

function attr_scan :: "bytes \<Rightarrow> nat \<Rightarrow> nat \<Rightarrow> nat \<Rightarrow> cstr \<Rightarrow> bytes found option" where
  "attr_scan xml tag_start tag_end i attr =
     (if i + length attr < tag_end then do {
        r \<leftarrow> attr_at xml tag_start tag_end i attr;
        if r = Absent then attr_scan xml tag_start tag_end (i + 1) attr else Some r }
      else Some Absent)"
  by pat_completeness auto
termination by (relation "measure (\<lambda>(xml, tag_start, tag_end, i, attr). tag_end - i)") auto

declare attr_scan.simps [simp del]

definition epp_xml_attr_extract :: "bytes \<Rightarrow> nat \<Rightarrow> nat \<Rightarrow> cstr \<Rightarrow> nat \<Rightarrow> cstr option" where
  "epp_xml_attr_extract xml tag_start tag_end attr outcap = do {
     r \<leftarrow> attr_scan xml tag_start tag_end tag_start attr;
     Some (case r of Found v \<Rightarrow> cstr_of (take (outcap - 1) v) | _ \<Rightarrow> []) }"

text \<open>A match also has the attribute; without a match the caller's string stays as it was.\<close>

partial_function (option) xml_find_child_attr ::
    "bytes \<Rightarrow> nat \<Rightarrow> nat \<Rightarrow> cstr \<Rightarrow> cstr \<Rightarrow> nat \<Rightarrow> (cstr \<times> nat \<times> nat \<times> nat) found option" where
  "xml_find_child_attr xml pos lim tag attr attr_cap = do {
     t \<leftarrow> xml_next_tag xml pos lim;
     case kind t of
       XMLTAG_SKIP \<Rightarrow> xml_find_child_attr xml (tpos t) lim tag attr attr_cap
     | XMLTAG_CLOSE \<Rightarrow> Some Absent
     | XMLTAG_EOF \<Rightarrow> Some Absent
     | XMLTAG_SELFCLOSE \<Rightarrow>
         (if tname t = tag then do {
            a \<leftarrow> epp_xml_attr_extract xml (tstart t) (tpos t) attr attr_cap;
            Some (Found (a, tpos t, tpos t, tpos t)) }
          else xml_find_child_attr xml (tpos t) lim tag attr attr_cap)
     | XMLTAG_OPEN \<Rightarrow> do {
         r \<leftarrow> xml_skip_to_close xml (tpos t) lim (tname t) 1;
         case r of Err \<Rightarrow> Some Malformed
         | Ok (np, close_start) \<Rightarrow>
             if tname t = tag then do {
               a \<leftarrow> epp_xml_attr_extract xml (tstart t) (tpos t) attr attr_cap;
               Some (Found (a, tpos t, close_start, np)) }
             else xml_find_child_attr xml np lim tag attr attr_cap }
     | XMLTAG_ERROR \<Rightarrow> Some Malformed }"

section \<open>Text\<close>

definition utf8 :: "nat \<Rightarrow> bytes" where
  "utf8 cp =
     (if cp < 0x80 then [of_nat cp]
      else if cp < 0x800 then [of_nat (0xC0 + cp div 64), of_nat (0x80 + cp mod 64)]
      else if cp < 0x10000 then [of_nat (0xE0 + cp div 4096), of_nat (0x80 + cp div 64 mod 64), of_nat (0x80 + cp mod 64)]
      else [of_nat (0xF0 + cp div 262144), of_nat (0x80 + cp div 4096 mod 64), of_nat (0x80 + cp div 64 mod 64),
            of_nat (0x80 + cp mod 64)])"

text \<open>The code point of the entity \<open>&e;\<close>, or \<open>None\<close> for the branches that return -1.\<close>

definition entity :: "bytes \<Rightarrow> nat option" where
  "entity e =
     (if e = str ''lt'' then Some 60
      else if e = str ''gt'' then Some 62
      else if e = str ''amp'' then Some 38
      else if e = str ''apos'' then Some 39
      else if e = str ''quot'' then Some 34
      else if length e \<ge> 2 \<and> e ! 0 = 35 then
        (let hex = (length e \<ge> 3 \<and> (e ! 1 = 120 \<or> e ! 1 = 88));
             num = drop (if hex then 2 else 1) e;
             (v, r) = strtol (if hex then 16 else 10) (cstr_of num)
         in if num = [] \<or> length num \<ge> 16 \<or> r \<noteq> [] \<or> v \<le> 0 \<or> v > 0x10FFFF then None else Some (nat v))
      else None)"

text \<open>The loop that decodes: \<open>out\<close> is the array, \<open>n\<close> the number of bytes written to it.\<close>

function text_loop :: "bytes \<Rightarrow> nat \<Rightarrow> nat \<Rightarrow> bytes \<Rightarrow> nat \<Rightarrow> nat \<Rightarrow> (bytes \<times> nat cres) option" where
  "text_loop buf i lim out n outcap =
     (if i < lim then do {
        c \<leftarrow> rd8 buf i;
        if c \<noteq> c_amp then
          (if n + 1 \<ge> outcap then Some (out, Err)
           else do { out \<leftarrow> wr8 out n c; text_loop buf (i + 1) lim out (n + 1) outcap })
        else do {
          semi \<leftarrow> scan_until (\<lambda>c. c = c_semi) buf (i + 1) (min lim (i + 12));
          s \<leftarrow> (if semi < lim then rd8 buf semi else Some 0);
          if semi \<ge> lim \<or> s \<noteq> c_semi then Some (out, Err)
          else do {
            e \<leftarrow> rdn buf (i + 1) (semi - i - 1);
            case entity e of None \<Rightarrow> Some (out, Err)
            | Some cp \<Rightarrow>
                let u = utf8 cp in
                if n + length u \<ge> outcap then Some (out, Err)
                else do { out \<leftarrow> wrn out n u; text_loop buf (semi + 1) lim out (n + length u) outcap } } } }
      else do { out \<leftarrow> wr8 out n 0; Some (out, Ok n) })"
  by pat_completeness auto
termination
  by (relation "measure (\<lambda>(buf, i, lim, out, n, outcap). lim - i)") (auto dest!: scan_until_ge)

declare text_loop.simps [simp del]

definition xml_text_decode :: "bytes \<Rightarrow> nat \<Rightarrow> nat \<Rightarrow> bytes \<Rightarrow> nat \<Rightarrow> (bytes \<times> nat cres) option" where
  "xml_text_decode buf start lim out outcap = do {
     cdata \<leftarrow> (if start + 12 \<le> lim then do {
                 a \<leftarrow> rdn buf start 9; b \<leftarrow> rdn buf (lim - 3) 3; Some (a = str ''<![CDATA['' \<and> b = str '']]>'') }
               else Some False);
     if cdata then
       (let len = lim - 3 - (start + 9) in
        if len \<ge> outcap then Some (out, Err)
        else do {
          v \<leftarrow> rdn buf (start + 9) len;
          out \<leftarrow> wrn out 0 v;
          out \<leftarrow> wr8 out len 0;
          Some (out, Ok len) })
     else text_loop buf start lim out 0 outcap }"

section \<open>Every search ends and stays inside the buffer\<close>

lemma scan_until_ok:
  assumes "lim \<le> length buf"
  shows "\<exists>q. scan_until halt buf p lim = Some q \<and> p \<le> q \<and> (p \<le> lim \<longrightarrow> q \<le> lim) \<and> (q < lim \<longrightarrow> halt (buf ! q))"
  using assms
proof (induction halt buf p lim rule: scan_until.induct)
  case (1 halt buf p lim)
  show ?case
  proof (cases "p < lim \<and> \<not> halt (buf ! p)")
    case True
    then obtain q where "scan_until halt buf (p + 1) lim = Some q" "p + 1 \<le> q" "q \<le> lim" "q < lim \<longrightarrow> halt (buf ! q)"
      using 1 by (auto simp: rd8_ok)
    then show ?thesis using True 1(2) by (auto simp: scan_until.simps [of halt buf p] rd8_ok)
  next
    case False
    then show ?thesis using 1(2) by (auto simp: scan_until.simps [of halt buf p] rd8_ok)
  qed
qed

lemma scan_mark_ok:
  assumes "lim \<le> length buf"
  shows "\<exists>q'. scan_mark mark buf q lim = Some q' \<and> q \<le> q'"
  using assms
proof (induction mark buf q lim rule: scan_mark.induct)
  case (1 mark buf q lim)
  show ?case
  proof (cases "q + length mark \<le> lim \<and> take (length mark) (drop q buf) \<noteq> mark")
    case True
    then obtain q' where "scan_mark mark buf (q + 1) lim = Some q'" "q + 1 \<le> q'"
      using 1 by (auto simp: rdn_ok)
    then show ?thesis using True 1(2) by (auto simp: scan_mark.simps [of mark buf q] rdn_ok)
  next
    case False
    then show ?thesis using 1(2) by (auto simp: scan_mark.simps [of mark buf q] rdn_ok)
  qed
qed

lemma skip_attrs_step:
  assumes "lim \<le> length buf" "p < lim"
  shows "(\<exists>q. skip_attrs buf p lim quote = skip_attrs buf (p + 1) lim q)
    \<or> p + 2 \<le> lim \<and> skip_attrs buf p lim quote = Some (p + 2, True, 0) \<or> skip_attrs buf p lim quote = Some (p + 1, False, 0)"
  using assms by (subst (1 3 4) skip_attrs.simps) (auto simp: rd8_ok)

lemma skip_attrs_ok:
  assumes "lim \<le> length buf" "p \<le> lim"
  shows "\<exists>p' sc quote'. skip_attrs buf p lim quote = Some (p', sc, quote') \<and> p \<le> p' \<and> p' \<le> lim"
  using assms(2)
proof (induction "lim - p" arbitrary: p quote)
  case 0
  then have "skip_attrs buf p lim quote = Some (p, False, quote)" by (simp add: skip_attrs.simps [of buf p])
  then show ?case using 0 by blast
next
  case (Suc k)
  have IH: "\<exists>p' sc quote'. skip_attrs buf (p + 1) lim q = Some (p', sc, quote') \<and> p + 1 \<le> p' \<and> p' \<le> lim" for q
    using Suc by (intro Suc.hyps(1)) auto
  show ?case
    using skip_attrs_step [OF assms(1), of p quote] Suc.hyps(2) IH by (metis Suc_eq_plus1 Suc_leD Suc_leI add_2_eq_Suc' le_SucI le_refl zero_less_Suc zero_less_diff)
qed

text \<open>A tag that is not the end or an error lies behind \<open>pos\<close> and in front of \<open>lim\<close>, so every loop over tags advances.\<close>

definition tag_bounds :: "nat \<Rightarrow> nat \<Rightarrow> xml_tok \<Rightarrow> bool" where
  "tag_bounds pos lim t \<longleftrightarrow> kind t \<in> {XMLTAG_ERROR, XMLTAG_EOF} \<or> pos \<le> tstart t \<and> tstart t < tpos t \<and> tpos t \<le> lim"

lemma skip_section_ok:
  assumes "lim \<le> length buf" "pos \<le> p" "p < q" "mark \<noteq> []"
  shows "\<exists>t. skip_section mark buf pos p q lim = Some t \<and> tag_bounds pos lim t"
  using scan_mark_ok [OF assms(1), of mark q] assms by (auto simp: skip_section_def tok_def tag_bounds_def)

lemma xml_markup_ok:
  assumes "lim \<le> length buf" "pos \<le> p"
  shows "\<exists>t. xml_markup buf pos p lim = Some t \<and> tag_bounds pos lim t"
proof -
  have 1: "\<exists>t. skip_section (str ''-->'') buf pos p (p + 4) lim = Some t \<and> tag_bounds pos lim t"
    "\<exists>t. skip_section (str '']]>'') buf pos p (p + 9) lim = Some t \<and> tag_bounds pos lim t"
    using assms by (auto intro!: skip_section_ok simp: str_def)
  then show ?thesis
    using assms unfolding xml_markup_def
    by (cases "p + 3 < lim"; cases "p + 8 < lim") (auto simp: rdn_ok tok_def tag_bounds_def)
qed

lemma xml_element_ok:
  assumes "lim \<le> length buf" "pos \<le> p" "p < lim"
  shows "\<exists>t. xml_element buf pos p lim = Some t \<and> tag_bounds pos lim t"
proof -
  define cl where "cl = (p + 1 < lim \<and> buf ! (p + 1) = c_slash)"
  define ns where "ns = (if cl then p + 2 else p + 1)"
  have ns: "p < ns" "ns \<le> lim" using assms by (auto simp: ns_def cl_def)
  have c: "(if p + 1 < lim then do { c \<leftarrow> rd8 buf (p + 1); Some (c = c_slash) } else Some False) = Some cl"
    using assms by (auto simp: cl_def rd8_ok)
  obtain e where e: "scan_until (\<lambda>c. c = c_gt \<or> c = c_slash \<or> is_blank c) buf ns lim = Some e" "ns \<le> e" "e \<le> lim"
    using scan_until_ok [OF assms(1)] ns by blast
  obtain a sc q where a: "skip_attrs buf e lim 0 = Some (a, sc, q)" "e \<le> a" "a \<le> lim"
    using skip_attrs_ok [OF assms(1) e(3)] by blast
  have r: "rdn buf ns (e - ns) = Some (take (e - ns) (drop ns buf))" using e assms by (simp add: rdn_ok)
  show ?thesis
    using e a ns assms unfolding xml_element_def c ns_def [symmetric]
    by (auto simp: tok_def tag_bounds_def r ns_def [symmetric])
qed

lemma xml_next_tag_ok:
  assumes "lim \<le> length buf"
  shows "\<exists>t. xml_next_tag buf pos lim = Some t \<and> tag_bounds pos lim t"
proof -
  obtain p where p: "scan_until (\<lambda>c. c = c_lt) buf pos lim = Some p" "pos \<le> p"
    using scan_until_ok [OF assms] by blast
  have q: "\<exists>t. skip_section (str ''?>'') buf pos p (p + 2) lim = Some t \<and> tag_bounds pos lim t"
    using assms p by (intro skip_section_ok) (auto simp: str_def)
  show ?thesis
    using p q xml_markup_ok [OF assms p(2)] xml_element_ok [OF assms p(2)] assms
    by (cases "p + 1 < lim") (auto simp: xml_next_tag_def tok_def tag_bounds_def rd8_ok)
qed

lemma xml_skip_to_close_ok:
  assumes "lim \<le> length buf"
  shows "\<exists>r. xml_skip_to_close buf pos lim name depth = Some r \<and> (\<forall>np cs. r = Ok (np, cs) \<longrightarrow> pos \<le> cs \<and> cs < np \<and> np \<le> lim)"
proof (induction "lim - pos" arbitrary: pos name depth rule: less_induct)
  case less
  obtain t where t: "xml_next_tag buf pos lim = Some t" "tag_bounds pos lim t" using xml_next_tag_ok [OF assms] by blast
  have IH: "\<exists>r. xml_skip_to_close buf p lim n d = Some r \<and> (\<forall>np cs. r = Ok (np, cs) \<longrightarrow> pos \<le> cs \<and> p \<le> cs \<and> cs < np \<and> np \<le> lim)"
    if "pos < p" "p \<le> lim" for p n d
    using less [of p n d] that by fastforce
  show ?case
  proof (cases "kind t \<in> {XMLTAG_ERROR, XMLTAG_EOF, XMLTAG_CLOSE} \<or> depth > EPP_XML_MAX_DEPTH")
    case True
    then show ?thesis using t by (auto simp: xml_skip_to_close.simps [of buf pos] tag_bounds_def)
  next
    case False
    then have b: "pos < tpos t" "tpos t \<le> lim" using t by (auto simp: tag_bounds_def)
    obtain r1 where r1: "xml_skip_to_close buf (tpos t) lim (tname t) (depth + 1) = Some r1"
      "\<forall>np cs. r1 = Ok (np, cs) \<longrightarrow> pos < np \<and> np \<le> lim"
      using IH [OF b, of "tname t" "depth + 1"] by fastforce
    have r2: "\<exists>r. xml_skip_to_close buf (tpos t) lim name depth = Some r \<and> (\<forall>np cs. r = Ok (np, cs) \<longrightarrow> pos \<le> cs \<and> cs < np \<and> np \<le> lim)"
      using IH [OF b, of name depth] by blast
    have r3: "\<exists>r. xml_skip_to_close buf np lim name depth = Some r \<and> (\<forall>np cs. r = Ok (np, cs) \<longrightarrow> pos \<le> cs \<and> cs < np \<and> np \<le> lim)"
      if "r1 = Ok (np, cs)" for np cs using IH [of np name depth] r1 that by blast
    show ?thesis using False t(1) r1 r2 r3
      by (cases "kind t"; cases r1) (auto simp: xml_skip_to_close.simps [of buf pos lim name depth])
  qed
qed

definition child_bounds :: "nat \<Rightarrow> nat \<Rightarrow> nat \<times> nat \<times> nat \<Rightarrow> bool" where
  "child_bounds pos lim = (\<lambda>(cs, ce, np). pos < cs \<and> cs \<le> ce \<and> ce \<le> np \<and> np \<le> lim)"

lemma xml_find_child_ok:
  assumes "lim \<le> length buf"
  shows "\<exists>r. xml_find_child buf pos lim tag = Some r \<and> (\<forall>x. r = Found x \<longrightarrow> child_bounds pos lim x)"
proof (induction "lim - pos" arbitrary: pos rule: less_induct)
  case less
  obtain t where t: "xml_next_tag buf pos lim = Some t" "tag_bounds pos lim t" using xml_next_tag_ok [OF assms] by blast
  have IH: "\<exists>r. xml_find_child buf p lim tag = Some r \<and> (\<forall>x. r = Found x \<longrightarrow> child_bounds pos lim x)"
    if "pos < p" "p \<le> lim" for p
    using less [of p] that by (fastforce simp: child_bounds_def)
  obtain r where r: "xml_skip_to_close buf (tpos t) lim (tname t) 1 = Some r"
    "\<forall>np cs. r = Ok (np, cs) \<longrightarrow> tpos t \<le> cs \<and> cs < np \<and> np \<le> lim"
    using xml_skip_to_close_ok [OF assms, of "tpos t" "tname t" 1] by blast
  show ?case
  proof (cases "kind t \<in> {XMLTAG_ERROR, XMLTAG_EOF, XMLTAG_CLOSE}")
    case True
    then show ?thesis using t by (auto simp: xml_find_child.simps [of buf pos])
  next
    case False
    then have b: "pos < tpos t" "tpos t \<le> lim" using t by (auto simp: tag_bounds_def)
    show ?thesis
    proof (cases "kind t = XMLTAG_OPEN")
      case True
      then show ?thesis using t(1) b r IH
        by (cases r) (fastforce simp: xml_find_child.simps [of buf pos] child_bounds_def)+
    next
      case no: False
      then show ?thesis using False t(1) b IH [OF b]
        by (cases "kind t") (auto simp: xml_find_child.simps [of buf pos] child_bounds_def)
    qed
  qed
qed

lemma attr_at_ok:
  assumes "te \<le> length xml" "ts \<le> i" "i + length attr < te"
  shows "\<exists>r. attr_at xml ts te i attr = Some r"
proof -
  obtain j where j: "scan_until not_gap xml (i + length attr) te = Some j" "i + length attr \<le> j" "j \<le> te"
    using scan_until_ok [OF assms(1), of not_gap "i + length attr"] assms(3) by auto
  show ?thesis
  proof (cases "j < te")
    case False
    then show ?thesis using assms j by (cases "i > ts") (auto simp: attr_at_def rd8_ok rdn_ok)
  next
    case True
    obtain k where k: "scan_until not_gap xml (j + 1) te = Some k" "j + 1 \<le> k" "k \<le> te"
      using scan_until_ok [OF assms(1), of not_gap "j + 1"] True by auto
    have m: "\<exists>m. scan_until (\<lambda>c. c = q) xml (k + 1) te = Some m \<and> k + 1 \<le> m" for q
      using scan_until_ok [OF assms(1), of "\<lambda>c. c = q" "k + 1"] by auto
    obtain m where m: "scan_until (\<lambda>c. c = xml ! k) xml (k + 1) te = Some m" "k + 1 \<le> m" using m by blast
    have "\<exists>r. (if m \<ge> te then Some Malformed else do { v \<leftarrow> rdn xml (k + 1) (m - (k + 1)); Some (Found v) }) = Some r"
      using m assms(1) by (auto simp: rdn_ok)
    then show ?thesis using assms j True k m
      by (cases "i > ts"; cases "k < te") (auto simp: attr_at_def rd8_ok rdn_ok)
  qed
qed

lemma epp_xml_attr_extract_ok:
  assumes "te \<le> length xml"
  shows "\<exists>r. epp_xml_attr_extract xml ts te attr cap = Some r"
proof -
  have "\<exists>r. attr_scan xml ts te i attr = Some r" if "ts \<le> i" for i
    using that
  proof (induction "te - i" arbitrary: i rule: less_induct)
    case less
    show ?case
    proof (cases "i + length attr < te")
      case True
      then obtain r where "attr_at xml ts te i attr = Some r" using attr_at_ok assms less.prems by blast
      moreover have "\<exists>r. attr_scan xml ts te (i + 1) attr = Some r" using less True by auto
      ultimately show ?thesis using True by (auto simp: attr_scan.simps [of xml ts te i])
    qed (simp add: attr_scan.simps [of xml ts te i])
  qed
  then show ?thesis by (force simp: epp_xml_attr_extract_def)
qed

text \<open>The search with an attribute visits the same elements as the one without.\<close>

lemma xml_find_child_attr_ok:
  assumes "lim \<le> length buf"
  shows "\<exists>r. xml_find_child_attr buf pos lim tag attr cap = Some r \<and>
    xml_find_child buf pos lim tag = Some (case r of Found (a, x) \<Rightarrow> Found x | Absent \<Rightarrow> Absent | Malformed \<Rightarrow> Malformed)"
proof (induction "lim - pos" arbitrary: pos rule: less_induct)
  case less
  obtain t where t: "xml_next_tag buf pos lim = Some t" "tag_bounds pos lim t" using xml_next_tag_ok [OF assms] by blast
  note IH = less
  obtain r where r: "xml_skip_to_close buf (tpos t) lim (tname t) 1 = Some r"
    "\<forall>np cs. r = Ok (np, cs) \<longrightarrow> tpos t \<le> cs \<and> cs < np \<and> np \<le> lim"
    using xml_skip_to_close_ok [OF assms, of "tpos t" "tname t" 1] by blast
  show ?case
  proof (cases "kind t \<in> {XMLTAG_ERROR, XMLTAG_EOF, XMLTAG_CLOSE}")
    case True
    then show ?thesis using t by (auto simp: xml_find_child.simps [of buf pos] xml_find_child_attr.simps [of buf pos])
  next
    case False
    then have b: "pos < tpos t" "tpos t \<le> lim" using t by (auto simp: tag_bounds_def)
    then obtain a where a: "epp_xml_attr_extract buf (tstart t) (tpos t) attr cap = Some a"
      using epp_xml_attr_extract_ok [of "tpos t" buf] assms by fastforce
    have s: "kind t \<noteq> XMLTAG_OPEN \<Longrightarrow> ?thesis"
      using False t(1) b a IH [of "tpos t"]
      by (cases "kind t") (auto simp: xml_find_child.simps [of buf pos] xml_find_child_attr.simps [of buf pos])
    show ?thesis
    proof (cases "kind t = XMLTAG_OPEN")
      case True
      then show ?thesis using t(1) b r a IH
        by (cases r) (fastforce simp: xml_find_child.simps [of buf pos] xml_find_child_attr.simps [of buf pos])+
    qed (rule s)
  qed
qed

lemma text_loop_ok:
  assumes "lim \<le> length buf" "n < outcap" "length out = outcap"
  shows "\<exists>out' r. text_loop buf i lim out n outcap = Some (out', r) \<and> length out' = outcap \<and> (\<forall>k. r = Ok k \<longrightarrow> k < outcap \<and> out' ! k = 0)"
  using assms(2,3)
proof (induction "lim - i" arbitrary: i out n rule: less_induct)
  case less
  have w: "\<exists>o'. wr8 out n c = Some o' \<and> length o' = outcap \<and> o' ! n = c" for c using less.prems by (auto simp: wr8_def)
  show ?case
  proof (cases "i < lim")
    case False
    then show ?thesis using w [of 0] less.prems by (auto simp: text_loop.simps [of buf i])
  next
    case True
    then have c: "rd8 buf i = Some (buf ! i)" using assms(1) by (simp add: rd8_ok)
    obtain s where s: "scan_until (\<lambda>c. c = c_semi) buf (i + 1) (min lim (i + 12)) = Some s" "i + 1 \<le> s"
      using scan_until_ok [OF order_trans [OF min.cobounded1 assms(1)], of "\<lambda>c. c = c_semi" "i + 1" "i + 12"] by blast
    note step = text_loop.simps [of buf i lim out n outcap]
    show ?thesis
    proof (cases "buf ! i = c_amp")
      case no: False
      obtain o' where "wr8 out n (buf ! i) = Some o'" "length o' = outcap" using w by blast
      then show ?thesis using True c no less(1) [of "i + 1" "n + 1" o'] less.prems by (auto simp: step)
    next
      case amp: True
      show ?thesis
      proof (cases "s < lim \<and> buf ! s = c_semi \<and> entity (take (s - i - 1) (drop (i + 1) buf)) \<noteq> None")
        case False
        then show ?thesis using True c amp s assms(1) less.prems
          by (cases "s < lim") (auto simp: step rd8_ok rdn_ok split: option.splits)
      next
        case e: True
        then obtain cp where cp: "entity (take (s - i - 1) (drop (i + 1) buf)) = Some cp" by blast
        show ?thesis
        proof (cases "n + length (utf8 cp) < outcap")
          case fits: True
          have "wrn out n (utf8 cp) = Some (patch out n (utf8 cp))" "length (patch out n (utf8 cp)) = outcap"
            using fits less.prems by (auto simp: wrn_def)
          then show ?thesis
            using True c amp s assms(1) less.prems e cp fits less(1) [of "s + 1" "n + length (utf8 cp)" "patch out n (utf8 cp)"]
            by (auto simp: step rd8_ok rdn_ok Let_def)
        qed (use True c amp s assms(1) less.prems e cp in \<open>auto simp: step rd8_ok rdn_ok Let_def\<close>)
      qed
    qed
  qed
qed

lemma xml_text_decode_ok:
  assumes "lim \<le> length buf" "length out = outcap" "0 < outcap"
  shows "\<exists>out' r. xml_text_decode buf start lim out outcap = Some (out', r) \<and> length out' = outcap \<and> (\<forall>k. r = Ok k \<longrightarrow> k < outcap \<and> out' ! k = 0)"
proof (cases "start + 12 \<le> lim \<and> take 9 (drop start buf) = str ''<![CDATA['' \<and> take 3 (drop (lim - 3) buf) = str '']]>''")
  case True
  define len where "len = lim - (12 + start)"
  have l: "start + 9 + len \<le> length buf" using True assms(1) by (auto simp: len_def)
  show ?thesis
  proof (cases "len < outcap")
    case fits: True
    have "wrn out 0 (take len (drop (start + 9) buf)) = Some (patch out 0 (take len (drop (start + 9) buf)))"
      using fits assms l by (auto simp: wrn_def)
    then show ?thesis using True fits assms l
      by (auto simp: xml_text_decode_def rdn_ok wr8_def Let_def len_def [symmetric])
  next
    case False
    then show ?thesis using True assms by (auto simp: xml_text_decode_def rdn_ok Let_def len_def [symmetric])
  qed
next
  case False
  then have "xml_text_decode buf start lim out outcap = text_loop buf start lim out 0 outcap"
    using assms(1) by (cases "start + 12 \<le> lim") (auto simp: xml_text_decode_def rdn_ok)
  then show ?thesis using text_loop_ok [OF assms(1,3,2), of start] by simp
qed

lemma text_loop_last:
  assumes "text_loop buf i lim out n outcap = Some (out', r)" "length out = outcap" "n < outcap" "out ! (outcap - 1) = 0"
  shows "length out' = outcap \<and> out' ! (outcap - 1) = 0"
  using assms
proof (induction "lim - i" arbitrary: i out n rule: less_induct)
  case less
  note step = less.prems(1) [unfolded text_loop.simps [of buf i lim out n outcap]]
  have w: "length o' = outcap \<and> o' ! (outcap - 1) = 0" if "wr8 out n c = Some o'" "c = 0 \<or> n + 1 < outcap" for o' c
    using that less.prems(2,3,4) by (auto simp: wr8_def nth_list_update split: if_splits)
  have p: "length o' = outcap \<and> o' ! (outcap - 1) = 0" if "wrn out n u = Some o'" "n + length u < outcap" for o' u
    using that less.prems(2,4) by (auto simp: wrn_def nth_patch split: if_splits)
  show ?case
  proof (cases "i < lim")
    case False
    then show ?thesis using step w [of 0] by (auto split: Option.bind_splits)
  next
    case True
    have IH: "length out' = outcap \<and> out' ! (outcap - 1) = 0"
      if "text_loop buf j lim o' m outcap = Some (out', r)" "i < j" "length o' = outcap \<and> o' ! (outcap - 1) = 0" "m < outcap" for j o' m
      using less(1) [of j o' m] that True by simp
    obtain c where c: "rd8 buf i = Some c" using step True by (auto split: Option.bind_splits)
    have "out' = out \<or> (\<exists>o' c. wr8 out n c = Some o' \<and> n + 1 < outcap \<and> text_loop buf (i + 1) lim o' (n + 1) outcap = Some (out', r))
      \<or> (\<exists>o' u j. wrn out n u = Some o' \<and> n + length u < outcap \<and> i < j \<and> text_loop buf j lim o' (n + length u) outcap = Some (out', r))"
    proof (cases "c = c_amp")
      case False
      then show ?thesis using step True c by (auto split: if_splits Option.bind_splits)
    next
      case amp: True
      obtain semi where semi: "scan_until (\<lambda>c. c = c_semi) buf (i + 1) (min lim (i + 12)) = Some semi"
        using step True c amp by (auto split: Option.bind_splits)
      then have "i < semi + 1" using scan_until_ge by fastforce
      then show ?thesis using step True c amp semi
        by (cases "semi < lim") (auto simp: Let_def not_le split: if_splits Option.bind_splits option.splits)
    qed
    then show ?thesis
    proof (elim disjE exE conjE)
      fix o' c assume "wr8 out n c = Some o'" "n + 1 < outcap" "text_loop buf (i + 1) lim o' (n + 1) outcap = Some (out', r)"
      then show ?thesis using IH [of "i + 1" o' "n + 1"] w [of c o'] by simp
    next
      fix o' u j assume "wrn out n u = Some o'" "n + length u < outcap" "i < j" "text_loop buf j lim o' (n + length u) outcap = Some (out', r)"
      then show ?thesis using IH [of j o' "n + length u"] p [of u o'] by simp
    qed (use less.prems in simp)
  qed
qed

lemma xml_text_decode_last:
  assumes "xml_text_decode buf start lim out outcap = Some (out', r)" "length out = outcap" "0 < outcap" "out ! (outcap - 1) = 0"
  shows "length out' = outcap \<and> (\<exists>k < outcap. out' ! k = 0)"
proof -
  have t: "length out' = outcap \<and> (\<exists>k < outcap. out' ! k = 0)" if "text_loop buf start lim out 0 outcap = Some (out', r)"
  proof -
    have "outcap - 1 < outcap" using assms(3) by simp
    then show ?thesis using text_loop_last [OF that assms(2,3,4)] by blast
  qed
  have e: "\<exists>k < outcap. out ! k = 0" using assms(3,4) by (intro exI [of _ "outcap - 1"]) simp
  have u: "\<exists>k < m. xs[l := 0 :: u8] ! k = 0" if "l < length xs" "length xs = m" for xs l m using that by (intro exI [of _ l]) simp
  show ?thesis using assms t e unfolding xml_text_decode_def
    by (auto simp: Let_def wrn_def wr8_def split: if_splits Option.bind_splits intro!: u)
qed

section \<open>Documents\<close>

text \<open>The documents a client sends, as trees, and their text.\<close>

datatype xml = Elem bytes "(bytes \<times> bytes) list" "xml list" | Empty bytes "(bytes \<times> bytes) list" | Chars bytes

definition render_attrs :: "(bytes \<times> bytes) list \<Rightarrow> bytes" where
  "render_attrs as = concat (map (\<lambda>(k, v). 32 # k @ [c_eq, c_dquote] @ v @ [c_dquote]) as)"

fun render :: "xml \<Rightarrow> bytes" where
  "render (Elem n as cs) = c_lt # n @ render_attrs as @ c_gt # concat (map render cs) @ c_lt # c_slash # n @ [c_gt]"
| "render (Empty n as) = c_lt # n @ render_attrs as @ [c_slash, c_gt]"
| "render (Chars t) = t"

abbreviation forest :: "xml list \<Rightarrow> bytes" where
  "forest cs \<equiv> concat (map render cs)"

definition xml_name :: "bytes \<Rightarrow> bool" where
  "xml_name n \<longleftrightarrow> n \<noteq> [] \<and> hd n \<noteq> c_bang \<and> hd n \<noteq> c_qm \<and> list_all (\<lambda>c. c \<noteq> c_gt \<and> c \<noteq> c_slash \<and> c \<noteq> c_lt \<and> \<not> is_blank c) n"

definition xml_attrs :: "(bytes \<times> bytes) list \<Rightarrow> bool" where
  "xml_attrs = list_all (\<lambda>(k, v). list_all (\<lambda>c. c \<notin> {0, c_dquote, c_quote, c_slash, c_gt}) k \<and> c_dquote \<notin> set v)"

fun xml_ok :: "xml \<Rightarrow> bool" where
  "xml_ok (Elem n as cs) \<longleftrightarrow> xml_name n \<and> xml_attrs as \<and> list_all xml_ok cs"
| "xml_ok (Empty n as) \<longleftrightarrow> xml_name n \<and> xml_attrs as"
| "xml_ok (Chars t) \<longleftrightarrow> c_lt \<notin> set t"

fun height :: "xml \<Rightarrow> nat" where
  "height (Elem n as cs) = Suc (fold max (map height cs) 0)"
| "height _ = 0"

lemma fold_max: "fold max xs (a :: nat) \<le> k \<longleftrightarrow> a \<le> k \<and> (\<forall>x \<in> set xs. x \<le> k)"
  by (induction xs arbitrary: a) auto

subsection \<open>Reading at a place with known bytes\<close>

lemma at_cons: "drop p buf = c # r \<Longrightarrow> rd8 buf p = Some c \<and> drop (p + 1) buf = r \<and> p < length buf"
  by (metis (no_types, lifting) One_nat_def add.commute drop_Suc_Cons drop_drop drop_eq_Nil drop0 hd_drop_conv_nth leI list.distinct(1) list.sel(1) plus_1_eq_Suc rd8_ok)

lemma at_append: "drop p buf = x @ r \<Longrightarrow> drop (p + length x) buf = r"
  by (metis add.commute append_eq_conv_conj drop_drop)

lemma rdn_at:
  assumes "drop p buf = x @ r" "x \<noteq> []"
  shows "rdn buf p (length x) = Some x"
proof -
  have "p < length buf" using assms by (metis append_is_Nil_conv drop_eq_Nil leI)
  then have "p + length x \<le> length buf" using arg_cong [OF assms(1), of length] by simp
  then show ?thesis using assms(1) by (simp add: rdn_ok)
qed

lemma scan_until_pass:
  assumes "drop p buf = x @ r" "list_all (\<lambda>c. \<not> halt c) x" "p + length x \<le> lim"
  shows "scan_until halt buf p lim = scan_until halt buf (p + length x) lim"
  using assms
proof (induction x arbitrary: p)
  case (Cons c x)
  have a: "rd8 buf p = Some c" "drop (p + 1) buf = x @ r" using at_cons [of p buf c "x @ r"] Cons.prems(1) by auto
  then show ?case using Cons.IH [of "p + 1"] Cons.prems by (simp add: scan_until.simps [of halt buf p])
qed simp

lemma scan_until_stop:
  assumes "drop p buf = x @ c # r" "list_all (\<lambda>c. \<not> halt c) x" "halt c" "p + length x < lim"
  shows "scan_until halt buf p lim = Some (p + length x)"
proof -
  have "rd8 buf (p + length x) = Some c" using at_cons at_append [OF assms(1)] by blast
  then show ?thesis using scan_until_pass [OF assms(1,2)] assms(3,4) by (simp add: scan_until.simps [of halt buf "p + length x"])
qed

lemma skip_attrs_key:
  assumes "drop p buf = x @ r" "list_all (\<lambda>c. c \<notin> {0, c_dquote, c_quote, c_slash, c_gt}) x" "p + length x \<le> lim"
  shows "skip_attrs buf p lim 0 = skip_attrs buf (p + length x) lim 0"
  using assms
proof (induction x arbitrary: p)
  case (Cons c x)
  have a: "rd8 buf p = Some c" "drop (p + 1) buf = x @ r" using at_cons [of p buf c "x @ r"] Cons.prems(1) by auto
  then show ?case using Cons.IH [of "p + 1"] Cons.prems by (simp add: skip_attrs.simps [of buf p])
qed simp

lemma skip_attrs_quoted:
  assumes "drop p buf = v @ c_dquote # r" "c_dquote \<notin> set v" "p + length v < lim"
  shows "skip_attrs buf p lim c_dquote = skip_attrs buf (p + length v + 1) lim 0"
  using assms
proof (induction v arbitrary: p)
  case Nil
  then show ?case using at_cons [of p buf c_dquote r] by (simp add: skip_attrs.simps [of buf p])
next
  case (Cons c v)
  have a: "rd8 buf p = Some c" "drop (p + 1) buf = v @ c_dquote # r" using at_cons [of p buf c "v @ c_dquote # r"] Cons.prems(1) by auto
  then show ?case using Cons.IH [of "p + 1"] Cons.prems by (simp add: skip_attrs.simps [of buf p])
qed

lemma skip_attrs_attrs:
  assumes "drop p buf = render_attrs as @ r" "xml_attrs as" "p + length (render_attrs as) \<le> lim"
  shows "skip_attrs buf p lim 0 = skip_attrs buf (p + length (render_attrs as)) lim 0"
  using assms
proof (induction as arbitrary: p)
  case Nil
  then show ?case by (simp add: render_attrs_def)
next
  case (Cons kv as)
  obtain k v where kv: "kv = (k, v)" by (cases kv)
  have ok: "list_all (\<lambda>c. c \<notin> {0, c_dquote, c_quote, c_slash, c_gt}) (32 # k @ [c_eq])" "c_dquote \<notin> set v" "xml_attrs as"
    using Cons.prems(2) by (auto simp: kv xml_attrs_def)
  have ra: "render_attrs (kv # as) = (32 # k @ [c_eq]) @ c_dquote # v @ c_dquote # render_attrs as"
    by (simp add: render_attrs_def kv)
  define q where "q = p + length (32 # k @ [c_eq])"
  have l: "q + 1 + length v + 1 + length (render_attrs as) \<le> lim" using Cons.prems(3) ra by (simp add: q_def)
  have d0: "drop p buf = (32 # k @ [c_eq]) @ c_dquote # v @ c_dquote # render_attrs as @ r" using Cons.prems(1) ra by simp
  have d1: "rd8 buf q = Some c_dquote" "drop (q + 1) buf = v @ c_dquote # render_attrs as @ r"
    using at_cons [OF at_append [OF d0]] by (auto simp: q_def)
  have d2: "drop (q + 1 + length v + 1) buf = render_attrs as @ r"
    using at_cons [OF at_append [OF d1(2)]] by simp
  have "skip_attrs buf p lim 0 = skip_attrs buf q lim 0" using skip_attrs_key [OF d0 ok(1), of lim] l by (simp add: q_def)
  also have "\<dots> = skip_attrs buf (q + 1) lim c_dquote" using d1(1) l by (simp add: skip_attrs.simps [of buf q])
  also have "\<dots> = skip_attrs buf (q + 1 + length v + 1) lim 0" using skip_attrs_quoted [OF d1(2) ok(2)] l by simp
  also have "\<dots> = skip_attrs buf (q + 1 + length v + 1 + length (render_attrs as)) lim 0"
    using Cons.IH [OF d2 ok(3)] l by simp
  finally show ?case using ra by (simp add: algebra_simps q_def)
qed

subsection \<open>The tags of a document\<close>

lemma scan_name:
  assumes "drop p buf = n @ c # r" "xml_name n" "c = c_gt \<or> c = c_slash \<or> is_blank c" "p + length n < lim"
  shows "scan_until (\<lambda>c. c = c_gt \<or> c = c_slash \<or> is_blank c) buf p lim = Some (p + length n)" "rdn buf p (length n) = Some n"
  using assms scan_until_stop [OF assms(1), of "\<lambda>c. c = c_gt \<or> c = c_slash \<or> is_blank c"] rdn_at [OF assms(1)]
  by (auto simp: xml_name_def list_all_iff)

lemma name_then:
  assumes "xml_attrs as" "z = c_gt \<or> z = c_slash"
  shows "\<exists>c q. render_attrs as @ z # r = c # q \<and> (c = c_gt \<or> c = c_slash \<or> is_blank c)"
  using assms by (cases as) (auto simp: render_attrs_def is_blank_def)

lemma next_tag_at:
  assumes "drop pos buf = t @ c_lt # c # r" "c_lt \<notin> set t" "pos + length t + 1 < lim" "c \<noteq> c_bang" "c \<noteq> c_qm"
  shows "xml_next_tag buf pos lim = xml_element buf pos (pos + length t) lim"
proof -
  have "scan_until (\<lambda>c. c = c_lt) buf pos lim = Some (pos + length t)"
    using assms by (intro scan_until_stop [OF assms(1)]) (auto simp: list_all_iff)
  moreover have "rd8 buf (pos + length t + 1) = Some c"
    using at_append [OF assms(1)] at_cons [of "pos + length t" buf] at_cons [of "pos + length t + 1" buf] by blast
  ultimately show ?thesis using assms(3-5) by (simp add: xml_next_tag_def)
qed

lemma next_open:
  assumes d: "drop pos buf = t @ c_lt # n @ render_attrs as @ c_gt # r" and t: "c_lt \<notin> set t"
    and ok: "xml_name n" "xml_attrs as" and lim: "pos + length t + 2 + length n + length (render_attrs as) \<le> lim"
  shows "xml_next_tag buf pos lim = tok XMLTAG_OPEN (pos + length t + 2 + length n + length (render_attrs as)) n (pos + length t)"
proof -
  define s where "s = pos + length t"
  define e where "e = s + 1 + length n"
  obtain c n' where n: "n = c # n'" "c \<noteq> c_bang" "c \<noteq> c_qm" "c \<noteq> c_slash" using ok by (cases n) (auto simp: xml_name_def)
  have d1: "drop (s + 1) buf = n @ render_attrs as @ c_gt # r" using at_cons [OF at_append [OF d]] by (simp add: s_def)
  have l: "s + 2 + length n + length (render_attrs as) \<le> lim" using lim by (simp add: s_def)
  have x: "rd8 buf (s + 1) = Some c" using at_cons [of "s + 1" buf] d1 n by simp
  obtain z q where z: "render_attrs as @ c_gt # r = z # q" "z = c_gt \<or> z = c_slash \<or> is_blank z"
    using name_then [OF ok(2)] by blast
  note sc = scan_name [of "s + 1" buf n z q lim, folded e_def]
  have d2: "drop e buf = render_attrs as @ c_gt # r" using at_append [OF d1] by (simp add: e_def)
  have g: "rd8 buf (e + length (render_attrs as)) = Some c_gt" using at_cons [OF at_append [OF d2]] by simp
  have a: "e + length (render_attrs as) < lim" using l by (simp add: e_def)
  have "skip_attrs buf e lim 0 = skip_attrs buf (e + length (render_attrs as)) lim 0"
    using skip_attrs_attrs [OF d2 ok(2), of lim] l by (simp add: e_def)
  also have "\<dots> = Some (e + length (render_attrs as) + 1, False, 0)"
    using g a by (simp add: skip_attrs.simps [of buf "e + length (render_attrs as)"])
  finally have sk: "skip_attrs buf e lim 0 = Some (e + length (render_attrs as) + 1, False, 0)" .
  have "xml_next_tag buf pos lim = xml_element buf pos s lim"
    using next_tag_at [of pos buf t c "n' @ render_attrs as @ c_gt # r" lim] d t n l by (simp add: s_def)
  also have "\<dots> = tok XMLTAG_OPEN (e + length (render_attrs as) + 1) n s"
    using x n sc d1 z ok sk l by (simp add: xml_element_def e_def)
  finally show ?thesis by (simp add: e_def s_def eval_nat_numeral)
qed

lemma next_self:
  assumes d: "drop pos buf = t @ c_lt # n @ render_attrs as @ c_slash # c_gt # r" and t: "c_lt \<notin> set t"
    and ok: "xml_name n" "xml_attrs as" and lim: "pos + length t + 3 + length n + length (render_attrs as) \<le> lim"
  shows "xml_next_tag buf pos lim = tok XMLTAG_SELFCLOSE (pos + length t + 3 + length n + length (render_attrs as)) n (pos + length t)"
proof -
  define s where "s = pos + length t"
  define e where "e = s + 1 + length n"
  obtain c n' where n: "n = c # n'" "c \<noteq> c_bang" "c \<noteq> c_qm" "c \<noteq> c_slash" using ok by (cases n) (auto simp: xml_name_def)
  have d1: "drop (s + 1) buf = n @ render_attrs as @ c_slash # c_gt # r" using at_cons [OF at_append [OF d]] by (simp add: s_def)
  have l: "s + 3 + length n + length (render_attrs as) \<le> lim" using lim by (simp add: s_def)
  have x: "rd8 buf (s + 1) = Some c" using at_cons [of "s + 1" buf] d1 n by simp
  obtain z q where z: "render_attrs as @ c_slash # c_gt # r = z # q" "z = c_gt \<or> z = c_slash \<or> is_blank z"
    using name_then [OF ok(2)] by blast
  note sc = scan_name [of "s + 1" buf n z q lim, folded e_def]
  have d2: "drop e buf = render_attrs as @ c_slash # c_gt # r" using at_append [OF d1] by (simp add: e_def)
  define a where "a = e + length (render_attrs as)"
  have la: "a + 1 < lim" using l by (simp add: e_def a_def)
  have g: "rd8 buf a = Some c_slash" "rd8 buf (a + 1) = Some c_gt"
    using at_cons [OF at_append [OF d2]] at_cons [of "a + 1" buf] by (auto simp: a_def)
  have "skip_attrs buf e lim 0 = skip_attrs buf a lim 0"
    using skip_attrs_attrs [OF d2 ok(2), of lim] l by (simp add: e_def a_def)
  also have "\<dots> = Some (a + 2, True, 0)"
    using g la by (simp add: skip_attrs.simps [of buf a])
  finally have sk: "skip_attrs buf e lim 0 = Some (a + 2, True, 0)" .
  have "xml_next_tag buf pos lim = xml_element buf pos s lim"
    using next_tag_at [of pos buf t c "n' @ render_attrs as @ c_slash # c_gt # r" lim] d t n l by (simp add: s_def)
  also have "\<dots> = tok XMLTAG_SELFCLOSE (a + 2) n s"
    using x n sc d1 z ok sk l by (simp add: xml_element_def e_def a_def)
  finally show ?thesis by (simp add: e_def s_def a_def eval_nat_numeral)
qed

lemma next_close:
  assumes d: "drop pos buf = t @ c_lt # c_slash # n @ c_gt # r" and t: "c_lt \<notin> set t"
    and ok: "xml_name n" and lim: "pos + length t + 3 + length n \<le> lim"
  shows "xml_next_tag buf pos lim = tok XMLTAG_CLOSE (pos + length t + 3 + length n) n (pos + length t)"
proof -
  define s where "s = pos + length t"
  define e where "e = s + 2 + length n"
  have d1: "rd8 buf (s + 1) = Some c_slash" "drop (s + 2) buf = n @ c_gt # r"
    using at_cons [OF at_append [OF d]] at_cons [of "s + 1" buf] by (auto simp: s_def)
  have l: "s + 3 + length n \<le> lim" using lim by (simp add: s_def)
  note sc = scan_name [of "s + 2" buf n c_gt r lim, folded e_def]
  have d2: "rd8 buf e = Some c_gt" using at_cons [OF at_append [OF d1(2)]] by (simp add: e_def)
  have le: "e < lim" using l by (simp add: e_def)
  have sk: "skip_attrs buf e lim 0 = Some (e + 1, False, 0)"
    using d2 le by (simp add: skip_attrs.simps [of buf e])
  have "xml_next_tag buf pos lim = xml_element buf pos s lim"
    using next_tag_at [of pos buf t c_slash "n @ c_gt # r" lim] d t l by (simp add: s_def)
  also have "\<dots> = tok XMLTAG_CLOSE (e + 1) n s"
    using d1 sc ok sk l by (simp add: xml_element_def e_def xml_name_def)
  finally show ?thesis by (simp add: e_def s_def eval_nat_numeral)
qed

lemma next_eof:
  assumes "drop pos (take lim buf) = t" "c_lt \<notin> set t" "lim \<le> length buf" "pos \<le> lim"
  shows "xml_next_tag buf pos lim = tok XMLTAG_EOF lim [] pos"
proof -
  have d: "drop pos buf = t @ drop lim buf" using assms by (metis append_take_drop_id drop_append diff_is_0_eq drop0 length_take min.absorb2)
  have "pos + length t = lim" using assms by auto
  then have "scan_until (\<lambda>c. c = c_lt) buf pos lim = Some lim"
    using scan_until_pass [OF d, of "\<lambda>c. c = c_lt" lim] assms(2) by (auto simp: list_all_iff scan_until.simps [of _ _ lim lim])
  then show ?thesis by (simp add: xml_next_tag_def)
qed

lemma skip_forest:
  assumes "list_all xml_ok cs" "xml_name n" "c_lt \<notin> set t" "\<forall>c \<in> set cs. depth + height c \<le> EPP_XML_MAX_DEPTH"
    "depth \<le> EPP_XML_MAX_DEPTH"
    "drop pos buf = t @ forest cs @ c_lt # c_slash # n @ c_gt # r" "pos + length t + length (forest cs) + 3 + length n \<le> lim"
  shows "xml_skip_to_close buf pos lim n depth
    = Some (Ok (pos + length t + length (forest cs) + 3 + length n, pos + length t + length (forest cs)))"
  using assms
proof (induction "size_list size cs" arbitrary: cs t pos n r depth rule: less_induct)
  case less
  note step = xml_skip_to_close.simps [of buf pos lim n depth]
  show ?case
  proof (cases cs)
    case Nil
    then show ?thesis using next_close [of pos buf t n r lim] less.prems by (simp add: step tok_def)
  next
    case (Cons x ds)
    show ?thesis
    proof (cases x)
      case (Chars u)
      have "xml_skip_to_close buf pos lim n depth
          = Some (Ok (pos + length (t @ u) + length (forest ds) + 3 + length n, pos + length (t @ u) + length (forest ds)))"
        using less.prems by (intro less.hyps) (auto simp: Cons Chars)
      then show ?thesis by (simp add: Cons Chars algebra_simps)
    next
      case (Empty m as)
      define p where "p = pos + length t + 3 + length m + length (render_attrs as)"
      have d: "drop pos buf = (t @ c_lt # m @ render_attrs as @ [c_slash, c_gt]) @ forest ds @ c_lt # c_slash # n @ c_gt # r"
        using less.prems(6) by (simp add: Cons Empty)
      have d': "drop p buf = forest ds @ c_lt # c_slash # n @ c_gt # r" using at_append [OF d] by (simp add: p_def algebra_simps eval_nat_numeral)
      have "xml_next_tag buf pos lim = tok XMLTAG_SELFCLOSE p m (pos + length t)"
        unfolding p_def using less.prems by (intro next_self) (auto simp: Cons Empty)
      moreover have "xml_skip_to_close buf p lim n depth
          = Some (Ok (p + length ([] :: bytes) + length (forest ds) + 3 + length n, p + length ([] :: bytes) + length (forest ds)))"
        using less.prems d' by (intro less.hyps) (auto simp: Cons Empty p_def)
      ultimately show ?thesis using less.prems(5) by (simp add: step tok_def Cons Empty p_def)
    next
      case (Elem m as es)
      define p where "p = pos + length t + 2 + length m + length (render_attrs as)"
      define q where "q = p + length (forest es) + 3 + length m"
      have d: "drop pos buf = (t @ c_lt # m @ render_attrs as @ [c_gt]) @ forest es @ c_lt # c_slash # m @ c_gt # forest ds @ c_lt # c_slash # n @ c_gt # r"
        using less.prems(6) by (simp add: Cons Elem)
      have d': "drop p buf = forest es @ c_lt # c_slash # m @ c_gt # forest ds @ c_lt # c_slash # n @ c_gt # r"
        using at_append [OF d] by (simp add: p_def algebra_simps)
      then have d'': "drop q buf = forest ds @ c_lt # c_slash # n @ c_gt # r"
        using at_append [of p buf "forest es @ c_lt # c_slash # m @ [c_gt]"] by (simp add: q_def algebra_simps eval_nat_numeral)
      have ok: "xml_name m" "xml_attrs as" "list_all xml_ok es" "list_all xml_ok ds" using less.prems(1) by (auto simp: Cons Elem)
      have h: "depth + 1 \<le> EPP_XML_MAX_DEPTH" "\<forall>c \<in> set es. depth + 1 + height c \<le> EPP_XML_MAX_DEPTH"
        using less.prems(4) fold_max [of "map height es" 0 "EPP_XML_MAX_DEPTH - depth - 1"] by (auto simp: Cons Elem)
      have l: "q + length (forest ds) + 3 + length n \<le> lim" using less.prems(7) by (simp add: Cons Elem p_def q_def)
      have "xml_next_tag buf pos lim = tok XMLTAG_OPEN p m (pos + length t)"
        unfolding p_def using less.prems ok d l by (intro next_open) (auto simp: p_def q_def)
      moreover have "xml_skip_to_close buf p lim m (depth + 1) = Some (Ok (q, p + length (forest es)))"
        using less.hyps [of es m "[]" "depth + 1" p "forest ds @ c_lt # c_slash # n @ c_gt # r"] ok h d' l by (simp add: Cons Elem q_def)
      moreover have "xml_skip_to_close buf q lim n depth = Some (Ok (q + length (forest ds) + 3 + length n, q + length (forest ds)))"
        using less.hyps [of ds n "[]" depth q r] ok less.prems d'' l by (simp add: Cons Elem)
      ultimately show ?thesis using less.prems(5) by (simp add: step tok_def Cons Elem q_def p_def)
    qed
  qed
qed

text \<open>The first child with a name: its attributes, its content, and the siblings behind it.\<close>

fun child_of :: "bytes \<Rightarrow> xml list \<Rightarrow> ((bytes \<times> bytes) list \<times> xml list \<times> xml list) option" where
  "child_of tag [] = None"
| "child_of tag (Elem n as cs # ds) = (if n = tag then Some (as, cs, ds) else child_of tag ds)"
| "child_of tag (Empty n as # ds) = (if n = tag then Some (as, [], ds) else child_of tag ds)"
| "child_of tag (Chars t # ds) = child_of tag ds"

lemma slice_append:
  assumes "drop p (take q buf) = x @ y" "q \<le> length buf"
  shows "drop p (take (p + length x) buf) = x" "drop (p + length x) (take q buf) = y"
proof -
  show "drop (p + length x) (take q buf) = y" using assms(1) by (rule at_append)
  have "take (length x) (drop p (take q buf)) = x" using assms(1) by simp
  moreover have "x = [] \<or> p + length x \<le> q" using arg_cong [OF assms(1), of length] assms(2) by (cases "p \<le> q") auto
  ultimately show "drop p (take (p + length x) buf) = x" by (auto simp: drop_take min_def split: if_splits)
qed

lemma slice_drop: "drop p (take q buf) = x \<Longrightarrow> p \<le> q \<Longrightarrow> q \<le> length buf \<Longrightarrow> drop p buf = x @ drop q buf"
  by (metis append_take_drop_id drop_append diff_is_0_eq drop0 length_take min.absorb2)

lemma find_forest:
  assumes "list_all xml_ok cs" "c_lt \<notin> set t" "\<forall>c \<in> set cs. height c \<le> EPP_XML_MAX_DEPTH" "lim \<le> length buf" "pos \<le> lim"
    "drop pos (take lim buf) = t @ forest cs"
  shows "case child_of tag cs of
      None \<Rightarrow> xml_find_child buf pos lim tag = Some Absent
    | Some (as, es, ds) \<Rightarrow> \<exists>c e np. xml_find_child buf pos lim tag = Some (Found (c, e, np))
        \<and> drop c (take e buf) = forest es \<and> drop np (take lim buf) = forest ds \<and> c \<le> e \<and> e \<le> np \<and> np \<le> lim"
  using assms
proof (induction cs arbitrary: t pos)
  case Nil
  then show ?case using next_eof [of pos lim buf t] by (simp add: xml_find_child.simps [of buf pos] tok_def)
next
  case (Cons x ds)
  note step = xml_find_child.simps [of buf pos lim tag]
  have dl: "drop pos buf = t @ render x @ forest ds @ drop lim buf"
    using Cons.prems(4,5,6) by (auto dest: slice_drop)
  have ll: "pos + length t + length (render x) + length (forest ds) = lim"
    using arg_cong [OF Cons.prems(6), of length] Cons.prems(4,5) by simp
  show ?case
  proof (cases x)
    case (Chars u)
    show ?thesis using Cons.IH [of "t @ u" pos] Cons.prems by (simp add: Chars)
  next
    case (Empty m as)
    define p where "p = pos + length t + 3 + length m + length (render_attrs as)"
    have n: "xml_next_tag buf pos lim = tok XMLTAG_SELFCLOSE p m (pos + length t)"
      unfolding p_def using Cons.prems dl ll by (intro next_self [where r = "forest ds @ drop lim buf"]) (auto simp: Empty)
    have d: "drop p (take lim buf) = forest ds"
      using slice_append(2) [of pos lim buf "t @ render x" "forest ds"] Cons.prems by (simp add: Empty p_def algebra_simps eval_nat_numeral)
    have pl: "p \<le> lim" using ll by (simp add: Empty p_def)
    show ?thesis
    proof (cases "m = tag")
      case True
      then show ?thesis using n d pl by (simp add: step tok_def Empty)
    next
      case False
      then have "xml_find_child buf pos lim tag = xml_find_child buf p lim tag" using n by (simp add: step tok_def)
      then show ?thesis using False d pl Cons.IH [of "[]" p] Cons.prems by (cases "child_of tag ds") (auto simp: Empty)
    qed
  next
    case (Elem m as es)
    define p where "p = pos + length t + 2 + length m + length (render_attrs as)"
    define e where "e = p + length (forest es)"
    define q where "q = e + 3 + length m"
    have ok: "xml_name m" "xml_attrs as" "list_all xml_ok es" "list_all xml_ok ds" using Cons.prems(1) by (auto simp: Elem)
    have h: "\<forall>c \<in> set es. 1 + height c \<le> EPP_XML_MAX_DEPTH" "1 \<le> EPP_XML_MAX_DEPTH"
      using Cons.prems(3) fold_max [of "map height es" 0 "EPP_XML_MAX_DEPTH - 1"] by (auto simp: Elem EPP_XML_MAX_DEPTH_def)
    have n: "xml_next_tag buf pos lim = tok XMLTAG_OPEN p m (pos + length t)"
      unfolding p_def using Cons.prems(2) ok dl ll
      by (intro next_open [where r = "forest es @ c_lt # c_slash # m @ c_gt # forest ds @ drop lim buf"]) (auto simp: Elem)
    have sl: "drop pos (take lim buf) = (t @ c_lt # m @ render_attrs as @ [c_gt]) @ forest es @ c_lt # c_slash # m @ c_gt # forest ds"
      using Cons.prems(6) by (simp add: Elem)
    have s1: "drop p (take lim buf) = forest es @ c_lt # c_slash # m @ c_gt # forest ds"
      using slice_append(2) [OF sl Cons.prems(4)] by (simp add: p_def algebra_simps)
    have s2: "drop p (take e buf) = forest es" using slice_append(1) [OF s1 Cons.prems(4)] by (simp add: e_def)
    have s3: "drop q (take lim buf) = forest ds"
      using slice_append(2) [of p lim buf "forest es @ c_lt # c_slash # m @ [c_gt]"] s1 Cons.prems(4)
      by (simp add: q_def e_def algebra_simps eval_nat_numeral)
    have ql: "p \<le> e" "e \<le> q" "q \<le> lim" using ll by (auto simp: Elem p_def e_def q_def)
    have "drop p buf = forest es @ c_lt # c_slash # m @ c_gt # forest ds @ drop lim buf"
      using at_append [of pos buf "t @ c_lt # m @ render_attrs as @ [c_gt]"] dl by (simp add: Elem p_def algebra_simps)
    then have "xml_skip_to_close buf p lim m 1 = Some (Ok (q, e))"
      using skip_forest [OF ok(3,1), of "[]" 1 p buf] h ql by (simp add: q_def e_def)
    then show ?thesis using n s2 s3 ql Cons.IH [of "[]" q] Cons.prems ok
      by (cases "m = tag") (auto simp: step tok_def Elem split: option.splits)
  qed
qed

subsection \<open>Attributes\<close>

definition ident :: "bytes \<Rightarrow> bool" where
  "ident n \<longleftrightarrow> n \<noteq> [] \<and> list_all (\<lambda>c. isalnum c \<or> c = 58 \<or> c = 45) n"

lemma ident_plain: "ident n \<Longrightarrow> c \<in> set n \<Longrightarrow> c \<noteq> c_eq \<and> c \<noteq> c_lt \<and> not_gap c \<and> c \<noteq> 0"
  by (auto simp: ident_def list_all_iff isalnum_def isdigit_def word_le_nat_alt)

lemma attr_scan_absent:
  assumes "\<And>j. i \<le> j \<Longrightarrow> j < k \<Longrightarrow> attr_at xml ts te j attr = Some Absent" "i \<le> k" "k + length attr \<le> te"
  shows "attr_scan xml ts te i attr = attr_scan xml ts te k attr"
  using assms
proof (induction "k - i" arbitrary: i)
  case (Suc d)
  then have "attr_scan xml ts te (i + 1) attr = attr_scan xml ts te k attr" by (intro Suc.hyps(1)) auto
  moreover have "attr_at xml ts te i attr = Some Absent" using Suc.prems(1) [of i] Suc.hyps(2) by simp
  moreover have "i + length attr < te" using Suc.prems(3) Suc.hyps(2) by simp
  ultimately show ?case by (subst attr_scan.simps) simp
qed simp

lemma rd8_at: "drop p buf = x @ c # r \<Longrightarrow> rd8 buf (p + length x) = Some c"
  using at_cons at_append by blast

lemma attr_at_other:
  assumes "ts \<le> i" "i + length attr \<le> length xml" "take (length attr) (drop i xml) \<noteq> attr"
  shows "attr_at xml ts te i attr = Some Absent"
proof -
  have "rdn xml i (length attr) = Some (take (length attr) (drop i xml))" using assms(2) by (rule rdn_ok)
  moreover have "\<exists>c. ts < i \<longrightarrow> rd8 xml (i - 1) = Some c" using assms(2) by (cases "i - 1 < length xml") (auto simp: rd8_ok)
  ultimately show ?thesis using assms(3) by (auto simp: attr_at_def)
qed

lemma attr_at_mid:
  assumes "ts < i" "rd8 xml (i - 1) = Some c" "isalnum c \<or> c = 58 \<or> c = 45"
  shows "attr_at xml ts te i attr = Some Absent"
  using assms by (auto simp: attr_at_def)

lemma attr_at_here:
  assumes d: "drop i xml = k @ c_eq # c_dquote # v @ c_dquote # r" and p: "ts < i" "rd8 xml (i - 1) = Some 32"
    and k: "k \<noteq> []" "c_dquote \<notin> set v" "i + length k + length v + 2 < te"
  shows "attr_at xml ts te i k = Some (Found v)"
proof -
  define j where "j = i + length k"
  have e: "rd8 xml j = Some c_eq" "drop (j + 1) xml = c_dquote # v @ c_dquote # r" using at_cons [OF at_append [OF d]] by (auto simp: j_def)
  have q: "rd8 xml (j + 1) = Some c_dquote" "drop (j + 2) xml = v @ c_dquote # r" using at_cons [OF e(2)] by auto
  have l: "j + 2 + length v < te" using k(3) by (simp add: j_def)
  have s1: "scan_until not_gap xml (i + length k) te = Some j" using e l by (simp add: scan_until.simps [of _ xml j] j_def [symmetric])
  have s2: "scan_until not_gap xml (j + 1) te = Some (j + 1)" using q l by (simp add: scan_until.simps [of _ xml "Suc j"])
  have s3: "scan_until (\<lambda>c. c = c_dquote) xml (j + 2) te = Some (j + 2 + length v)"
    using q(2) k(2) l by (intro scan_until_stop [where r = r]) (auto simp: list_all_iff)
  have "v = [] \<or> rdn xml (j + 2) (length v) = Some v" using rdn_at [OF q(2)] by blast
  moreover have "rdn xml (j + 2) 0 = Some []" using at_cons [OF e(2)] q(2) by (auto simp: rdn_def)
  ultimately have v: "rdn xml (j + 2) (length v) = Some v" by auto
  have "isalnum 32 = False" by (simp add: isalnum_def isdigit_def word_le_nat_alt)
  then show ?thesis
    using p rdn_at [OF d k(1)] s1 e(1) s2 q(1) s3 v l by (simp add: attr_at_def add_2_eq_Suc')
qed

lemma attr_extract_one:
  assumes d: "drop s buf = c_lt # n @ 32 # k @ c_eq # c_dquote # v @ c_dquote # r" and ok: "ident n" "ident k" "c_dquote \<notin> set v"
    and te: "s + length n + length k + length v + 4 < te" "te \<le> length buf" and other: "take (length k) (n @ 32 # k) \<noteq> k"
  shows "attr_scan buf s te s k = Some (Found v)"
proof -
  define a where "a = s + length n + 2"
  have da: "drop a buf = k @ c_eq # c_dquote # v @ c_dquote # r" "rd8 buf (a - 1) = Some 32"
    using at_append [of s buf "c_lt # n @ [32]"] rd8_at [of s buf "c_lt # n" 32] d by (simp_all add: a_def)
  have absent: "attr_at buf s te j k = Some Absent" if j: "s \<le> j" "j < a" for j
  proof -
    have kb: "j + length k \<le> length buf" using j te by (simp add: a_def)
    consider "j = s" | "j = s + 1" | "s + 1 < j" using j by linarith
    then show ?thesis
    proof cases
      case 1
      have "take (length k) (drop s buf) \<noteq> k" using d ok(2) ident_plain [OF ok(2), of c_lt] by (cases k) (auto simp: ident_def)
      then show ?thesis using attr_at_other [of s j k buf te] kb 1 by simp
    next
      case 2
      have "take (length k) (drop j buf) = take (length k) ((n @ 32 # k) @ c_eq # c_dquote # v @ c_dquote # r)"
        using at_cons [OF d] 2 by simp
      also have "\<dots> = take (length k) (n @ 32 # k)" by (subst take_append) simp
      finally show ?thesis using attr_at_other [of s j k buf te] kb other j by simp
    next
      case 3
      then have i: "j - 2 - s < length n" using j by (simp add: a_def)
      have "rd8 buf (j - 1) = Some (drop s buf ! (j - 1 - s))" using kb 3 te j by (simp add: rd8_ok a_def)
      also have "drop s buf ! (j - 1 - s) = n ! (j - 2 - s)" using d 3 i by (simp add: nth_Cons' nth_append)
      finally show ?thesis using attr_at_mid [of s j buf "n ! (j - 2 - s)"] 3 ok(1) i by (simp add: ident_def list_all_length)
    qed
  qed
  have "attr_scan buf s te s k = attr_scan buf s te a k"
    using te by (intro attr_scan_absent absent) (auto simp: a_def)
  also have "\<dots> = Some (Found v)"
    using attr_at_here [OF da(1) _ da(2), of s te] ok te by (subst attr_scan.simps) (simp add: ident_def a_def)
  finally show ?thesis .
qed

subsection \<open>Text\<close>

text \<open>The escapes of XML text.\<close>

fun xml_escape :: "bytes \<Rightarrow> bytes" where
  "xml_escape [] = []"
| "xml_escape (c # t) =
     (if c = c_amp then str ''&amp;'' else if c = c_lt then str ''&lt;'' else if c = c_gt then str ''&gt;'' else [c]) @ xml_escape t"

lemma patch_snoc: "n + length x < length b \<Longrightarrow> patch (b[n := c]) (n + 1) x = patch b n (c # x)"
  by (simp add: patch_def take_Suc_conv_app_nth)

lemma entity_named: "entity (str ''amp'') = Some 38" "entity (str ''lt'') = Some 60" "entity (str ''gt'') = Some 62"
  by (simp_all add: entity_def str_def)

lemma text_loop_entity:
  assumes d: "drop i buf = c_amp # e @ c_semi # r" and e: "c_semi \<notin> set e" "e \<noteq> []" "length e < 11" "entity e = Some (unat c)" "c < 128"
    and n: "n + 1 < outcap" "length out = outcap" and lim: "i + length e + 2 \<le> lim"
  shows "text_loop buf i lim out n outcap = text_loop buf (i + length e + 2) lim (out[n := c]) (n + 1) outcap"
proof -
  define s where "s = i + 1 + length e"
  have d1: "rd8 buf i = Some c_amp" "drop (i + 1) buf = e @ c_semi # r" using at_cons [OF d] by auto
  have sl: "s < lim" using lim by (simp add: s_def)
  have sc: "scan_until (\<lambda>c. c = c_semi) buf (i + 1) (min lim (i + 12)) = Some s"
    unfolding s_def using e lim by (intro scan_until_stop [OF d1(2)]) (auto simp: list_all_iff)
  have se: "rd8 buf s = Some c_semi" unfolding s_def by (rule rd8_at [OF d1(2)])
  have re: "rdn buf (i + 1) (s - i - 1) = Some e" using rdn_at [OF d1(2) e(2)] by (simp add: s_def)
  have "unat c < 128" using e(5) by (simp add: word_less_nat_alt)
  then have u: "utf8 (unat c) = [c]" by (simp add: utf8_def)
  have w: "wrn out n [c] = Some (out[n := c])" using n by (simp add: wrn_def patch_def upd_conv_take_nth_drop)
  show ?thesis
    using d1(1) sc se re e(4) u w n sl lim by (subst text_loop.simps) (simp add: Let_def s_def)
qed

lemma text_loop_escape:
  assumes "drop i buf = xml_escape t @ r" "lim = i + length (xml_escape t)" "n + length t < outcap" "length out = outcap"
  shows "text_loop buf i lim out n outcap = Some (patch out n (t @ [0]), Ok (n + length t))"
  using assms
proof (induction t arbitrary: i out n)
  case Nil
  then show ?case by (subst text_loop.simps) (simp add: wr8_def patch_def upd_conv_take_nth_drop)
next
  case (Cons c t)
  have ent: ?case
    if x: "xml_escape (c # t) = c_amp # e @ c_semi # xml_escape t" and e: "c_semi \<notin> set e" "e \<noteq> []" "length e < 11" "entity e = Some (unat c)" "c < 128" for e
  proof -
    have "text_loop buf i lim out n outcap = text_loop buf (i + length e + 2) lim (out[n := c]) (n + 1) outcap"
      using Cons.prems x e by (intro text_loop_entity [where r = "xml_escape t @ r"]) auto
    also have "\<dots> = Some (patch (out[n := c]) (n + 1) (t @ [0]), Ok (n + 1 + length t))"
      using Cons.prems x at_append [of i buf "c_amp # e @ [c_semi]" "xml_escape t @ r"] by (intro Cons.IH) auto
    finally show ?thesis using patch_snoc [of n "t @ [0]" out c] Cons.prems by simp
  qed
  consider "c = c_amp" | "c = c_lt" | "c = c_gt" | "c \<noteq> c_amp" "xml_escape (c # t) = c # xml_escape t" by force
  then show ?case
  proof cases
    case 1
    show ?thesis by (rule ent [of "str ''amp''"]) (use 1 in \<open>simp_all add: entity_named, simp_all add: str_def\<close>)
  next
    case 2
    show ?thesis by (rule ent [of "str ''lt''"]) (use 2 in \<open>simp_all add: entity_named, simp_all add: str_def\<close>)
  next
    case 3
    show ?thesis by (rule ent [of "str ''gt''"]) (use 3 in \<open>simp_all add: entity_named, simp_all add: str_def\<close>)
  next
    case 4
    have "rd8 buf i = Some c" "drop (i + 1) buf = xml_escape t @ r" using at_cons [of i buf c] Cons.prems 4 by auto
    then have "text_loop buf i lim out n outcap = text_loop buf (i + 1) lim (out[n := c]) (n + 1) outcap"
      using Cons.prems 4 by (subst text_loop.simps) (simp add: wr8_def)
    also have "\<dots> = Some (patch (out[n := c]) (n + 1) (t @ [0]), Ok (n + 1 + length t))"
      using Cons.prems 4 \<open>drop (i + 1) buf = _\<close> by (intro Cons.IH) auto
    finally show ?thesis using patch_snoc [of n "t @ [0]" out c] Cons.prems by simp
  qed
qed

lemma xml_text_decode_escape:
  assumes "drop s (take e buf) = xml_escape t" "s \<le> e" "e \<le> length buf" "length t < outcap" "length out = outcap"
  shows "xml_text_decode buf s e out outcap = Some (patch out 0 (t @ [0]), Ok (length t))"
proof -
  have d: "drop s buf = xml_escape t @ drop e buf" using slice_drop [OF assms(1-3)] .
  have l: "e = s + length (xml_escape t)" using assms(1-3) by (metis length_drop length_take min.absorb2 le_add_diff_inverse)
  have nl: "take 9 (drop s buf) \<noteq> str ''<![CDATA[''" if big: "s + 12 \<le> e"
  proof -
    obtain c t' where "t = c # t'" using big l by (cases t) auto
    then have "hd (xml_escape t) \<noteq> c_lt" "xml_escape t \<noteq> []" by (auto simp: str_def)
    then have "hd (drop s buf) \<noteq> c_lt" using d by simp
    then show ?thesis by (cases "drop s buf") (auto simp: str_def)
  qed
  have "xml_text_decode buf s e out outcap = text_loop buf s e out 0 outcap"
    using nl assms(3) by (cases "s + 12 \<le> e") (auto simp: xml_text_decode_def rdn_ok)
  then show ?thesis using text_loop_escape [OF d l, of 0 outcap out] assms by simp
qed

subsection \<open>Documents that are too deep\<close>


section \<open>Properties\<close>

text \<open>C28: the search for a child element returns for every frame, place and name (\<open>None\<close> would be a read outside the
  buffer or a loop that never ends), and what it finds lies behind the place where it began and inside the frame, so a
  search that resumes at \<open>next_pos\<close> makes progress. The daemon keeps a NUL behind the frame.\<close>

theorem xml_find_child_returns:
  "\<exists>r. xml_find_child (xml @ [0]) pos (length xml) tag = Some r \<and>
     (case r of Found (cs, ce, np) \<Rightarrow> pos < cs \<and> cs \<le> ce \<and> ce \<le> np \<and> np \<le> length xml | _ \<Rightarrow> True)"
proof -
  obtain r where "xml_find_child (xml @ [0]) pos (length xml) tag = Some r" "\<forall>x. r = Found x \<longrightarrow> child_bounds pos (length xml) x"
    using xml_find_child_ok [of "length xml" "xml @ [0]"] by fastforce
  then show ?thesis by (cases r) (auto simp: child_bounds_def)
qed

text \<open>C25: what a client writes is what the daemon reads. In the text of any forest of elements nested at most 32 deep, the
  search finds the first child with the name, and decoding its content gives the text that was escaped.\<close>

theorem xml_reads_documents:
  assumes "list_all xml_ok cs" "\<forall>c \<in> set cs. height c \<le> EPP_XML_MAX_DEPTH"
    and "child_of tag cs = Some (as, [Chars (xml_escape v)], ds)" "length v < cap" "length out = cap"
  shows "\<exists>s e np. xml_find_child (forest cs @ [0]) 0 (length (forest cs)) tag = Some (Found (s, e, np))
    \<and> xml_text_decode (forest cs @ [0]) s e out cap = Some (patch out 0 (v @ [0]), Ok (length v))"
proof -
  obtain s e np where "xml_find_child (forest cs @ [0]) 0 (length (forest cs)) tag = Some (Found (s, e, np))"
    "drop s (take e (forest cs @ [0])) = xml_escape v" "s \<le> e" "e \<le> length (forest cs)"
    using find_forest [OF assms(1) _ assms(2), of "[]" "length (forest cs)" "forest cs @ [0]" 0 tag] assms(3) by auto
  then show ?thesis using xml_text_decode_escape [of s e "forest cs @ [0]" v cap out] assms(4,5) by auto
qed


section \<open>Witnesses\<close>


lemma name_a: "xml_name (str ''a'')" "xml_name (str ''clID'')" "xml_name (str ''x'')"
  by (simp_all add: xml_name_def str_def is_blank_def)



lemma xml_reads_documents_witness:
  "let cs = [Empty (str ''x'') [], Elem (str ''clID'') [] [Chars (xml_escape (str ''a&b''))]] in
   \<exists>s e np. xml_find_child (forest cs @ [0]) 0 (length (forest cs)) (str ''clID'') = Some (Found (s, e, np))
     \<and> xml_text_decode (forest cs @ [0]) s e (replicate 8 0) 8 = Some (patch (replicate 8 0) 0 (str ''a&b'' @ [0]), Ok 3)"
proof -
  let ?cs = "[Empty (str ''x'') [], Elem (str ''clID'') [] [Chars (xml_escape (str ''a&b''))]]"
  have a: "list_all xml_ok ?cs" by (simp add: name_a xml_attrs_def) (simp add: str_def)
  have b: "\<forall>c \<in> set ?cs. height c \<le> EPP_XML_MAX_DEPTH" by (simp add: EPP_XML_MAX_DEPTH_def)
  have c: "child_of (str ''clID'') ?cs = Some ([], [Chars (xml_escape (str ''a&b''))], [])" by (simp add: str_def)
  have d: "length (str ''a&b'') = 3" by (simp add: str_def)
  have e: "length (str ''a&b'') < 8" "length (replicate 8 (0 :: u8)) = 8" by (simp_all add: d)
  show ?thesis using xml_reads_documents [OF a b c e] unfolding d Let_def .
qed

end
