(* ===== verification/Frame.thy ===== *)
theory Frame
  imports Tlv Resp
begin

text \<open>
  Message framing: the frames of an EPP session (\<open>epp_frame_next\<close>, \<open>epp_read_frame\<close>, \<open>epp_write_frame\<close> of \<open>eppd.c\<close>) and the streams of
  DNS over QUIC (\<open>doq_frame_next\<close>, \<open>dns_forward\<close> and \<open>doq_handle_stream\<close> of \<open>doqd.c\<close>). As in the Valkey client, what a peer sends is a
  list of pieces, cut in any way; an empty piece or the end of the list is a read that fails.
\<close>

section \<open>EPP over TLS\<close>

definition EPP_MAX_FRAME :: nat where "EPP_MAX_FRAME = 65535"

text \<open>The results 0, -1 and 1 of \<open>epp_frame_next\<close>; a frame has its offset, its length and the bytes consumed.\<close>

datatype frame_res = More | Bad | Frame nat nat nat

definition epp_frame_next :: "bytes \<Rightarrow> frame_res option" where
  "epp_frame_next buf =
     (if length buf < 4 then Some More
      else do {
        total \<leftarrow> get32 buf 0;
        if total < 4 \<or> total > of_nat EPP_MAX_FRAME + 4 then Some Bad
        else if of_nat (length buf) < total then Some More
        else Some (Frame 4 (unat total - 4) (unat total)) })"

text \<open>
  \<open>epp_read_frame\<close>: \<open>acc\<close> holds the \<open>acclen\<close> valid bytes of the accumulation buffer, \<open>rx\<close> what the peer sends. The result is the
  length and the payload, or \<open>Err\<close>; a length of 0 is also what a connection that was closed gives.
\<close>

definition ACC_CAP :: nat where "ACC_CAP = 4 + EPP_MAX_FRAME"

function epp_read_frame :: "bytes \<Rightarrow> bytes list \<Rightarrow> nat \<Rightarrow> (bytes cres \<times> bytes \<times> bytes list) option" where
  "epp_read_frame acc q outcap =
     (case epp_frame_next acc of
        None \<Rightarrow> None
      | Some Bad \<Rightarrow> Some (Err, acc, q)
      | Some (Frame xoff xlen consumed) \<Rightarrow>
          if xlen \<ge> outcap then Some (Err, acc, q)
          else do { out \<leftarrow> rdn acc xoff xlen; Some (Ok out, drop consumed acc, q) }
      | Some More \<Rightarrow>
          if length acc \<ge> ACC_CAP then Some (Err, acc, q)
          else case recv (ACC_CAP - length acc) q of
            None \<Rightarrow> Some (if acc = [] then Ok [] else Err, acc, tl q)
          | Some (got, q') \<Rightarrow> epp_read_frame (acc @ got) q' outcap)"
  by pat_completeness auto
termination
  by (relation "measure (\<lambda>(acc, q, outcap). length (concat q))")
    (auto simp: recv_def ACC_CAP_def EPP_MAX_FRAME_def split: list.splits if_splits)

declare epp_read_frame.simps [simp del]

text \<open>
  \<open>epp_write_frame\<close>: the header goes out in one call that must take all of it, the payload in as many calls as it needs. \<open>caps\<close> are the
  bytes that successive calls of \<open>SSL_write\<close> take; no entry or 0 is a failed call.
\<close>

fun ssl_write_all :: "nat list \<Rightarrow> bytes \<Rightarrow> bytes \<Rightarrow> bytes \<times> unit cres" where
  "ssl_write_all caps [] out = (out, Ok ())"
| "ssl_write_all [] b out = (out, Err)"
| "ssl_write_all (n # caps) b out = (if n = 0 then (out, Err) else ssl_write_all caps (drop n b) (out @ take n b))"

definition epp_write_frame :: "nat list \<Rightarrow> bytes \<Rightarrow> bytes \<times> unit cres" where
  "epp_write_frame caps xml =
     (if length xml > EPP_MAX_FRAME then ([], Err)
      else let hdr = be32 (of_nat (length xml) + 4)
           in case caps of
             [] \<Rightarrow> ([], Err)
           | n # caps \<Rightarrow> if n < 4 then (take n hdr, Err) else ssl_write_all caps xml hdr)"

section \<open>DNS over QUIC\<close>

text \<open>A loop of \<open>recv\<close> calls for \<open>n\<close> bytes: what arrived before a call failed, and the rest of the stream.\<close>

function read_n :: "nat \<Rightarrow> bytes list \<Rightarrow> bytes \<times> bytes list" where
  "read_n n q =
     (if n = 0 then ([], q)
      else case recv n q of
        None \<Rightarrow> ([], tl q)
      | Some (got, q') \<Rightarrow> (case read_n (n - length got) q' of (b, q'') \<Rightarrow> (got @ b, q'')))"
  by pat_completeness auto
termination
  by (relation "measure (\<lambda>(n, q). n)") (auto simp: recv_def split: list.splits if_splits)

declare read_n.simps [simp del]

text \<open>
  \<open>dns_forward\<close>: the peer is \<open>dnsd\<close>. \<open>udp\<close> is the datagram that comes back (\<open>None\<close>: no socket, nothing sent or nothing received in
  time), \<open>tcp_up\<close> that a TCP connection takes the query, \<open>tcp_rx\<close> what it sends back. The result is the array \<open>resp\<close> up to the length returned.
\<close>

record dnsd =
  udp :: "bytes option"
  tcp_up :: bool
  tcp_rx :: "bytes list"

definition dns_forward :: "dnsd \<Rightarrow> bytes \<Rightarrow> nat \<Rightarrow> bytes option" where
  "dns_forward D q rmax =
     (if length q < 12 then None
      else case udp D of
        None \<Rightarrow> None
      | Some d \<Rightarrow>
          let resp = take rmax d; rlen = length resp in
          if rlen < 12 then None
          else if resp ! 2 AND 2 = 0 then Some resp
          else if \<not> tcp_up D then Some resp
          else case read_n 2 (tcp_rx D) of
            (lr, q') \<Rightarrow>
              if length lr < 2 then Some resp
              else let tlen = (case get16 lr 0 of Some w \<Rightarrow> unat w | None \<Rightarrow> 0) in
                if tlen < 12 \<or> tlen > rmax then Some resp
                else case read_n tlen q' of
                  (b, _) \<Rightarrow> if length b < tlen then Some (take rlen (b @ drop (length b) resp)) else Some b)"

definition DOQ_MAX_MSG :: nat where "DOQ_MAX_MSG = 65535"

definition doq_frame_next :: "bytes \<Rightarrow> bytes cres option" where
  "doq_frame_next buf =
     (if length buf < 2 then Some Err
      else do {
        declared \<leftarrow> get16 buf 0;
        if declared < 12 then Some Err
        else if 2 + unat declared \<noteq> length buf then Some Err
        else do { m \<leftarrow> rdn buf 2 (unat declared); Some (Ok m) } })"

text \<open>
  The read loop of \<open>doq_handle_stream\<close>; the stream ends with \<open>fin\<close> when the client concluded it, and otherwise with an error.
\<close>

fun doq_read :: "bytes list \<Rightarrow> bool \<Rightarrow> bytes \<Rightarrow> bytes cres" where
  "doq_read [] fin buf = (if fin then Ok buf else Err)"
| "doq_read (c # cs) fin buf =
     (if length buf + length c \<ge> 2 + DOQ_MAX_MSG then Err else doq_read cs fin (buf @ c))"

datatype doq_result = DoqClose nat | DoqReset nat | DoqReply bytes

definition DOQ_INTERNAL_ERROR :: nat where "DOQ_INTERNAL_ERROR = 1"
definition DOQ_PROTOCOL_ERROR :: nat where "DOQ_PROTOCOL_ERROR = 2"

text \<open>The whole handler, with memory for the buffer and a peer that takes the reply.\<close>

definition doq_handle_stream :: "dnsd \<Rightarrow> bool \<Rightarrow> bytes list \<Rightarrow> bool \<Rightarrow> doq_result option" where
  "doq_handle_stream D bidi cs fin =
     (if \<not> bidi then Some (DoqClose DOQ_PROTOCOL_ERROR)
      else case doq_read cs fin [] of
        Err \<Rightarrow> Some (DoqReset DOQ_PROTOCOL_ERROR)
      | Ok buf \<Rightarrow> do {
          m \<leftarrow> doq_frame_next buf;
          case m of
            Err \<Rightarrow> Some (DoqReset DOQ_PROTOCOL_ERROR)
          | Ok msg \<Rightarrow>
              (case dns_forward D msg DOQ_MAX_MSG of
                 None \<Rightarrow> Some (DoqReset DOQ_INTERNAL_ERROR)
               | Some resp \<Rightarrow> Some (DoqReply (be16 (of_nat (length resp)) @ resp))) })"

section \<open>Frames are read back\<close>

definition epp_frame :: "bytes \<Rightarrow> bytes" where
  "epp_frame xml = be32 (of_nat (length xml) + 4) @ xml"

definition pieces :: "bytes list \<Rightarrow> bool" where
  "pieces q \<longleftrightarrow> (\<forall>c \<in> set q. c \<noteq> [])"

lemma recv_pieces:
  assumes "pieces q" "concat q \<noteq> []" "0 < room"
  obtains got q' where "recv room q = Some (got, q')" "got \<noteq> []" "got @ concat q' = concat q" "pieces q'" "length got \<le> room"
  using assms by (cases q) (auto simp: recv_def pieces_def)

lemma unat_of_nat_u32: "n < 4294967296 \<Longrightarrow> unat (of_nat n :: u32) = n"
  by (simp add: unat_of_nat)

lemma frame_word:
  assumes "length xml \<le> EPP_MAX_FRAME"
  shows "unat (of_nat (length xml) + 4 :: u32) = length xml + 4" "\<not> of_nat (length xml) + 4 < (4 :: u32)"
    "\<not> of_nat EPP_MAX_FRAME + 4 < (of_nat (length xml) + 4 :: u32)"
proof -
  have e: "unat (of_nat n + 4 :: u32) = n + 4" if "n \<le> EPP_MAX_FRAME" for n
    using that unat_of_nat_u32 [of "n + 4"] by (simp add: EPP_MAX_FRAME_def)
  show "unat (of_nat (length xml) + 4 :: u32) = length xml + 4" using e assms .
  show "\<not> of_nat (length xml) + 4 < (4 :: u32)" using e [OF assms] by (simp add: word_less_nat_alt)
  show "\<not> of_nat EPP_MAX_FRAME + 4 < (of_nat (length xml) + 4 :: u32)"
    using e [OF assms] e [of EPP_MAX_FRAME] assms by (simp add: word_less_nat_alt)
qed

lemma epp_frame_next_prefix:
  assumes p: "acc @ x = epp_frame xml @ rest" and l: "length xml \<le> EPP_MAX_FRAME" "length acc \<le> ACC_CAP"
  shows "epp_frame_next acc = Some (if length acc < length xml + 4 then More else Frame 4 (length xml) (length xml + 4))"
proof (cases "length acc < 4")
  case True
  then show ?thesis by (simp add: epp_frame_next_def)
next
  case False
  have "take 4 acc = take 4 (acc @ x)" using False by simp
  then have "take 4 (drop 0 acc) = be32 (of_nat (length xml) + 4)" by (simp add: p epp_frame_def)
  then have g: "get32 acc 0 = Some (of_nat (length xml) + 4)" using False by (intro get32_at) auto
  have "unat (of_nat (length acc) :: u32) = length acc"
    using l(2) by (intro unat_of_nat_u32) (simp add: ACC_CAP_def EPP_MAX_FRAME_def)
  then show ?thesis
    using False g frame_word [OF l(1)] by (simp add: epp_frame_next_def word_less_nat_alt [of "of_nat (length acc)"])
qed

lemma epp_read_frame_ok:
  assumes "acc @ concat q = epp_frame xml @ rest" "length xml \<le> EPP_MAX_FRAME" "length acc \<le> ACC_CAP" "pieces q"
  shows "\<exists>acc' q'. epp_read_frame acc q (EPP_MAX_FRAME + 1) = Some (Ok xml, acc', q')
    \<and> acc' @ concat q' = rest \<and> length acc' \<le> ACC_CAP \<and> pieces q'"
  using assms
proof (induction acc q "EPP_MAX_FRAME + 1" rule: epp_read_frame.induct)
  case (1 acc q)
  note nx = epp_frame_next_prefix [OF 1(2-4)]
  have lf: "length (epp_frame xml) = length xml + 4" by (simp add: epp_frame_def)
  show ?case
  proof (cases "length acc < length xml + 4")
    case True
    then have ne: "concat q \<noteq> []" using 1(2) lf by (metis append_Nil2 length_append not_add_less1)
    have room: "0 < ACC_CAP - length acc" using True 1(3) by (simp add: ACC_CAP_def)
    obtain got q' where g: "recv (ACC_CAP - length acc) q = Some (got, q')" "got @ concat q' = concat q" "pieces q'"
      "length got \<le> ACC_CAP - length acc"
      using recv_pieces [OF 1(5) ne room] by metis
    have "\<exists>acc' q''. epp_read_frame (acc @ got) q' (EPP_MAX_FRAME + 1) = Some (Ok xml, acc', q'')
        \<and> acc' @ concat q'' = rest \<and> length acc' \<le> ACC_CAP \<and> pieces q''"
      using nx True room g 1(2-4) by (intro 1(1)) auto
    then show ?thesis using nx True room g(1) by (simp add: epp_read_frame.simps [of acc q])
  next
    case False
    have "take (length xml + 4) (acc @ concat q) = epp_frame xml" "drop (length xml + 4) (acc @ concat q) = rest"
      unfolding 1(2) using lf by simp_all
    then have t: "take (length xml + 4) acc = epp_frame xml" and a2: "drop (length xml + 4) acc @ concat q = rest"
      using False by simp_all
    have a: "acc = epp_frame xml @ drop (length xml + 4) acc" using t by (metis append_take_drop_id)
    have "drop 4 acc = xml @ drop (length xml + 4) acc" by (subst a) (simp add: epp_frame_def)
    then have "rdn acc 4 (length xml) = Some xml" using False by (simp add: rdn_def)
    then show ?thesis using nx False 1(3-5) a2 by (simp add: epp_read_frame.simps [of acc q])
  qed
qed

lemma epp_read_close: "epp_read_frame [] [] cap = Some (Ok [], [], [])"
  by (simp add: epp_read_frame.simps [of "[]"] epp_frame_next_def recv_def ACC_CAP_def)

lemma ssl_write_all_ok: "ssl_write_all caps b out = (w, Ok ()) \<Longrightarrow> w = out @ b"
proof (induction caps b out rule: ssl_write_all.induct)
  case (3 n caps c b out)
  then show ?case by (auto split: if_splits)
qed auto

lemma epp_write_frame_ok: "epp_write_frame caps xml = (w, Ok ()) \<Longrightarrow> w = epp_frame xml \<and> length xml \<le> EPP_MAX_FRAME"
  by (auto simp: epp_write_frame_def Let_def epp_frame_def dest!: ssl_write_all_ok split: if_splits list.splits)

section \<open>Streams of DNS over QUIC\<close>

lemma read_n_ok:
  assumes "pieces q" "n \<le> length (concat q)"
  shows "\<exists>q'. read_n n q = (take n (concat q), q') \<and> concat q' = drop n (concat q) \<and> pieces q'"
  using assms
proof (induction n q rule: read_n.induct)
  case (1 n q)
  show ?case
  proof (cases "n = 0")
    case False
    then have "concat q \<noteq> []" using 1(3) by (cases "concat q") auto
    then obtain got q' where g: "recv n q = Some (got, q')" "got @ concat q' = concat q" "pieces q'" "length got \<le> n"
      using recv_pieces [OF 1(2)] False by (metis neq0_conv)
    have l: "length (concat q) = length got + length (concat q')" unfolding g(2) [symmetric] by simp
    have "n - length got \<le> length (concat q')" using 1(3) l by simp
    then obtain q'' where "read_n (n - length got) q' = (take (n - length got) (concat q'), q'')" "concat q'' = drop (n - length got) (concat q')" "pieces q''"
      using 1(1) [OF False g(1) refl g(3)] by blast
    then show ?thesis using False g by (simp add: read_n.simps [of n] g(2) [symmetric])
  qed (use 1 in \<open>auto simp: read_n.simps [of 0]\<close>)
qed


lemma doq_read_Ok:
  "doq_read cs fin b = Ok buf \<Longrightarrow> length b < 2 + DOQ_MAX_MSG \<Longrightarrow> fin \<and> buf = b @ concat cs \<and> length buf < 2 + DOQ_MAX_MSG"
proof (induction cs arbitrary: b)
  case Nil
  then show ?case by (cases fin) auto
next
  case (Cons c cs)
  then have "doq_read cs fin (b @ c) = Ok buf" "length (b @ c) < 2 + DOQ_MAX_MSG" by (simp_all split: if_splits)
  then show ?case using Cons.IH [of "b @ c"] by (metis append.assoc concat.simps(2))
qed



lemma doq_reset:
  assumes "\<nexists>msg. concat cs = be16 (of_nat (length msg)) @ msg \<and> 12 \<le> length msg \<and> length msg < DOQ_MAX_MSG \<and> fin"
  shows "doq_handle_stream D True cs fin = Some (DoqReset DOQ_PROTOCOL_ERROR)"
proof (cases "doq_read cs fin []")
  case Err
  then show ?thesis by (simp add: doq_handle_stream_def)
next
  case (Ok buf)
  have "fin \<and> buf = [] @ concat cs \<and> length buf < 2 + DOQ_MAX_MSG" by (rule doq_read_Ok [OF Ok]) (simp add: DOQ_MAX_MSG_def)
  then have b: "fin" "buf = concat cs" "length buf < 2 + DOQ_MAX_MSG" by auto
  have "doq_frame_next buf = Some Err"
  proof (cases "length buf < 2")
    case False
    then obtain h l r where hl: "buf = h # l # r" by (cases buf; cases "tl buf") auto
    define w :: u16 where "w = push_bit 8 (ucast h) OR ucast l"
    have w: "get16 buf 0 = Some w" using False by (simp add: get16_ok hl w_def)
    have "2 + unat w \<noteq> length buf" if big: "\<not> w < 12"
    proof
      assume len: "2 + unat w = length buf"
      then have "buf = be16 w @ r" "unat w = length r" using be16_get16 [of h l] hl by (auto simp: w_def)
      moreover have "of_nat (unat w) = w" by simp
      ultimately have "concat cs = be16 (of_nat (length r)) @ r" "12 \<le> length r" "length r < DOQ_MAX_MSG"
        using b big by (auto simp: word_less_nat_alt)
      then show False using assms b(1) by blast
    qed
    then show ?thesis using False w by (simp add: doq_frame_next_def)
  qed (simp add: doq_frame_next_def)
  then show ?thesis using Ok by (simp add: doq_handle_stream_def)
qed

text \<open>C34: a stream that is anything but one message of 12 octets or more, closed by the client, is reset and nothing is relayed.\<close>

theorem doq_fails_closed:
  assumes "\<nexists>msg. concat cs = be16 (of_nat (length msg)) @ msg \<and> 12 \<le> length msg \<and> length msg < DOQ_MAX_MSG \<and> fin"
  shows "doq_handle_stream D True cs fin = Some (DoqReset DOQ_PROTOCOL_ERROR)"
  using assms by (rule doq_reset)

text \<open>the largest DNS message, of 65535 octets, is refused although its length prefix can announce it: with its prefix it
  fills the buffer, and the loop takes a full buffer for an oversized stream.\<close>

theorem doq_largest_message_refused:
  assumes "concat cs = be16 (of_nat (length msg)) @ msg" "length msg = DOQ_MAX_MSG"
  shows "doq_handle_stream D True cs fin = Some (DoqReset DOQ_PROTOCOL_ERROR)"
proof (rule doq_reset)
  show "\<nexists>m. concat cs = be16 (of_nat (length m)) @ m \<and> 12 \<le> length m \<and> length m < DOQ_MAX_MSG \<and> fin"
    using assms by (metis append_eq_append_conv length_be(1) less_irrefl)
qed

text \<open>when the retry over TCP breaks off in the middle of the message, the truncated UDP answer is returned with its
  first octets overwritten by those of the other message.\<close>

theorem dns_forward_mixes:
  assumes "12 \<le> length q" "udp D = Some u" "12 \<le> length u" "length u \<le> rmax" "u ! 2 AND 2 \<noteq> 0" "tcp_up D"
    and "tcp_rx D = [be16 (of_nat n), b]" "12 \<le> n" "n \<le> rmax" "n < 65536" "length b < n" "b \<noteq> []"
  shows "dns_forward D q rmax = Some (take (length u) (b @ drop (length b) u))"
proof -
  have l: "read_n 2 [be16 (of_nat n), b] = (be16 (of_nat n), [b])"
    by (simp add: read_n.simps [of 2] read_n.simps [of 0] recv_def)
  have g: "get16 (be16 (of_nat n)) 0 = Some (of_nat n)" by (intro get16_at) simp_all
  have r: "read_n n [b] = (b, [])"
    using assms(8,11,12) by (simp add: read_n.simps [of n] recv_def read_n.simps [of "n - length b"])
  show ?thesis using assms l g r by (simp add: dns_forward_def Let_def unat_of_nat_u16)
qed

section \<open>Witnesses\<close>


definition demo_dnsd :: dnsd where
  "demo_dnsd = \<lparr>udp = Some (replicate 12 0), tcp_up = False, tcp_rx = []\<rparr>"


lemma doq_fails_closed_witness:
  "doq_handle_stream demo_dnsd True [[0], [12, 1]] True = Some (DoqReset DOQ_PROTOCOL_ERROR)"
proof (rule doq_fails_closed)
  have "length (concat [[0], [12, 1 :: u8]]) = 3" by simp
  then show "\<nexists>m. concat [[0], [12, 1]] = be16 (of_nat (length m)) @ m \<and> 12 \<le> length m \<and> length m < DOQ_MAX_MSG \<and> True"
    by (auto dest!: arg_cong [of _ _ length])
qed

end
