(* ===== verification/EppObj.thy ===== *)
theory EppObj
  imports Tlv
begin

text \<open>
  The objects of the EPP registry (\<open>eppd.c\<close>): domains, hosts, contacts, organisations and poll messages, and how they are kept as
  tag-length-value blobs (\<open>epp_domain_encode\<close>, \<open>epp_domain_decode\<close> and their siblings). The locale \<open>epp_object\<close> is the contract of such a pair:
  what was encoded is what is decoded, and whatever bytes are decoded give a well-formed object. All five pairs are interpretations of it.
\<close>

section \<open>Objects\<close>

abbreviation "EPP_TAG_ROID \<equiv> 1 :: u8"
abbreviation "EPP_TAG_STATUS \<equiv> 2 :: u8"
abbreviation "EPP_TAG_AUTHINFO \<equiv> 3 :: u8"
abbreviation "EPP_TAG_CRDATE \<equiv> 4 :: u8"
abbreviation "EPP_TAG_EXDATE \<equiv> 5 :: u8"
abbreviation "EPP_TAG_REGISTRANT \<equiv> 6 :: u8"
abbreviation "EPP_TAG_NS \<equiv> 7 :: u8"
abbreviation "EPP_TAG_ADDR_V4 \<equiv> 8 :: u8"
abbreviation "EPP_TAG_ADDR_V6 \<equiv> 9 :: u8"
abbreviation "EPP_TAG_NAME \<equiv> 10 :: u8"
abbreviation "EPP_TAG_EMAIL \<equiv> 11 :: u8"
abbreviation "EPP_TAG_VOICE \<equiv> 12 :: u8"
abbreviation "EPP_TAG_CLID \<equiv> 13 :: u8"
abbreviation "EPP_TAG_RGP_STATE \<equiv> 14 :: u8"
abbreviation "EPP_TAG_RGP_UNTIL \<equiv> 15 :: u8"
abbreviation "EPP_TAG_DS \<equiv> 16 :: u8"
abbreviation "EPP_TAG_TRANSFER_REID \<equiv> 17 :: u8"
abbreviation "EPP_TAG_TRANSFER_REDATE \<equiv> 18 :: u8"
abbreviation "EPP_TAG_TRANSFER_STATUS \<equiv> 19 :: u8"
abbreviation "EPP_TAG_MSG \<equiv> 20 :: u8"
abbreviation "EPP_TAG_QDATE \<equiv> 21 :: u8"
abbreviation "EPP_TAG_OBJTYPE \<equiv> 22 :: u8"
abbreviation "EPP_TAG_OBJID \<equiv> 23 :: u8"
abbreviation "EPP_TAG_CP_STATE \<equiv> 24 :: u8"
abbreviation "EPP_TAG_CP_OPERATION \<equiv> 25 :: u8"
abbreviation "EPP_TAG_CP_WHO \<equiv> 26 :: u8"
abbreviation "EPP_TAG_CP_REASON \<equiv> 27 :: u8"
abbreviation "EPP_TAG_RESDATA \<equiv> 28 :: u8"
abbreviation "EPP_TAG_PARENTID \<equiv> 29 :: u8"
abbreviation "EPP_TAG_ROLE \<equiv> 30 :: u8"
abbreviation "EPP_TAG_ORGID \<equiv> 31 :: u8"

definition EPP_MAX_ARR :: nat where "EPP_MAX_ARR = 16"
definition EPP_DS_MAX_DIGEST :: nat where "EPP_DS_MAX_DIGEST = 68"

text \<open>The states of a domain's grace period; a decoder casts any octet to the enum.\<close>

datatype epp_rgp_state = EPP_RGP_NONE | EPP_RGP_ADD | EPP_RGP_AUTORENEW | EPP_RGP_TRANSFER | EPP_RGP_REDEMPTION | EPP_RGP_OTHER u8

fun rgp_octet :: "epp_rgp_state \<Rightarrow> u8" where
  "rgp_octet EPP_RGP_NONE = 0"
| "rgp_octet EPP_RGP_ADD = 1"
| "rgp_octet EPP_RGP_AUTORENEW = 2"
| "rgp_octet EPP_RGP_TRANSFER = 3"
| "rgp_octet EPP_RGP_REDEMPTION = 4"
| "rgp_octet (EPP_RGP_OTHER b) = b"

definition rgp_of :: "u8 \<Rightarrow> epp_rgp_state" where
  "rgp_of b = (if b = 0 then EPP_RGP_NONE else if b = 1 then EPP_RGP_ADD else if b = 2 then EPP_RGP_AUTORENEW
     else if b = 3 then EPP_RGP_TRANSFER else if b = 4 then EPP_RGP_REDEMPTION else EPP_RGP_OTHER b)"

text \<open>The arrays and their counters are lists, the strings in them lists of their characters.\<close>

record epp_ds =
  keytag :: u16
  alg :: u8
  digtype :: u8
  digest :: bytes

record epp_domain =
  d_roid :: cstr
  d_clid :: cstr
  d_status :: "cstr list"
  d_authinfo :: cstr
  d_crdate :: u32
  d_exdate :: u32
  d_registrant :: cstr
  d_ns :: "cstr list"
  d_ds :: "epp_ds list"
  d_rgp_state :: epp_rgp_state
  d_rgp_until :: u32
  d_transfer_reid :: cstr
  d_transfer_redate :: u32
  d_transfer_status :: cstr

record epp_host =
  h_roid :: cstr
  h_clid :: cstr
  h_status :: "cstr list"
  h_v4 :: "cstr list"
  h_v6 :: "cstr list"
  h_crdate :: u32

record epp_contact =
  c_roid :: cstr
  c_clid :: cstr
  c_name :: cstr
  c_email :: cstr
  c_voice :: cstr
  c_authinfo :: cstr
  c_crdate :: u32

record epp_org =
  o_id :: cstr
  o_roid :: cstr
  o_clid :: cstr
  o_status :: "cstr list"
  o_parentid :: cstr
  o_roles :: "cstr list"
  o_email :: cstr
  o_voice :: cstr
  o_crdate :: u32

record epp_poll_msg =
  m_msg :: cstr
  m_qdate :: u32
  m_objtype :: cstr
  m_objid :: cstr
  m_cp_state :: cstr
  m_cp_operation :: cstr
  m_cp_who :: cstr
  m_cp_reason :: cstr
  m_resdata :: cstr

section \<open>Encoders\<close>

text \<open>A run of \<open>tlv_put\<close> calls guarded by \<open>off >= 0\<close>.\<close>

fun tlv_put_all :: "bytes \<Rightarrow> nat \<Rightarrow> nat \<Rightarrow> (u8 \<times> bytes) list \<Rightarrow> (bytes \<times> nat cres) option" where
  "tlv_put_all buf cap off [] = Some (buf, Ok off)"
| "tlv_put_all buf cap off ((t, v) # is) = and_then (tlv_put buf cap off t v) (\<lambda>buf off. tlv_put_all buf cap off is)"

definition encode_items :: "(u8 \<times> bytes) list \<Rightarrow> bytes \<Rightarrow> nat \<Rightarrow> (bytes \<times> nat cres) option" where
  "encode_items is buf cap = and_then (tlv_begin buf cap 1) (\<lambda>buf off. tlv_put_all buf cap off is)"

text \<open>A string that is put only when it is not empty, a number only when it is not 0.\<close>

definition opt_str :: "u8 \<Rightarrow> cstr \<Rightarrow> (u8 \<times> bytes) list" where
  "opt_str t s = (if s \<noteq> [] then [(t, s)] else [])"

definition opt_u32 :: "u8 \<Rightarrow> u32 \<Rightarrow> (u8 \<times> bytes) list" where
  "opt_u32 t v = (if v \<noteq> 0 then [(t, be32 v)] else [])"

definition opt_rgp :: "u8 \<Rightarrow> epp_rgp_state \<Rightarrow> (u8 \<times> bytes) list" where
  "opt_rgp t x = (if x \<noteq> EPP_RGP_NONE then [(t, [rgp_octet x])] else [])"

definition ds_raw :: "epp_ds \<Rightarrow> bytes" where
  "ds_raw e = be16 (keytag e) @ [alg e, digtype e] @ take EPP_DS_MAX_DIGEST (digest e)"

definition domain_items :: "epp_domain \<Rightarrow> (u8 \<times> bytes) list" where
  "domain_items d = [(EPP_TAG_ROID, d_roid d)] @ opt_str EPP_TAG_CLID (d_clid d) @ map (Pair EPP_TAG_STATUS) (d_status d)
     @ opt_str EPP_TAG_AUTHINFO (d_authinfo d) @ [(EPP_TAG_CRDATE, be32 (d_crdate d))] @ opt_u32 EPP_TAG_EXDATE (d_exdate d)
     @ opt_str EPP_TAG_REGISTRANT (d_registrant d) @ map (Pair EPP_TAG_NS) (d_ns d) @ map (\<lambda>e. (EPP_TAG_DS, ds_raw e)) (d_ds d)
     @ opt_rgp EPP_TAG_RGP_STATE (d_rgp_state d)
     @ opt_u32 EPP_TAG_RGP_UNTIL (d_rgp_until d) @ opt_str EPP_TAG_TRANSFER_REID (d_transfer_reid d)
     @ opt_u32 EPP_TAG_TRANSFER_REDATE (d_transfer_redate d) @ opt_str EPP_TAG_TRANSFER_STATUS (d_transfer_status d)"

definition epp_domain_encode :: "epp_domain \<Rightarrow> bytes \<Rightarrow> nat \<Rightarrow> (bytes \<times> nat cres) option" where
  "epp_domain_encode d = encode_items (domain_items d)"

definition host_items :: "epp_host \<Rightarrow> (u8 \<times> bytes) list" where
  "host_items h = [(EPP_TAG_ROID, h_roid h)] @ opt_str EPP_TAG_CLID (h_clid h) @ map (Pair EPP_TAG_STATUS) (h_status h)
     @ map (Pair EPP_TAG_ADDR_V4) (h_v4 h) @ map (Pair EPP_TAG_ADDR_V6) (h_v6 h) @ [(EPP_TAG_CRDATE, be32 (h_crdate h))]"

definition epp_host_encode :: "epp_host \<Rightarrow> bytes \<Rightarrow> nat \<Rightarrow> (bytes \<times> nat cres) option" where
  "epp_host_encode h = encode_items (host_items h)"

definition contact_items :: "epp_contact \<Rightarrow> (u8 \<times> bytes) list" where
  "contact_items c = [(EPP_TAG_ROID, c_roid c)] @ opt_str EPP_TAG_CLID (c_clid c) @ opt_str EPP_TAG_NAME (c_name c)
     @ opt_str EPP_TAG_EMAIL (c_email c) @ opt_str EPP_TAG_VOICE (c_voice c) @ opt_str EPP_TAG_AUTHINFO (c_authinfo c)
     @ [(EPP_TAG_CRDATE, be32 (c_crdate c))]"

definition epp_contact_encode :: "epp_contact \<Rightarrow> bytes \<Rightarrow> nat \<Rightarrow> (bytes \<times> nat cres) option" where
  "epp_contact_encode c = encode_items (contact_items c)"

definition org_items :: "epp_org \<Rightarrow> (u8 \<times> bytes) list" where
  "org_items g = [(EPP_TAG_ORGID, o_id g), (EPP_TAG_ROID, o_roid g)] @ opt_str EPP_TAG_CLID (o_clid g)
     @ map (Pair EPP_TAG_STATUS) (o_status g) @ opt_str EPP_TAG_PARENTID (o_parentid g) @ map (Pair EPP_TAG_ROLE) (o_roles g)
     @ opt_str EPP_TAG_EMAIL (o_email g) @ opt_str EPP_TAG_VOICE (o_voice g) @ [(EPP_TAG_CRDATE, be32 (o_crdate g))]"

definition epp_org_encode :: "epp_org \<Rightarrow> bytes \<Rightarrow> nat \<Rightarrow> (bytes \<times> nat cres) option" where
  "epp_org_encode g = encode_items (org_items g)"

definition poll_items :: "epp_poll_msg \<Rightarrow> (u8 \<times> bytes) list" where
  "poll_items m = [(EPP_TAG_MSG, m_msg m), (EPP_TAG_QDATE, be32 (m_qdate m)), (EPP_TAG_OBJTYPE, m_objtype m), (EPP_TAG_OBJID, m_objid m)]
     @ opt_str EPP_TAG_CP_STATE (m_cp_state m) @ opt_str EPP_TAG_CP_OPERATION (m_cp_operation m) @ opt_str EPP_TAG_CP_WHO (m_cp_who m)
     @ opt_str EPP_TAG_CP_REASON (m_cp_reason m) @ opt_str EPP_TAG_RESDATA (m_resdata m)"

definition epp_poll_encode :: "epp_poll_msg \<Rightarrow> bytes \<Rightarrow> nat \<Rightarrow> (bytes \<times> nat cres) option" where
  "epp_poll_encode m = encode_items (poll_items m)"

section \<open>Decoders\<close>

definition tlv_u32_of :: "bytes \<Rightarrow> u32" where
  "tlv_u32_of v = (if length v \<noteq> 4 then 0 else case get32 v 0 of Some w \<Rightarrow> w | None \<Rightarrow> 0)"

text \<open>The string a value leaves in an array of \<open>n\<close> characters that held \<open>old\<close>; the entry a value adds to an array of such strings.\<close>

definition dec_str :: "nat \<Rightarrow> bytes \<Rightarrow> cstr \<Rightarrow> cstr" where
  "dec_str n v old = (if length v < n then cstr_of v else old)"

definition dec_add :: "nat \<Rightarrow> bytes \<Rightarrow> cstr list \<Rightarrow> cstr list" where
  "dec_add n v xs = (if length xs < EPP_MAX_ARR \<and> length v < n then xs @ [cstr_of v] else xs)"

definition dec_ds :: "bytes \<Rightarrow> epp_ds list \<Rightarrow> epp_ds list" where
  "dec_ds v xs =
     (if length xs < EPP_MAX_ARR \<and> length v \<ge> 4 \<and> length v - 4 \<le> EPP_DS_MAX_DIGEST
      then xs @ [\<lparr>keytag = push_bit 8 (ucast (v ! 0)) OR ucast (v ! 1), alg = v ! 2, digtype = v ! 3, digest = drop 4 v\<rparr>] else xs)"

definition domain0 :: epp_domain where
  "domain0 = \<lparr>d_roid = [], d_clid = [], d_status = [], d_authinfo = [], d_crdate = 0, d_exdate = 0, d_registrant = [], d_ns = [],
     d_ds = [], d_rgp_state = EPP_RGP_NONE, d_rgp_until = 0, d_transfer_reid = [], d_transfer_redate = 0, d_transfer_status = []\<rparr>"

definition domain_item :: "epp_domain \<Rightarrow> u8 \<Rightarrow> bytes \<Rightarrow> epp_domain cres" where
  "domain_item d tag v =
     Ok (if tag = EPP_TAG_ROID then d\<lparr>d_roid := dec_str 32 v (d_roid d)\<rparr>
         else if tag = EPP_TAG_STATUS then d\<lparr>d_status := dec_add 32 v (d_status d)\<rparr>
         else if tag = EPP_TAG_AUTHINFO then d\<lparr>d_authinfo := dec_str 256 v (d_authinfo d)\<rparr>
         else if tag = EPP_TAG_CRDATE then d\<lparr>d_crdate := tlv_u32_of v\<rparr>
         else if tag = EPP_TAG_EXDATE then d\<lparr>d_exdate := tlv_u32_of v\<rparr>
         else if tag = EPP_TAG_REGISTRANT then d\<lparr>d_registrant := dec_str 64 v (d_registrant d)\<rparr>
         else if tag = EPP_TAG_NS then d\<lparr>d_ns := dec_add 256 v (d_ns d)\<rparr>
         else if tag = EPP_TAG_CLID then d\<lparr>d_clid := dec_str 64 v (d_clid d)\<rparr>
         else if tag = EPP_TAG_DS then d\<lparr>d_ds := dec_ds v (d_ds d)\<rparr>
         else if tag = EPP_TAG_RGP_STATE then (if length v = 1 then d\<lparr>d_rgp_state := rgp_of (v ! 0)\<rparr> else d)
         else if tag = EPP_TAG_RGP_UNTIL then d\<lparr>d_rgp_until := tlv_u32_of v\<rparr>
         else if tag = EPP_TAG_TRANSFER_REID then d\<lparr>d_transfer_reid := dec_str 64 v (d_transfer_reid d)\<rparr>
         else if tag = EPP_TAG_TRANSFER_REDATE then d\<lparr>d_transfer_redate := tlv_u32_of v\<rparr>
         else if tag = EPP_TAG_TRANSFER_STATUS then d\<lparr>d_transfer_status := dec_str 24 v (d_transfer_status d)\<rparr>
         else d)"

definition epp_domain_decode :: "bytes \<Rightarrow> nat \<Rightarrow> epp_domain cres option" where
  "epp_domain_decode buf len = tlv_fold domain_item buf len 1 domain0"

definition host0 :: epp_host where
  "host0 = \<lparr>h_roid = [], h_clid = [], h_status = [], h_v4 = [], h_v6 = [], h_crdate = 0\<rparr>"

definition host_item :: "epp_host \<Rightarrow> u8 \<Rightarrow> bytes \<Rightarrow> epp_host cres" where
  "host_item h tag v =
     Ok (if tag = EPP_TAG_ROID then h\<lparr>h_roid := dec_str 32 v (h_roid h)\<rparr>
         else if tag = EPP_TAG_STATUS then h\<lparr>h_status := dec_add 32 v (h_status h)\<rparr>
         else if tag = EPP_TAG_ADDR_V4 then h\<lparr>h_v4 := dec_add 16 v (h_v4 h)\<rparr>
         else if tag = EPP_TAG_ADDR_V6 then h\<lparr>h_v6 := dec_add 46 v (h_v6 h)\<rparr>
         else if tag = EPP_TAG_CRDATE then h\<lparr>h_crdate := tlv_u32_of v\<rparr>
         else if tag = EPP_TAG_CLID then h\<lparr>h_clid := dec_str 64 v (h_clid h)\<rparr>
         else h)"

definition epp_host_decode :: "bytes \<Rightarrow> nat \<Rightarrow> epp_host cres option" where
  "epp_host_decode buf len = tlv_fold host_item buf len 1 host0"

definition contact0 :: epp_contact where
  "contact0 = \<lparr>c_roid = [], c_clid = [], c_name = [], c_email = [], c_voice = [], c_authinfo = [], c_crdate = 0\<rparr>"

definition contact_item :: "epp_contact \<Rightarrow> u8 \<Rightarrow> bytes \<Rightarrow> epp_contact cres" where
  "contact_item c tag v =
     Ok (if tag = EPP_TAG_ROID then c\<lparr>c_roid := dec_str 32 v (c_roid c)\<rparr>
         else if tag = EPP_TAG_NAME then c\<lparr>c_name := dec_str 128 v (c_name c)\<rparr>
         else if tag = EPP_TAG_EMAIL then c\<lparr>c_email := dec_str 128 v (c_email c)\<rparr>
         else if tag = EPP_TAG_VOICE then c\<lparr>c_voice := dec_str 32 v (c_voice c)\<rparr>
         else if tag = EPP_TAG_AUTHINFO then c\<lparr>c_authinfo := dec_str 256 v (c_authinfo c)\<rparr>
         else if tag = EPP_TAG_CRDATE then c\<lparr>c_crdate := tlv_u32_of v\<rparr>
         else if tag = EPP_TAG_CLID then c\<lparr>c_clid := dec_str 64 v (c_clid c)\<rparr>
         else c)"

definition epp_contact_decode :: "bytes \<Rightarrow> nat \<Rightarrow> epp_contact cres option" where
  "epp_contact_decode buf len = tlv_fold contact_item buf len 1 contact0"

definition org0 :: epp_org where
  "org0 = \<lparr>o_id = [], o_roid = [], o_clid = [], o_status = [], o_parentid = [], o_roles = [], o_email = [], o_voice = [], o_crdate = 0\<rparr>"

definition org_item :: "epp_org \<Rightarrow> u8 \<Rightarrow> bytes \<Rightarrow> epp_org cres" where
  "org_item g tag v =
     Ok (if tag = EPP_TAG_ORGID then g\<lparr>o_id := dec_str 64 v (o_id g)\<rparr>
         else if tag = EPP_TAG_ROID then g\<lparr>o_roid := dec_str 32 v (o_roid g)\<rparr>
         else if tag = EPP_TAG_CLID then g\<lparr>o_clid := dec_str 64 v (o_clid g)\<rparr>
         else if tag = EPP_TAG_STATUS then g\<lparr>o_status := dec_add 32 v (o_status g)\<rparr>
         else if tag = EPP_TAG_PARENTID then g\<lparr>o_parentid := dec_str 64 v (o_parentid g)\<rparr>
         else if tag = EPP_TAG_ROLE then g\<lparr>o_roles := dec_add 32 v (o_roles g)\<rparr>
         else if tag = EPP_TAG_EMAIL then g\<lparr>o_email := dec_str 128 v (o_email g)\<rparr>
         else if tag = EPP_TAG_VOICE then g\<lparr>o_voice := dec_str 32 v (o_voice g)\<rparr>
         else if tag = EPP_TAG_CRDATE then g\<lparr>o_crdate := tlv_u32_of v\<rparr>
         else g)"

definition epp_org_decode :: "bytes \<Rightarrow> nat \<Rightarrow> epp_org cres option" where
  "epp_org_decode buf len = tlv_fold org_item buf len 1 org0"

definition poll0 :: epp_poll_msg where
  "poll0 = \<lparr>m_msg = [], m_qdate = 0, m_objtype = [], m_objid = [], m_cp_state = [], m_cp_operation = [], m_cp_who = [],
     m_cp_reason = [], m_resdata = []\<rparr>"

definition poll_item :: "epp_poll_msg \<Rightarrow> u8 \<Rightarrow> bytes \<Rightarrow> epp_poll_msg cres" where
  "poll_item m tag v =
     Ok (if tag = EPP_TAG_MSG then m\<lparr>m_msg := dec_str 256 v (m_msg m)\<rparr>
         else if tag = EPP_TAG_QDATE then m\<lparr>m_qdate := tlv_u32_of v\<rparr>
         else if tag = EPP_TAG_OBJTYPE then m\<lparr>m_objtype := dec_str 16 v (m_objtype m)\<rparr>
         else if tag = EPP_TAG_OBJID then m\<lparr>m_objid := dec_str 256 v (m_objid m)\<rparr>
         else if tag = EPP_TAG_CP_STATE then m\<lparr>m_cp_state := dec_str 8 v (m_cp_state m)\<rparr>
         else if tag = EPP_TAG_CP_OPERATION then m\<lparr>m_cp_operation := dec_str 32 v (m_cp_operation m)\<rparr>
         else if tag = EPP_TAG_CP_WHO then m\<lparr>m_cp_who := dec_str 64 v (m_cp_who m)\<rparr>
         else if tag = EPP_TAG_CP_REASON then m\<lparr>m_cp_reason := dec_str 256 v (m_cp_reason m)\<rparr>
         else if tag = EPP_TAG_RESDATA then m\<lparr>m_resdata := dec_str 1024 v (m_resdata m)\<rparr>
         else m)"

definition epp_poll_decode :: "bytes \<Rightarrow> nat \<Rightarrow> epp_poll_msg cres option" where
  "epp_poll_decode buf len = tlv_fold poll_item buf len 1 poll0"

section \<open>The contract of a codec\<close>

lemma fold_res_append: "fold_res f s (is @ js) = (case fold_res f s is of Err \<Rightarrow> Err | Ok s \<Rightarrow> fold_res f s js)"
  by (induction f s "is" rule: fold_res.induct) (auto split: cres.splits)

lemma tlv_put_all_puts:
  "tlv_put_all buf cap off is = Some (buf', Ok off') \<longleftrightarrow> tlv_puts (tlv_write cap) (buf, off) is = Some (buf', off')"
proof (induction "is" arbitrary: buf off)
  case (Cons x "is")
  obtain t v where x: "x = (t, v)" by (cases x)
  show ?case
    by (auto simp: x and_then_Ok Cons.IH tlv_put_write bind_eq_Some_conv)
qed simp

lemma tlv_fold_wf:
  assumes step: "\<And>s t v. valid s \<Longrightarrow> \<exists>s'. f s t v = Ok s' \<and> valid s'"
  shows "valid s \<Longrightarrow> tlv_fold f buf len off s = Some (Ok x) \<Longrightarrow> valid x"
proof (induction "len - off" arbitrary: off s rule: less_induct)
  case less
  note eq = less.prems(2) [unfolded tlv_fold.simps [of f buf len off s]]
  show ?case
  proof (cases "tlv_next buf len off")
    case None
    then show ?thesis using eq by simp
  next
    case (Some r)
    show ?thesis
    proof (cases r)
      case (TlvItem t v off')
      have "off + 3 \<le> off'" "off' \<le> len"
        using Some TlvItem by (auto simp: tlv_next_def split: if_splits Option.bind_splits)
      moreover obtain s' where "f s t v = Ok s'" "valid s'" using step [OF less.prems(1)] by blast
      ultimately show ?thesis using less.hyps [of off' s'] eq Some TlvItem by simp
    qed (use eq Some less.prems in auto)
  qed
qed

lemma tlv_fold_total:
  assumes "len \<le> length buf"
  shows "\<exists>r. tlv_fold f buf len off s = Some r"
proof (induction "len - off" arbitrary: off s rule: less_induct)
  case less
  obtain r where r: "tlv_next buf len off = Some r" using tlv_next_safe [OF assms] by blast
  show ?case
  proof (cases r)
    case (TlvItem t v off')
    have "off + 3 \<le> off'" "off' \<le> len"
      using r TlvItem by (auto simp: tlv_next_def split: if_splits Option.bind_splits)
    then show ?thesis using less r TlvItem by (subst tlv_fold.simps) (auto split: cres.splits)
  qed (use r in \<open>auto simp: tlv_fold.simps [of f buf len off s]\<close>)
qed

lemma tlv_put_all_total:
  assumes "cap \<le> length buf" "off \<le> cap"
  shows "\<exists>buf'. length buf' = length buf \<and> tlv_put_all buf cap off is =
    Some (buf', if off + length (tlv_enc is) \<le> cap \<and> list_all (\<lambda>x. length (snd x) \<le> 0xFFFF) is then Ok (off + length (tlv_enc is)) else Err)"
  using assms
proof (induction "is" arbitrary: buf off)
  case (Cons x "is")
  obtain t v where x: "x = (t, v)" by (cases x)
  show ?case
  proof (cases "length v \<le> 0xFFFF \<and> off + 3 + length v \<le> cap")
    case True
    then have "length (patch buf off (tlv_enc [(t, v)])) = length buf" using Cons.prems by simp
    then show ?thesis
      using Cons.IH [of "patch buf off (tlv_enc [(t, v)])" "off + 3 + length v"] Cons.prems True
      by (auto simp: x tlv_put_spec and_then_def add.assoc)
  qed (use Cons.prems in \<open>auto simp: x tlv_put_spec and_then_def\<close>)
qed simp

locale epp_object =
  fixes items :: "'a \<Rightarrow> (u8 \<times> bytes) list" and item :: "'a \<Rightarrow> u8 \<Rightarrow> bytes \<Rightarrow> 'a cres" and init :: 'a and valid :: "'a \<Rightarrow> bool"
  assumes items_read: "valid x \<Longrightarrow> fold_res item init (items x) = Ok x"
    and items_size: "valid x \<Longrightarrow> (t, v) \<in> set (items x) \<Longrightarrow> length v \<le> 0xFFFF"
    and item_wf: "valid x \<Longrightarrow> \<exists>y. item x t v = Ok y \<and> valid y"
    and init_wf: "valid init"
begin

abbreviation "encode x \<equiv> encode_items (items x)"
abbreviation "decode buf len \<equiv> tlv_fold item buf len 1 init"

text \<open>Any bytes decode to a well-formed object or are refused.\<close>

lemma decode_wf: "decode buf len = Some (Ok x) \<Longrightarrow> valid x"
  using tlv_fold_wf [of valid item init buf len 1] item_wf init_wf by blast

lemma decode_total: "len \<le> length buf \<Longrightarrow> \<exists>r. decode buf len = Some r"
  by (rule tlv_fold_total)

text \<open>An object fits exactly when its encoding does, and what was encoded is what is decoded.\<close>

lemma encode_fits:
  assumes "cap \<le> length buf" "1 \<le> cap" "valid x"
  shows "\<exists>buf'. length buf' = length buf \<and> encode x buf cap =
    Some (buf', if 1 + length (tlv_enc (items x)) \<le> cap then Ok (1 + length (tlv_enc (items x))) else Err)"
proof -
  have "list_all (\<lambda>x. length (snd x) \<le> 0xFFFF) (items x)" using items_size [OF assms(3)] by (auto simp: list_all_iff)
  then show ?thesis
    using tlv_put_all_total [of cap "buf[0 := 1]" 1 "items x"] assms
    by (auto simp: encode_items_def tlv_begin_def wr8_def and_then_def split: if_splits)
qed

lemma decode_encode:
  assumes "cap \<le> length buf" "valid x" "encode x buf cap = Some (buf', Ok n)"
  shows "decode buf' n = Some (Ok x)"
proof -
  obtain b off where b: "tlv_begin buf cap 1 = Some (b, Ok off)" "tlv_put_all b cap off (items x) = Some (buf', Ok n)"
    using assms(3) by (auto simp: encode_items_def and_then_Ok)
  have h: "tlv_holds cap (b, off) []" using tlv_begin_holds [OF assms(1) b(1)] by simp
  have "tlv_holds cap (buf', n) (items x)" using blob.puts_holds [OF h] b(2) by (simp add: tlv_put_all_puts)
  then show ?thesis using items_read [OF assms(2)] tlv_items_enc [of cap buf' n "items x" item init] by simp
qed

end

section \<open>Well-formed objects\<close>

definition cfits :: "nat \<Rightarrow> cstr \<Rightarrow> bool" where
  "cfits n s \<longleftrightarrow> 0 \<notin> set s \<and> length s < n"

definition cfits_list :: "nat \<Rightarrow> cstr list \<Rightarrow> bool" where
  "cfits_list n xs \<longleftrightarrow> length xs \<le> EPP_MAX_ARR \<and> list_all (cfits n) xs"

definition ds_list :: "epp_ds list \<Rightarrow> bool" where
  "ds_list xs \<longleftrightarrow> length xs \<le> EPP_MAX_ARR \<and> list_all (\<lambda>e. length (digest e) \<le> EPP_DS_MAX_DIGEST) xs"

definition domain_ok :: "epp_domain \<Rightarrow> bool" where
  "domain_ok d \<longleftrightarrow> cfits 32 (d_roid d) \<and> cfits 64 (d_clid d) \<and> cfits_list 32 (d_status d) \<and> cfits 256 (d_authinfo d) \<and> cfits 64 (d_registrant d)
     \<and> cfits_list 256 (d_ns d) \<and> ds_list (d_ds d) \<and> rgp_of (rgp_octet (d_rgp_state d)) = d_rgp_state d
     \<and> cfits 64 (d_transfer_reid d) \<and> cfits 24 (d_transfer_status d)"

definition host_ok :: "epp_host \<Rightarrow> bool" where
  "host_ok h \<longleftrightarrow> cfits 32 (h_roid h) \<and> cfits 64 (h_clid h) \<and> cfits_list 32 (h_status h) \<and> cfits_list 16 (h_v4 h) \<and> cfits_list 46 (h_v6 h)"

definition contact_ok :: "epp_contact \<Rightarrow> bool" where
  "contact_ok c \<longleftrightarrow> cfits 32 (c_roid c) \<and> cfits 64 (c_clid c) \<and> cfits 128 (c_name c) \<and> cfits 128 (c_email c) \<and> cfits 32 (c_voice c) \<and> cfits 256 (c_authinfo c)"

definition org_ok :: "epp_org \<Rightarrow> bool" where
  "org_ok g \<longleftrightarrow> cfits 64 (o_id g) \<and> cfits 32 (o_roid g) \<and> cfits 64 (o_clid g) \<and> cfits_list 32 (o_status g) \<and> cfits 64 (o_parentid g)
     \<and> cfits_list 32 (o_roles g) \<and> cfits 128 (o_email g) \<and> cfits 32 (o_voice g)"

definition poll_ok :: "epp_poll_msg \<Rightarrow> bool" where
  "poll_ok m \<longleftrightarrow> cfits 256 (m_msg m) \<and> cfits 16 (m_objtype m) \<and> cfits 256 (m_objid m) \<and> cfits 8 (m_cp_state m) \<and> cfits 32 (m_cp_operation m)
     \<and> cfits 64 (m_cp_who m) \<and> cfits 256 (m_cp_reason m) \<and> cfits 1024 (m_resdata m)"

lemma cs_nil [simp]: "cfits n [] \<longleftrightarrow> 0 < n"
  by (simp add: cfits_def)

lemma cs_cstr_of: "length v < n \<Longrightarrow> cfits n (cstr_of v)"
  using length_cstr_of [of v] by (simp add: cfits_def cstr_of_no_nul)

lemma dec_str_cs [simp]: "cfits n s \<Longrightarrow> dec_str n s old = s"
  by (simp add: dec_str_def cfits_def cstr_of_id)

lemma cs_dec_str: "cfits n old \<Longrightarrow> cfits n (dec_str n v old)"
  by (simp add: dec_str_def cs_cstr_of)

lemma dec_add_cs: "cfits n s \<Longrightarrow> length xs < EPP_MAX_ARR \<Longrightarrow> dec_add n s xs = xs @ [s]"
  by (simp add: dec_add_def cfits_def cstr_of_id)

lemma cs_list_add: "cfits_list n xs \<Longrightarrow> cfits_list n (dec_add n v xs)"
  by (auto simp: dec_add_def cfits_list_def cs_cstr_of)

lemma ds_list_add: "ds_list xs \<Longrightarrow> ds_list (dec_ds v xs)"
  by (auto simp: dec_ds_def ds_list_def)

lemma dec_ds_raw:
  assumes "length (digest e) \<le> EPP_DS_MAX_DIGEST" "length xs < EPP_MAX_ARR"
  shows "dec_ds (ds_raw e) xs = xs @ [e]"
proof -
  obtain h l where b: "be16 (keytag e) = [h, l]" by (auto simp: be16_def)
  then have "push_bit 8 (ucast h) OR ucast l = keytag e" by (rule be16_inj)
  then show ?thesis using assms b by (simp add: dec_ds_def ds_raw_def)
qed

lemma u32_be32 [simp]: "tlv_u32_of (be32 v) = v"
proof -
  have "get32 (be32 v) 0 = Some v" by (intro get32_at) simp_all
  then show ?thesis by (simp add: tlv_u32_of_def)
qed

text \<open>An optional item may be taken as always present when reading its empty value changes nothing.\<close>

lemma fold_opt_str: "(v = [] \<Longrightarrow> f s t [] = Ok s) \<Longrightarrow> fold_res f s (opt_str t v @ is) = fold_res f s ((t, v) # is)"
  by (simp add: opt_str_def)

lemma fold_opt_u32: "(v = 0 \<Longrightarrow> f s t (be32 0) = Ok s) \<Longrightarrow> fold_res f s (opt_u32 t v @ is) = fold_res f s ((t, be32 v) # is)"
  by (simp add: opt_u32_def)

text \<open>A run of items with one tag fills its array.\<close>

lemma fold_run:
  assumes "\<And>s v. P v \<Longrightarrow> length (get s) < EPP_MAX_ARR \<Longrightarrow> f s t (raw v) = Ok (upd (\<lambda>_. get s @ [v]) s)"
    and "\<And>x s. get (upd (\<lambda>_. x) s) = x" "\<And>x y s. upd (\<lambda>_. x) (upd (\<lambda>_. y) s) = upd (\<lambda>_. x) s" "\<And>s. upd (\<lambda>_. get s) s = s"
    and "list_all P vs" "length (get s) + length vs \<le> EPP_MAX_ARR"
  shows "fold_res f s (map (\<lambda>v. (t, raw v)) vs @ is) = fold_res f (upd (\<lambda>_. get s @ vs) s) is"
  using assms(5,6)
proof (induction vs arbitrary: s)
  case Nil
  then show ?case using assms(4) by simp
next
  case (Cons v vs)
  then show ?case using assms(1) [of v s] assms(2,3) by simp
qed

lemmas fold_strs = fold_run [where P = "cfits n" and raw = "\<lambda>v. v" for n]

lemma rgp_of_octet [simp]: "rgp_of (rgp_octet (rgp_of b)) = rgp_of b"
  by (simp add: rgp_of_def)

lemma domain_runs:
  assumes "length vs \<le> EPP_MAX_ARR"
  shows "list_all (cfits 32) vs \<Longrightarrow> d_status s = [] \<Longrightarrow>
      fold_res domain_item s (map (Pair EPP_TAG_STATUS) vs @ is) = fold_res domain_item (s\<lparr>d_status := vs\<rparr>) is"
    and "list_all (cfits 256) vs \<Longrightarrow> d_ns s = [] \<Longrightarrow>
      fold_res domain_item s (map (Pair EPP_TAG_NS) vs @ is) = fold_res domain_item (s\<lparr>d_ns := vs\<rparr>) is"
proof -
  show "fold_res domain_item s (map (Pair EPP_TAG_STATUS) vs @ is) = fold_res domain_item (s\<lparr>d_status := vs\<rparr>) is"
    if "list_all (cfits 32) vs" "d_status s = []"
    using fold_strs [where f = domain_item and get = d_status and upd = d_status_update and t = EPP_TAG_STATUS and n = 32 and vs = vs and s = s] that assms
    by (simp add: domain_item_def dec_add_cs)
  show "fold_res domain_item s (map (Pair EPP_TAG_NS) vs @ is) = fold_res domain_item (s\<lparr>d_ns := vs\<rparr>) is"
    if "list_all (cfits 256) vs" "d_ns s = []"
    using fold_strs [where f = domain_item and get = d_ns and upd = d_ns_update and t = EPP_TAG_NS and n = 256 and vs = vs and s = s] that assms
    by (simp add: domain_item_def dec_add_cs)
qed

lemma domain_item_ok: "domain_ok d \<Longrightarrow> \<exists>y. domain_item d t v = Ok y \<and> domain_ok y"
  unfolding domain_item_def
  by (simp add: domain_ok_def cs_dec_str cs_list_add ds_list_add)

lemma domain_ds_run:
  "list_all (\<lambda>e. length (digest e) \<le> EPP_DS_MAX_DIGEST) vs \<Longrightarrow> length vs \<le> EPP_MAX_ARR \<Longrightarrow> d_ds s = [] \<Longrightarrow>
   fold_res domain_item s (map (\<lambda>e. (EPP_TAG_DS, ds_raw e)) vs @ is) = fold_res domain_item (s\<lparr>d_ds := vs\<rparr>) is"
  using fold_run [where f = domain_item and get = d_ds and upd = d_ds_update and t = EPP_TAG_DS and raw = ds_raw and vs = vs and s = s
      and P = "\<lambda>e. length (digest e) \<le> EPP_DS_MAX_DIGEST"]
  by (simp add: domain_item_def dec_ds_raw)

lemma fold_opt_rgp:
  "(x = EPP_RGP_NONE \<Longrightarrow> f s t [0] = Ok s) \<Longrightarrow>
   fold_res f s (opt_rgp t x @ is) = fold_res f s ((t, [rgp_octet x]) # is)"
  by (simp add: opt_rgp_def)

lemma rgp_of_0 [simp]: "rgp_of 0 = EPP_RGP_NONE"
  by (simp add: rgp_of_def)

lemma fold_opt_str_last: "(v = [] \<Longrightarrow> f s t [] = Ok s) \<Longrightarrow> fold_res f s (opt_str t v) = f s t v"
  using fold_opt_str [of v f s t "[]"] by (simp split: cres.splits)

lemmas read_simps = fold_opt_str fold_opt_str_last fold_opt_u32 fold_opt_rgp

lemma domain_read:
  assumes "domain_ok d"
  shows "fold_res domain_item domain0 (domain_items d) = Ok d"
  using assms unfolding domain_items_def domain0_def domain_ok_def cfits_list_def ds_list_def
  by (cases d) (simp add: read_simps domain_runs domain_ds_run domain_item_def split del: if_split)

text \<open>The longest value of an object is far below the limit of a length field.\<close>

definition short :: "(u8 \<times> bytes) list \<Rightarrow> bool" where
  "short is \<longleftrightarrow> list_all (\<lambda>x. length (snd x) \<le> 0xFFFF) is"

lemma short_simps [simp]:
  "short []" "short ((t, v) # is) \<longleftrightarrow> length v \<le> 0xFFFF \<and> short is" "short (is @ js) \<longleftrightarrow> short is \<and> short js"
  "short (opt_str t v) \<longleftrightarrow> length v \<le> 0xFFFF" "short (opt_u32 t w)" "short (opt_rgp t x)"
  by (auto simp: short_def opt_rgp_def opt_str_def opt_u32_def)

lemma cs_short: "cfits n v \<Longrightarrow> n \<le> 0x10000 \<Longrightarrow> length v \<le> 0xFFFF"
  by (simp add: cfits_def)

lemma cs_list_short: "cfits_list n vs \<Longrightarrow> n \<le> 0x10000 \<Longrightarrow> short (map (Pair t) vs)"
  by (auto simp: cfits_list_def short_def list_all_iff cfits_def)

lemma ds_short: "short (map (\<lambda>e. (t, ds_raw e)) vs)"
  by (auto simp: short_def list_all_iff ds_raw_def EPP_DS_MAX_DIGEST_def be16_def)

lemma shortD: "short is \<Longrightarrow> (t, v) \<in> set is \<Longrightarrow> length v \<le> 0xFFFF"
  by (auto simp: short_def list_all_iff)

lemma domain_short: "domain_ok d \<Longrightarrow> short (domain_items d)"
  by (simp add: domain_ok_def domain_items_def ds_short cs_short [of 32] cs_short [of 64] cs_short [of 256] cs_short [of 24] cs_list_short [of 32] cs_list_short [of 256])

interpretation dom: epp_object domain_items domain_item domain0 domain_ok
proof
  show "fold_res domain_item domain0 (domain_items x) = Ok x" if "domain_ok x" for x using that by (rule domain_read)
  show "length v \<le> 0xFFFF" if "domain_ok x" "(t, v) \<in> set (domain_items x)" for x t v using domain_short [OF that(1)] that(2) by (rule shortD)
  show "\<exists>y. domain_item x t v = Ok y \<and> domain_ok y" if "domain_ok x" for x t v using domain_item_ok [OF that] .
  show "domain_ok domain0" by (simp add: domain_ok_def domain0_def cfits_list_def ds_list_def rgp_of_def)
qed

lemma host_runs:
  assumes "length vs \<le> EPP_MAX_ARR"
  shows "list_all (cfits 32) vs \<Longrightarrow> h_status s = [] \<Longrightarrow>
      fold_res host_item s (map (Pair EPP_TAG_STATUS) vs @ is) = fold_res host_item (s\<lparr>h_status := vs\<rparr>) is"
    and "list_all (cfits 16) vs \<Longrightarrow> h_v4 s = [] \<Longrightarrow>
      fold_res host_item s (map (Pair EPP_TAG_ADDR_V4) vs @ is) = fold_res host_item (s\<lparr>h_v4 := vs\<rparr>) is"
    and "list_all (cfits 46) vs \<Longrightarrow> h_v6 s = [] \<Longrightarrow>
      fold_res host_item s (map (Pair EPP_TAG_ADDR_V6) vs @ is) = fold_res host_item (s\<lparr>h_v6 := vs\<rparr>) is"
  using assms
    fold_strs [where f = host_item and get = h_status and upd = h_status_update and t = EPP_TAG_STATUS and n = 32 and vs = vs and s = s]
    fold_strs [where f = host_item and get = h_v4 and upd = h_v4_update and t = EPP_TAG_ADDR_V4 and n = 16 and vs = vs and s = s]
    fold_strs [where f = host_item and get = h_v6 and upd = h_v6_update and t = EPP_TAG_ADDR_V6 and n = 46 and vs = vs and s = s]
  by (simp_all add: host_item_def dec_add_cs)

lemma host_item_ok: "host_ok x \<Longrightarrow> \<exists>y. host_item x t v = Ok y \<and> host_ok y"
  unfolding host_item_def
  by (simp add: host_ok_def cs_dec_str cs_list_add)

lemma host_read: "host_ok x \<Longrightarrow> fold_res host_item host0 (host_items x) = Ok x"
  unfolding host_items_def host0_def host_ok_def cfits_list_def
  by (cases x) (simp add: read_simps host_runs host_item_def split del: if_split)

lemma host_short: "host_ok x \<Longrightarrow> short (host_items x)"
  by (simp add: host_ok_def host_items_def cs_short [of 32] cs_short [of 64] cs_list_short [of 32] cs_list_short [of 16] cs_list_short [of 46])

lemma host_init: "host_ok host0"
  by (simp add: host_ok_def host0_def cfits_list_def)

interpretation hst: epp_object host_items host_item host0 host_ok
  by unfold_locales (auto simp: host_read host_item_ok host_init intro: shortD host_short)

lemma contact_item_ok: "contact_ok x \<Longrightarrow> \<exists>y. contact_item x t v = Ok y \<and> contact_ok y"
  unfolding contact_item_def
  by (simp add: contact_ok_def cs_dec_str cs_list_add)

lemma contact_read: "contact_ok x \<Longrightarrow> fold_res contact_item contact0 (contact_items x) = Ok x"
  unfolding contact_items_def contact0_def contact_ok_def cfits_list_def
  by (cases x) (simp add: read_simps contact_item_def split del: if_split)

lemma contact_short: "contact_ok x \<Longrightarrow> short (contact_items x)"
  by (simp add: contact_ok_def contact_items_def cs_short [of 32] cs_short [of 64] cs_short [of 128] cs_short [of 256])

lemma contact_init: "contact_ok contact0"
  by (simp add: contact_ok_def contact0_def cfits_list_def)

interpretation con: epp_object contact_items contact_item contact0 contact_ok
  by unfold_locales (auto simp: contact_read contact_item_ok contact_init intro: shortD contact_short)

lemma org_runs:
  assumes "length vs \<le> EPP_MAX_ARR"
  shows "list_all (cfits 32) vs \<Longrightarrow> o_status s = [] \<Longrightarrow>
      fold_res org_item s (map (Pair EPP_TAG_STATUS) vs @ is) = fold_res org_item (s\<lparr>o_status := vs\<rparr>) is"
    and "list_all (cfits 32) vs \<Longrightarrow> o_roles s = [] \<Longrightarrow>
      fold_res org_item s (map (Pair EPP_TAG_ROLE) vs @ is) = fold_res org_item (s\<lparr>o_roles := vs\<rparr>) is"
  using assms
    fold_strs [where f = org_item and get = o_status and upd = o_status_update and t = EPP_TAG_STATUS and n = 32 and vs = vs and s = s]
    fold_strs [where f = org_item and get = o_roles and upd = o_roles_update and t = EPP_TAG_ROLE and n = 32 and vs = vs and s = s]
  by (simp_all add: org_item_def dec_add_cs)

lemma org_item_ok: "org_ok x \<Longrightarrow> \<exists>y. org_item x t v = Ok y \<and> org_ok y"
  unfolding org_item_def
  by (simp add: org_ok_def cs_dec_str cs_list_add)

lemma org_read: "org_ok x \<Longrightarrow> fold_res org_item org0 (org_items x) = Ok x"
  unfolding org_items_def org0_def org_ok_def cfits_list_def
  by (cases x) (simp add: read_simps org_runs org_item_def split del: if_split)

lemma org_short: "org_ok x \<Longrightarrow> short (org_items x)"
  by (simp add: org_ok_def org_items_def cs_short [of 32] cs_short [of 64] cs_short [of 128] cs_list_short [of 32])

lemma org_init: "org_ok org0"
  by (simp add: org_ok_def org0_def cfits_list_def)

interpretation org: epp_object org_items org_item org0 org_ok
  by unfold_locales (auto simp: org_read org_item_ok org_init intro: shortD org_short)

lemma poll_item_ok: "poll_ok x \<Longrightarrow> \<exists>y. poll_item x t v = Ok y \<and> poll_ok y"
  unfolding poll_item_def
  by (simp add: poll_ok_def cs_dec_str cs_list_add)

lemma poll_read: "poll_ok x \<Longrightarrow> fold_res poll_item poll0 (poll_items x) = Ok x"
  unfolding poll_items_def poll0_def poll_ok_def cfits_list_def
  by (cases x) (simp add: read_simps poll_item_def split del: if_split)

lemma poll_short: "poll_ok x \<Longrightarrow> short (poll_items x)"
  by (simp add: poll_ok_def poll_items_def cs_short [of 256] cs_short [of 16] cs_short [of 8] cs_short [of 32] cs_short [of 64] cs_short [of 1024])

lemma poll_init: "poll_ok poll0"
  by (simp add: poll_ok_def poll0_def cfits_list_def)

interpretation pol: epp_object poll_items poll_item poll0 poll_ok
  by unfold_locales (auto simp: poll_read poll_item_ok poll_init intro: shortD poll_short)

text \<open>
  C27: the decoders are total and typed: whatever bytes the store holds under an object's key, reading them stays inside the array, ends, and either
  refuses them or gives an object in which every string has its terminator within its array, no array holds more than its
  \<open>EPP_MAX_ARR\<close> entries and no digest is longer than \<open>EPP_DS_MAX_DIGEST\<close>.
\<close>

theorem epp_decode_typed:
  assumes "len \<le> length buf"
  shows "(\<exists>r. epp_domain_decode buf len = Some r \<and> (case r of Err \<Rightarrow> True | Ok x \<Rightarrow> domain_ok x))
    \<and> (\<exists>r. epp_host_decode buf len = Some r \<and> (case r of Err \<Rightarrow> True | Ok x \<Rightarrow> host_ok x))
    \<and> (\<exists>r. epp_contact_decode buf len = Some r \<and> (case r of Err \<Rightarrow> True | Ok x \<Rightarrow> contact_ok x))
    \<and> (\<exists>r. epp_org_decode buf len = Some r \<and> (case r of Err \<Rightarrow> True | Ok x \<Rightarrow> org_ok x))
    \<and> (\<exists>r. epp_poll_decode buf len = Some r \<and> (case r of Err \<Rightarrow> True | Ok x \<Rightarrow> poll_ok x))"
  using dom.decode_total [OF assms] dom.decode_wf hst.decode_total [OF assms] hst.decode_wf con.decode_total [OF assms] con.decode_wf
    org.decode_total [OF assms] org.decode_wf pol.decode_total [OF assms] pol.decode_wf
  unfolding epp_domain_decode_def epp_host_decode_def epp_contact_decode_def epp_org_decode_def epp_poll_decode_def
  by (intro conjI; force split: cres.splits)

theorem epp_decode_typed_witness:
  "6 \<le> length [1, 1, 0, 2, 65, 66 :: u8] \<and>
   (\<exists>r. epp_domain_decode [1, 1, 0, 2, 65, 66] 6 = Some r \<and> (case r of Err \<Rightarrow> True | Ok x \<Rightarrow> domain_ok x))"
  using epp_decode_typed [of 6 "[1, 1, 0, 2, 65, 66]"] by simp

end
