(* ===== verification/EppStore.thy ===== *)
theory EppStore
  imports EppObj Xml Frame "HOL-Library.State_Monad"
begin

text \<open>
  The state of the EPP daemon (\<open>eppd.c\<close>) and the helpers its handlers share: the round trips to the Valkey server, generated identifiers,
  dates, the response envelope, objects in the store, and the publication of a domain's delegation in the parent zone. The handlers are
  computations of the library's state monad over one record. The server, the clock and the source of randomness are not part of the program:
  they are the fields of a record \<open>world\<close>. A round trip may fail before or after the server executed the command.
\<close>

section \<open>World and state\<close>

text \<open>
  The outcome of a round trip: the command was executed and answered, was not executed, or was executed and its answer lost. The commands of
  the server work on a state of a type of its own. \<open>v_keys\<close> are the keys a scan finds, in its order.
\<close>

datatype link = Up | Down | Lost

record 's world =
  v_get :: "'s \<Rightarrow> cstr \<Rightarrow> cstr option"
  v_set :: "'s \<Rightarrow> cstr \<Rightarrow> cstr \<Rightarrow> 's"
  v_del :: "'s \<Rightarrow> cstr \<Rightarrow> 's"
  v_incr :: "'s \<Rightarrow> cstr \<Rightarrow> 's"
  v_keys :: "'s \<Rightarrow> cstr \<Rightarrow> cstr list"
  net :: "nat \<Rightarrow> link"
  clock :: "nat \<Rightarrow> nat"
  entropy :: "nat \<Rightarrow> u8"
  getpid :: nat

text \<open>What the commands do to the value of a key.\<close>

definition valkey_ok :: "'s world \<Rightarrow> bool" where
  "valkey_ok W \<longleftrightarrow>
     (\<forall>s k v k'. v_get W (v_set W s k v) k' = (if k' = k then Some v else v_get W s k')) \<and>
     (\<forall>s k k'. v_get W (v_del W s k) k' = (if k' = k then None else v_get W s k')) \<and>
     (\<forall>s k k'. k' \<noteq> k \<longrightarrow> v_get W (v_incr W s k) k' = v_get W s k')"

text \<open>
  The accesses outside of an array that the code may make: at all, by the last byte of a hexadecimal text, or in the text of an
  \<open>info\<close> response.
\<close>

datatype fault = Wild | HexEnd | ExtEnd

record 's eppd =
  db :: 's
  trips :: nat
  times :: nat
  draws :: nat
  g_svtrid_counter :: u32
  g_roid_counter :: u32
  faults :: "fault set"

abbreviation ret :: "'a \<Rightarrow> ('s, 'a) state" where
  "ret \<equiv> State_Monad.return"

definition fault :: "fault \<Rightarrow> ('s eppd, unit) state" where
  "fault f = State_Monad.update (\<lambda>s. s\<lparr>faults := insert f (faults s)\<rparr>)"

text \<open>A computation of the C model; an access outside of an array is a fault and gives some value.\<close>

definition access :: "'a \<Rightarrow> 'a option \<Rightarrow> ('s eppd, 'a) state" where
  "access d x = (case x of Some v \<Rightarrow> ret v | None \<Rightarrow> do { fault Wild; ret d })"

section \<open>Round trips\<close>

definition trip :: "'s world \<Rightarrow> cstr list list \<Rightarrow> ('s eppd, link) state" where
  "trip W cmds = do {
     s \<leftarrow> State_Monad.get;
     State_Monad.set (s\<lparr>trips := trips s + 1\<rparr>);
     ret (if list_all (\<lambda>c. vkc_encode c \<noteq> Err) cmds then net W (trips s) else Down) }"

definition vk_get :: "'s world \<Rightarrow> cstr \<Rightarrow> nat \<Rightarrow> ('s eppd, cstr option) state" where
  "vk_get W key olen = do {
     l \<leftarrow> trip W [[str ''GET'', key]];
     s \<leftarrow> State_Monad.get;
     ret (if l = Up then map_option (take (olen - 1)) (v_get W (db s) key) else None) }"

text \<open>The writing commands, alone or as the commands of one transaction.\<close>

datatype vcmd = SET cstr cstr | DEL cstr | INCR cstr

fun vcmd_args :: "vcmd \<Rightarrow> cstr list" where
  "vcmd_args (SET k v) = [str ''SET'', k, v]"
| "vcmd_args (DEL k) = [str ''DEL'', k]"
| "vcmd_args (INCR k) = [str ''INCR'', k]"

fun vcmd_key :: "vcmd \<Rightarrow> cstr" where
  "vcmd_key (SET k v) = k"
| "vcmd_key (DEL k) = k"
| "vcmd_key (INCR k) = k"

fun vcmd_exec :: "'s world \<Rightarrow> vcmd \<Rightarrow> 's \<Rightarrow> 's" where
  "vcmd_exec W (SET k v) s = v_set W s k v"
| "vcmd_exec W (DEL k) s = v_del W s k"
| "vcmd_exec W (INCR k) s = v_incr W s k"

definition vk_write :: "'s world \<Rightarrow> vcmd list \<Rightarrow> ('s eppd, bool) state" where
  "vk_write W cmds = do {
     l \<leftarrow> trip W (map vcmd_args cmds);
     if l = Down then ret False
     else do {
       State_Monad.update (\<lambda>s. s\<lparr>db := fold (vcmd_exec W) cmds (db s)\<rparr>);
       ret (l = Up) } }"

definition vk_set :: "'s world \<Rightarrow> cstr \<Rightarrow> cstr \<Rightarrow> ('s eppd, bool) state" where
  "vk_set W key val = vk_write W [SET key val]"

definition vk_del :: "'s world \<Rightarrow> cstr \<Rightarrow> ('s eppd, bool) state" where
  "vk_del W key = vk_write W [DEL key]"

text \<open>\<open>vk_incr\<close> gives 0 or -1, not the number the server answers.\<close>

definition vk_incr :: "'s world \<Rightarrow> cstr \<Rightarrow> ('s eppd, int) state" where
  "vk_incr W key = do { ok \<leftarrow> vk_write W [INCR key]; ret (if ok then 0 else -1) }"

definition vk_list_keys :: "'s world \<Rightarrow> cstr \<Rightarrow> nat \<Rightarrow> ('s eppd, cstr list cres) state" where
  "vk_list_keys W pattern maxkeys = do {
     l \<leftarrow> trip W [];
     s \<leftarrow> State_Monad.get;
     ret (if l = Up then Ok (map (take 255) (take maxkeys (v_keys W (db s) pattern))) else Err) }"

section \<open>Identifiers, dates and responses\<close>

definition time_now :: "'s world \<Rightarrow> ('s eppd, nat) state" where
  "time_now W = do {
     s \<leftarrow> State_Monad.get;
     State_Monad.set (s\<lparr>times := times s + 1\<rparr>);
     ret (clock W (times s)) }"

definition time_u32 :: "'s world \<Rightarrow> ('s eppd, u32) state" where
  "time_u32 W = do { t \<leftarrow> time_now W; ret (of_nat t) }"

definition epp_gen_svtrid :: "'s world \<Rightarrow> ('s eppd, cstr) state" where
  "epp_gen_svtrid W = do {
     s \<leftarrow> State_Monad.get;
     let n = g_svtrid_counter s + 1;
     State_Monad.set (s\<lparr>g_svtrid_counter := n\<rparr>);
     ret (take 63 (str ''eppd-'' @ dec (getpid W) @ str ''-'' @ dec (unat n))) }"

definition epp_gen_roid :: "cstr \<Rightarrow> ('s eppd, cstr) state" where
  "epp_gen_roid suf = do {
     s \<leftarrow> State_Monad.get;
     let n = g_roid_counter s + 1;
     State_Monad.set (s\<lparr>g_roid_counter := n\<rparr>);
     ret (take 31 (dec (unat n) @ str ''-'' @ suf)) }"

text \<open>Sixteen octets, of \<open>RAND_bytes\<close> or of the generator the code falls back on.\<close>

definition epp_gen_authinfo :: "'s world \<Rightarrow> ('s eppd, cstr) state" where
  "epp_gen_authinfo W = do {
     s \<leftarrow> State_Monad.get;
     State_Monad.set (s\<lparr>draws := draws s + 16\<rparr>);
     ret (hex_enc (map (entropy W) [draws s ..< draws s + 16])) }"

text \<open>\<open>gmtime_r\<close> and \<open>strftime\<close> with the format of the dates of the protocol.\<close>

definition leap :: "nat \<Rightarrow> bool" where
  "leap y \<longleftrightarrow> 4 dvd y \<and> (\<not> 100 dvd y \<or> 400 dvd y)"

definition year_len :: "nat \<Rightarrow> nat" where
  "year_len y = (if leap y then 366 else 365)"

definition month_lens :: "nat \<Rightarrow> nat list" where
  "month_lens y = [31, if leap y then 29 else 28, 31, 30, 31, 30, 31, 31, 30, 31, 30, 31]"

function year_of :: "nat \<Rightarrow> nat \<Rightarrow> nat \<times> nat" where
  "year_of y d = (if d < year_len y then (y, d) else year_of (y + 1) (d - year_len y))"
  by pat_completeness auto
termination by (relation "measure snd") (auto simp: year_len_def)

declare year_of.simps [simp del]

fun month_of :: "nat list \<Rightarrow> nat \<Rightarrow> nat \<Rightarrow> nat \<times> nat" where
  "month_of [] m d = (m, d)"
| "month_of (l # ls) m d = (if d < l then (m, d) else month_of ls (m + 1) (d - l))"

definition two :: "nat \<Rightarrow> cstr" where
  "two n = (if n < 10 then str ''0'' @ dec n else dec n)"

definition iso_date :: "nat \<Rightarrow> cstr" where
  "iso_date t =
     (let (y, yd) = year_of 1970 (t div 86400); (m, d) = month_of (month_lens y) 1 yd; r = t mod 86400
      in dec y @ str ''-'' @ two m @ str ''-'' @ two (d + 1) @ str ''T'' @ two (r div 3600) @ str '':'' @ two (r div 60 mod 60) @ str '':''
         @ two (r mod 60) @ str ''Z'')"

definition epp_iso_date :: "u32 \<Rightarrow> cstr" where
  "epp_iso_date t = iso_date (unat t)"

text \<open>The text of an element, of an element with a namespace, of an attribute and of an optional element; what \<open>snprintf\<close> leaves in an array.\<close>

definition elem :: "string \<Rightarrow> cstr \<Rightarrow> cstr" where
  "elem n b = str ''<'' @ str n @ str ''>'' @ b @ str ''</'' @ str n @ str ''>''"

definition attr :: "string \<Rightarrow> cstr \<Rightarrow> cstr" where
  "attr k v = str '' '' @ str k @ str ''='' @ [34] @ v @ [34]"

definition elem_a :: "string \<Rightarrow> cstr \<Rightarrow> cstr \<Rightarrow> cstr" where
  "elem_a n a b = str ''<'' @ str n @ a @ str ''>'' @ b @ str ''</'' @ str n @ str ''>''"

definition empty_a :: "string \<Rightarrow> cstr \<Rightarrow> cstr" where
  "empty_a n a = str ''<'' @ str n @ a @ str ''/>''"

definition opt_elem :: "string \<Rightarrow> cstr \<Rightarrow> cstr" where
  "opt_elem n b = (if b \<noteq> [] then elem n b else [])"

definition urn :: "string \<Rightarrow> cstr" where
  "urn n = str ''urn:ietf:params:xml:ns:'' @ str n"

definition snp :: "nat \<Rightarrow> cstr \<Rightarrow> cstr" where
  "snp cap x = take (cap - 1) x"

text \<open>
  The text is kept with its code. The envelope writes at most as much as the array of the caller holds, but its result is the length of
  the whole text, so that the caller sees an answer that did not fit.
\<close>

type_synonym reply = "nat \<times> cstr"

definition xml_decl :: cstr where
  "xml_decl = str ''<?xml'' @ attr ''version'' (str ''1.0'') @ attr ''encoding'' (str ''UTF-8'') @ attr ''standalone'' (str ''no'') @ str ''?>''"

definition epp_build_result :: "'s world \<Rightarrow> nat \<Rightarrow> string \<Rightarrow> cstr \<Rightarrow> cstr \<Rightarrow> ('s eppd, reply) state" where
  "epp_build_result W code msg extra cltrid = do {
     svtrid \<leftarrow> epp_gen_svtrid W;
     let cltrid_xml = (if cltrid \<noteq> [] then snp 300 (elem ''clTRID'' cltrid) else []);
     ret (code, xml_decl @ elem_a ''epp'' (attr ''xmlns'' (urn ''epp-1.0''))
       (elem ''response'' (elem_a ''result'' (attr ''code'' (dec code)) (elem ''msg'' (str msg)) @ extra
          @ elem ''trID'' (cltrid_xml @ elem ''svTRID'' svtrid)))) }"

definition epp_build_greeting :: "'s world \<Rightarrow> ('s eppd, cstr) state" where
  "epp_build_greeting W = do {
     t \<leftarrow> time_now W;
     ret (xml_decl @ elem_a ''epp'' (attr ''xmlns'' (urn ''epp-1.0'')) (elem ''greeting''
       (elem ''svID'' (str ''eppd'') @ elem ''svDate'' (iso_date t)
        @ elem ''svcMenu'' (elem ''version'' (str ''1.0'') @ elem ''lang'' (str ''en'')
            @ elem ''objURI'' (urn ''domain-1.0'') @ elem ''objURI'' (urn ''host-1.0'') @ elem ''objURI'' (urn ''contact-1.0'')
            @ elem ''objURI'' (urn ''org-1.0'')
            @ elem ''svcExtension'' (elem ''extURI'' (urn ''secDNS-1.1'') @ elem ''extURI'' (urn ''rgp-1.0'')
                @ elem ''extURI'' (urn ''fee-0.11'') @ elem ''extURI'' (urn ''changePoll-1.0'')))
        @ elem ''dcp'' (elem ''access'' (str ''<all/>'')
            @ elem ''statement'' (elem ''purpose'' (str ''<admin/><prov/>'') @ elem ''recipient'' (str ''<ours/>'')
                @ elem ''retention'' (str ''<stated/>'')))))) }"

section \<open>Objects in the store\<close>

text \<open>The keys of the objects: \<open>snprintf\<close> into an array of 300 characters.\<close>

definition domain_key :: "cstr \<Rightarrow> cstr" where
  "domain_key n = snp 300 (str ''epp:domain:'' @ n)"

definition host_key :: "cstr \<Rightarrow> cstr" where
  "host_key n = snp 300 (str ''epp:host:'' @ n)"

definition contact_key :: "cstr \<Rightarrow> cstr" where
  "contact_key n = snp 300 (str ''epp:contact:'' @ n)"

definition org_key :: "cstr \<Rightarrow> cstr" where
  "org_key n = snp 300 (str ''epp:org:'' @ n)"

text \<open>Encoding into an array of \<open>cap\<close> octets, the hexadecimal text in one of twice the size, and \<open>vk_set\<close>, whose result nobody looks at.\<close>

definition put_obj :: "'s world \<Rightarrow> cstr \<Rightarrow> (bytes \<Rightarrow> nat \<Rightarrow> (bytes \<times> nat cres) option) \<Rightarrow> nat \<Rightarrow> ('s eppd, bool) state" where
  "put_obj W key enc cap = do {
     r \<leftarrow> access ([], Err) (enc (replicate cap 0) cap);
     case r of (tlv, Err) \<Rightarrow> ret False
     | (tlv, Ok n) \<Rightarrow> do {
         (if 2 * n + 1 \<le> 2 * cap then ret () else fault HexEnd);
         _ \<leftarrow> vk_set W key (hex_enc (take n tlv));
         ret True } }"

text \<open>The value of a key, decoded.\<close>

datatype 'a fetched = Missing | Corrupt | Have 'a

definition decode_blob :: "(bytes \<Rightarrow> nat \<Rightarrow> 'a cres option) \<Rightarrow> nat \<Rightarrow> cstr \<Rightarrow> 'a cres option" where
  "decode_blob d cap blob = (let tlv = hex_dec blob cap in d tlv (length tlv))"

definition get_obj :: "'s world \<Rightarrow> cstr \<Rightarrow> (bytes \<Rightarrow> nat \<Rightarrow> 'a cres option) \<Rightarrow> nat \<Rightarrow> ('s eppd, 'a fetched) state" where
  "get_obj W key d cap = do {
     b \<leftarrow> vk_get W key VKC_BUF;
     case b of None \<Rightarrow> ret Missing
     | Some blob \<Rightarrow> do {
         r \<leftarrow> access Err (decode_blob d cap blob);
         ret (case r of Err \<Rightarrow> Corrupt | Ok x \<Rightarrow> Have x) } }"

section \<open>The delegation in the parent zone\<close>

definition name_in_zone :: "cstr \<Rightarrow> cstr \<Rightarrow> bool" where
  "name_in_zone name zone =
     (let nl = length name; zl = length zone in
      if zl = 0 \<or> zl > nl then False
      else if zl = nl then strcaseeq name zone
      else nl > zl + 1 \<and> name ! (nl - zl - 1) = 46 \<and> strcaseeq (drop (nl - zl) name) zone)"

fun best_zone :: "cstr \<Rightarrow> nat \<Rightarrow> cstr \<Rightarrow> cstr list \<Rightarrow> cstr" where
  "best_zone name best zone [] = zone"
| "best_zone name best zone (zn # zs) =
     (if name_in_zone name zn \<and> length zn > best then best_zone name (length zn) (safe_strcpy zone zn 256) zs
      else best_zone name best zone zs)"

text \<open>The empty string is the result -1.\<close>

definition find_parent_zone :: "'s world \<Rightarrow> cstr \<Rightarrow> ('s eppd, cstr) state" where
  "find_parent_zone W name = do {
     r \<leftarrow> vk_list_keys W (str ''zone_table:*'') 64;
     let zone = best_zone name 0 [] (case r of Err \<Rightarrow> [] | Ok keys \<Rightarrow> map (drop 11) keys);
     if zone \<noteq> [] then ret zone
     else do { z \<leftarrow> vk_get W (str ''config:zone_name'') 256; ret (case z of None \<Rightarrow> [] | Some z \<Rightarrow> z) } }"

definition epp_serial_key :: "'s world \<Rightarrow> cstr \<Rightarrow> ('s eppd, cstr) state" where
  "epp_serial_key W zn = do {
     p \<leftarrow> vk_get W (str ''config:zone_name'') 256;
     ret (if zn = [] \<or> strcaseeq zn (case p of None \<Rightarrow> [] | Some p \<Rightarrow> p) then str ''config:zone_serial''
          else snp 320 (str ''config:zone:'' @ zn @ str '':serial'')) }"

text \<open>
  The loops that append to a text with \<open>snprintf\<close> while there is room for one more character. The number is the length the text would have.
\<close>

fun append_loop :: "nat \<Rightarrow> cstr \<times> nat \<Rightarrow> cstr list \<Rightarrow> cstr \<times> nat" where
  "append_loop cap (c, off) [] = (c, off)"
| "append_loop cap (c, off) (x # xs) =
     (if off < cap - 1 then append_loop cap (take (cap - 1) (c @ x), off + length x) xs else (c, off))"

definition append_all :: "nat \<Rightarrow> cstr \<Rightarrow> cstr list \<Rightarrow> cstr" where
  "append_all cap c xs = fst (append_loop cap (c, length c) xs)"

definition values_text :: "nat \<Rightarrow> cstr list \<Rightarrow> cstr" where
  "values_text cap vs = append_all cap (str ''3600'') (map (\<lambda>v. str ''|'' @ v) vs)"

definition ds_text :: "epp_ds \<Rightarrow> cstr" where
  "ds_text e = dec (unat (keytag e)) @ str '','' @ dec (unat (alg e)) @ str '','' @ dec (unat (digtype e)) @ str '','' @ hex_enc (digest e)"

definition zone_key :: "string \<Rightarrow> cstr \<Rightarrow> cstr \<Rightarrow> cstr" where
  "zone_key type zone name = snp 900 (str ''zone:'' @ zone @ str '':'' @ str type @ str '':'' @ name)"

definition glue_cmds :: "cstr \<Rightarrow> cstr \<Rightarrow> epp_host \<Rightarrow> vcmd list" where
  "glue_cmds zone n h =
     (if h_v4 h \<noteq> [] then [SET (zone_key ''A'' zone n) (values_text 600 (h_v4 h))] else [])
     @ (if h_v6 h \<noteq> [] then [SET (zone_key ''AAAA'' zone n) (values_text 900 (h_v6 h))] else [])"

fun find_glue :: "'s world \<Rightarrow> cstr \<Rightarrow> cstr list \<Rightarrow> ('s eppd, vcmd list) state" where
  "find_glue W zone [] = ret []"
| "find_glue W zone (n # ns) = do {
     g \<leftarrow> (if name_in_zone n zone then do {
             r \<leftarrow> get_obj W (host_key n) epp_host_decode 4096;
             ret (case r of Have h \<Rightarrow> glue_cmds zone n h | _ \<Rightarrow> []) }
           else ret []);
     gs \<leftarrow> find_glue W zone ns;
     ret (g @ gs) }"

definition epp_publish_domain :: "'s world \<Rightarrow> cstr \<Rightarrow> cstr list \<Rightarrow> epp_ds list \<Rightarrow> ('s eppd, unit) state" where
  "epp_publish_domain W name ns ds = do {
     zone \<leftarrow> find_parent_zone W name;
     if zone = [] then ret ()
     else do {
       glue \<leftarrow> find_glue W zone ns;
       ikey \<leftarrow> epp_serial_key W zone;
       _ \<leftarrow> vk_write W (
         [SET (zone_key ''NS'' zone name) (values_text 4096 ns),
          if ds \<noteq> [] then SET (zone_key ''DS'' zone name) (values_text 4096 (map ds_text ds)) else DEL (zone_key ''DS'' zone name)]
         @ glue @ [INCR ikey]);
       ret () } }"

definition epp_retract_domain :: "'s world \<Rightarrow> cstr \<Rightarrow> ('s eppd, unit) state" where
  "epp_retract_domain W name = do {
     zone \<leftarrow> find_parent_zone W name;
     if zone = [] then ret ()
     else do {
       ikey \<leftarrow> epp_serial_key W zone;
       _ \<leftarrow> vk_write W [DEL (zone_key ''NS'' zone name), DEL (zone_key ''DS'' zone name), INCR ikey];
       ret () } }"

section \<open>Configuration and fees\<close>

definition epp_cfg_secs :: "'s world \<Rightarrow> string \<Rightarrow> int \<Rightarrow> ('s eppd, int) state" where
  "epp_cfg_secs W key defval = do {
     v \<leftarrow> vk_get W (str key) 32;
     ret (case v of Some v \<Rightarrow> if v \<noteq> [] then fst (strtol 10 v) else defval | None \<Rightarrow> defval) }"

definition epp_fee_currency :: "'s world \<Rightarrow> ('s eppd, cstr) state" where
  "epp_fee_currency W = do {
     v \<leftarrow> vk_get W (str ''config:eppd_fee_currency'') 8;
     ret (case v of Some v \<Rightarrow> if v \<noteq> [] then v else str ''USD'' | None \<Rightarrow> str ''USD'') }"

definition epp_fee_amount :: "'s world \<Rightarrow> cstr \<Rightarrow> ('s eppd, cstr) state" where
  "epp_fee_amount W command = do {
     v \<leftarrow> vk_get W (snp 64 (str ''config:eppd_fee_'' @ command)) 16;
     ret (case v of Some v \<Rightarrow> if v \<noteq> [] then v else str ''0.00'' | None \<Rightarrow> str ''0.00'') }"

definition epp_fee_response_extension :: "'s world \<Rightarrow> string \<Rightarrow> string \<Rightarrow> ('s eppd, cstr) state" where
  "epp_fee_response_extension W command wraptag = do {
     currency \<leftarrow> epp_fee_currency W;
     fee \<leftarrow> epp_fee_amount W (str command);
     ret (snp 400 (elem ''extension'' (elem_a wraptag (attr ''xmlns:fee'' (urn ''fee-0.11''))
       (elem ''fee:currency'' currency @ elem ''fee:fee'' fee)))) }"

end
