(* ===== verification/EppCmd.thy ===== *)
theory EppCmd
  imports EppStore
begin

text \<open>
  The commands of the EPP daemon (\<open>eppd.c\<close>): every handler, the tables that find them, login and logout. A handler gets the bytes of
  the frame and the ranges of the command and of its object element, as in the code; what it does to the store and what it answers is in the
  state and the result of the computation.
\<close>

section \<open>Reading a request\<close>

definition child :: "bytes \<Rightarrow> nat \<Rightarrow> nat \<Rightarrow> string \<Rightarrow> ('s eppd, (nat \<times> nat \<times> nat) option) state" where
  "child xml s e tag = do {
     r \<leftarrow> access Malformed (xml_find_child xml s e (str tag));
     ret (case r of Found x \<Rightarrow> Some x | _ \<Rightarrow> None) }"

definition child_attr :: "bytes \<Rightarrow> nat \<Rightarrow> nat \<Rightarrow> string \<Rightarrow> string \<Rightarrow> nat \<Rightarrow> ('s eppd, (cstr \<times> nat \<times> nat \<times> nat) option) state" where
  "child_attr xml s e tag at cap = do {
     r \<leftarrow> access Malformed (xml_find_child_attr xml s e (str tag) (str at) cap);
     ret (case r of Found x \<Rightarrow> Some x | _ \<Rightarrow> None) }"

text \<open>The loops over the children of one name, and over the values of an attribute of theirs.\<close>

partial_function (option) xml_children :: "bytes \<Rightarrow> nat \<Rightarrow> nat \<Rightarrow> cstr \<Rightarrow> (nat \<times> nat) list option" where
  "xml_children xml pos lim tag = do {
     r \<leftarrow> xml_find_child xml pos lim tag;
     case r of
       Found (cs, ce, np) \<Rightarrow> do { rest \<leftarrow> xml_children xml np lim tag; Some ((cs, ce) # rest) }
     | Absent \<Rightarrow> Some []
     | Malformed \<Rightarrow> Some [] }"

partial_function (option) xml_attrs_of :: "bytes \<Rightarrow> nat \<Rightarrow> nat \<Rightarrow> cstr \<Rightarrow> cstr \<Rightarrow> nat \<Rightarrow> cstr list option" where
  "xml_attrs_of xml pos lim tag at cap = do {
     r \<leftarrow> xml_find_child_attr xml pos lim tag at cap;
     case r of
       Found (a, cs, ce, np) \<Rightarrow> do { rest \<leftarrow> xml_attrs_of xml np lim tag at cap; Some (a # rest) }
     | Absent \<Rightarrow> Some []
     | Malformed \<Rightarrow> Some [] }"

definition children :: "bytes \<Rightarrow> nat \<Rightarrow> nat \<Rightarrow> string \<Rightarrow> ('s eppd, (nat \<times> nat) list) state" where
  "children xml s e tag = access [] (xml_children xml s e (str tag))"

definition attrs_of :: "bytes \<Rightarrow> nat \<Rightarrow> nat \<Rightarrow> string \<Rightarrow> string \<Rightarrow> nat \<Rightarrow> ('s eppd, cstr list) state" where
  "attrs_of xml s e tag at cap = access [] (xml_attrs_of xml s e (str tag) (str at) cap)"

text \<open>
  \<open>xml_text_decode\<close> into an array of \<open>cap\<close> characters that holds the string \<open>old\<close> and zeros behind it: the string the array then
  holds, and whether the result was not negative.
\<close>

definition text_of :: "bytes \<Rightarrow> nat \<Rightarrow> nat \<Rightarrow> nat \<Rightarrow> cstr \<Rightarrow> ('s eppd, cstr \<times> bool) state" where
  "text_of xml s e cap old = do {
     r \<leftarrow> access ([], Err) (xml_text_decode xml s e (old @ replicate (cap - length old) 0) cap);
     ret (cstr_of (fst r), snd r \<noteq> Err) }"

text \<open>
  A child whose text is needed (\<open>None\<close> if it is missing or does not decode), one that may not be empty either, and one whose text replaces a
  value if it is there; the last ignores the result of the decoding.
\<close>

definition get_text :: "bytes \<Rightarrow> nat \<Rightarrow> nat \<Rightarrow> string \<Rightarrow> nat \<Rightarrow> ('s eppd, cstr option) state" where
  "get_text xml s e tag cap = do {
     c \<leftarrow> child xml s e tag;
     case c of None \<Rightarrow> ret None
     | Some (cs, ce, _) \<Rightarrow> do { t \<leftarrow> text_of xml cs ce cap []; ret (if snd t then Some (fst t) else None) } }"

definition req_text :: "bytes \<Rightarrow> nat \<Rightarrow> nat \<Rightarrow> string \<Rightarrow> nat \<Rightarrow> ('s eppd, cstr option) state" where
  "req_text xml s e tag cap = do {
     t \<leftarrow> get_text xml s e tag cap;
     ret (case t of Some v \<Rightarrow> if v \<noteq> [] then Some v else None | None \<Rightarrow> None) }"

definition set_text :: "bytes \<Rightarrow> nat \<Rightarrow> nat \<Rightarrow> string \<Rightarrow> nat \<Rightarrow> cstr \<Rightarrow> ('s eppd, cstr) state" where
  "set_text xml s e tag cap old = do {
     c \<leftarrow> child xml s e tag;
     case c of None \<Rightarrow> ret old
     | Some (cs, ce, _) \<Rightarrow> do { t \<leftarrow> text_of xml cs ce cap old; ret (fst t) } }"

definition epp_find_secdns_block :: "bytes \<Rightarrow> nat \<Rightarrow> nat \<Rightarrow> string \<Rightarrow> ('s eppd, (nat \<times> nat) option) state" where
  "epp_find_secdns_block xml cmd_s cmd_e tag = do {
     c \<leftarrow> child xml cmd_s cmd_e ''extension'';
     case c of None \<Rightarrow> ret None
     | Some (es, ee, _) \<Rightarrow> do {
         b \<leftarrow> child xml es ee tag;
         ret (case b of None \<Rightarrow> None | Some (bs, be, _) \<Rightarrow> Some (bs, be)) } }"

text \<open>The request of a handler: the frame, the range of the command, the range of the object element, and the client's transaction id.\<close>

record req =
  xml :: bytes
  cmd_s :: nat
  cmd_e :: nat
  q_s :: nat
  q_e :: nat
  cltrid :: cstr

definition fail :: "'s world \<Rightarrow> nat \<Rightarrow> string \<Rightarrow> req \<Rightarrow> ('s eppd, reply) state" where
  "fail W code msg q = epp_build_result W code msg [] (cltrid q)"

definition okay :: "'s world \<Rightarrow> cstr \<Rightarrow> req \<Rightarrow> ('s eppd, reply) state" where
  "okay W extra q = epp_build_result W 1000 ''Command completed successfully'' extra (cltrid q)"

text \<open>How every handler that works on a stored object begins.\<close>

definition with_name :: "'s world \<Rightarrow> string \<Rightarrow> nat \<Rightarrow> req \<Rightarrow> (cstr \<Rightarrow> ('s eppd, reply) state) \<Rightarrow> ('s eppd, reply) state" where
  "with_name W tag cap q f = do {
     n \<leftarrow> req_text (xml q) (q_s q) (q_e q) tag cap;
     case n of None \<Rightarrow> fail W 2003 (''Required parameter missing: '' @ tag) q | Some n \<Rightarrow> f n }"

definition with_obj :: "'s world \<Rightarrow> cstr \<Rightarrow> (bytes \<Rightarrow> nat \<Rightarrow> 'a cres option) \<Rightarrow> nat \<Rightarrow> req \<Rightarrow> ('a \<Rightarrow> ('s eppd, reply) state) \<Rightarrow> ('s eppd, reply) state" where
  "with_obj W key d cap q f = do {
     r \<leftarrow> get_obj W key d cap;
     case r of
       Missing \<Rightarrow> fail W 2303 ''Object does not exist'' q
     | Corrupt \<Rightarrow> fail W 2400 ''Command failed: corrupt object'' q
     | Have x \<Rightarrow> f x }"

definition stored :: "'s world \<Rightarrow> cstr \<Rightarrow> (bytes \<Rightarrow> nat \<Rightarrow> (bytes \<times> nat cres) option) \<Rightarrow> nat \<Rightarrow> req \<Rightarrow> ('s eppd, reply) state \<Rightarrow> ('s eppd, reply) state" where
  "stored W key enc cap q f = do {
     ok \<leftarrow> put_obj W key enc cap;
     if ok then f else fail W 2400 ''Command failed: encode error'' q }"

text \<open>The sponsor check: an object without a sponsor may be changed by every registrar.\<close>

definition foreign :: "cstr \<Rightarrow> cstr \<Rightarrow> bool" where
  "foreign owner clid \<longleftrightarrow> owner \<noteq> [] \<and> owner \<noteq> clid"

abbreviation not_sponsor :: "'s world \<Rightarrow> req \<Rightarrow> ('s eppd, reply) state" where
  "not_sponsor W q \<equiv> fail W 2201 ''Authorization error: not the sponsoring registrar'' q"

abbreviation prohibited :: "'s world \<Rightarrow> req \<Rightarrow> ('s eppd, reply) state" where
  "prohibited W q \<equiv> fail W 2304 ''Object status prohibits operation'' q"

definition chk_data :: "string \<Rightarrow> string \<Rightarrow> cstr \<Rightarrow> bool \<Rightarrow> cstr" where
  "chk_data uri n name exists =
     elem_a ''chkData'' (attr ''xmlns'' (urn uri)) (elem ''cd'' (elem_a n (attr ''avail'' (dec (if exists then 0 else 1))) name))"

definition cre_data :: "string \<Rightarrow> string \<Rightarrow> cstr \<Rightarrow> u32 \<Rightarrow> cstr" where
  "cre_data uri n name crdate = elem_a ''creData'' (attr ''xmlns'' (urn uri)) (elem n name @ elem ''crDate'' (epp_iso_date crdate))"

definition status_xml :: "cstr \<Rightarrow> cstr" where
  "status_xml s = empty_a ''status'' (attr ''s'' s)"

definition epp_status_settable :: "cstr \<Rightarrow> bool" where
  "epp_status_settable s \<longleftrightarrow> s \<in> set (map str [''clientUpdateProhibited'', ''clientDeleteProhibited'', ''clientTransferProhibited'',
     ''clientRenewProhibited'', ''clientHold''])"

fun add_status :: "cstr list \<Rightarrow> cstr list \<Rightarrow> cstr list" where
  "add_status [] st = st"
| "add_status (v # vs) st =
     (if length st < EPP_MAX_ARR then
        add_status vs (if v \<noteq> [] \<and> epp_status_settable v \<and> v \<notin> set st then st @ [safe_strcpy [] v 32] else st)
      else st)"

definition rem_all :: "cstr list \<Rightarrow> cstr list \<Rightarrow> cstr list" where
  "rem_all vs xs = fold (\<lambda>v. filter (\<lambda>x. x \<noteq> v)) vs xs"

section \<open>Hosts\<close>

definition epp_host_check :: "'s world \<Rightarrow> cstr \<Rightarrow> req \<Rightarrow> ('s eppd, reply) state" where
  "epp_host_check W clid q = with_name W ''host:name'' 256 q (\<lambda>n. do {
     let name = strlower n;
     b \<leftarrow> vk_get W (host_key name) 16;
     okay W (snp 600 (chk_data ''host-1.0'' ''name'' name (b \<noteq> None))) q })"

text \<open>The loop that adds the addresses of a request to a host.\<close>

definition add_addr :: "cstr \<Rightarrow> epp_host \<Rightarrow> epp_host" where
  "add_addr addr h =
     (if 58 \<in> set addr then (if length (h_v6 h) < EPP_MAX_ARR then h\<lparr>h_v6 := h_v6 h @ [safe_strcpy [] addr 46]\<rparr> else h)
      else if addr \<noteq> [] \<and> length (h_v4 h) < EPP_MAX_ARR then h\<lparr>h_v4 := h_v4 h @ [safe_strcpy [] addr 16]\<rparr>
      else h)"

fun add_addrs :: "bytes \<Rightarrow> (nat \<times> nat) list \<Rightarrow> epp_host \<Rightarrow> ('s eppd, epp_host) state" where
  "add_addrs x [] h = ret h"
| "add_addrs x ((s, e) # cs) h =
     (if length (h_v4 h) + length (h_v6 h) < EPP_MAX_ARR then do {
        t \<leftarrow> text_of x s e 64 [];
        add_addrs x cs (add_addr (fst t) h) }
      else ret h)"

definition epp_host_create :: "'s world \<Rightarrow> cstr \<Rightarrow> req \<Rightarrow> ('s eppd, reply) state" where
  "epp_host_create W clid q = with_name W ''host:name'' 256 q (\<lambda>n. do {
     let name = strlower n;
     b \<leftarrow> vk_get W (host_key name) 16;
     if b \<noteq> None then fail W 2302 ''Object exists'' q
     else do {
       cs \<leftarrow> children (xml q) (q_s q) (q_e q) ''host:addr'';
       h \<leftarrow> add_addrs (xml q) cs (host0\<lparr>h_clid := safe_strcpy [] clid 64\<rparr>);
       roid \<leftarrow> epp_gen_roid (str ''EPPD-H'');
       now \<leftarrow> time_u32 W;
       let h = h\<lparr>h_roid := roid, h_crdate := now\<rparr>;
       stored W (host_key name) (epp_host_encode h) 4096 q
         (okay W (snp 512 (cre_data ''host-1.0'' ''name'' name (h_crdate h))) q) } })"

definition addr_xml :: "string \<Rightarrow> cstr \<Rightarrow> cstr" where
  "addr_xml v a = elem_a ''addr'' (attr ''ip'' (str v)) a"

definition epp_host_info :: "'s world \<Rightarrow> cstr \<Rightarrow> req \<Rightarrow> ('s eppd, reply) state" where
  "epp_host_info W clid q = with_name W ''host:name'' 256 q (\<lambda>n.
     let name = strlower n in
     with_obj W (host_key name) epp_host_decode 4096 q (\<lambda>h.
       let addrs = append_all 2048 [] (map (addr_xml ''v4'') (h_v4 h) @ map (addr_xml ''v6'') (h_v6 h)) in
       okay W (snp 3000 (elem_a ''infData'' (attr ''xmlns'' (urn ''host-1.0''))
         (elem ''name'' name @ elem ''roid'' (h_roid h) @ status_xml (str ''ok'') @ addrs @ elem ''crDate'' (epp_iso_date (h_crdate h))))) q))"

text \<open>The domains that name a host: of the first 512 keys of the scan those whose object decodes and has the name among its \<open>ns\<close>.\<close>

fun uses_host :: "'s world \<Rightarrow> cstr \<Rightarrow> cstr list \<Rightarrow> ('s eppd, cstr list) state" where
  "uses_host W hostname [] = ret []"
| "uses_host W hostname (k # ks) = do {
     r \<leftarrow> get_obj W k epp_domain_decode 4096;
     rest \<leftarrow> uses_host W hostname ks;
     ret (case r of Have d \<Rightarrow> if list_ex (\<lambda>n. strcaseeq n hostname) (d_ns d) then safe_strcpy [] (drop 11 k) 256 # rest else rest
          | _ \<Rightarrow> rest) }"

definition epp_host_in_use :: "'s world \<Rightarrow> cstr \<Rightarrow> ('s eppd, cstr list) state" where
  "epp_host_in_use W hostname = do {
     r \<leftarrow> vk_list_keys W (str ''epp:domain:*'') 512;
     uses_host W hostname (case r of Err \<Rightarrow> [] | Ok ks \<Rightarrow> ks) }"

fun republish :: "'s world \<Rightarrow> cstr list \<Rightarrow> ('s eppd, unit) state" where
  "republish W [] = ret ()"
| "republish W (n # ns) = do {
     r \<leftarrow> get_obj W (domain_key n) epp_domain_decode 4096;
     (case r of Have d \<Rightarrow> epp_publish_domain W n (d_ns d) (d_ds d) | _ \<Rightarrow> ret ());
     republish W ns }"

definition epp_republish_host_glue :: "'s world \<Rightarrow> cstr \<Rightarrow> ('s eppd, unit) state" where
  "epp_republish_host_glue W hostname = do { ns \<leftarrow> epp_host_in_use W hostname; republish W ns }"

text \<open>The addresses of a \<open>rem\<close> element are taken out of both lists, whether or not their text decodes.\<close>

fun rem_addrs :: "bytes \<Rightarrow> (nat \<times> nat) list \<Rightarrow> epp_host \<Rightarrow> ('s eppd, epp_host) state" where
  "rem_addrs x [] h = ret h"
| "rem_addrs x ((s, e) # cs) h = do {
     t \<leftarrow> text_of x s e 64 [];
     rem_addrs x cs (h\<lparr>h_v4 := filter (\<lambda>a. a \<noteq> fst t) (h_v4 h), h_v6 := filter (\<lambda>a. a \<noteq> fst t) (h_v6 h)\<rparr>) }"

definition host_add :: "req \<Rightarrow> epp_host \<Rightarrow> ('s eppd, epp_host) state" where
  "host_add q h = do {
     c \<leftarrow> child (xml q) (q_s q) (q_e q) ''add'';
     case c of None \<Rightarrow> ret h
     | Some (s, e, _) \<Rightarrow> do {
         cs \<leftarrow> children (xml q) s e ''host:addr'';
         h \<leftarrow> add_addrs (xml q) cs h;
         vs \<leftarrow> attrs_of (xml q) s e ''host:status'' ''s'' 32;
         ret (h\<lparr>h_status := add_status vs (h_status h)\<rparr>) } }"

definition host_rem :: "req \<Rightarrow> epp_host \<Rightarrow> ('s eppd, epp_host) state" where
  "host_rem q h = do {
     c \<leftarrow> child (xml q) (q_s q) (q_e q) ''rem'';
     case c of None \<Rightarrow> ret h
     | Some (s, e, _) \<Rightarrow> do {
         cs \<leftarrow> children (xml q) s e ''host:addr'';
         h \<leftarrow> rem_addrs (xml q) cs h;
         vs \<leftarrow> attrs_of (xml q) s e ''host:status'' ''s'' 32;
         ret (h\<lparr>h_status := rem_all vs (h_status h)\<rparr>) } }"

definition epp_host_update :: "'s world \<Rightarrow> cstr \<Rightarrow> req \<Rightarrow> ('s eppd, reply) state" where
  "epp_host_update W clid q = with_name W ''host:name'' 256 q (\<lambda>n.
     let name = strlower n in
     with_obj W (host_key name) epp_host_decode 4096 q (\<lambda>h.
       if foreign (h_clid h) clid then not_sponsor W q
       else if str ''clientUpdateProhibited'' \<in> set (h_status h) then prohibited W q
       else do {
         h \<leftarrow> host_add q h;
         h \<leftarrow> host_rem q h;
         stored W (host_key name) (epp_host_encode h) 4096 q (do {
           epp_republish_host_glue W name;
           okay W [] q }) }))"

definition epp_host_delete :: "'s world \<Rightarrow> cstr \<Rightarrow> req \<Rightarrow> ('s eppd, reply) state" where
  "epp_host_delete W clid q = with_name W ''host:name'' 256 q (\<lambda>n.
     let name = strlower n in
     with_obj W (host_key name) epp_host_decode 4096 q (\<lambda>h.
       if foreign (h_clid h) clid then not_sponsor W q
       else if str ''clientDeleteProhibited'' \<in> set (h_status h) then prohibited W q
       else do {
         us \<leftarrow> epp_host_in_use W name;
         if us \<noteq> [] then fail W 2305 ''Association prohibits operation: host is in use by a domain's NS set'' q
         else do {
           _ \<leftarrow> vk_del W (host_key name);
           okay W [] q } }))"

section \<open>Contacts\<close>

definition epp_contact_check :: "'s world \<Rightarrow> cstr \<Rightarrow> req \<Rightarrow> ('s eppd, reply) state" where
  "epp_contact_check W clid q = with_name W ''contact:id'' 64 q (\<lambda>id. do {
     b \<leftarrow> vk_get W (contact_key id) 16;
     okay W (snp 400 (chk_data ''contact-1.0'' ''id'' id (b \<noteq> None))) q })"

definition epp_contact_create :: "'s world \<Rightarrow> cstr \<Rightarrow> req \<Rightarrow> ('s eppd, reply) state" where
  "epp_contact_create W clid q = with_name W ''contact:id'' 64 q (\<lambda>id. do {
     b \<leftarrow> vk_get W (contact_key id) 16;
     if b \<noteq> None then fail W 2302 ''Object exists'' q
     else do {
       name \<leftarrow> set_text (xml q) (q_s q) (q_e q) ''contact:name'' 128 [];
       email \<leftarrow> set_text (xml q) (q_s q) (q_e q) ''contact:email'' 128 [];
       voice \<leftarrow> set_text (xml q) (q_s q) (q_e q) ''contact:voice'' 32 [];
       _ \<leftarrow> child (xml q) (q_s q) (q_e q) ''contact:authInfo'';
       au \<leftarrow> epp_gen_authinfo W;
       roid \<leftarrow> epp_gen_roid (str ''EPPD-C'');
       now \<leftarrow> time_u32 W;
       let c = contact0\<lparr>c_clid := safe_strcpy [] clid 64, c_name := name, c_email := email, c_voice := voice, c_authinfo := au,
                 c_roid := roid, c_crdate := now\<rparr>;
       stored W (contact_key id) (epp_contact_encode c) 2048 q
         (okay W (snp 400 (cre_data ''contact-1.0'' ''id'' id (c_crdate c))) q) } })"

definition auth_xml :: "cstr \<Rightarrow> cstr \<Rightarrow> cstr \<Rightarrow> cstr" where
  "auth_xml owner clid au =
     (if owner \<noteq> [] \<and> owner = clid \<and> au \<noteq> [] then snp 320 (elem ''authInfo'' (elem ''pw'' au)) else [])"

definition epp_contact_info :: "'s world \<Rightarrow> cstr \<Rightarrow> req \<Rightarrow> ('s eppd, reply) state" where
  "epp_contact_info W clid q = with_name W ''contact:id'' 64 q (\<lambda>id.
     with_obj W (contact_key id) epp_contact_decode 2048 q (\<lambda>c.
       okay W (snp 1300 (elem_a ''infData'' (attr ''xmlns'' (urn ''contact-1.0''))
         (elem ''id'' id @ elem ''roid'' (c_roid c) @ status_xml (str ''ok'') @ opt_elem ''name'' (c_name c)
          @ elem ''crDate'' (epp_iso_date (c_crdate c)) @ auth_xml (c_clid c) clid (c_authinfo c)))) q))"

definition contact_chg :: "'s world \<Rightarrow> req \<Rightarrow> epp_contact \<Rightarrow> ('s eppd, epp_contact) state" where
  "contact_chg W q c = do {
     r \<leftarrow> child (xml q) (q_s q) (q_e q) ''chg'';
     case r of None \<Rightarrow> ret c
     | Some (s, e, _) \<Rightarrow> do {
         name \<leftarrow> set_text (xml q) s e ''contact:name'' 128 (c_name c);
         email \<leftarrow> set_text (xml q) s e ''contact:email'' 128 (c_email c);
         voice \<leftarrow> set_text (xml q) s e ''contact:voice'' 32 (c_voice c);
         a \<leftarrow> child (xml q) s e ''contact:authInfo'';
         au \<leftarrow> (if a \<noteq> None then epp_gen_authinfo W else ret (c_authinfo c));
         ret (c\<lparr>c_name := name, c_email := email, c_voice := voice, c_authinfo := au\<rparr>) } }"

definition epp_contact_update :: "'s world \<Rightarrow> cstr \<Rightarrow> req \<Rightarrow> ('s eppd, reply) state" where
  "epp_contact_update W clid q = with_name W ''contact:id'' 64 q (\<lambda>id.
     with_obj W (contact_key id) epp_contact_decode 2048 q (\<lambda>c.
       if foreign (c_clid c) clid then not_sponsor W q
       else do {
         c \<leftarrow> contact_chg W q c;
         stored W (contact_key id) (epp_contact_encode c) 2048 q (okay W [] q) }))"

fun uses_contact :: "'s world \<Rightarrow> cstr \<Rightarrow> cstr list \<Rightarrow> ('s eppd, bool) state" where
  "uses_contact W cid [] = ret False"
| "uses_contact W cid (k # ks) = do {
     r \<leftarrow> get_obj W k epp_domain_decode 4096;
     case r of Have d \<Rightarrow> if d_registrant d \<noteq> [] \<and> strcaseeq (d_registrant d) cid then ret True else uses_contact W cid ks
     | Missing \<Rightarrow> uses_contact W cid ks
     | Corrupt \<Rightarrow> uses_contact W cid ks }"

definition epp_contact_in_use :: "'s world \<Rightarrow> cstr \<Rightarrow> ('s eppd, bool) state" where
  "epp_contact_in_use W cid = do {
     r \<leftarrow> vk_list_keys W (str ''epp:domain:*'') 512;
     uses_contact W cid (case r of Err \<Rightarrow> [] | Ok ks \<Rightarrow> ks) }"

definition epp_contact_delete :: "'s world \<Rightarrow> cstr \<Rightarrow> req \<Rightarrow> ('s eppd, reply) state" where
  "epp_contact_delete W clid q = with_name W ''contact:id'' 64 q (\<lambda>id.
     with_obj W (contact_key id) epp_contact_decode 2048 q (\<lambda>c.
       if foreign (c_clid c) clid then not_sponsor W q
       else do {
         u \<leftarrow> epp_contact_in_use W id;
         if u then fail W 2305 ''Association prohibits operation: contact is a domain's registrant'' q
         else do {
           _ \<leftarrow> vk_del W (contact_key id);
           okay W [] q } }))"

section \<open>Organisations\<close>

definition epp_org_check :: "'s world \<Rightarrow> cstr \<Rightarrow> req \<Rightarrow> ('s eppd, reply) state" where
  "epp_org_check W clid q = with_name W ''org:id'' 64 q (\<lambda>id. do {
     b \<leftarrow> vk_get W (org_key id) 16;
     okay W (snp 400 (chk_data ''org-1.0'' ''id'' id (b \<noteq> None))) q })"

text \<open>The roles of a request; \<open>uniq\<close> is the check for duplicates that only the update makes.\<close>

fun add_roles :: "bool \<Rightarrow> bytes \<Rightarrow> (nat \<times> nat) list \<Rightarrow> cstr list \<Rightarrow> ('s eppd, cstr list) state" where
  "add_roles uniq x [] rs = ret rs"
| "add_roles uniq x ((s, e) # cs) rs =
     (if length rs < EPP_MAX_ARR then do {
        t \<leftarrow> text_of x s e 32 [];
        add_roles uniq x cs (if snd t \<and> fst t \<noteq> [] \<and> \<not> (uniq \<and> fst t \<in> set rs) then rs @ [safe_strcpy [] (fst t) 32] else rs) }
      else ret rs)"

definition epp_org_create :: "'s world \<Rightarrow> cstr \<Rightarrow> req \<Rightarrow> ('s eppd, reply) state" where
  "epp_org_create W clid q = with_name W ''org:id'' 64 q (\<lambda>id. do {
     b \<leftarrow> vk_get W (org_key id) 16;
     if b \<noteq> None then fail W 2302 ''Object exists'' q
     else do {
       cs \<leftarrow> children (xml q) (q_s q) (q_e q) ''org:role'';
       roles \<leftarrow> add_roles False (xml q) cs [];
       parent \<leftarrow> set_text (xml q) (q_s q) (q_e q) ''org:parentId'' 64 [];
       email \<leftarrow> set_text (xml q) (q_s q) (q_e q) ''org:email'' 128 [];
       voice \<leftarrow> set_text (xml q) (q_s q) (q_e q) ''org:voice'' 32 [];
       roid \<leftarrow> epp_gen_roid (str ''EPPD-O'');
       now \<leftarrow> time_u32 W;
       let g = org0\<lparr>o_id := safe_strcpy [] id 64, o_clid := safe_strcpy [] clid 64, o_roles := roles, o_parentid := parent, o_email := email,
                 o_voice := voice, o_roid := roid, o_crdate := now, o_status := [str ''ok'']\<rparr>;
       stored W (org_key id) (epp_org_encode g) 2048 q
         (okay W (snp 400 (cre_data ''org-1.0'' ''id'' id (o_crdate g))) q) } })"

definition epp_org_info :: "'s world \<Rightarrow> cstr \<Rightarrow> req \<Rightarrow> ('s eppd, reply) state" where
  "epp_org_info W clid q = with_name W ''org:id'' 64 q (\<lambda>id.
     with_obj W (org_key id) epp_org_decode 2048 q (\<lambda>g.
       let rolesxml = append_all 600 [] (map (elem ''role'') (o_roles g));
           statusxml = append_all 300 [] (map status_xml (o_status g)) in
       okay W (snp 1300 (elem_a ''infData'' (attr ''xmlns'' (urn ''org-1.0''))
         (elem ''id'' id @ elem ''roid'' (o_roid g) @ statusxml @ rolesxml @ opt_elem ''parentId'' (o_parentid g)
          @ elem ''clID'' (o_clid g) @ elem ''crDate'' (epp_iso_date (o_crdate g))))) q))"

fun rem_roles :: "bytes \<Rightarrow> (nat \<times> nat) list \<Rightarrow> cstr list \<Rightarrow> ('s eppd, cstr list) state" where
  "rem_roles x [] rs = ret rs"
| "rem_roles x ((s, e) # cs) rs = do {
     t \<leftarrow> text_of x s e 32 [];
     rem_roles x cs (filter (\<lambda>r. r \<noteq> fst t) rs) }"

definition org_add :: "req \<Rightarrow> epp_org \<Rightarrow> ('s eppd, epp_org) state" where
  "org_add q g = do {
     c \<leftarrow> child (xml q) (q_s q) (q_e q) ''add'';
     case c of None \<Rightarrow> ret g
     | Some (s, e, _) \<Rightarrow> do {
         cs \<leftarrow> children (xml q) s e ''org:role'';
         roles \<leftarrow> add_roles True (xml q) cs (o_roles g);
         vs \<leftarrow> attrs_of (xml q) s e ''org:status'' ''s'' 32;
         ret (g\<lparr>o_roles := roles, o_status := add_status vs (o_status g)\<rparr>) } }"

definition org_rem :: "req \<Rightarrow> epp_org \<Rightarrow> ('s eppd, epp_org) state" where
  "org_rem q g = do {
     c \<leftarrow> child (xml q) (q_s q) (q_e q) ''rem'';
     case c of None \<Rightarrow> ret g
     | Some (s, e, _) \<Rightarrow> do {
         cs \<leftarrow> children (xml q) s e ''org:role'';
         roles \<leftarrow> rem_roles (xml q) cs (o_roles g);
         vs \<leftarrow> attrs_of (xml q) s e ''org:status'' ''s'' 32;
         ret (g\<lparr>o_roles := roles, o_status := rem_all vs (o_status g)\<rparr>) } }"

definition org_chg :: "req \<Rightarrow> epp_org \<Rightarrow> ('s eppd, epp_org) state" where
  "org_chg q g = do {
     c \<leftarrow> child (xml q) (q_s q) (q_e q) ''chg'';
     case c of None \<Rightarrow> ret g
     | Some (s, e, _) \<Rightarrow> do {
         parent \<leftarrow> set_text (xml q) s e ''org:parentId'' 64 (o_parentid g);
         email \<leftarrow> set_text (xml q) s e ''org:email'' 128 (o_email g);
         voice \<leftarrow> set_text (xml q) s e ''org:voice'' 32 (o_voice g);
         ret (g\<lparr>o_parentid := parent, o_email := email, o_voice := voice\<rparr>) } }"

definition epp_org_update :: "'s world \<Rightarrow> cstr \<Rightarrow> req \<Rightarrow> ('s eppd, reply) state" where
  "epp_org_update W clid q = with_name W ''org:id'' 64 q (\<lambda>id.
     with_obj W (org_key id) epp_org_decode 2048 q (\<lambda>g.
       if foreign (o_clid g) clid then not_sponsor W q
       else if str ''clientUpdateProhibited'' \<in> set (o_status g) then prohibited W q
       else do {
         g \<leftarrow> org_add q g;
         g \<leftarrow> org_rem q g;
         g \<leftarrow> org_chg q g;
         stored W (org_key id) (epp_org_encode g) 2048 q (okay W [] q) }))"

definition epp_org_delete :: "'s world \<Rightarrow> cstr \<Rightarrow> req \<Rightarrow> ('s eppd, reply) state" where
  "epp_org_delete W clid q = with_name W ''org:id'' 64 q (\<lambda>id.
     with_obj W (org_key id) epp_org_decode 2048 q (\<lambda>g.
       if foreign (o_clid g) clid then not_sponsor W q
       else if str ''clientDeleteProhibited'' \<in> set (o_status g) then prohibited W q
       else do {
         _ \<leftarrow> vk_del W (org_key id);
         okay W [] q }))"

section \<open>Domains\<close>

definition epp_domain_check :: "'s world \<Rightarrow> cstr \<Rightarrow> req \<Rightarrow> ('s eppd, reply) state" where
  "epp_domain_check W clid q = with_name W ''domain:name'' 256 q (\<lambda>n. do {
     let name = strlower n;
     b \<leftarrow> vk_get W (domain_key name) 16;
     let chkdata = snp 600 (chk_data ''domain-1.0'' ''name'' name (b \<noteq> None));
     fc \<leftarrow> epp_find_secdns_block (xml q) (cmd_s q) (cmd_e q) ''fee:check'';
     case fc of
       None \<Rightarrow> okay W chkdata q
     | Some (fs, fe) \<Rightarrow> do {
         a \<leftarrow> child_attr (xml q) fs fe ''fee:command'' ''name'' 32;
         let command = (case a of Some (c, _) \<Rightarrow> if c \<noteq> [] then c else str ''create'' | None \<Rightarrow> str ''create'');
         period \<leftarrow> set_text (xml q) fs fe ''fee:period'' 16 (str ''1'');
         currency \<leftarrow> epp_fee_currency W;
         fee \<leftarrow> epp_fee_amount W command;
         okay W (snp 1300 (chkdata @ elem ''extension'' (elem_a ''fee:chkData'' (attr ''xmlns:fee'' (urn ''fee-0.11''))
           (elem ''fee:cd'' (elem ''fee:objID'' name @ elem ''fee:class'' (str ''standard'')
             @ elem_a ''fee:command'' (attr ''name'' command) (elem_a ''fee:period'' (attr ''unit'' (str ''y'')) period
                 @ elem ''fee:currency'' currency @ elem ''fee:fee'' fee)))))) q } })"

text \<open>A decoder that stops at a bad item leaves the fields it has read.\<close>

partial_function (option) tlv_part :: "('a \<Rightarrow> u8 \<Rightarrow> bytes \<Rightarrow> 'a cres) \<Rightarrow> bytes \<Rightarrow> nat \<Rightarrow> nat \<Rightarrow> 'a \<Rightarrow> 'a option" where
  "tlv_part f buf len off s = do {
     r \<leftarrow> tlv_next buf len off;
     case r of
       TlvItem t v off' \<Rightarrow> (case f s t v of Err \<Rightarrow> Some s | Ok s \<Rightarrow> tlv_part f buf len off' s)
     | TlvEnd \<Rightarrow> Some s
     | TlvBad \<Rightarrow> Some s }"

text \<open>
  The name servers of a domain: \<open>hostObj\<close> names a host that must exist, \<open>hostAttr\<close> makes or extends one. The outer \<open>while\<close> loop takes the next
  \<open>hostObj\<close> behind its position if there is one, else the next \<open>hostAttr\<close>; \<open>n\<close> bounds its rounds by the characters left. \<open>None\<close> is the result -1.
\<close>

definition host_attr :: "'s world \<Rightarrow> bytes \<Rightarrow> nat \<Rightarrow> nat \<Rightarrow> cstr \<Rightarrow> ('s eppd, unit) state" where
  "host_attr W x s e hn = do {
     b \<leftarrow> vk_get W (host_key hn) VKC_BUF;
     h \<leftarrow> (case b of None \<Rightarrow> ret host0
           | Some blob \<Rightarrow> (let tlv = hex_dec blob 4096 in access host0 (tlv_part host_item tlv (length tlv) 1 host0)));
     cs \<leftarrow> children x s e ''domain:hostAddr'';
     h \<leftarrow> add_addrs x cs h;
     h \<leftarrow> (if b = None then do { roid \<leftarrow> epp_gen_roid (str ''EPPD-H''); now \<leftarrow> time_u32 W; ret (h\<lparr>h_roid := roid, h_crdate := now\<rparr>) }
           else ret h);
     _ \<leftarrow> put_obj W (host_key hn) (epp_host_encode h) 4096;
     ret () }"

fun parse_ns_loop :: "'s world \<Rightarrow> bytes \<Rightarrow> nat \<Rightarrow> nat \<Rightarrow> nat \<Rightarrow> cstr list \<Rightarrow> ('s eppd, cstr list option) state" where
  "parse_ns_loop W x 0 pos lim ns = ret (Some ns)"
| "parse_ns_loop W x (Suc n) pos lim ns =
     (if length ns < EPP_MAX_ARR then do {
        c \<leftarrow> child x pos lim ''domain:hostObj'';
        case c of
          Some (s, e, np) \<Rightarrow> do {
            t \<leftarrow> text_of x s e 256 [];
            let hn = strlower (fst t);
            b \<leftarrow> vk_get W (host_key hn) 16;
            if b = None then ret None else parse_ns_loop W x n np lim (ns @ [hn]) }
        | None \<Rightarrow> do {
            c \<leftarrow> child x pos lim ''domain:hostAttr'';
            case c of
              Some (s, e, np) \<Rightarrow> do {
                t \<leftarrow> set_text x s e ''domain:hostName'' 256 [];
                let hn = strlower t;
                if hn \<noteq> [] then do {
                  host_attr W x s e hn;
                  parse_ns_loop W x n np lim (ns @ [hn]) }
                else parse_ns_loop W x n np lim ns }
            | None \<Rightarrow> ret (Some ns) } }
      else ret (Some ns))"

definition epp_domain_parse_ns :: "'s world \<Rightarrow> bytes \<Rightarrow> nat \<Rightarrow> nat \<Rightarrow> ('s eppd, cstr list option) state" where
  "epp_domain_parse_ns W x s e = do {
     c \<leftarrow> child x s e ''domain:ns'';
     case c of None \<Rightarrow> ret (Some [])
     | Some (s, e, _) \<Rightarrow> parse_ns_loop W x (e - s + 1) s e [] }"

fun parse_ds_loop :: "bytes \<Rightarrow> (nat \<times> nat) list \<Rightarrow> epp_ds list \<Rightarrow> ('s eppd, epp_ds list) state" where
  "parse_ds_loop x [] ds = ret ds"
| "parse_ds_loop x ((s, e) # cs) ds =
     (if length ds < EPP_MAX_ARR then do {
        k \<leftarrow> get_text x s e ''secDNS:keyTag'' 16;
        a \<leftarrow> (if k = None then ret None else get_text x s e ''secDNS:alg'' 16);
        t \<leftarrow> (if a = None then ret None else get_text x s e ''secDNS:digestType'' 16);
        d \<leftarrow> (if t = None then ret None else get_text x s e ''secDNS:digest'' 257);
        case d of None \<Rightarrow> parse_ds_loop x cs ds
        | Some d \<Rightarrow>
            let dig = hex_dec d EPP_DS_MAX_DIGEST in
            if dig = [] then parse_ds_loop x cs ds
            else parse_ds_loop x cs (ds @ [\<lparr>keytag = word_of_int (atoi (the k)), alg = word_of_int (atoi (the a)),
                   digtype = word_of_int (atoi (the t)), digest = dig\<rparr>]) }
      else ret ds)"

definition epp_parse_ds_block :: "bytes \<Rightarrow> nat \<Rightarrow> nat \<Rightarrow> ('s eppd, epp_ds list) state" where
  "epp_parse_ds_block x s e = do { cs \<leftarrow> children x s e ''secDNS:dsData''; parse_ds_loop x cs [] }"

abbreviation "YEAR \<equiv> 365 * 24 * 3600 :: u32"

definition fee_ext :: "'s world \<Rightarrow> req \<Rightarrow> string \<Rightarrow> string \<Rightarrow> string \<Rightarrow> ('s eppd, cstr) state" where
  "fee_ext W q tag command wraptag = do {
     f \<leftarrow> epp_find_secdns_block (xml q) (cmd_s q) (cmd_e q) tag;
     if f = None then ret [] else epp_fee_response_extension W command wraptag }"

definition dated_data :: "string \<Rightarrow> cstr \<Rightarrow> cstr \<Rightarrow> cstr" where
  "dated_data n name dates = elem_a n (attr ''xmlns'' (urn ''domain-1.0'')) (elem ''name'' name @ dates)"

definition epp_domain_create :: "'s world \<Rightarrow> cstr \<Rightarrow> req \<Rightarrow> ('s eppd, reply) state" where
  "epp_domain_create W clid q = with_name W ''domain:name'' 256 q (\<lambda>n. do {
     let name = strlower n;
     b \<leftarrow> vk_get W (domain_key name) 16;
     if b \<noteq> None then fail W 2302 ''Object exists'' q
     else do {
       ns \<leftarrow> epp_domain_parse_ns W (xml q) (q_s q) (q_e q);
       case ns of None \<Rightarrow> fail W 2303 ''Object does not exist: hostObj'' q
       | Some ns \<Rightarrow> do {
           registrant \<leftarrow> set_text (xml q) (q_s q) (q_e q) ''domain:registrant'' 64 [];
           blk \<leftarrow> epp_find_secdns_block (xml q) (cmd_s q) (cmd_e q) ''secDNS:create'';
           ds \<leftarrow> (case blk of None \<Rightarrow> ret [] | Some (s, e) \<Rightarrow> epp_parse_ds_block (xml q) s e);
           _ \<leftarrow> child (xml q) (q_s q) (q_e q) ''domain:authInfo'';
           au \<leftarrow> epp_gen_authinfo W;
           roid \<leftarrow> epp_gen_roid (str ''EPPD-D'');
           now \<leftarrow> time_u32 W;
           grace \<leftarrow> epp_cfg_secs W ''config:eppd_add_grace_secs'' (5 * 86400);
           let d = domain0\<lparr>d_clid := safe_strcpy [] clid 64, d_authinfo := au, d_roid := roid, d_crdate := now, d_exdate := now + YEAR,
                     d_registrant := registrant, d_ns := ns, d_ds := ds, d_status := [str ''ok''], d_rgp_state := EPP_RGP_ADD,
                     d_rgp_until := now + word_of_int grace\<rparr>;
           stored W (domain_key name) (epp_domain_encode d) 4096 q (do {
             (if ns \<noteq> [] \<or> ds \<noteq> [] then epp_publish_domain W name ns ds else ret ());
             let credata = snp 512 (dated_data ''creData'' name (elem ''crDate'' (epp_iso_date (d_crdate d)) @ elem ''exDate'' (epp_iso_date (d_exdate d))));
             fee \<leftarrow> fee_ext W q ''fee:create'' ''create'' ''fee:creData'';
             okay W (snp 1000 (credata @ fee)) q }) } } })"

definition epp_rgp_status_str :: "epp_rgp_state \<Rightarrow> cstr option" where
  "epp_rgp_status_str s = (case s of
     EPP_RGP_ADD \<Rightarrow> Some (str ''addPeriod'')
   | EPP_RGP_AUTORENEW \<Rightarrow> Some (str ''autoRenewPeriod'')
   | EPP_RGP_TRANSFER \<Rightarrow> Some (str ''transferPeriod'')
   | EPP_RGP_REDEMPTION \<Rightarrow> Some (str ''redemptionPeriod'')
   | _ \<Rightarrow> None)"

definition epp_domain_status_has :: "epp_domain \<Rightarrow> string \<Rightarrow> bool" where
  "epp_domain_status_has d name \<longleftrightarrow> str name \<in> set (d_status d)"

definition is_pending :: "epp_domain \<Rightarrow> bool" where
  "is_pending d \<longleftrightarrow> d_transfer_status d = str ''pending''"

definition epp_domain_compute_status :: "epp_domain \<Rightarrow> nat \<Rightarrow> cstr" where
  "epp_domain_compute_status d cap =
     (let pre = (if d_rgp_state d = EPP_RGP_REDEMPTION then status_xml (str ''pendingDelete'') else [])
            @ (if is_pending d then status_xml (str ''pendingTransfer'') else [])
      in if pre = [] \<and> d_status d = [] then status_xml (str ''ok'') else append_all cap pre (map status_xml (d_status d)))"

definition ds_xml :: "epp_ds \<Rightarrow> cstr" where
  "ds_xml e = elem ''secDNS:dsData'' (elem ''secDNS:keyTag'' (dec (unat (keytag e))) @ elem ''secDNS:alg'' (dec (unat (alg e)))
     @ elem ''secDNS:digestType'' (dec (unat (digtype e))) @ elem ''secDNS:digest'' (hex_enc (digest e)))"

text \<open>
  The extensions of an \<open>info\<close> response, in an array of 3000 characters. Behind the loop the closing tag is written with the size
  \<open>sizeof(extxml) - extoff\<close>, which wraps when the text would already be longer than the array.
\<close>

definition ext_xml :: "epp_domain \<Rightarrow> ('s eppd, cstr \<times> nat) state" where
  "ext_xml d = do {
     r \<leftarrow> (if d_ds d \<noteq> [] then do {
             let start = str ''<secDNS:infData'' @ attr ''xmlns:secDNS'' (urn ''secDNS-1.1'') @ str ''>'';
             let (c, off) = append_loop 3000 (start, length start) (map ds_xml (d_ds d));
             let fin = str ''</secDNS:infData>'';
             (if off \<le> 3000 then ret (take 2999 (c @ fin), off + length fin) else do { fault ExtEnd; ret (c, off + length fin) }) }
           else ret ([], 0));
     ret (case epp_rgp_status_str (d_rgp_state d) of
            Some st \<Rightarrow>
              if snd r < 2999 then
                (let x = elem_a ''rgp:infData'' (attr ''xmlns:rgp'' (urn ''rgp-1.0'')) (empty_a ''rgp:rgpStatus'' (attr ''s'' st))
                 in (take 2999 (fst r @ x), snd r + length x))
              else r
          | None \<Rightarrow> r) }"

definition epp_domain_info :: "'s world \<Rightarrow> cstr \<Rightarrow> req \<Rightarrow> ('s eppd, reply) state" where
  "epp_domain_info W clid q = with_name W ''domain:name'' 256 q (\<lambda>n.
     let name = strlower n in
     with_obj W (domain_key name) epp_domain_decode 4096 q (\<lambda>d. do {
       let nsxml = append_all 3000 [] (map (elem ''hostObj'') (d_ns d));
       ext \<leftarrow> ext_xml d;
       okay W (snp 8000 (elem_a ''infData'' (attr ''xmlns'' (urn ''domain-1.0''))
         (elem ''name'' name @ elem ''roid'' (d_roid d) @ epp_domain_compute_status d 600 @ opt_elem ''registrant'' (d_registrant d)
          @ elem ''ns'' nsxml @ elem ''clID'' (d_clid d) @ elem ''crDate'' (epp_iso_date (d_crdate d))
          @ elem ''exDate'' (epp_iso_date (d_exdate d)) @ auth_xml (d_clid d) clid (d_authinfo d))
         @ (if snd ext > 0 then snp 3100 (elem ''extension'' (fst ext)) else []))) q }))"

text \<open>The steps of an update; the flag says whether the delegation changed.\<close>

fun add_ns :: "'s world \<Rightarrow> bytes \<Rightarrow> (nat \<times> nat) list \<Rightarrow> epp_domain \<times> bool \<Rightarrow> ('s eppd, epp_domain \<times> bool) state" where
  "add_ns W x [] r = ret r"
| "add_ns W x ((s, e) # cs) r =
     (if length (d_ns (fst r)) < EPP_MAX_ARR then do {
        t \<leftarrow> text_of x s e 256 [];
        let hn = strlower (fst t);
        b \<leftarrow> vk_get W (host_key hn) 16;
        add_ns W x cs (if b \<noteq> None \<and> \<not> list_ex (\<lambda>n. strcaseeq n hn) (d_ns (fst r))
                       then ((fst r)\<lparr>d_ns := d_ns (fst r) @ [hn]\<rparr>, True) else r) }
      else ret r)"

fun rem_ns :: "bytes \<Rightarrow> (nat \<times> nat) list \<Rightarrow> epp_domain \<times> bool \<Rightarrow> ('s eppd, epp_domain \<times> bool) state" where
  "rem_ns x [] r = ret r"
| "rem_ns x ((s, e) # cs) r = do {
     t \<leftarrow> text_of x s e 256 [];
     let hn = strlower (fst t);
     rem_ns x cs ((fst r)\<lparr>d_ns := filter (\<lambda>n. \<not> strcaseeq n hn) (d_ns (fst r))\<rparr>,
       snd r \<or> list_ex (\<lambda>n. strcaseeq n hn) (d_ns (fst r))) }"

definition domain_add :: "'s world \<Rightarrow> req \<Rightarrow> epp_domain \<times> bool \<Rightarrow> ('s eppd, epp_domain \<times> bool) state" where
  "domain_add W q r = do {
     c \<leftarrow> child (xml q) (q_s q) (q_e q) ''add'';
     case c of None \<Rightarrow> ret r
     | Some (s, e, _) \<Rightarrow> do {
         n \<leftarrow> child (xml q) s e ''domain:ns'';
         r \<leftarrow> (case n of None \<Rightarrow> ret r
               | Some (s, e, _) \<Rightarrow> do { cs \<leftarrow> children (xml q) s e ''domain:hostObj''; add_ns W (xml q) cs r });
         vs \<leftarrow> attrs_of (xml q) s e ''domain:status'' ''s'' 32;
         ret ((fst r)\<lparr>d_status := add_status vs (d_status (fst r))\<rparr>, snd r) } }"

definition domain_rem :: "req \<Rightarrow> epp_domain \<times> bool \<Rightarrow> ('s eppd, epp_domain \<times> bool) state" where
  "domain_rem q r = do {
     c \<leftarrow> child (xml q) (q_s q) (q_e q) ''rem'';
     case c of None \<Rightarrow> ret r
     | Some (s, e, _) \<Rightarrow> do {
         n \<leftarrow> child (xml q) s e ''domain:ns'';
         r \<leftarrow> (case n of None \<Rightarrow> ret r
               | Some (s, e, _) \<Rightarrow> do { cs \<leftarrow> children (xml q) s e ''domain:hostObj''; rem_ns (xml q) cs r });
         vs \<leftarrow> attrs_of (xml q) s e ''domain:status'' ''s'' 32;
         ret ((fst r)\<lparr>d_status := rem_all vs (d_status (fst r))\<rparr>, snd r) } }"

definition domain_chg :: "'s world \<Rightarrow> req \<Rightarrow> epp_domain \<times> bool \<Rightarrow> ('s eppd, epp_domain \<times> bool) state" where
  "domain_chg W q r = do {
     c \<leftarrow> child (xml q) (q_s q) (q_e q) ''chg'';
     case c of None \<Rightarrow> ret r
     | Some (s, e, _) \<Rightarrow> do {
         reg \<leftarrow> set_text (xml q) s e ''domain:registrant'' 64 (d_registrant (fst r));
         a \<leftarrow> child (xml q) s e ''domain:authInfo'';
         au \<leftarrow> (if a \<noteq> None then epp_gen_authinfo W else ret (d_authinfo (fst r)));
         ret ((fst r)\<lparr>d_registrant := reg, d_authinfo := au\<rparr>, snd r) } }"

definition same_ds :: "epp_ds \<Rightarrow> epp_ds \<Rightarrow> bool" where
  "same_ds a b \<longleftrightarrow> keytag a = keytag b \<and> alg a = alg b \<and> digtype a = digtype b"

definition rem_ds :: "epp_ds list \<Rightarrow> epp_ds list \<Rightarrow> epp_ds list" where
  "rem_ds vs xs = fold (\<lambda>v. filter (\<lambda>x. \<not> same_ds x v)) vs xs"

definition domain_ds_add :: "bytes \<Rightarrow> nat \<Rightarrow> nat \<Rightarrow> epp_domain \<times> bool \<Rightarrow> ('s eppd, epp_domain \<times> bool) state" where
  "domain_ds_add x s e r = do {
     a \<leftarrow> child x s e ''secDNS:add'';
     case a of None \<Rightarrow> ret r
     | Some (s, e, _) \<Rightarrow> do {
         ds \<leftarrow> epp_parse_ds_block x s e;
         let new = take (EPP_MAX_ARR - length (d_ds (fst r))) ds;
         ret ((fst r)\<lparr>d_ds := d_ds (fst r) @ new\<rparr>, snd r \<or> new \<noteq> []) } }"

definition domain_ds_rem :: "bytes \<Rightarrow> nat \<Rightarrow> nat \<Rightarrow> epp_domain \<times> bool \<Rightarrow> ('s eppd, epp_domain \<times> bool) state" where
  "domain_ds_rem x s e r = do {
     a \<leftarrow> child x s e ''secDNS:rem'';
     case a of None \<Rightarrow> ret r
     | Some (s, e, _) \<Rightarrow> do {
         ds \<leftarrow> epp_parse_ds_block x s e;
         let keep = rem_ds ds (d_ds (fst r));
         ret ((fst r)\<lparr>d_ds := keep\<rparr>, snd r \<or> length keep < length (d_ds (fst r))) } }"

definition domain_secdns :: "req \<Rightarrow> epp_domain \<times> bool \<Rightarrow> ('s eppd, epp_domain \<times> bool) state" where
  "domain_secdns q r = do {
     b \<leftarrow> epp_find_secdns_block (xml q) (cmd_s q) (cmd_e q) ''secDNS:update'';
     case b of None \<Rightarrow> ret r
     | Some (s, e) \<Rightarrow> do {
         c \<leftarrow> child (xml q) s e ''secDNS:chg'';
         case c of
           Some (s, e, _) \<Rightarrow> do { ds \<leftarrow> epp_parse_ds_block (xml q) s e; ret ((fst r)\<lparr>d_ds := ds\<rparr>, True) }
         | None \<Rightarrow> do { r \<leftarrow> domain_ds_add (xml q) s e r; domain_ds_rem (xml q) s e r } } }"

definition domain_restore :: "req \<Rightarrow> epp_domain \<times> bool \<Rightarrow> ('s eppd, epp_domain \<times> bool) state" where
  "domain_restore q r = do {
     b \<leftarrow> epp_find_secdns_block (xml q) (cmd_s q) (cmd_e q) ''rgp:update'';
     case b of None \<Rightarrow> ret r
     | Some (s, e) \<Rightarrow> do {
         a \<leftarrow> child_attr (xml q) s e ''rgp:restore'' ''op'' 16;
         ret (case a of
                Some (v, _) \<Rightarrow> if v = str ''request'' \<and> d_rgp_state (fst r) = EPP_RGP_REDEMPTION
                  then ((fst r)\<lparr>d_rgp_state := EPP_RGP_NONE, d_rgp_until := 0\<rparr>, True) else r
              | None \<Rightarrow> r) } }"

definition epp_domain_update :: "'s world \<Rightarrow> cstr \<Rightarrow> req \<Rightarrow> ('s eppd, reply) state" where
  "epp_domain_update W clid q = with_name W ''domain:name'' 256 q (\<lambda>n.
     let name = strlower n in
     with_obj W (domain_key name) epp_domain_decode 4096 q (\<lambda>d.
       if foreign (d_clid d) clid then not_sponsor W q
       else if epp_domain_status_has d ''clientUpdateProhibited'' then prohibited W q
       else do {
         r \<leftarrow> domain_add W q (d, False);
         r \<leftarrow> domain_rem q r;
         r \<leftarrow> domain_chg W q r;
         r \<leftarrow> domain_secdns q r;
         r \<leftarrow> domain_restore q r;
         stored W (domain_key name) (epp_domain_encode (fst r)) 4096 q (do {
           (if snd r then epp_publish_domain W name (d_ns (fst r)) (d_ds (fst r)) else ret ());
           okay W [] q }) }))"

definition in_grace :: "epp_domain \<Rightarrow> nat \<Rightarrow> bool" where
  "in_grace d now \<longleftrightarrow> d_rgp_state d \<in> {EPP_RGP_ADD, EPP_RGP_AUTORENEW, EPP_RGP_TRANSFER} \<and> now < unat (d_rgp_until d)"

definition epp_domain_delete :: "'s world \<Rightarrow> cstr \<Rightarrow> req \<Rightarrow> ('s eppd, reply) state" where
  "epp_domain_delete W clid q = with_name W ''domain:name'' 256 q (\<lambda>n.
     let name = strlower n in
     with_obj W (domain_key name) epp_domain_decode 4096 q (\<lambda>d.
       if foreign (d_clid d) clid then not_sponsor W q
       else if epp_domain_status_has d ''clientDeleteProhibited'' then prohibited W q
       else if is_pending d then fail W 2304 ''Object status prohibits operation: transfer pending'' q
       else do {
         now \<leftarrow> time_now W;
         if in_grace d now then do {
           epp_retract_domain W name;
           _ \<leftarrow> vk_del W (domain_key name);
           okay W [] q }
         else do {
           secs \<leftarrow> epp_cfg_secs W ''config:eppd_redemption_secs'' (30 * 86400);
           let d = d\<lparr>d_rgp_state := EPP_RGP_REDEMPTION, d_rgp_until := of_nat now + word_of_int secs\<rparr>;
           stored W (domain_key name) (epp_domain_encode d) 4096 q (do {
             epp_retract_domain W name;
             _ \<leftarrow> epp_cfg_secs W ''config:eppd_redemption_secs'' (30 * 86400);
             epp_build_result W 1001 ''Command completed successfully; action pending'' [] (cltrid q) }) } }))"

text \<open>The years of a renewal: \<open>(uint32_t) atoi(...)\<close>, at least 1 as an unsigned number.\<close>

definition renew_years :: "cstr option \<Rightarrow> u32" where
  "renew_years p = (let y = (case p of Some v \<Rightarrow> if v \<noteq> [] then word_of_int (atoi v) else 1 | None \<Rightarrow> 1) in if y < 1 then 1 else y)"

definition renewed :: "u32 \<Rightarrow> epp_domain \<Rightarrow> epp_domain" where
  "renewed years d = d\<lparr>d_exdate := d_exdate d + years * YEAR, d_rgp_state := EPP_RGP_NONE, d_rgp_until := 0\<rparr>"

text \<open>\<open>strncmp\<close> with 10 characters.\<close>

definition epp_domain_renew :: "'s world \<Rightarrow> cstr \<Rightarrow> req \<Rightarrow> ('s eppd, reply) state" where
  "epp_domain_renew W clid q = with_name W ''domain:name'' 256 q (\<lambda>n.
     let name = strlower n in
     with_obj W (domain_key name) epp_domain_decode 4096 q (\<lambda>d.
       if foreign (d_clid d) clid then not_sponsor W q
       else if epp_domain_status_has d ''clientRenewProhibited'' \<or> epp_domain_status_has d ''serverRenewProhibited'' then prohibited W q
       else with_name W ''domain:curExpDate'' 32 q (\<lambda>curexp.
         if take 10 curexp \<noteq> take 10 (epp_iso_date (d_exdate d)) then
           fail W 2306 ''Parameter value policy error: curExpDate does not match'' q
         else do {
           p \<leftarrow> get_text (xml q) (q_s q) (q_e q) ''domain:period'' 16;
           let d = renewed (renew_years p) d;
           stored W (domain_key name) (epp_domain_encode d) 4096 q (do {
             let rendata = snp 400 (dated_data ''renData'' name (elem ''exDate'' (epp_iso_date (d_exdate d))));
             fee \<leftarrow> fee_ext W q ''fee:renew'' ''renew'' ''fee:renData'';
             okay W (snp 800 (rendata @ fee)) q }) })))"

section \<open>The poll queue\<close>

definition dec_int :: "int \<Rightarrow> cstr" where
  "dec_int i = (if i < 0 then str ''-'' @ dec (nat (- i)) else dec (nat i))"

definition poll_key :: "cstr \<Rightarrow> cstr \<Rightarrow> cstr" where
  "poll_key clid seq = snp 160 (str ''epp:poll:'' @ clid @ str '':'' @ seq)"

definition pollseq_key :: "cstr \<Rightarrow> cstr" where
  "pollseq_key clid = snp 128 (str ''epp:pollseq:'' @ clid)"

definition epp_poll_enqueue :: "'s world \<Rightarrow> cstr \<Rightarrow> epp_poll_msg \<Rightarrow> ('s eppd, unit) state" where
  "epp_poll_enqueue W clid m =
     (if clid = [] then ret ()
      else do {
        seq \<leftarrow> vk_incr W (pollseq_key clid);
        if seq < 0 then ret ()
        else do {
          now \<leftarrow> time_u32 W;
          _ \<leftarrow> put_obj W (poll_key clid (dec_int seq)) (epp_poll_encode (m\<lparr>m_qdate := now\<rparr>)) 2048;
          ret () } })"

text \<open>The message the callers build: texts cut to their arrays, the object always a domain, the reason always absent.\<close>

definition poll_msg :: "cstr \<Rightarrow> cstr \<Rightarrow> string \<Rightarrow> string \<Rightarrow> cstr \<Rightarrow> cstr \<Rightarrow> epp_poll_msg" where
  "poll_msg txt objid state operation who resdata = poll0\<lparr>m_msg := snp 256 txt, m_objtype := str ''domain'', m_objid := snp 256 objid,
     m_cp_state := snp 8 (str state), m_cp_operation := snp 32 (str operation), m_cp_who := snp 64 who, m_resdata := snp 1024 resdata\<rparr>"

definition epp_poll_count :: "'s world \<Rightarrow> cstr \<Rightarrow> ('s eppd, nat) state" where
  "epp_poll_count W clid = do {
     r \<leftarrow> vk_list_keys W (poll_key clid (str ''*'')) 512;
     ret (case r of Err \<Rightarrow> 0 | Ok ks \<Rightarrow> length ks) }"

text \<open>\<open>atoi\<close> of what follows the last colon, if there is one.\<close>

definition key_seq :: "cstr \<Rightarrow> int option" where
  "key_seq k = (if 58 \<in> set k then Some (atoi (rev (takeWhile (\<lambda>c. c \<noteq> 58) (rev k)))) else None)"

fun oldest :: "int \<Rightarrow> cstr \<Rightarrow> cstr list \<Rightarrow> int \<times> cstr" where
  "oldest best key [] = (best, key)"
| "oldest best key (k # ks) =
     (case key_seq k of None \<Rightarrow> oldest best key ks
      | Some s \<Rightarrow> if best < 0 \<or> s < best then oldest s (safe_strcpy [] k 256) ks else oldest best key ks)"

text \<open>The results 0 and -1 are treated alike.\<close>

definition epp_poll_oldest :: "'s world \<Rightarrow> cstr \<Rightarrow> ('s eppd, (int \<times> epp_poll_msg) option) state" where
  "epp_poll_oldest W clid = do {
     r \<leftarrow> vk_list_keys W (poll_key clid (str ''*'')) 512;
     let (best, key) = oldest (-1) [] (case r of Err \<Rightarrow> [] | Ok ks \<Rightarrow> ks);
     if best < 0 then ret None
     else do {
       m \<leftarrow> get_obj W key epp_poll_decode 2048;
       ret (case m of Have m \<Rightarrow> Some (best, m) | _ \<Rightarrow> None) } }"

definition poll_extra :: "int \<Rightarrow> nat \<Rightarrow> epp_poll_msg \<Rightarrow> cstr" where
  "poll_extra seq remaining m =
     (let qd = epp_iso_date (m_qdate m);
          cpxml = (if m_cp_state m \<noteq> [] then snp 1000 (elem ''extension''
             (elem_a ''changePoll:changeData'' (attr ''xmlns:changePoll'' (urn ''changePoll-1.0'') @ attr ''state'' (m_cp_state m))
               (elem ''changePoll:operation'' (m_cp_operation m) @ elem ''changePoll:date'' qd
                @ elem ''changePoll:svTRID'' (str ''eppd-poll-'' @ dec_int seq) @ opt_elem ''changePoll:who'' (m_cp_who m)
                @ opt_elem ''changePoll:reason'' (m_cp_reason m)))) else [])
      in snp 2600 (elem_a ''msgQ'' (attr ''count'' (dec remaining) @ attr ''id'' (dec_int seq)) (elem ''qDate'' qd @ elem ''msg'' (m_msg m))
           @ m_resdata m @ cpxml))"

definition epp_handle_poll :: "'s world \<Rightarrow> cstr \<Rightarrow> cstr \<Rightarrow> cstr \<Rightarrow> req \<Rightarrow> ('s eppd, reply) state" where
  "epp_handle_poll W clid op msgid q =
     (if op = str ''ack'' then
        if msgid = [] then fail W 2003 ''Required parameter missing: msgID'' q
        else do {
          b \<leftarrow> vk_get W (poll_key clid msgid) 16;
          if b = None then fail W 2303 ''Object does not exist: no such message ID'' q
          else do {
            _ \<leftarrow> vk_del W (poll_key clid msgid);
            remaining \<leftarrow> epp_poll_count W clid;
            okay W (snp 128 (empty_a ''msgQ'' (attr ''count'' (dec remaining) @ attr ''id'' msgid))) q } }
      else if op = str ''req'' then do {
        m \<leftarrow> epp_poll_oldest W clid;
        case m of
          None \<Rightarrow> epp_build_result W 1300 ''Command completed successfully; no messages'' [] (cltrid q)
        | Some (seq, m) \<Rightarrow> do {
            remaining \<leftarrow> epp_poll_count W clid;
            epp_build_result W 1301 ''Command completed successfully; ack to dequeue'' (poll_extra seq remaining m) (cltrid q) } }
      else fail W 2101 ''Unimplemented option: poll op'' q)"

section \<open>Transfers\<close>

definition trn_data :: "cstr \<Rightarrow> epp_domain \<Rightarrow> cstr" where
  "trn_data name d = snp 700 (elem_a ''trnData'' (attr ''xmlns'' (urn ''domain-1.0''))
     (elem ''name'' name @ elem ''trStatus'' (d_transfer_status d) @ elem ''reID'' (d_transfer_reid d) @ elem ''acID'' (d_clid d)))"

definition transfer_query :: "'s world \<Rightarrow> cstr \<Rightarrow> cstr \<Rightarrow> epp_domain \<Rightarrow> req \<Rightarrow> ('s eppd, reply) state" where
  "transfer_query W clid name d q =
     (if d_transfer_status d = [] then fail W 2303 ''Object does not exist: no transfer history'' q
      else if clid \<noteq> d_clid d \<and> clid \<noteq> d_transfer_reid d then fail W 2201 ''Authorization error: not a party to this transfer'' q
      else okay W (trn_data name d) q)"

text \<open>\<open>s\<close>, \<open>e\<close> is the range of the element \<open>domain:transfer\<close>.\<close>

definition transfer_request :: "'s world \<Rightarrow> cstr \<Rightarrow> cstr \<Rightarrow> nat \<Rightarrow> nat \<Rightarrow> epp_domain \<Rightarrow> req \<Rightarrow> ('s eppd, reply) state" where
  "transfer_request W clid name s e d q =
     (if is_pending d then fail W 2304 ''Object status prohibits operation: transfer already pending'' q
      else if epp_domain_status_has d ''clientTransferProhibited'' \<or> epp_domain_status_has d ''serverTransferProhibited'' then prohibited W q
      else if d_clid d \<noteq> [] \<and> d_clid d = clid then fail W 2002 ''Command use error: already the sponsoring registrar'' q
      else do {
        a \<leftarrow> child (xml q) s e ''domain:authInfo'';
        case a of None \<Rightarrow> fail W 2003 ''Required parameter missing: domain:authInfo'' q
        | Some (s, e, _) \<Rightarrow> do {
            pw \<leftarrow> get_text (xml q) s e ''domain:pw'' 256;
            case pw of None \<Rightarrow> fail W 2003 ''Required parameter missing: domain:authInfo/pw'' q
            | Some pw \<Rightarrow>
                if d_authinfo d = [] \<or> d_authinfo d \<noteq> pw then fail W 2200 ''Authentication error: authInfo mismatch'' q
                else do {
                  now \<leftarrow> time_u32 W;
                  let d = d\<lparr>d_transfer_reid := safe_strcpy [] clid 64, d_transfer_redate := now, d_transfer_status := str ''pending''\<rparr>;
                  stored W (domain_key name) (epp_domain_encode d) 4096 q (do {
                    let trndata = trn_data name d;
                    epp_poll_enqueue W (d_clid d) (poll_msg (snp 400 (str ''Transfer of '' @ name @ str '' requested by '' @ clid)) name
                      ''before'' ''transfer'' clid trndata);
                    fee \<leftarrow> fee_ext W q ''fee:transfer'' ''transfer'' ''fee:trnData'';
                    epp_build_result W 1001 ''Command completed successfully; action pending'' (snp 1100 (trndata @ fee)) (cltrid q) }) } } })"

text \<open>What \<open>cancel\<close>, \<open>reject\<close> and \<open>approve\<close> make of the domain; \<open>None\<close> if the registrar is not the one who may do it.\<close>

definition transfer_close :: "'s world \<Rightarrow> cstr \<Rightarrow> cstr \<Rightarrow> epp_domain \<Rightarrow> ('s eppd, epp_domain option) state" where
  "transfer_close W clid op d =
     (let is_gaining = (clid = d_transfer_reid d); is_losing = (d_clid d \<noteq> [] \<and> clid = d_clid d) in
      if op = str ''cancel'' then ret (if is_gaining then Some (d\<lparr>d_transfer_status := str ''clientCancelled''\<rparr>) else None)
      else if op = str ''reject'' then ret (if is_losing then Some (d\<lparr>d_transfer_status := str ''clientRejected''\<rparr>) else None)
      else if is_losing then do {
        now \<leftarrow> time_u32 W;
        grace \<leftarrow> epp_cfg_secs W ''config:eppd_transfer_grace_secs'' (5 * 86400);
        ret (Some (d\<lparr>d_transfer_status := str ''clientApproved'', d_clid := d_transfer_reid d, d_exdate := d_exdate d + YEAR,
                     d_rgp_state := EPP_RGP_TRANSFER, d_rgp_until := now + word_of_int grace\<rparr>)) }
      else ret None)"

definition transfer_answer :: "'s world \<Rightarrow> cstr \<Rightarrow> cstr \<Rightarrow> cstr \<Rightarrow> epp_domain \<Rightarrow> req \<Rightarrow> ('s eppd, reply) state" where
  "transfer_answer W clid op name d q =
     (if \<not> is_pending d then fail W 2304 ''Object status prohibits operation: no pending transfer'' q
      else do {
        r \<leftarrow> transfer_close W clid op d;
        case r of
          None \<Rightarrow> (if op = str ''cancel'' then fail W 2201 ''Authorization error: not the requesting registrar'' q else not_sponsor W q)
        | Some d' \<Rightarrow> stored W (domain_key name) (epp_domain_encode d') 4096 q (do {
            let extra = trn_data name d';
            let notify = (if clid = d_transfer_reid d then d_clid d' else d_transfer_reid d');
            epp_poll_enqueue W notify (poll_msg (snp 400 (str ''Transfer of '' @ name @ str '': '' @ d_transfer_status d' @ str '' (by '' @ clid @ str '')''))
              name ''after'' ''transfer'' clid extra);
            okay W extra q }) })"

definition epp_domain_transfer :: "'s world \<Rightarrow> cstr \<Rightarrow> cstr \<Rightarrow> req \<Rightarrow> ('s eppd, reply) state" where
  "epp_domain_transfer W clid op q = do {
     c \<leftarrow> child (xml q) (q_s q) (q_e q) ''domain:transfer'';
     case c of None \<Rightarrow> fail W 2003 ''Required parameter missing: domain:transfer'' q
     | Some (s, e, _) \<Rightarrow>
         with_name W ''domain:name'' 256 (q\<lparr>q_s := s, q_e := e\<rparr>) (\<lambda>n.
           let name = strlower n in
           with_obj W (domain_key name) epp_domain_decode 4096 q (\<lambda>d.
             if op = str ''query'' then transfer_query W clid name d q
             else if op = str ''request'' then transfer_request W clid name s e d q
             else if op = str ''cancel'' \<or> op = str ''reject'' \<or> op = str ''approve'' then transfer_answer W clid op name d q
             else fail W 2101 ''Unimplemented option: transfer op'' q)) }"

section \<open>Dispatch\<close>

record epp_session =
  clid :: cstr
  logged_in :: bool

definition session0 :: epp_session where
  "session0 = \<lparr>clid = [], logged_in = False\<rparr>"

type_synonym 's handler = "cstr \<Rightarrow> req \<Rightarrow> ('s eppd, reply) state"

definition handlers :: "'s world \<Rightarrow> ((string \<times> string) \<times> 's handler) list" where
  "handlers W =
     [((''check'', ''domain''), epp_domain_check W), ((''create'', ''domain''), epp_domain_create W),
      ((''info'', ''domain''), epp_domain_info W), ((''update'', ''domain''), epp_domain_update W),
      ((''delete'', ''domain''), epp_domain_delete W), ((''renew'', ''domain''), epp_domain_renew W),
      ((''check'', ''host''), epp_host_check W), ((''create'', ''host''), epp_host_create W),
      ((''info'', ''host''), epp_host_info W), ((''update'', ''host''), epp_host_update W),
      ((''delete'', ''host''), epp_host_delete W),
      ((''check'', ''contact''), epp_contact_check W), ((''create'', ''contact''), epp_contact_create W),
      ((''info'', ''contact''), epp_contact_info W), ((''update'', ''contact''), epp_contact_update W),
      ((''delete'', ''contact''), epp_contact_delete W),
      ((''check'', ''org''), epp_org_check W), ((''create'', ''org''), epp_org_create W),
      ((''info'', ''org''), epp_org_info W), ((''update'', ''org''), epp_org_update W),
      ((''delete'', ''org''), epp_org_delete W)]"

definition epp_handle_object_command_stub :: "'s world \<Rightarrow> string \<Rightarrow> string \<Rightarrow> req \<Rightarrow> ('s eppd, reply) state" where
  "epp_handle_object_command_stub W op obj q = fail W 2400 (take 127 (''Command failed: '' @ op @ '' '' @ obj @ '' not implemented'')) q"

fun object_loop :: "'s world \<Rightarrow> cstr \<Rightarrow> req \<Rightarrow> string \<Rightarrow> nat \<Rightarrow> nat \<Rightarrow> string list \<Rightarrow> ('s eppd, reply) state" where
  "object_loop W cl q op s e [] = fail W 2000 ''Unknown object type'' q"
| "object_loop W cl q op s e (obj # objs) = do {
     c \<leftarrow> child (xml q) s e (obj @ '':'' @ op);
     case c of
       None \<Rightarrow> object_loop W cl q op s e objs
     | Some (qs, qe, _) \<Rightarrow> (case map_of (handlers W) (op, obj) of
           Some fn \<Rightarrow> fn cl (q\<lparr>q_s := qs, q_e := qe\<rparr>)
         | None \<Rightarrow> epp_handle_object_command_stub W op obj q) }"

fun command_loop :: "'s world \<Rightarrow> cstr \<Rightarrow> req \<Rightarrow> string list \<Rightarrow> ('s eppd, reply) state" where
  "command_loop W cl q [] = fail W 2000 ''Unknown or unsupported command'' q"
| "command_loop W cl q (op # ops) = do {
     c \<leftarrow> child (xml q) (cmd_s q) (cmd_e q) op;
     case c of
       None \<Rightarrow> command_loop W cl q ops
     | Some (s, e, _) \<Rightarrow> object_loop W cl q op s e [''domain'', ''host'', ''contact'', ''org''] }"

abbreviation not_logged_in :: "'s world \<Rightarrow> req \<Rightarrow> ('s eppd, reply) state" where
  "not_logged_in W q \<equiv> fail W 2201 ''Authorization error: not logged in'' q"

text \<open>Behind the first check of the login: transfers, the poll queue, and the tables.\<close>

definition epp_run_command :: "'s world \<Rightarrow> epp_session \<Rightarrow> req \<Rightarrow> ('s eppd, reply) state" where
  "epp_run_command W sess q = do {
     t \<leftarrow> child_attr (xml q) (cmd_s q) (cmd_e q) ''transfer'' ''op'' 16;
     case t of
       Some (op, s, e, _) \<Rightarrow>
         (if \<not> logged_in sess then not_logged_in W q else epp_domain_transfer W (clid sess) op (q\<lparr>q_s := s, q_e := e\<rparr>))
     | None \<Rightarrow> do {
         p \<leftarrow> child_attr (xml q) (cmd_s q) (cmd_e q) ''poll'' ''op'' 16;
         case p of
           Some (op, _) \<Rightarrow>
             (if \<not> logged_in sess then not_logged_in W q
              else do {
                m \<leftarrow> child_attr (xml q) (cmd_s q) (cmd_e q) ''poll'' ''msgID'' 32;
                epp_handle_poll W (clid sess) op (case m of Some (v, _) \<Rightarrow> v | None \<Rightarrow> []) q })
         | None \<Rightarrow> command_loop W (clid sess) q [''check'', ''info'', ''create'', ''update'', ''delete'', ''renew''] } }"

definition epp_handle_command :: "'s world \<Rightarrow> epp_session \<Rightarrow> bytes \<Rightarrow> nat \<Rightarrow> nat \<Rightarrow> ('s eppd, reply) state" where
  "epp_handle_command W sess x s e = do {
     tr \<leftarrow> set_text x s e ''clTRID'' 300 [];
     let q = \<lparr>xml = x, cmd_s = s, cmd_e = e, q_s = s, q_e = e, cltrid = tr\<rparr>;
     if \<not> logged_in sess then do {
       t \<leftarrow> child x s e ''transfer'';
       if t = None then do {
         p \<leftarrow> child x s e ''poll'';
         if p = None then not_logged_in W q else epp_run_command W sess q }
       else epp_run_command W sess q }
     else epp_run_command W sess q }"

definition epp_handle_login :: "'s world \<Rightarrow> epp_session \<Rightarrow> req \<Rightarrow> ('s eppd, epp_session \<times> reply) state" where
  "epp_handle_login W sess q = do {
     c \<leftarrow> req_text (xml q) (q_s q) (q_e q) ''clID'' 64;
     case c of
       None \<Rightarrow> do { r \<leftarrow> fail W 2001 ''Command syntax error: missing clID'' q; ret (sess, r) }
     | Some c \<Rightarrow> do {
         pw \<leftarrow> get_text (xml q) (q_s q) (q_e q) ''pw'' 256;
         case pw of
           None \<Rightarrow> do { r \<leftarrow> fail W 2001 ''Command syntax error: missing pw'' q; ret (sess, r) }
         | Some pw \<Rightarrow> do {
             v \<leftarrow> vk_get W (snp 128 (str ''config:eppd_registrar_pw:'' @ c)) 256;
             if v = None \<or> v = Some [] \<or> v \<noteq> Some pw then do { r \<leftarrow> fail W 2200 ''Authentication error'' q; ret (sess, r) }
             else do { r \<leftarrow> okay W [] q; ret (sess\<lparr>clid := safe_strcpy [] c 64, logged_in := True\<rparr>, r) } } } }"

text \<open>One frame: the session behind it, whether the connection is closed, and the response; \<open>None\<close> is the result -1.\<close>

definition epp_dispatch :: "'s world \<Rightarrow> epp_session \<Rightarrow> bytes \<Rightarrow> ('s eppd, epp_session \<times> bool \<times> cstr option) state" where
  "epp_dispatch W sess x = do {
     r \<leftarrow> child x 0 (length x) ''epp'';
     case r of
       None \<Rightarrow> ret (sess, False, None)
     | Some (es, ee, _) \<Rightarrow> do {
         h \<leftarrow> child x es ee ''hello'';
         if h \<noteq> None then do { g \<leftarrow> epp_build_greeting W; ret (sess, False, Some g) }
         else do {
           c \<leftarrow> child x es ee ''command'';
           case c of
             None \<Rightarrow> ret (sess, False, None)
           | Some (s, e, _) \<Rightarrow> do {
               l \<leftarrow> child x s e ''logout'';
               if l \<noteq> None then do {
                 tr \<leftarrow> set_text x s e ''clTRID'' 300 [];
                 a \<leftarrow> epp_build_result W 1500 ''Command completed successfully; ending session'' [] tr;
                 ret (sess, True, Some (snd a)) }
               else do {
                 l \<leftarrow> child x s e ''login'';
                 case l of
                   Some (ls, le, _) \<Rightarrow> do {
                     tr \<leftarrow> set_text x s e ''clTRID'' 300 [];
                     a \<leftarrow> epp_handle_login W sess \<lparr>xml = x, cmd_s = s, cmd_e = e, q_s = ls, q_e = le, cltrid = tr\<rparr>;
                     ret (fst a, False, Some (snd (snd a))) }
                 | None \<Rightarrow> do {
                     a \<leftarrow> epp_handle_command W sess x s e;
                     ret (sess, False, Some (snd a)) } } } } } }"

end
