(* ===== verification/EppInv.thy ===== *)
theory EppInv
  imports EppCmd
begin

text \<open>
  What a command keeps. A triple says that a computation keeps an invariant: no access outside of an array, and a property of the store.
  The locale \<open>epp_base\<close> has the commands that never write a domain object: they keep every property of the domain objects.
\<close>

section \<open>Triples\<close>

definition good :: "('s \<Rightarrow> bool) \<Rightarrow> 's eppd \<Rightarrow> bool" where
  "good J s \<longleftrightarrow> Wild \<notin> faults s \<and> J (db s)"

definition wp :: "('t, 'a) state \<Rightarrow> ('a \<Rightarrow> 't \<Rightarrow> bool) \<Rightarrow> 't \<Rightarrow> bool" where
  "wp m Q s \<longleftrightarrow> (case run_state m s of (r, s') \<Rightarrow> Q r s')"

definition triple :: "('s \<Rightarrow> bool) \<Rightarrow> ('s eppd, 'a) state \<Rightarrow> ('a \<Rightarrow> bool) \<Rightarrow> bool" where
  "triple J m P \<longleftrightarrow> (\<forall>s. good J s \<longrightarrow> wp m (\<lambda>r s'. good J s' \<and> P r) s)"

named_theorems wpi

lemma tripleI: "(\<And>s. good J s \<Longrightarrow> wp m (\<lambda>r s'. good J s' \<and> P r) s) \<Longrightarrow> triple J m P"
  by (simp add: triple_def)

lemma tripleD: "triple J m P \<Longrightarrow> good J s \<Longrightarrow> (\<And>r s'. good J s' \<Longrightarrow> P r \<Longrightarrow> Q r s') \<Longrightarrow> wp m Q s"
  by (auto simp: triple_def wp_def split: prod.splits)

lemma triple_weaken: "triple J m P \<Longrightarrow> (\<And>r. P r \<Longrightarrow> P' r) \<Longrightarrow> triple J m P'"
  by (auto simp: triple_def wp_def split: prod.splits)

lemma wp_bind [wpi]: "wp m (\<lambda>r. wp (f r) Q) s \<Longrightarrow> wp (State_Monad.bind m f) Q s"
  by (auto simp: wp_def split: prod.splits)

lemma wp_ret [wpi]: "Q x s \<Longrightarrow> wp (ret x) Q s"
  by (simp add: wp_def)

lemma wp_if [wpi]: "(b \<Longrightarrow> wp m Q s) \<Longrightarrow> (\<not> b \<Longrightarrow> wp n Q s) \<Longrightarrow> wp (if b then m else n) Q s"
  by simp

lemma wp_let [wpi]: "(\<And>x. x = t \<Longrightarrow> wp (f x) Q s) \<Longrightarrow> wp (Let t f) Q s"
  by (simp add: Let_def)

lemma wp_option [wpi]:
  "(x = None \<Longrightarrow> wp m Q s) \<Longrightarrow> (\<And>v. x = Some v \<Longrightarrow> wp (f v) Q s) \<Longrightarrow> wp (case x of None \<Rightarrow> m | Some v \<Rightarrow> f v) Q s"
  by (cases x) auto

lemma wp_prod [wpi]: "(\<And>a b. x = (a, b) \<Longrightarrow> wp (f a b) Q s) \<Longrightarrow> wp (case x of (a, b) \<Rightarrow> f a b) Q s"
  by (cases x) auto

lemma wp_fetched [wpi]:
  "(x = Missing \<Longrightarrow> wp m Q s) \<Longrightarrow> (x = Corrupt \<Longrightarrow> wp n Q s) \<Longrightarrow> (\<And>v. x = Have v \<Longrightarrow> wp (f v) Q s) \<Longrightarrow>
   wp (case x of Missing \<Rightarrow> m | Corrupt \<Rightarrow> n | Have v \<Rightarrow> f v) Q s"
  by (cases x) auto

lemma wp_cres [wpi]: "(x = Err \<Longrightarrow> wp m Q s) \<Longrightarrow> (\<And>v. x = Ok v \<Longrightarrow> wp (f v) Q s) \<Longrightarrow> wp (case x of Err \<Rightarrow> m | Ok v \<Rightarrow> f v) Q s"
  by (cases x) auto

lemma wp_get [wpi]: "Q s s \<Longrightarrow> wp State_Monad.get Q s"
  by (simp add: wp_def)

lemma wp_set [wpi]: "Q () t \<Longrightarrow> wp (State_Monad.set t) Q s"
  by (simp add: wp_def)

lemma wp_update [wpi]: "Q () (f s) \<Longrightarrow> wp (State_Monad.update f) Q s"
  by (simp add: wp_def State_Monad.update_def)

section \<open>Operations that leave the store alone\<close>

lemma good_simps [simp]:
  "good J (s\<lparr>trips := n\<rparr>) = good J s" "good J (s\<lparr>times := n\<rparr>) = good J s" "good J (s\<lparr>draws := n\<rparr>) = good J s"
  "good J (s\<lparr>g_svtrid_counter := w\<rparr>) = good J s" "good J (s\<lparr>g_roid_counter := w\<rparr>) = good J s"
  "f \<noteq> Wild \<Longrightarrow> good J (s\<lparr>faults := insert f (faults s)\<rparr>) = good J s"
  by (auto simp: good_def)

lemma triple_fault: "f \<noteq> Wild \<Longrightarrow> triple J (fault f) (\<lambda>_. True)"
  by (rule tripleI, unfold fault_def) (intro wpi, simp)

lemma triple_access: "x = Some v \<Longrightarrow> P v \<Longrightarrow> triple J (access d x) P"
  by (rule tripleI, simp add: access_def) (intro wpi, simp)

definition lossy :: "'s world \<Rightarrow> bool" where
  "lossy W \<longleftrightarrow> (\<exists>n. net W n \<noteq> Up)"

lemma length_dec_4: "n < 10000 \<Longrightarrow> length (dec n) \<le> 4"
  by (simp add: dec.simps [of n] dec.simps [of "n div 10"] dec.simps [of "n div 10 div 10"] dec.simps [of "n div 10 div 10 div 10"])

lemma vkc_encode_short: "length key \<le> 1000 \<Longrightarrow> vkc_encode [str ''GET'', key] \<noteq> Err"
  using length_dec_4 [of "length key"] length_dec_4 [of "Suc (Suc 0)"] length_dec_4 [of "Suc (Suc (Suc 0))"]
  by (simp add: vkc_encode_def crlf_def str_def)

lemma triple_vk_get:
  "triple J (vk_get W key n) (\<lambda>r. r = None \<and> (lossy W \<or> 1000 < length key) \<or> (\<exists>d. J d \<and> r = map_option (take (n - 1)) (v_get W d key)))"
  by (rule tripleI, unfold vk_get_def trip_def, intro wpi) (auto simp: lossy_def good_def not_le [symmetric] dest: vkc_encode_short)

lemma triple_vk_list_keys: "triple J (vk_list_keys W pat n) (\<lambda>_. True)"
  by (rule tripleI, unfold vk_list_keys_def trip_def, intro wpi) simp

lemma triple_time_now: "triple J (time_now W) (\<lambda>_. True)"
  by (rule tripleI, unfold time_now_def, intro wpi) simp

lemma triple_time_u32: "triple J (time_u32 W) (\<lambda>_. True)"
  by (rule tripleI, unfold time_u32_def, rule wp_bind, rule tripleD [OF triple_time_now]) (auto intro: wp_ret)

lemma triple_svtrid: "triple J (epp_gen_svtrid W) (\<lambda>_. True)"
  by (rule tripleI, unfold epp_gen_svtrid_def, intro wpi) simp

lemma set_dec: "c \<in> set (dec n) \<Longrightarrow> 48 \<le> c \<and> c \<le> 57"
proof (induction n rule: dec.induct)
  case (1 n)
  have d: "48 \<le> (of_nat (48 + k) :: u8) \<and> (of_nat (48 + k) :: u8) \<le> 57" if "k < 10" for k
    using that unat_of_nat_u8 [of "48 + k"] by (simp add: word_le_nat_alt)
  show ?case
  proof (cases "n < 10")
    case True
    then show ?thesis using 1(2) d [of n] by (simp add: dec.simps [of n])
  next
    case False
    then show ?thesis using 1 d [of "n mod 10"] by (auto simp: dec.simps [of n])
  qed
qed

lemma no_nul_dec: "0 \<notin> set (dec n)"
  using set_dec [of 0 n] by auto

lemma no_nul_take: "0 \<notin> set xs \<Longrightarrow> 0 \<notin> set (take n (xs :: cstr))"
  by (auto dest: in_set_takeD)

lemma triple_roid: "0 \<notin> set suf \<Longrightarrow> triple J (epp_gen_roid suf) (cfits 32)"
  by (rule tripleI, unfold epp_gen_roid_def, intro wpi)
    (simp add: cfits_def str_def no_nul_dec no_nul_take)

lemma triple_authinfo: "triple J (epp_gen_authinfo W) (cfits 256)"
  by (rule tripleI, unfold epp_gen_authinfo_def, intro wpi) (simp add: cfits_def hex_enc_no_nul)

lemma triple_build_result: "triple J (epp_build_result W code msg extra tr) (\<lambda>r. fst r = code)"
  by (rule tripleI, unfold epp_build_result_def, rule wp_bind, rule tripleD [OF triple_svtrid]) (auto intro: wpi)

lemma triple_greeting: "triple J (epp_build_greeting W) (\<lambda>_. True)"
  by (rule tripleI, unfold epp_build_greeting_def, rule wp_bind, rule tripleD [OF triple_time_now]) (auto intro: wpi)

section \<open>Reading the request\<close>

text \<open>Both searches find the same element.\<close>

definition has_child :: "bytes \<Rightarrow> nat \<Rightarrow> nat \<Rightarrow> string \<Rightarrow> bool" where
  "has_child x s e tag \<longleftrightarrow> (\<exists>y. xml_find_child x s e (str tag) = Some (Found y))"

lemma triple_child:
  assumes "e \<le> length x"
  shows "triple J (child x s e tag) (\<lambda>r. (\<forall>y. r = Some y \<longrightarrow> child_bounds s e y) \<and> (r \<noteq> None \<longleftrightarrow> has_child x s e tag))"
proof (rule tripleI, unfold child_def, rule wp_bind)
  fix st assume g: "good J st"
  obtain r where r: "xml_find_child x s e (str tag) = Some r" "\<forall>y. r = Found y \<longrightarrow> child_bounds s e y"
    using xml_find_child_ok [OF assms] by blast
  show "wp (access Malformed (xml_find_child x s e (str tag))) (\<lambda>r. wp (ret (case r of Found x \<Rightarrow> Some x | _ \<Rightarrow> None))
      (\<lambda>r s'. good J s' \<and> (\<forall>y. r = Some y \<longrightarrow> child_bounds s e y) \<and> (r \<noteq> None \<longleftrightarrow> has_child x s e tag))) st"
    using g r by (intro tripleD [OF triple_access [of _ r "\<lambda>v. v = r"]] wpi) (auto simp: has_child_def split: found.splits)
qed

lemma length_cstr_of_nul: "k < length b \<Longrightarrow> b ! k = 0 \<Longrightarrow> length (cstr_of b) \<le> k"
  unfolding cstr_of_def by (metis (mono_tags, lifting) linorder_not_less nth_mem set_takeWhileD takeWhile_nth)

lemma extract_fits: "epp_xml_attr_extract x p q at cap = Some a \<Longrightarrow> 0 < cap \<Longrightarrow> cfits cap a"
  using cs_cstr_of [of "take (cap - 1) v" cap for v]
  by (auto simp: epp_xml_attr_extract_def split: Option.bind_splits found.splits)

lemma attr_fits:
  assumes "xml_find_child_attr x s e tag at cap = Some (Found (a, y))" "0 < cap"
  shows "cfits cap a"
proof -
  have "\<forall>a y. r = Found (a, y) \<longrightarrow> 0 < cap \<longrightarrow> cfits cap a" if "xml_find_child_attr x s e tag at cap = Some r" for r
    using that
    by (rule xml_find_child_attr.raw_induct [where P = "\<lambda>x s e tag at cap r. \<forall>a y. r = Found (a, y) \<longrightarrow> 0 < cap \<longrightarrow> cfits cap a", rotated])
      (auto split: Option.bind_splits xml_tagkind_t.splits if_splits cres.splits dest: extract_fits)
  then show ?thesis using assms by blast
qed

lemma triple_child_attr:
  assumes "e \<le> length x" "0 < cap"
  shows "triple J (child_attr x s e tag at cap)
    (\<lambda>r. (\<forall>v y. r = Some (v, y) \<longrightarrow> cfits cap v \<and> child_bounds s e y) \<and> (r \<noteq> None \<longleftrightarrow> has_child x s e tag))"
proof (rule tripleI, unfold child_attr_def, rule wp_bind)
  fix st assume g: "good J st"
  obtain r where r: "xml_find_child_attr x s e (str tag) (str at) cap = Some r"
    "xml_find_child x s e (str tag) = Some (case r of Found (a, x) \<Rightarrow> Found x | Absent \<Rightarrow> Absent | Malformed \<Rightarrow> Malformed)"
    using xml_find_child_attr_ok [OF assms(1)] by blast
  have "child_bounds s e y" if "r = Found (v, y)" for v y
    using xml_find_child_ok [OF assms(1), of s "str tag"] r(2) that by (cases y) auto
  then show "wp (access Malformed (xml_find_child_attr x s e (str tag) (str at) cap)) (\<lambda>r. wp (ret (case r of Found x \<Rightarrow> Some x | _ \<Rightarrow> None))
      (\<lambda>r s'. good J s' \<and> (\<forall>v y. r = Some (v, y) \<longrightarrow> cfits cap v \<and> child_bounds s e y) \<and> (r \<noteq> None \<longleftrightarrow> has_child x s e tag))) st"
    using g r assms(2)
    by (intro tripleD [OF triple_access [of _ r "\<lambda>v. v = r"]] wpi) (auto simp: has_child_def split: found.splits dest: attr_fits)
qed

lemma xml_children_ok:
  assumes "e \<le> length x"
  shows "\<exists>l. xml_children x s e tag = Some l \<and> list_all (\<lambda>(a, b). b \<le> e) l"
proof (induction "e - s" arbitrary: s rule: less_induct)
  case less
  obtain r where r: "xml_find_child x s e tag = Some r" "\<forall>y. r = Found y \<longrightarrow> child_bounds s e y"
    using xml_find_child_ok [OF assms] by blast
  show ?case
  proof (cases r)
    case (Found y)
    obtain a b np where y: "y = (a, b, np)" by (cases y)
    then have "s < np" "np \<le> e" "b \<le> e" using r Found by (auto simp: child_bounds_def)
    then show ?thesis using less [of np] r Found y by (force simp: xml_children.simps [of x s])
  qed (use r in \<open>auto simp: xml_children.simps [of x s]\<close>)
qed

lemma xml_attrs_of_ok:
  assumes "e \<le> length x" "0 < cap"
  shows "\<exists>l. xml_attrs_of x s e tag at cap = Some l \<and> list_all (cfits cap) l"
proof (induction "e - s" arbitrary: s rule: less_induct)
  case less
  obtain r where r: "xml_find_child_attr x s e tag at cap = Some r"
    "xml_find_child x s e tag = Some (case r of Found (a, x) \<Rightarrow> Found x | Absent \<Rightarrow> Absent | Malformed \<Rightarrow> Malformed)"
    using xml_find_child_attr_ok [OF assms(1)] by blast
  show ?case
  proof (cases r)
    case (Found y)
    obtain v a b np where y: "y = (v, a, b, np)" by (cases y)
    then have "s < np" "np \<le> e" using xml_find_child_ok [OF assms(1), of s tag] r Found by (auto simp: child_bounds_def)
    moreover have "cfits cap v" using attr_fits r(1) Found y assms(2) by blast
    ultimately show ?thesis using less [of np] r(1) Found y by (force simp: xml_attrs_of.simps [of x s])
  qed (use r in \<open>auto simp: xml_attrs_of.simps [of x s]\<close>)
qed

lemma triple_children: "e \<le> length x \<Longrightarrow> triple J (children x s e tag) (list_all (\<lambda>(a, b). b \<le> e))"
  unfolding children_def by (drule xml_children_ok [of e x s "str tag"], elim exE conjE) (rule triple_access)

lemma triple_attrs_of: "e \<le> length x \<Longrightarrow> 0 < cap \<Longrightarrow> triple J (attrs_of x s e tag at cap) (list_all (cfits cap))"
  unfolding attrs_of_def by (drule (1) xml_attrs_of_ok [of e x cap s "str tag" "str at"], elim exE conjE) (rule triple_access)

lemma triple_text_of:
  assumes "e \<le> length x" "length old < cap"
  shows "triple J (text_of x s e cap old) (\<lambda>r. cfits cap (fst r))"
proof (rule tripleI, unfold text_of_def, rule wp_bind)
  fix st assume g: "good J st"
  let ?out = "old @ replicate (cap - length old) 0"
  have l: "length ?out = cap" "0 < cap" using assms(2) by auto
  obtain out' r where r: "xml_text_decode x s e ?out cap = Some (out', r)"
    using xml_text_decode_ok [OF assms(1) l] by blast
  have "?out ! (cap - 1) = 0" using assms(2) by (subst nth_append) auto
  then obtain k where k: "length out' = cap" "k < cap" "out' ! k = 0"
    using xml_text_decode_last [OF r l] by auto
  then have "cfits cap (cstr_of out')" using length_cstr_of_nul [of k out'] by (simp add: cfits_def cstr_of_no_nul)
  then show "wp (access ([], Err) (xml_text_decode x s e ?out cap)) (\<lambda>r. wp (ret (cstr_of (fst r), snd r \<noteq> Err))
      (\<lambda>r s'. good J s' \<and> cfits cap (fst r))) st"
    using g r by (intro tripleD [OF triple_access [of _ "(out', r)" "\<lambda>v. v = (out', r)"]] wpi) auto
qed

lemmas wp_prims [wpi] = tripleD [OF triple_vk_get] tripleD [OF triple_vk_list_keys] tripleD [OF triple_time_now] tripleD [OF triple_time_u32]
  tripleD [OF triple_roid] tripleD [OF triple_authinfo] tripleD [OF triple_build_result] tripleD [OF triple_greeting]
  tripleD [OF triple_child] tripleD [OF triple_child_attr] tripleD [OF triple_children] tripleD [OF triple_attrs_of] tripleD [OF triple_text_of]

lemma triple_get_text: "e \<le> length x \<Longrightarrow> 0 < cap \<Longrightarrow> triple J (get_text x s e tag cap) (\<lambda>r. \<forall>v. r = Some v \<longrightarrow> cfits cap v)"
  by (rule tripleI, unfold get_text_def, intro wpi) (auto simp: child_bounds_def)

lemma triple_req_text:
  "e \<le> length x \<Longrightarrow> 0 < cap \<Longrightarrow> triple J (req_text x s e tag cap) (\<lambda>r. \<forall>v. r = Some v \<longrightarrow> cfits cap v \<and> v \<noteq> [])"
  by (rule tripleI, unfold req_text_def, intro wpi tripleD [OF triple_get_text]) (auto split: option.splits if_splits)

lemma triple_set_text: "e \<le> length x \<Longrightarrow> cfits cap old \<Longrightarrow> triple J (set_text x s e tag cap old) (cfits cap)"
  by (rule tripleI, unfold set_text_def, intro wpi) (auto simp: child_bounds_def cfits_def)

lemma triple_secdns:
  "ce \<le> length x \<Longrightarrow> triple J (epp_find_secdns_block x cs ce tag) (\<lambda>r. \<forall>s e. r = Some (s, e) \<longrightarrow> e \<le> length x)"
  by (rule tripleI, unfold epp_find_secdns_block_def, intro wpi) (auto simp: child_bounds_def split: option.splits)

lemmas wp_reads [wpi] = tripleD [OF triple_get_text] tripleD [OF triple_req_text] tripleD [OF triple_set_text] tripleD [OF triple_secdns]

lemma triple_cfg: "triple J (epp_cfg_secs W key defval) (\<lambda>_. True)"
  by (rule tripleI, unfold epp_cfg_secs_def, intro wpi) simp_all

lemma triple_currency: "triple J (epp_fee_currency W) (\<lambda>_. True)"
  by (rule tripleI, unfold epp_fee_currency_def, intro wpi) simp_all

lemma triple_amount: "triple J (epp_fee_amount W cmd) (\<lambda>_. True)"
  by (rule tripleI, unfold epp_fee_amount_def, intro wpi) simp_all

lemma triple_fee: "triple J (epp_fee_response_extension W c t) (\<lambda>_. True)"
  by (rule tripleI, unfold epp_fee_response_extension_def, intro wpi tripleD [OF triple_currency] tripleD [OF triple_amount]) simp_all

lemma triple_fail: "triple J (fail W code msg q) (\<lambda>r. fst r = code)"
  by (rule tripleI, unfold fail_def, intro wpi) simp_all

lemma triple_okay: "triple J (okay W extra q) (\<lambda>r. fst r = 1000)"
  by (rule tripleI, unfold okay_def, intro wpi) simp_all

lemma triple_serial_key: "triple J (epp_serial_key W zn) (\<lambda>k. take 7 k = str ''config:'')"
  by (rule tripleI, unfold epp_serial_key_def, intro wpi) (auto simp: str_def snp_def)

lemma triple_parent_zone: "triple J (find_parent_zone W n) (\<lambda>_. True)"
  by (rule tripleI, unfold find_parent_zone_def, intro wpi) simp_all

lemmas wp_helpers [wpi] = tripleD [OF triple_cfg] tripleD [OF triple_fee] tripleD [OF triple_currency] tripleD [OF triple_amount]
  tripleD [OF triple_fail] tripleD [OF triple_okay] tripleD [OF triple_serial_key] tripleD [OF triple_parent_zone]

lemma triple_fee_ext: "cmd_e q \<le> length (xml q) \<Longrightarrow> triple J (fee_ext W q t c w) (\<lambda>_. True)"
  by (rule tripleI, unfold fee_ext_def, intro wpi) simp_all

lemma wp_with_name [wpi]:
  assumes "q_e q \<le> length (xml q)" "0 < cap" "good J s"
    and "\<And>n s'. good J s' \<Longrightarrow> cfits cap n \<Longrightarrow> n \<noteq> [] \<Longrightarrow> wp (f n) Q s'" "\<And>r s'. good J s' \<Longrightarrow> Q r s'"
  shows "wp (with_name W tag cap q f) Q s"
  unfolding with_name_def using assms by (intro wpi) auto

text \<open>A key's value as a reader sees it.\<close>

definition reads :: "'s world \<Rightarrow> 's \<Rightarrow> cstr \<Rightarrow> (bytes \<Rightarrow> nat \<Rightarrow> 'a cres option) \<Rightarrow> nat \<Rightarrow> 'a \<Rightarrow> bool" where
  "reads W d key dcd cap x \<longleftrightarrow> (\<exists>b. v_get W d key = Some b \<and> decode_blob dcd cap (take (VKC_BUF - 1) b) = Some (Ok x))"

definition total :: "(bytes \<Rightarrow> nat \<Rightarrow> 'a cres option) \<Rightarrow> bool" where
  "total dcd \<longleftrightarrow> (\<forall>buf. \<exists>r. dcd buf (length buf) = Some r)"

lemma triple_get_obj:
  assumes "total dcd"
  shows "triple J (get_obj W key dcd cap) (\<lambda>r. \<forall>x. r = Have x \<longrightarrow> (\<exists>d. J d \<and> reads W d key dcd cap x))"
proof (rule tripleI, unfold get_obj_def, intro wpi)
  fix s r s' v
  assume g: "good J s'" and r: "r = None \<and> (lossy W \<or> 1000 < length key) \<or> (\<exists>d. J d \<and> r = map_option (take (VKC_BUF - 1)) (v_get W d key))" "r = Some v"
  obtain y where y: "decode_blob dcd cap v = Some y" using assms by (fastforce simp: decode_blob_def total_def Let_def)
  obtain d b where rd: "J d" "v_get W d key = Some b" "v = take (VKC_BUF - 1) b" using r by (auto simp: eq_commute [of "Some v"])
  show "wp (access Err (decode_blob dcd cap v)) (\<lambda>r. wp (ret (case r of Err \<Rightarrow> Corrupt | Ok x \<Rightarrow> Have x))
      (\<lambda>r s'. good J s' \<and> (\<forall>x. r = Have x \<longrightarrow> (\<exists>d. J d \<and> reads W d key dcd cap x)))) s'"
    using g rd y
    by (intro tripleD [OF triple_access [of _ y "\<lambda>v. v = y"]] wpi) (auto simp: reads_def split: cres.splits)
qed auto

section \<open>Objects\<close>

lemma decoders_total:
  "total epp_domain_decode" "total epp_host_decode" "total epp_contact_decode" "total epp_org_decode" "total epp_poll_decode"
  unfolding total_def epp_domain_decode_def epp_host_decode_def epp_contact_decode_def epp_org_decode_def epp_poll_decode_def
  by (simp_all add: tlv_fold_total)

lemma reads_ok:
  "reads W d key epp_domain_decode cap x \<Longrightarrow> domain_ok x" "reads W d key epp_host_decode cap y \<Longrightarrow> host_ok y"
  "reads W d key epp_contact_decode cap z \<Longrightarrow> contact_ok z" "reads W d key epp_org_decode cap g \<Longrightarrow> org_ok g"
  "reads W d key epp_poll_decode cap m \<Longrightarrow> poll_ok m"
  unfolding reads_def decode_blob_def Let_def epp_domain_decode_def epp_host_decode_def epp_contact_decode_def epp_org_decode_def epp_poll_decode_def
  using dom.decode_wf hst.decode_wf con.decode_wf org.decode_wf pol.decode_wf by blast+

lemmas wp_objs [wpi] = tripleD [OF triple_get_obj [OF decoders_total(1)]] tripleD [OF triple_get_obj [OF decoders_total(2)]]
  tripleD [OF triple_get_obj [OF decoders_total(3)]] tripleD [OF triple_get_obj [OF decoders_total(4)]] tripleD [OF triple_get_obj [OF decoders_total(5)]]

lemma wp_with_obj:
  assumes "total dcd" "good J s"
    and "\<And>x d s'. good J s' \<Longrightarrow> J d \<Longrightarrow> reads W d key dcd cap x \<Longrightarrow> wp (f x) Q s'" "\<And>r s'. good J s' \<Longrightarrow> Q r s'"
  shows "wp (with_obj W key dcd cap q f) Q s"
  unfolding with_obj_def using assms(2-) by (intro wpi tripleD [OF triple_get_obj [OF assms(1)]]) auto

lemmas wp_with_objs [wpi] = wp_with_obj [OF decoders_total(1)] wp_with_obj [OF decoders_total(2)] wp_with_obj [OF decoders_total(3)]
  wp_with_obj [OF decoders_total(4)]

lemma tlv_put_all_first:
  "tlv_put_all buf cap off is = Some (buf', Ok n) \<Longrightarrow> 1 \<le> off \<Longrightarrow> off \<le> cap \<Longrightarrow> cap \<le> length buf \<Longrightarrow> buf' ! 0 = buf ! 0"
proof (induction "is" arbitrary: buf off)
  case (Cons x "is")
  obtain t v where x: "x = (t, v)" by (cases x)
  have p: "patch buf off u ! 0 = buf ! 0" for u using Cons.prems by (simp add: patch_def nth_append)
  show ?case
    using Cons.prems Cons.IH [of "patch buf off (tlv_enc [(t, v)])" "off + 3 + length v"] p
    by (auto simp: x tlv_put_spec and_then_Ok split: if_splits)
qed simp

lemma encode_items_blob:
  assumes "encode_items is (replicate cap 0) cap = Some (buf, Ok n)"
  shows "take n buf = 1 # tlv_enc is \<and> n \<le> cap"
proof -
  obtain b off where b: "tlv_begin (replicate cap 0) cap 1 = Some (b, Ok off)" "tlv_put_all b cap off is = Some (buf, Ok n)"
    using assms by (auto simp: encode_items_def and_then_Ok)
  have h: "off = 1" "tlv_holds cap (b, 1) []" "b ! 0 = 1" using tlv_begin_holds [OF _ b(1)] by auto
  have w: "buf ! 0 = b ! 0" using tlv_put_all_first [OF b(2)] h by (auto simp: tlv_holds_def)
  have "tlv_holds cap (buf, n) is" using blob.puts_holds [OF h(2)] b(2) h(1) by (simp add: tlv_put_all_puts)
  moreover have "buf ! 0 = 1" using w h by simp
  ultimately show ?thesis by (cases n; cases buf) (auto simp: tlv_holds_def)
qed

lemma encode_items_total: "0 < cap \<Longrightarrow> \<exists>r. encode_items is (replicate cap 0) cap = Some r"
  using tlv_put_all_total [of cap "(replicate cap 0)[0 := 1]" 1 "is"]
  by (auto simp: encode_items_def tlv_begin_def wr8_def and_then_def split: if_splits)

text \<open>What is written is the encoding of the object.\<close>

definition blob_of :: "(u8 \<times> bytes) list \<Rightarrow> cstr" where
  "blob_of is = hex_enc (1 # tlv_enc is)"

lemma triple_write:
  assumes "\<And>d. J d \<Longrightarrow> J (fold (vcmd_exec W) cmds d)"
  shows "triple J (vk_write W cmds) (\<lambda>_. True)"
  by (rule tripleI, unfold vk_write_def trip_def, intro wpi) (auto simp: good_def assms)

lemma triple_put_obj:
  assumes "\<And>d. J d \<Longrightarrow> length (tlv_enc is) < cap \<Longrightarrow> J (v_set W d key (blob_of is))" "0 < cap"
  shows "triple J (put_obj W key (encode_items is) cap) (\<lambda>_. True)"
proof (rule tripleI, unfold put_obj_def, rule wp_bind)
  fix s assume g: "good J s"
  obtain buf r where r: "encode_items is (replicate cap 0) cap = Some (buf, r)" using encode_items_total [OF assms(2)] by fastforce
  have w: "triple J (vk_set W key (hex_enc (take n buf))) (\<lambda>_. True)" if "r = Ok n" for n
  proof -
    have t: "take n buf = 1 # tlv_enc is" "n \<le> cap" using encode_items_blob r that by blast+
    have "length (take n buf) \<le> n" by simp
    then have l: "length (tlv_enc is) < cap" using t by simp
    show ?thesis unfolding vk_set_def using assms(1) l t(1) by (intro triple_write) (simp add: blob_of_def)
  qed
  show "wp (access ([], Err) (encode_items is (replicate cap 0) cap)) (\<lambda>r. wp (case r of (tlv, Err) \<Rightarrow> ret False
     | (tlv, Ok n) \<Rightarrow> do { (if 2 * n + 1 \<le> 2 * cap then ret () else fault HexEnd); _ \<leftarrow> vk_set W key (hex_enc (take n tlv)); ret True })
      (\<lambda>r s'. good J s' \<and> True)) s"
    using g r w
    by (intro tripleD [OF triple_access [of _ "(buf, r)" "\<lambda>v. v = (buf, r)"]] wpi tripleD [OF triple_fault]) (auto intro!: tripleD [OF w] wpi)
qed

section \<open>What a command may write\<close>

definition dom_key :: "cstr \<Rightarrow> bool" where
  "dom_key k \<longleftrightarrow> take 11 k = str ''epp:domain:''"

lemma dom_key_simps [simp]:
  "\<not> dom_key (host_key n)" "\<not> dom_key (contact_key n)" "\<not> dom_key (org_key n)" "\<not> dom_key (poll_key c m)" "\<not> dom_key (pollseq_key c)"
  "\<not> dom_key (zone_key t z n)"
  by (simp_all add: dom_key_def host_key_def contact_key_def org_key_def poll_key_def pollseq_key_def zone_key_def snp_def str_def)

lemma dom_key_config: "take 7 k = str ''config:'' \<Longrightarrow> \<not> dom_key k"
  by (cases k) (auto simp: dom_key_def str_def)

definition transfer_only :: "epp_domain \<Rightarrow> epp_domain \<Rightarrow> bool" where
  "transfer_only d d' \<longleftrightarrow> d' = d\<lparr>d_transfer_reid := d_transfer_reid d', d_transfer_redate := d_transfer_redate d', d_transfer_status := d_transfer_status d'\<rparr>"

text \<open>The parts of an update of an organisation keep what the later parts need.\<close>

definition org_texts :: "epp_org \<Rightarrow> bool" where
  "org_texts g \<longleftrightarrow> cfits 64 (o_parentid g) \<and> cfits 128 (o_email g) \<and> cfits 32 (o_voice g)"

lemma org_texts_ok: "org_ok g \<Longrightarrow> org_texts g"
  by (simp add: org_ok_def org_texts_def)

lemma strlower_fits: "cfits n s \<Longrightarrow> cfits n (strlower s)"
  by (auto simp: cfits_def strlower_map image_iff)

lemma cfits_strcpy: "cfits m s \<Longrightarrow> 0 < n \<Longrightarrow> cfits n (safe_strcpy [] s n)"
  by (auto simp: cfits_def safe_strcpy_def dest: in_set_takeD)

lemma add_status_ok: "cfits_list 32 st \<Longrightarrow> list_all (cfits 32) vs \<Longrightarrow> cfits_list 32 (add_status vs st)"
  by (induction vs st rule: add_status.induct) (auto simp: cfits_list_def cfits_strcpy)

lemma filter_ok: "cfits_list n xs \<Longrightarrow> cfits_list n (filter P xs)" "ds_list ys \<Longrightarrow> ds_list (filter R ys)"
  by (simp_all add: cfits_list_def ds_list_def list_all_iff le_trans [OF length_filter_le])

lemma rem_all_ok: "cfits_list n xs \<Longrightarrow> cfits_list n (rem_all vs xs)"
  unfolding rem_all_def by (induction vs arbitrary: xs) (simp_all add: filter_ok)

lemma rem_ds_ok: "ds_list xs \<Longrightarrow> ds_list (rem_ds vs xs)"
  unfolding rem_ds_def by (induction vs arbitrary: xs) (simp_all add: filter_ok)

lemma length_hex_dec: "length (hex_dec s m) \<le> m"
  by (induction s m rule: hex_dec.induct) auto

lemma tlv_part_total:
  assumes "len \<le> length buf"
  shows "\<exists>r. tlv_part f buf len off s = Some r"
proof (induction "len - off" arbitrary: off s rule: less_induct)
  case less
  obtain r where r: "tlv_next buf len off = Some r" using tlv_next_safe [OF assms] by blast
  show ?case
  proof (cases r)
    case (TlvItem t v off')
    have "off + 3 \<le> off'" "off' \<le> len"
      using r TlvItem by (auto simp: tlv_next_def split: if_splits Option.bind_splits)
    then show ?thesis using less r TlvItem by (subst tlv_part.simps) (auto split: cres.splits)
  qed (use r in \<open>auto simp: tlv_part.simps [of f buf len off s]\<close>)
qed

locale epp_base =
  fixes W :: "'s world" and J :: "'s \<Rightarrow> bool"
  assumes other: "\<not> dom_key k \<Longrightarrow> J d \<Longrightarrow> J (v_set W d k v) \<and> J (v_del W d k) \<and> J (v_incr W d k)"
begin

lemma write_other:
  assumes "list_all (\<lambda>c. \<not> dom_key (vcmd_key c)) cmds"
  shows "triple J (vk_write W cmds) (\<lambda>_. True)"
proof (rule triple_write)
  have s: "J (vcmd_exec W c d)" if "J d" "\<not> dom_key (vcmd_key c)" for c d using that other by (cases c) auto
  show "J (fold (vcmd_exec W) cmds d)" if "J d" for d using that assms s by (induction cmds arbitrary: d) auto
qed

lemma vk_del_other: "\<not> dom_key k \<Longrightarrow> triple J (vk_del W k) (\<lambda>_. True)"
  unfolding vk_del_def by (rule write_other) simp

lemma put_other: "\<not> dom_key k \<Longrightarrow> 0 < cap \<Longrightarrow> triple J (put_obj W k (encode_items is) cap) (\<lambda>_. True)"
  by (rule triple_put_obj) (use other in blast)+

lemma wp_stored_other:
  assumes "\<not> dom_key k" "0 < cap" "good J s" "\<And>s'. good J s' \<Longrightarrow> wp f Q s'" "\<And>r s'. good J s' \<Longrightarrow> Q r s'"
  shows "wp (stored W k (encode_items its) cap q f) Q s"
  unfolding stored_def using assms(3-) by (intro wpi tripleD [OF put_other [OF assms(1,2)]]) auto

lemmas stored_other [wpi] = wp_stored_other [where its = "host_items h" for h, folded epp_host_encode_def]
  wp_stored_other [where its = "contact_items c" for c, folded epp_contact_encode_def]
  wp_stored_other [where its = "org_items g" for g, folded epp_org_encode_def]

lemma wp_stored_domain:
  assumes "\<And>d. J d \<Longrightarrow> length (tlv_enc (domain_items x)) < 4096 \<Longrightarrow> J (v_set W d k (blob_of (domain_items x)))"
    "good J s" "\<And>s'. good J s' \<Longrightarrow> wp f Q s'" "\<And>r s'. good J s' \<Longrightarrow> Q r s'"
  shows "wp (stored W k (epp_domain_encode x) 4096 q f) Q s"
proof -
  have t: "triple J (put_obj W k (epp_domain_encode x) 4096) (\<lambda>_. True)"
    unfolding epp_domain_encode_def by (rule triple_put_obj) (use assms(1) in auto)
  show ?thesis unfolding stored_def using assms(2-) by (intro wpi tripleD [OF t]) auto
qed

lemma triple_find_glue: "triple J (find_glue W zone ns) (list_all (\<lambda>c. \<not> dom_key (vcmd_key c)))"
proof (induction ns)
  case Nil
  show ?case by (rule tripleI, simp) (intro wpi, simp)
next
  case (Cons n ns)
  show ?case by (rule tripleI, unfold find_glue.simps, intro wpi tripleD [OF Cons]) (auto simp: glue_cmds_def split: fetched.splits)
qed

lemma triple_publish: "triple J (epp_publish_domain W name ns ds) (\<lambda>_. True)"
  by (rule tripleI, unfold epp_publish_domain_def, intro wpi tripleD [OF triple_find_glue] tripleD [OF write_other]) (auto simp: dom_key_config)

lemma triple_retract: "triple J (epp_retract_domain W name) (\<lambda>_. True)"
  by (rule tripleI, unfold epp_retract_domain_def, intro wpi tripleD [OF write_other]) (auto simp: dom_key_config)

lemma triple_enqueue: "triple J (epp_poll_enqueue W c m) (\<lambda>_. True)"
  by (rule tripleI, unfold epp_poll_enqueue_def vk_incr_def epp_poll_encode_def,
      intro wpi tripleD [OF write_other] tripleD [OF put_other]) auto

lemmas wp_effects [wpi] = tripleD [OF triple_publish] tripleD [OF triple_retract] tripleD [OF triple_enqueue] tripleD [OF vk_del_other]

lemma triple_uses_host: "triple J (uses_host W h ks) (\<lambda>_. True)"
proof (induction ks)
  case Nil
  show ?case by (rule tripleI, simp) (intro wpi, simp)
next
  case (Cons n ns)
  show ?case by (rule tripleI, simp, intro wpi tripleD [OF Cons]) auto
qed

lemma triple_host_in_use: "triple J (epp_host_in_use W h) (\<lambda>_. True)"
  by (rule tripleI, unfold epp_host_in_use_def, intro wpi tripleD [OF triple_uses_host]) simp_all

lemma triple_republish: "triple J (republish W ns) (\<lambda>_. True)"
proof (induction ns)
  case Nil
  show ?case by (rule tripleI, simp) (intro wpi, simp)
next
  case (Cons n ns)
  show ?case by (rule tripleI, simp, intro wpi tripleD [OF Cons]) auto
qed

lemma triple_republish_glue: "triple J (epp_republish_host_glue W h) (\<lambda>_. True)"
  by (rule tripleI, unfold epp_republish_host_glue_def, intro wpi tripleD [OF triple_host_in_use] tripleD [OF triple_republish]) simp_all

lemma triple_uses_contact: "triple J (uses_contact W c ks) (\<lambda>_. True)"
proof (induction ks)
  case Nil
  show ?case by (rule tripleI, simp) (intro wpi, simp)
next
  case (Cons n ns)
  show ?case by (rule tripleI, simp, intro wpi tripleD [OF Cons]) auto
qed

lemma triple_contact_in_use: "triple J (epp_contact_in_use W c) (\<lambda>_. True)"
  by (rule tripleI, unfold epp_contact_in_use_def, intro wpi tripleD [OF triple_uses_contact]) simp_all

lemmas wp_scans [wpi] = tripleD [OF triple_host_in_use] tripleD [OF triple_republish_glue] tripleD [OF triple_contact_in_use]

lemma triple_add_addrs: "list_all (\<lambda>(a, b). b \<le> length x) cs \<Longrightarrow> triple J (add_addrs x cs h) (\<lambda>_. True)"
proof (induction cs arbitrary: h)
  case Nil
  show ?case by (rule tripleI, simp) (intro wpi, simp)
next
  case (Cons c cs)
  show ?case using Cons.prems
    by (cases c, simp only: add_addrs.simps rem_addrs.simps add_roles.simps rem_roles.simps, intro tripleI wpi tripleD [OF Cons.IH]) auto
qed

lemma triple_rem_addrs: "list_all (\<lambda>(a, b). b \<le> length x) cs \<Longrightarrow> triple J (rem_addrs x cs h) (\<lambda>_. True)"
proof (induction cs arbitrary: h)
  case Nil
  show ?case by (rule tripleI, simp) (intro wpi, simp)
next
  case (Cons c cs)
  show ?case using Cons.prems
    by (cases c, simp only: add_addrs.simps rem_addrs.simps add_roles.simps rem_roles.simps, intro tripleI wpi tripleD [OF Cons.IH]) auto
qed

lemma triple_roles: "list_all (\<lambda>(a, b). b \<le> length x) cs \<Longrightarrow> triple J (add_roles u x cs rs) (\<lambda>_. True)"
proof (induction cs arbitrary: rs)
  case Nil
  show ?case by (rule tripleI, simp) (intro wpi, simp)
next
  case (Cons c cs)
  show ?case using Cons.prems
    by (cases c, simp only: add_addrs.simps rem_addrs.simps add_roles.simps rem_roles.simps, intro tripleI wpi tripleD [OF Cons.IH]) auto
qed

lemma triple_rem_roles: "list_all (\<lambda>(a, b). b \<le> length x) cs \<Longrightarrow> triple J (rem_roles x cs rs) (\<lambda>_. True)"
proof (induction cs arbitrary: rs)
  case Nil
  show ?case by (rule tripleI, simp) (intro wpi, simp)
next
  case (Cons c cs)
  show ?case using Cons.prems
    by (cases c, simp only: add_addrs.simps rem_addrs.simps add_roles.simps rem_roles.simps, intro tripleI wpi tripleD [OF Cons.IH]) auto
qed

lemmas wp_lists [wpi] = tripleD [OF triple_add_addrs] tripleD [OF triple_rem_addrs] tripleD [OF triple_roles] tripleD [OF triple_rem_roles]

lemma ranges_le: "list_all (\<lambda>(a, b). b \<le> e) cs \<Longrightarrow> e \<le> n \<Longrightarrow> list_all (\<lambda>(a :: nat, b). b \<le> (n :: nat)) cs"
  by (auto simp: list_all_iff)

lemma triple_host_check: "q_e q \<le> length (xml q) \<Longrightarrow> triple J (epp_host_check W c q) (\<lambda>_. True)"
  by (rule tripleI, unfold epp_host_check_def, intro wpi) auto

lemma triple_host_create: "q_e q \<le> length (xml q) \<Longrightarrow> triple J (epp_host_create W c q) (\<lambda>_. True)"
  by (rule tripleI, unfold epp_host_create_def, intro wpi) (auto intro: ranges_le simp: str_def)

lemma triple_host_info: "q_e q \<le> length (xml q) \<Longrightarrow> triple J (epp_host_info W c q) (\<lambda>_. True)"
  by (rule tripleI, unfold epp_host_info_def, intro wpi) auto

lemma triple_host_add: "q_e q \<le> length (xml q) \<Longrightarrow> triple J (host_add q h) (\<lambda>_. True)"
  by (rule tripleI, unfold host_add_def, intro wpi) (auto intro: ranges_le simp: child_bounds_def)

lemma triple_host_rem: "q_e q \<le> length (xml q) \<Longrightarrow> triple J (host_rem q h) (\<lambda>_. True)"
  by (rule tripleI, unfold host_rem_def, intro wpi) (auto intro: ranges_le simp: child_bounds_def)

lemma triple_host_update: "q_e q \<le> length (xml q) \<Longrightarrow> triple J (epp_host_update W c q) (\<lambda>_. True)"
  by (rule tripleI, unfold epp_host_update_def, intro wpi tripleD [OF triple_host_add] tripleD [OF triple_host_rem]) auto

lemma triple_host_delete: "q_e q \<le> length (xml q) \<Longrightarrow> triple J (epp_host_delete W c q) (\<lambda>_. True)"
  by (rule tripleI, unfold epp_host_delete_def, intro wpi) auto

lemma triple_contact_check: "q_e q \<le> length (xml q) \<Longrightarrow> triple J (epp_contact_check W c q) (\<lambda>_. True)"
  by (rule tripleI, unfold epp_contact_check_def, intro wpi) auto

lemma triple_contact_create: "q_e q \<le> length (xml q) \<Longrightarrow> triple J (epp_contact_create W c q) (\<lambda>_. True)"
  by (rule tripleI, unfold epp_contact_create_def, intro wpi) (auto simp: str_def)

lemma triple_contact_info: "q_e q \<le> length (xml q) \<Longrightarrow> triple J (epp_contact_info W c q) (\<lambda>_. True)"
  by (rule tripleI, unfold epp_contact_info_def, intro wpi) auto

lemma triple_contact_chg: "q_e q \<le> length (xml q) \<Longrightarrow> contact_ok x \<Longrightarrow> triple J (contact_chg W q x) (\<lambda>_. True)"
  by (rule tripleI, unfold contact_chg_def, intro wpi) (auto simp: child_bounds_def contact_ok_def)

lemma triple_contact_update: "q_e q \<le> length (xml q) \<Longrightarrow> triple J (epp_contact_update W c q) (\<lambda>_. True)"
  by (rule tripleI, unfold epp_contact_update_def, intro wpi tripleD [OF triple_contact_chg]) (auto dest: reads_ok)

lemma triple_contact_delete: "q_e q \<le> length (xml q) \<Longrightarrow> triple J (epp_contact_delete W c q) (\<lambda>_. True)"
  by (rule tripleI, unfold epp_contact_delete_def, intro wpi) auto

lemma triple_org_check: "q_e q \<le> length (xml q) \<Longrightarrow> triple J (epp_org_check W c q) (\<lambda>_. True)"
  by (rule tripleI, unfold epp_org_check_def, intro wpi) auto

lemma triple_org_create: "q_e q \<le> length (xml q) \<Longrightarrow> triple J (epp_org_create W c q) (\<lambda>_. True)"
  by (rule tripleI, unfold epp_org_create_def, intro wpi) (auto simp: str_def intro: ranges_le)

lemma triple_org_info: "q_e q \<le> length (xml q) \<Longrightarrow> triple J (epp_org_info W c q) (\<lambda>_. True)"
  by (rule tripleI, unfold epp_org_info_def, intro wpi) auto

lemma triple_org_add: "q_e q \<le> length (xml q) \<Longrightarrow> org_texts g \<Longrightarrow> triple J (org_add q g) org_texts"
  by (rule tripleI, unfold org_add_def, intro wpi) (auto simp: child_bounds_def org_texts_def intro: ranges_le)

lemma triple_org_rem: "q_e q \<le> length (xml q) \<Longrightarrow> org_texts g \<Longrightarrow> triple J (org_rem q g) org_texts"
  by (rule tripleI, unfold org_rem_def, intro wpi) (auto simp: child_bounds_def org_texts_def intro: ranges_le)

lemma triple_org_chg: "q_e q \<le> length (xml q) \<Longrightarrow> org_texts g \<Longrightarrow> triple J (org_chg q g) (\<lambda>_. True)"
  by (rule tripleI, unfold org_chg_def, intro wpi) (auto simp: child_bounds_def org_texts_def)

lemma triple_org_update: "q_e q \<le> length (xml q) \<Longrightarrow> triple J (epp_org_update W c q) (\<lambda>_. True)"
  by (rule tripleI, unfold epp_org_update_def, intro wpi tripleD [OF triple_org_add] tripleD [OF triple_org_rem] tripleD [OF triple_org_chg])
    (auto dest!: reads_ok intro: org_texts_ok)

lemma triple_org_delete: "q_e q \<le> length (xml q) \<Longrightarrow> triple J (epp_org_delete W c q) (\<lambda>_. True)"
  by (rule tripleI, unfold epp_org_delete_def, intro wpi) auto

end

end
