(* ===== verification/EppGuard.thy ===== *)
theory EppGuard
  imports EppInv
begin

text \<open>
  What the commands on domains and the dispatch of a frame keep. The locale \<open>epp_inv\<close> adds to \<open>epp_base\<close> how a registrar may write a domain object:
  a new one, one of its own, or the transfer fields of any. Its lemmas follow the handlers up to a whole frame; the last section
  shows that memory safety, the objects of other registrars and well-formed objects are such invariants.
\<close>

section \<open>Commands on domains\<close>

locale epp_inv = epp_base W J for W :: "'s world" and J :: "'s \<Rightarrow> bool" +
  fixes who :: cstr
  assumes fresh: "J d \<Longrightarrow> J d' \<Longrightarrow> lossy W \<or> v_get W d' (domain_key n) = None \<Longrightarrow> domain_ok x \<Longrightarrow> length (tlv_enc (domain_items x)) < 4096 \<Longrightarrow>
      J (v_set W d (domain_key n) (blob_of (domain_items x)))"
    and own: "J d \<Longrightarrow> J d' \<Longrightarrow> reads W d' (domain_key n) epp_domain_decode 4096 y \<Longrightarrow> \<not> foreign (d_clid y) who \<Longrightarrow>
      J (v_del W d (domain_key n)) \<and>
      (\<forall>x. domain_ok x \<longrightarrow> length (tlv_enc (domain_items x)) < 4096 \<longrightarrow> J (v_set W d (domain_key n) (blob_of (domain_items x))))"
    and transfer: "J d \<Longrightarrow> J d' \<Longrightarrow> reads W d' (domain_key n) epp_domain_decode 4096 y \<Longrightarrow> domain_ok x \<Longrightarrow> transfer_only y x \<Longrightarrow>
      length (tlv_enc (domain_items x)) < 4096 \<Longrightarrow> J (v_set W d (domain_key n) (blob_of (domain_items x)))"
    and who_ok: "cfits 64 who"
begin

lemma triple_domain_check: "q_e q \<le> length (xml q) \<Longrightarrow> cmd_e q \<le> length (xml q) \<Longrightarrow> triple J (epp_domain_check W c q) (\<lambda>_. True)"
  by (rule tripleI, unfold epp_domain_check_def, intro wpi) (auto simp: cfits_def str_def)

lemma triple_host_part: "triple J (access host0 (tlv_part host_item t (length t) 1 host0)) (\<lambda>_. True)"
proof -
  obtain h where "tlv_part host_item t (length t) 1 host0 = Some h" using tlv_part_total [OF order_refl, of host_item t 1 host0] by blast
  then show ?thesis by (rule triple_access) simp
qed

lemma triple_host_attr: "e \<le> length x \<Longrightarrow> triple J (host_attr W x s e hn) (\<lambda>_. True)"
  by (rule tripleI, unfold host_attr_def epp_host_encode_def, intro wpi tripleD [OF put_other] tripleD [OF triple_host_part])
    (auto intro: ranges_le simp: str_def)

lemma triple_parse_ns_loop:
  "lim \<le> length x \<Longrightarrow> cfits_list 256 ns \<Longrightarrow> triple J (parse_ns_loop W x n pos lim ns) (\<lambda>r. \<forall>l. r = Some l \<longrightarrow> cfits_list 256 l)"
proof (induction n arbitrary: pos ns)
  case 0
  then show ?case by (intro tripleI, simp) (intro wpi, simp)
next
  case (Suc n)
  have l: "cfits_list 256 (ns @ [strlower t])" if "cfits 256 t" "length ns < EPP_MAX_ARR" for t
    using that Suc.prems by (simp add: cfits_list_def strlower_fits)
  show ?case using Suc.prems l
    by (simp only: parse_ns_loop.simps, intro tripleI wpi tripleD [OF Suc.IH] tripleD [OF triple_host_attr]) (auto simp: child_bounds_def)
qed

lemma triple_parse_ns:
  "e \<le> length x \<Longrightarrow> triple J (epp_domain_parse_ns W x s e) (\<lambda>r. \<forall>l. r = Some l \<longrightarrow> cfits_list 256 l)"
  by (rule tripleI, unfold epp_domain_parse_ns_def, intro wpi tripleD [OF triple_parse_ns_loop]) (auto simp: cfits_list_def child_bounds_def)

lemma triple_parse_ds_loop:
  "list_all (\<lambda>(a, b). b \<le> length x) cs \<Longrightarrow> ds_list ds \<Longrightarrow> triple J (parse_ds_loop x cs ds) ds_list"
proof (induction cs arbitrary: ds)
  case Nil
  then show ?case by (intro tripleI, simp) (intro wpi, simp)
next
  case (Cons c cs)
  show ?case using Cons.prems
    by (cases c, simp only: parse_ds_loop.simps, intro tripleI wpi tripleD [OF Cons.IH]) (auto simp: ds_list_def length_hex_dec)
qed

lemma triple_parse_ds: "e \<le> length x \<Longrightarrow> triple J (epp_parse_ds_block x s e) ds_list"
  by (rule tripleI, unfold epp_parse_ds_block_def, intro wpi tripleD [OF triple_parse_ds_loop])
    (auto simp: ds_list_def intro: ranges_le)

text \<open>The parts of an update of a domain keep it well-formed.\<close>

abbreviation dom_ok :: "epp_domain \<times> bool \<Rightarrow> bool" where
  "dom_ok r \<equiv> domain_ok (fst r)"

lemma triple_add_ns:
  "list_all (\<lambda>(a, b). b \<le> length x) cs \<Longrightarrow> dom_ok r \<Longrightarrow> triple J (add_ns W x cs r) dom_ok"
proof (induction cs arbitrary: r)
  case Nil
  then show ?case by (intro tripleI, simp) (intro wpi, simp)
next
  case (Cons c cs)
  have l: "domain_ok ((fst r)\<lparr>d_ns := d_ns (fst r) @ [strlower t]\<rparr>)" if "cfits 256 t" "length (d_ns (fst r)) < EPP_MAX_ARR" for t
    using that Cons.prems by (simp add: cfits_list_def domain_ok_def strlower_fits)
  show ?case using Cons.prems l
    by (cases c, simp only: add_ns.simps, intro tripleI wpi tripleD [OF Cons.IH]) auto
qed

lemma triple_rem_ns:
  "list_all (\<lambda>(a, b). b \<le> length x) cs \<Longrightarrow> dom_ok r \<Longrightarrow> triple J (rem_ns x cs r) dom_ok"
proof (induction cs arbitrary: r)
  case Nil
  then show ?case by (intro tripleI, simp) (intro wpi, simp)
next
  case (Cons c cs)
  have l: "domain_ok ((fst r)\<lparr>d_ns := filter P (d_ns (fst r))\<rparr>)" for P
    using Cons.prems by (simp add: domain_ok_def filter_ok)
  show ?case using Cons.prems l
    by (cases c, simp only: rem_ns.simps, intro tripleI wpi tripleD [OF Cons.IH]) auto
qed

lemma triple_domain_add: "q_e q \<le> length (xml q) \<Longrightarrow> dom_ok r \<Longrightarrow> triple J (domain_add W q r) dom_ok"
  by (rule tripleI, unfold domain_add_def, intro wpi tripleD [OF triple_add_ns])
    (auto simp: child_bounds_def domain_ok_def add_status_ok intro: ranges_le)

lemma triple_domain_rem: "q_e q \<le> length (xml q) \<Longrightarrow> dom_ok r \<Longrightarrow> triple J (domain_rem q r) dom_ok"
  by (rule tripleI, unfold domain_rem_def, intro wpi tripleD [OF triple_rem_ns])
    (auto simp: child_bounds_def domain_ok_def rem_all_ok intro: ranges_le)

lemma triple_domain_chg: "q_e q \<le> length (xml q) \<Longrightarrow> dom_ok r \<Longrightarrow> triple J (domain_chg W q r) dom_ok"
  by (rule tripleI, unfold domain_chg_def, intro wpi) (auto simp: child_bounds_def domain_ok_def)

lemma triple_ds_add: "e \<le> length x \<Longrightarrow> dom_ok r \<Longrightarrow> triple J (domain_ds_add x s e r) dom_ok"
  by (rule tripleI, unfold domain_ds_add_def, intro wpi tripleD [OF triple_parse_ds])
    (auto simp: child_bounds_def domain_ok_def ds_list_def list_all_iff dest: in_set_takeD)

lemma triple_ds_rem: "e \<le> length x \<Longrightarrow> dom_ok r \<Longrightarrow> triple J (domain_ds_rem x s e r) dom_ok"
  by (rule tripleI, unfold domain_ds_rem_def, intro wpi tripleD [OF triple_parse_ds]) (auto simp: child_bounds_def domain_ok_def rem_ds_ok)

lemma triple_domain_secdns: "cmd_e q \<le> length (xml q) \<Longrightarrow> dom_ok r \<Longrightarrow> triple J (domain_secdns q r) dom_ok"
  by (rule tripleI, unfold domain_secdns_def, intro wpi tripleD [OF triple_parse_ds] tripleD [OF triple_ds_add] tripleD [OF triple_ds_rem])
    (auto simp: child_bounds_def domain_ok_def)

lemma triple_domain_restore: "cmd_e q \<le> length (xml q) \<Longrightarrow> dom_ok r \<Longrightarrow> triple J (domain_restore q r) dom_ok"
  by (rule tripleI, unfold domain_restore_def, intro wpi) (auto simp: domain_ok_def split: option.splits)

lemma wp_stored_fresh:
  assumes "lossy W \<or> (\<exists>d'. J d' \<and> v_get W d' (domain_key n) = None)" "domain_ok x"
    "good J s" "\<And>s'. good J s' \<Longrightarrow> wp f Q s'" "\<And>r s'. good J s' \<Longrightarrow> Q r s'"
  shows "wp (stored W (domain_key n) (epp_domain_encode x) 4096 q f) Q s"
  using assms fresh by (intro wp_stored_domain) auto

lemma wp_stored_own:
  assumes "J d'" "reads W d' (domain_key n) epp_domain_decode 4096 y" "\<not> foreign (d_clid y) who" "domain_ok x"
    "good J s" "\<And>s'. good J s' \<Longrightarrow> wp f Q s'" "\<And>r s'. good J s' \<Longrightarrow> Q r s'"
  shows "wp (stored W (domain_key n) (epp_domain_encode x) 4096 q f) Q s"
  using assms own by (intro wp_stored_domain) auto

lemma wp_del_own:
  assumes "J d'" "reads W d' (domain_key n) epp_domain_decode 4096 y" "\<not> foreign (d_clid y) who"
    "good J s" "\<And>r s'. good J s' \<Longrightarrow> Q r s'"
  shows "wp (vk_del W (domain_key n)) Q s"
proof -
  have "triple J (vk_del W (domain_key n)) (\<lambda>_. True)"
    unfolding vk_del_def using own [OF _ assms(1-3)] by (intro triple_write) simp
  then show ?thesis using assms(4,5) by (auto intro: tripleD)
qed

lemma short_domain_key: "length (domain_key n) < 300"
  by (simp add: domain_key_def snp_def)

lemma suffix_text: "0 \<notin> set (str ''EPPD-D'')"
  by (simp add: str_def)

lemma ds_list_nil: "ds_list []"
  by (simp add: ds_list_def)

lemma new_domain_ok:
  assumes "cfits 256 au" "cfits 32 roid" "cfits 64 reg" "cfits_list 256 ns" "ds_list ds"
  shows "domain_ok (domain0\<lparr>d_clid := safe_strcpy [] who 64, d_authinfo := au, d_roid := roid, d_crdate := a, d_exdate := b, d_registrant := reg,
    d_ns := ns, d_ds := ds, d_status := [str ''ok''], d_rgp_state := EPP_RGP_ADD, d_rgp_until := u\<rparr>)"
proof -
  have "cfits_list 32 [str ''ok'']" by (simp add: cfits_list_def cfits_def str_def EPP_MAX_ARR_def)
  then show ?thesis using assms cfits_strcpy [OF who_ok] by (simp add: domain_ok_def domain0_def rgp_of_def)
qed

lemma triple_domain_create:
  "q_e q \<le> length (xml q) \<Longrightarrow> cmd_e q \<le> length (xml q) \<Longrightarrow> triple J (epp_domain_create W who q) (\<lambda>_. True)"
  by (rule tripleI, unfold epp_domain_create_def, intro wpi wp_stored_fresh tripleD [OF triple_parse_ns] tripleD [OF triple_parse_ds] tripleD [OF triple_fee_ext])
    (auto simp: suffix_text ds_list_nil intro!: new_domain_ok dest: less_trans [OF _ short_domain_key])

lemma triple_ext_xml: "triple J (ext_xml d) (\<lambda>_. True)"
  by (rule tripleI, unfold ext_xml_def, intro wpi tripleD [OF triple_fault]) auto

lemma triple_domain_info: "q_e q \<le> length (xml q) \<Longrightarrow> triple J (epp_domain_info W c q) (\<lambda>_. True)"
  by (rule tripleI, unfold epp_domain_info_def, intro wpi tripleD [OF triple_ext_xml]) auto

lemma triple_domain_update:
  "q_e q \<le> length (xml q) \<Longrightarrow> cmd_e q \<le> length (xml q) \<Longrightarrow> triple J (epp_domain_update W who q) (\<lambda>_. True)"
  by (rule tripleI, unfold epp_domain_update_def, intro wpi wp_stored_own tripleD [OF triple_domain_add] tripleD [OF triple_domain_rem]
      tripleD [OF triple_domain_chg] tripleD [OF triple_domain_secdns] tripleD [OF triple_domain_restore])
    (auto dest: reads_ok)

lemma rgp_domain_ok:
  "domain_ok d \<Longrightarrow> x \<in> {EPP_RGP_NONE, EPP_RGP_TRANSFER, EPP_RGP_REDEMPTION, EPP_RGP_AUTORENEW} \<Longrightarrow> domain_ok (d\<lparr>d_rgp_state := x, d_rgp_until := u\<rparr>)"
  by (auto simp: domain_ok_def rgp_of_def)

lemma triple_domain_delete: "q_e q \<le> length (xml q) \<Longrightarrow> triple J (epp_domain_delete W who q) (\<lambda>_. True)"
  by (rule tripleI, unfold epp_domain_delete_def, intro wpi wp_stored_own wp_del_own) (auto dest: reads_ok intro!: rgp_domain_ok)

lemma renewed_ok: "domain_ok d \<Longrightarrow> domain_ok (renewed y d)"
  by (simp add: domain_ok_def renewed_def)

lemma triple_domain_renew:
  "q_e q \<le> length (xml q) \<Longrightarrow> cmd_e q \<le> length (xml q) \<Longrightarrow> triple J (epp_domain_renew W who q) (\<lambda>_. True)"
  by (rule tripleI, unfold epp_domain_renew_def, intro wpi wp_stored_own tripleD [OF triple_fee_ext]) (auto dest: reads_ok intro: renewed_ok)

lemma triple_poll_count: "triple J (epp_poll_count W c) (\<lambda>_. True)"
  by (rule tripleI, unfold epp_poll_count_def, intro wpi) auto

lemma triple_poll_oldest: "triple J (epp_poll_oldest W c) (\<lambda>_. True)"
  by (rule tripleI, unfold epp_poll_oldest_def, intro wpi) auto

lemma triple_handle_poll: "triple J (epp_handle_poll W c op m q) (\<lambda>_. True)"
  by (rule tripleI, unfold epp_handle_poll_def, intro wpi tripleD [OF triple_poll_count] tripleD [OF triple_poll_oldest]) auto

lemma wp_stored_transfer:
  assumes "J d'" "reads W d' (domain_key n) epp_domain_decode 4096 y" "transfer_only y x \<or> \<not> foreign (d_clid y) who" "domain_ok x"
    "good J s" "\<And>s'. good J s' \<Longrightarrow> wp f Q s'" "\<And>r s'. good J s' \<Longrightarrow> Q r s'"
  shows "wp (stored W (domain_key n) (epp_domain_encode x) 4096 q f) Q s"
  using assms own transfer by (intro wp_stored_domain) auto

lemma transfer_status_ok:
  "cfits 24 (str ''pending'')" "cfits 24 (str ''clientCancelled'')" "cfits 24 (str ''clientRejected'')" "cfits 24 (str ''clientApproved'')"
  by (simp_all add: cfits_def str_def)

lemma triple_transfer_query: "triple J (transfer_query W c n d q) (\<lambda>_. True)"
  by (rule tripleI, unfold transfer_query_def, intro wpi) auto

lemma triple_transfer_request:
  assumes "e \<le> length (xml q)" "cmd_e q \<le> length (xml q)" "J d'" "reads W d' (domain_key n) epp_domain_decode 4096 d"
  shows "triple J (transfer_request W who n s e d q) (\<lambda>_. True)"
proof -
  have ok: "domain_ok (d\<lparr>d_transfer_reid := safe_strcpy [] who 64, d_transfer_redate := t, d_transfer_status := str ''pending''\<rparr>)" for t
    using reads_ok(1) [OF assms(4)] cfits_strcpy [OF who_ok] transfer_status_ok by (simp add: domain_ok_def)
  have tr: "transfer_only d (d\<lparr>d_transfer_reid := r, d_transfer_redate := t, d_transfer_status := p\<rparr>)" for r t p by (simp add: transfer_only_def)
  show ?thesis
    by (rule tripleI, unfold transfer_request_def, intro wpi wp_stored_transfer tripleD [OF triple_fee_ext])
      (use assms ok tr in \<open>auto simp: child_bounds_def\<close>)
qed

lemma triple_transfer_close:
  assumes "domain_ok d"
  shows "triple J (transfer_close W who op d) (\<lambda>r. \<forall>x. r = Some x \<longrightarrow> domain_ok x \<and> (transfer_only d x \<or> \<not> foreign (d_clid d) who))"
  by (rule tripleI, unfold transfer_close_def, intro wpi)
    (use assms in \<open>auto simp: domain_ok_def transfer_status_ok transfer_only_def foreign_def rgp_of_def\<close>)

lemma triple_transfer_answer:
  assumes "J d'" "reads W d' (domain_key n) epp_domain_decode 4096 d"
  shows "triple J (transfer_answer W who op n d q) (\<lambda>_. True)"
  by (rule tripleI, unfold transfer_answer_def, intro wpi wp_stored_transfer tripleD [OF triple_transfer_close]) (use assms in \<open>auto dest: reads_ok\<close>)

lemma triple_domain_transfer:
  "q_e q \<le> length (xml q) \<Longrightarrow> cmd_e q \<le> length (xml q) \<Longrightarrow> triple J (epp_domain_transfer W who op q) (\<lambda>_. True)"
  by (rule tripleI, unfold epp_domain_transfer_def,
      intro wpi tripleD [OF triple_transfer_query] tripleD [OF triple_transfer_request] tripleD [OF triple_transfer_answer])
    (auto simp: child_bounds_def)

lemma triple_handlers:
  assumes "(k, f) \<in> set (handlers W)" "q_e q \<le> length (xml q)" "cmd_e q \<le> length (xml q)"
  shows "triple J (f who q) (\<lambda>_. True)"
  using assms(1) unfolding handlers_def
  by (simp only: list.set insert_iff prod.inject empty_iff simp_thms, elim disjE conjE; hypsubst;
      intro assms(2,3) triple_domain_check triple_domain_create triple_domain_info triple_domain_update triple_domain_delete triple_domain_renew
        triple_host_check triple_host_create triple_host_info triple_host_update triple_host_delete
        triple_contact_check triple_contact_create triple_contact_info triple_contact_update triple_contact_delete
        triple_org_check triple_org_create triple_org_info triple_org_update triple_org_delete)

lemma triple_object_loop:
  "e \<le> length (xml q) \<Longrightarrow> cmd_e q \<le> length (xml q) \<Longrightarrow> triple J (object_loop W who q op s e objs) (\<lambda>_. True)"
proof (induction objs)
  case Nil
  show ?case by (auto intro: triple_weaken [OF triple_fail])
next
  case (Cons obj objs)
  have h: "triple J (f who (q\<lparr>q_s := a, q_e := b\<rparr>)) (\<lambda>_. True)" if "map_of (handlers W) (op, obj) = Some f" "b \<le> length (xml q)" for f a b
    by (rule triple_handlers [OF map_of_SomeD [OF that(1)]]) (use Cons.prems that(2) in simp_all)
  show ?case using Cons.prems
    by (simp only: object_loop.simps epp_handle_object_command_stub_def, intro tripleI wpi tripleD [OF Cons.IH] tripleD [OF h])
      (auto simp: child_bounds_def)
qed

lemma triple_command_loop: "cmd_e q \<le> length (xml q) \<Longrightarrow> triple J (command_loop W who q ops) (\<lambda>_. True)"
proof (induction ops)
  case Nil
  show ?case by (auto intro: triple_weaken [OF triple_fail])
next
  case (Cons op ops)
  show ?case using Cons.prems
    by (simp only: command_loop.simps, intro tripleI wpi tripleD [OF Cons.IH] tripleD [OF triple_object_loop]) (auto simp: child_bounds_def)
qed

lemma triple_run_command:
  assumes "cmd_e q \<le> length (xml q)" "logged_in sess" "clid sess = who"
  shows "triple J (epp_run_command W sess q) (\<lambda>_. True)"
  by (rule tripleI, unfold epp_run_command_def assms(3),
      intro wpi tripleD [OF triple_domain_transfer] tripleD [OF triple_handle_poll] tripleD [OF triple_command_loop])
    (use assms in \<open>auto simp: child_bounds_def\<close>)

lemma triple_logged_in_command:
  assumes "e \<le> length x" "logged_in sess" "clid sess = who"
  shows "triple J (epp_handle_command W sess x s e) (\<lambda>_. True)"
  by (rule tripleI, unfold epp_handle_command_def, intro wpi tripleD [OF triple_run_command]) (use assms in auto)

end

text \<open>Without a login every command is refused and nothing is written.\<close>

lemma triple_refused:
  assumes "e \<le> length x" "\<not> logged_in sess"
  shows "triple J (epp_handle_command W sess x s e) (\<lambda>r. fst r = 2201)"
proof -
  have r: "triple J (epp_run_command W sess q) (\<lambda>r. fst r = 2201)"
    if "has_child (xml q) (cmd_s q) (cmd_e q) ''transfer'' \<or> has_child (xml q) (cmd_s q) (cmd_e q) ''poll''" "cmd_e q \<le> length (xml q)" for q
    by (rule tripleI, unfold epp_run_command_def, intro wpi) (use assms that in \<open>auto simp: child_bounds_def\<close>)
  show ?thesis
    by (rule tripleI, unfold epp_handle_command_def, intro wpi tripleD [OF r]) (use assms in auto)
qed

section \<open>A frame\<close>

definition registrar_key :: "cstr \<Rightarrow> cstr" where
  "registrar_key c = snp 128 (str ''config:eppd_registrar_pw:'' @ c)"

text \<open>A login changes the session only if a password is configured for the registrar.\<close>

definition session_ok :: "epp_session \<Rightarrow> bool" where
  "session_ok sess \<longleftrightarrow> cfits 64 (clid sess)"

lemma triple_login:
  assumes "q_e q \<le> length (xml q)"
  shows "triple J (epp_handle_login W sess q) (\<lambda>r. fst r = sess \<or>
    logged_in (fst r) \<and> cfits 64 (clid (fst r)) \<and> (\<exists>d v. J d \<and> v_get W d (registrar_key (clid (fst r))) = Some v \<and> v \<noteq> []))"
proof -
  have v: "\<exists>d v. J d \<and> v_get W d k = Some v \<and> v \<noteq> []"
    if "r = None \<and> (lossy W \<or> 1000 < length k) \<or> (\<exists>d. J d \<and> r = map_option (take (256 - 1)) (v_get W d k))" "\<not> (r = None \<or> r = Some [] \<or> r \<noteq> Some p)"
    for r k p
    using that by (auto simp: eq_commute [of "Some _"])
  have c: "cfits 64 (safe_strcpy [] c 64)" "safe_strcpy [] c 64 = c" if "cfits 64 c" for c
    using that cfits_strcpy [OF that] by (auto simp: safe_strcpy_id cfits_def)
  show ?thesis
  proof (rule tripleI, unfold epp_handle_login_def registrar_key_def [symmetric], (intro wpi; assumption?), goal_cases)
    case (8 s r s' c ra s'a pw rb s'b rc s'c)
    have "cfits 64 c" using 8(3,4) by simp
    then show ?case using v [OF 8(9,10)] c [of c] 8(11) by simp
  qed (use assms in simp_all)
qed

context epp_inv
begin

lemma triple_dispatch:
  assumes "logged_in sess \<Longrightarrow> clid sess = who" "session_ok sess"
  shows "triple J (epp_dispatch W sess x) (\<lambda>r. session_ok (fst r))"
proof -
  have c: "triple J (epp_handle_command W sess x s e) (\<lambda>_. True)" if "e \<le> length x" for s e
  proof (cases "logged_in sess")
    case True
    then show ?thesis using triple_logged_in_command [OF that] assms(1) by blast
  next
    case False
    show ?thesis by (rule triple_weaken [OF triple_refused [OF that False]]) simp
  qed
  show ?thesis
    by (rule tripleI, unfold epp_dispatch_def, (intro wpi tripleD [OF c] tripleD [OF triple_login]; assumption?))
      (use assms(2) in \<open>auto simp: child_bounds_def session_ok_def cfits_def [of _ "[]"]\<close>)
qed

end

section \<open>What holds of every frame\<close>

lemma dom_key_domain [simp]: "dom_key (domain_key n)"
  by (simp add: dom_key_def domain_key_def snp_def str_def)

lemma decode_blob_of:
  assumes "domain_ok x" "length (tlv_enc (domain_items x)) < 4096"
  shows "decode_blob epp_domain_decode 4096 (take (VKC_BUF - 1) (blob_of (domain_items x))) = Some (Ok x)"
proof -
  define b where "b = 1 # tlv_enc (domain_items x)"
  have l: "length b \<le> 4096" using assms(2) by (simp add: b_def)
  then have "take (VKC_BUF - 1) (hex_enc b) = hex_enc b" by (simp add: VKC_BUF_def)
  then have h: "hex_dec (take (VKC_BUF - 1) (hex_enc b)) 4096 = b" using l by (simp add: hex_dec_enc)
  have "tlv_fold domain_item b (length b) 1 domain0 = Some (fold_res domain_item domain0 (domain_items x))"
    using dom.items_size [OF assms(1)] by (intro tlv_fold_enc) (auto simp: b_def)
  then show ?thesis using dom.items_read [OF assms(1)]
    unfolding decode_blob_def Let_def blob_of_def b_def [symmetric] h epp_domain_decode_def by simp
qed

lemma reads_set:
  assumes "valkey_ok W"
  shows "reads W (v_set W d k v) k' dcd cap x \<longleftrightarrow>
    (if k' = k then decode_blob dcd cap (take (VKC_BUF - 1) v) = Some (Ok x) else reads W d k' dcd cap x)"
  using assms by (simp add: reads_def valkey_ok_def)

lemma reads_del: "valkey_ok W \<Longrightarrow> k' \<noteq> k \<Longrightarrow> reads W (v_del W d k) k' dcd cap x \<longleftrightarrow> reads W d k' dcd cap x"
  by (simp add: reads_def valkey_ok_def)

lemma reads_incr: "valkey_ok W \<Longrightarrow> k' \<noteq> k \<Longrightarrow> reads W (v_incr W d k) k' dcd cap x \<longleftrightarrow> reads W d k' dcd cap x"
  by (simp add: reads_def valkey_ok_def)

lemma reads_unique: "reads W d k dcd cap x \<Longrightarrow> reads W d k dcd cap y \<Longrightarrow> x = y"
  by (auto simp: reads_def)

text \<open>No access outside of an array: every store is as good as another.\<close>

lemma safe_inv: "cfits 64 who \<Longrightarrow> epp_inv W (\<lambda>_. True) who"
  by unfold_locales auto

text \<open>Another registrar's domain stays as it is but for the data of a transfer.\<close>

lemma transfer_only_clid: "transfer_only a b \<Longrightarrow> d_clid b = d_clid a"
  unfolding transfer_only_def by (drule arg_cong [where f = d_clid]) simp

lemma transfer_only_trans: "transfer_only a b \<Longrightarrow> transfer_only b c \<Longrightarrow> transfer_only a c"
  unfolding transfer_only_def by (cases a; cases b; cases c) simp

lemma sponsor_inv:
  assumes W: "valkey_ok W" and "\<not> lossy W" and f: "foreign (d_clid d) who" and "cfits 64 who"
  shows "epp_inv W (\<lambda>s. \<exists>d'. reads W s (domain_key n) epp_domain_decode 4096 d' \<and> transfer_only d d') who"
proof (unfold_locales, goal_cases)
  case (1 k s v)
  then have "k \<noteq> domain_key n" by auto
  then show ?case using 1(2) by (simp add: reads_set [OF W] reads_del [OF W] reads_incr [OF W])
next
  case (2 s s' m x)
  then have "domain_key m \<noteq> domain_key n" using assms(2) by (auto simp: reads_def)
  then show ?case using 2(1) by (simp add: reads_set [OF W])
next
  case (3 s s' m y)
  then have "domain_key m \<noteq> domain_key n" using f transfer_only_clid reads_unique by metis
  then show ?case using 3(1) by (simp add: reads_set [OF W] reads_del [OF W])
next
  case (4 s s' m y x)
  show ?case
  proof (cases "domain_key m = domain_key n")
    case True
    then have "transfer_only d y" using 4(2,3) reads_unique by metis
    then have "transfer_only d x" using 4(5) by (rule transfer_only_trans)
    then show ?thesis using True decode_blob_of [OF 4(4,6)] by (simp add: reads_set [OF W])
  next
    case False
    then show ?thesis using 4(1) by (simp add: reads_set [OF W])
  qed
qed (rule assms(4))

text \<open>Every domain object in the store decodes.\<close>

definition domains_decode :: "'s world \<Rightarrow> 's \<Rightarrow> bool" where
  "domains_decode W s \<longleftrightarrow>
     (\<forall>n b. v_get W s (domain_key n) = Some b \<longrightarrow> (\<exists>d. decode_blob epp_domain_decode 4096 (take (VKC_BUF - 1) b) = Some (Ok d)))"

lemma decode_inv:
  assumes W: "valkey_ok W" and "cfits 64 who"
  shows "epp_inv W (domains_decode W) who"
proof -
  have o: "domains_decode W (v_set W s k v) \<and> domains_decode W (v_del W s k) \<and> domains_decode W (v_incr W s k)"
    if "\<not> dom_key k" "domains_decode W s" for k s v
  proof -
    have "domain_key n \<noteq> k" for n using that(1) by auto
    then show ?thesis using that(2) W unfolding domains_decode_def valkey_ok_def by simp
  qed
  have w: "domains_decode W (v_set W s (domain_key m) (blob_of (domain_items x)))"
    if "domains_decode W s" "domain_ok x" "length (tlv_enc (domain_items x)) < 4096" for s m x
    using that decode_blob_of [OF that(2,3)] W unfolding domains_decode_def valkey_ok_def by simp
  have d: "domains_decode W (v_del W s k)" if "domains_decode W s" for s k
    using that W unfolding domains_decode_def valkey_ok_def by simp
  show ?thesis using o w d assms(2) by unfold_locales blast+
qed

lemma dispatch_keeps:
  assumes "epp_inv W J (clid sess)" "J (db s)" "Wild \<notin> faults s" "session_ok sess" "run_state (epp_dispatch W sess x) s = (r, s')"
  shows "J (db s') \<and> Wild \<notin> faults s' \<and> session_ok (fst r)"
proof -
  have "triple J (epp_dispatch W sess x) (\<lambda>r. session_ok (fst r))" by (rule epp_inv.triple_dispatch [OF assms(1)]) (use assms(4) in auto)
  then have "wp (epp_dispatch W sess x) (\<lambda>r s'. good J s' \<and> session_ok (fst r)) s" using assms(2,3) by (simp add: triple_def good_def)
  then show ?thesis using assms(5) by (simp add: wp_def good_def)
qed

end
