(* ===== verification/EppLife.thy ===== *)
theory EppLife
  imports EppGuard
begin

text \<open>
  What happens to the registry over time (\<open>eppd.c\<close>): the background sweep of the grace periods, a connection from its greeting to its end,
  and the steps of the whole daemon.
\<close>

section \<open>The sweep of the grace periods\<close>

definition tick_rgp :: "'s world \<Rightarrow> u32 \<Rightarrow> epp_domain \<Rightarrow> ('s eppd, epp_domain \<times> bool) state" where
  "tick_rgp W now d =
     (if d_rgp_state d \<noteq> EPP_RGP_REDEMPTION \<and> now \<ge> d_exdate d then do {
        secs \<leftarrow> epp_cfg_secs W ''config:eppd_autorenew_grace_secs'' (45 * 86400);
        ret (d\<lparr>d_exdate := d_exdate d + YEAR, d_rgp_state := EPP_RGP_AUTORENEW, d_rgp_until := now + word_of_int secs\<rparr>, True) }
      else if d_rgp_state d \<in> {EPP_RGP_ADD, EPP_RGP_AUTORENEW, EPP_RGP_TRANSFER} \<and> now \<ge> d_rgp_until d then
        ret (d\<lparr>d_rgp_state := EPP_RGP_NONE, d_rgp_until := 0\<rparr>, True)
      else ret (d, False))"

definition tick_transfer :: "'s world \<Rightarrow> u32 \<Rightarrow> cstr \<Rightarrow> epp_domain \<times> bool \<Rightarrow> ('s eppd, epp_domain \<times> bool) state" where
  "tick_transfer W now name r =
     (if \<not> is_pending (fst r) then ret r
      else do {
        pending \<leftarrow> epp_cfg_secs W ''config:eppd_transfer_pending_secs'' (5 * 86400);
        if now - d_transfer_redate (fst r) > word_of_int pending then do {
          secs \<leftarrow> epp_cfg_secs W ''config:eppd_transfer_grace_secs'' (5 * 86400);
          let d = (fst r)\<lparr>d_transfer_status := str ''serverApproved'', d_clid := d_transfer_reid (fst r), d_exdate := d_exdate (fst r) + YEAR,
                    d_rgp_state := EPP_RGP_TRANSFER, d_rgp_until := now + word_of_int secs\<rparr>;
          let m = poll_msg (snp 256 (str ''Transfer of '' @ name @ str '': serverApproved (pending window elapsed)'')) name ''after'' ''transfer''
                    (str ''eppd'') (trn_data name d);
          epp_poll_enqueue W (d_clid (fst r)) m;
          epp_poll_enqueue W (d_clid d) m;
          ret (d, True) }
        else ret r })"

definition epp_rgp_tick_one :: "'s world \<Rightarrow> cstr \<Rightarrow> ('s eppd, unit) state" where
  "epp_rgp_tick_one W domkey = do {
     r \<leftarrow> get_obj W domkey epp_domain_decode 4096;
     case r of
       Missing \<Rightarrow> ret ()
     | Corrupt \<Rightarrow> ret ()
     | Have d \<Rightarrow> do {
         let name = drop 11 domkey;
         now \<leftarrow> time_u32 W;
         if d_rgp_state d = EPP_RGP_REDEMPTION \<and> now \<ge> d_rgp_until d then do {
           epp_poll_enqueue W (d_clid d)
             (poll_msg (str ''Domain purged: redemptionPeriod elapsed'') name ''after'' ''delete'' (str ''eppd'') []);
           _ \<leftarrow> vk_del W domkey;
           ret () }
         else do {
           r \<leftarrow> tick_rgp W now d;
           r \<leftarrow> tick_transfer W now name r;
           if snd r then do { _ \<leftarrow> put_obj W domkey (epp_domain_encode (fst r)) 4096; ret () }
           else ret () } } }"

fun tick_all :: "'s world \<Rightarrow> cstr list \<Rightarrow> ('s eppd, unit) state" where
  "tick_all W [] = ret ()"
| "tick_all W (k # ks) = do { epp_rgp_tick_one W k; tick_all W ks }"

definition epp_rgp_tick_scan :: "'s world \<Rightarrow> ('s eppd, unit) state" where
  "epp_rgp_tick_scan W = do {
     r \<leftarrow> vk_list_keys W (str ''epp:domain:*'') 512;
     tick_all W (case r of Err \<Rightarrow> [] | Ok ks \<Rightarrow> ks) }"

section \<open>A connection\<close>

text \<open>The payloads of the frames until the connection is closed, a frame is bad, or a frame is empty.\<close>

partial_function (option) session_frames :: "bytes \<Rightarrow> bytes list \<Rightarrow> bytes list option" where
  "session_frames acc q = do {
     r \<leftarrow> epp_read_frame acc q (EPP_MAX_FRAME + 1);
     case r of (res, acc', q') \<Rightarrow>
       (case res of
          Err \<Rightarrow> Some []
        | Ok x \<Rightarrow> if x = [] then Some [] else do { fs \<leftarrow> session_frames acc' q'; Some (x # fs) }) }"

text \<open>
  The loop over them. \<open>caps\<close> are the bytes that the calls of \<open>SSL_write\<close> take for each response; the result is what goes out, frame by frame.
\<close>

fun serve :: "'s world \<Rightarrow> (nat \<Rightarrow> nat list) \<Rightarrow> nat \<Rightarrow> epp_session \<Rightarrow> bytes list \<Rightarrow> ('s eppd, bytes list) state" where
  "serve W caps i sess [] = ret []"
| "serve W caps i sess (x # xs) = do {
     r \<leftarrow> epp_dispatch W sess x;
     case snd (snd r) of
       None \<Rightarrow> ret []
     | Some resp \<Rightarrow>
         if length resp \<ge> 8192 then ret []
         else let w = epp_write_frame (caps i) resp in
           if snd w = Err then ret [fst w]
           else if fst (snd r) then ret [fst w]
           else do { out \<leftarrow> serve W caps (i + 1) (fst r) xs; ret (fst w # out) } }"

definition handle_session :: "'s world \<Rightarrow> (nat \<Rightarrow> nat list) \<Rightarrow> bytes list \<Rightarrow> ('s eppd, bytes list) state" where
  "handle_session W caps q = do {
     g \<leftarrow> epp_build_greeting W;
     let w = epp_write_frame (caps 0) g;
     if length g \<ge> 8192 then ret []
     else if snd w = Err then ret [fst w]
     else do {
       fs \<leftarrow> access [] (session_frames [] q);
       out \<leftarrow> serve W caps 1 session0 fs;
       ret (fst w # out) } }"

section \<open>The daemon\<close>

text \<open>A frame of a connection, a new connection, or one domain of a sweep.\<close>

inductive epp_step :: "'s world \<Rightarrow> 's eppd \<times> (nat \<Rightarrow> epp_session) \<Rightarrow> 's eppd \<times> (nat \<Rightarrow> epp_session) \<Rightarrow> bool" for W where
  connect: "epp_step W (s, c) (s, c(i := session0))"
| frame: "run_state (epp_dispatch W (c i) x) s = (r, s') \<Longrightarrow> epp_step W (s, c) (s', c(i := fst r))"
| tick: "run_state (epp_rgp_tick_one W (domain_key n)) s = (u, s') \<Longrightarrow> epp_step W (s, c) (s', c)"

inductive_cases epp_step_cases: "epp_step W (s, c) (s', c')"

section \<open>What the sweep keeps\<close>

context epp_base
begin

lemma triple_tick_rgp: "domain_ok d \<Longrightarrow> triple J (tick_rgp W now d) (\<lambda>r. domain_ok (fst r))"
  by (rule tripleI, unfold tick_rgp_def, (intro wpi; assumption?)) (auto simp: domain_ok_def rgp_of_def)

lemma triple_tick_transfer: "domain_ok (fst r) \<Longrightarrow> triple J (tick_transfer W now name r) (\<lambda>r. domain_ok (fst r))"
proof -
  assume ok: "domain_ok (fst r)"
  have "domain_ok ((fst r)\<lparr>d_transfer_status := str ''serverApproved'', d_clid := d_transfer_reid (fst r), d_exdate := e,
      d_rgp_state := EPP_RGP_TRANSFER, d_rgp_until := u\<rparr>)" for e u
    using ok by (simp add: domain_ok_def rgp_of_def cfits_def str_def)
  then show ?thesis
    by (intro tripleI, unfold tick_transfer_def, (intro wpi; assumption?)) (use ok in auto)
qed

lemma triple_tick_one:
  assumes "\<And>d x. J d \<Longrightarrow> domain_ok x \<Longrightarrow> length (tlv_enc (domain_items x)) < 4096 \<Longrightarrow> J (v_set W d k (blob_of (domain_items x)))"
    "\<And>d. J d \<Longrightarrow> J (v_del W d k)"
  shows "triple J (epp_rgp_tick_one W k) (\<lambda>_. True)"
proof -
  have p: "triple J (put_obj W k (epp_domain_encode x) 4096) (\<lambda>_. True)" if "domain_ok x" for x
    unfolding epp_domain_encode_def by (rule triple_put_obj) (use assms(1) that in auto)
  have d: "triple J (vk_del W k) (\<lambda>_. True)" unfolding vk_del_def by (rule triple_write) (use assms(2) in auto)
  show ?thesis
    by (rule tripleI, unfold epp_rgp_tick_one_def,
        (intro wpi tripleD [OF p] tripleD [OF d] tripleD [OF triple_tick_rgp] tripleD [OF triple_tick_transfer]; assumption?))
      (auto dest: reads_ok)
qed

end

section \<open>Frames of a connection\<close>

lemma epp_frame_next_total:
  assumes "length acc \<le> ACC_CAP"
  shows "\<exists>r. epp_frame_next acc = Some r \<and> (\<forall>a l n. r = Frame a l n \<longrightarrow> a = 4 \<and> n = l + 4 \<and> n \<le> length acc)"
proof (cases "length acc < 4")
  case True
  then show ?thesis by (simp add: epp_frame_next_def)
next
  case False
  then have "rd8 acc i = Some (acc ! i)" if "i < 4" for i using that by (intro rd8_ok) simp
  then obtain t where t: "get32 acc 0 = Some t" by (auto simp: get32_def)
  have u: "unat (of_nat (length acc) :: u32) = length acc"
    using assms by (intro unat_of_nat_u32) (simp add: ACC_CAP_def EPP_MAX_FRAME_def)
  have "4 \<le> unat t" if "\<not> t < 4" using that by (simp add: word_less_nat_alt)
  then show ?thesis using False t u by (auto simp: epp_frame_next_def word_less_nat_alt [of "of_nat (length acc)"])
qed

lemma epp_read_frame_total:
  assumes "length acc \<le> ACC_CAP"
  shows "\<exists>res acc' q'. epp_read_frame acc q cap = Some (res, acc', q') \<and> length acc' \<le> ACC_CAP \<and>
    (\<forall>x. res = Ok x \<longrightarrow> x \<noteq> [] \<longrightarrow> length acc' + length (concat q') < length acc + length (concat q))"
  using assms
proof (induction acc q cap rule: epp_read_frame.induct)
  case (1 acc q cap)
  obtain r where r: "epp_frame_next acc = Some r" "\<forall>a l n. r = Frame a l n \<longrightarrow> a = 4 \<and> n = l + 4 \<and> n \<le> length acc"
    using epp_frame_next_total [OF 1(2)] by blast
  show ?case
  proof (cases r)
    case Bad
    then show ?thesis using r(1) 1(2) by (simp add: epp_read_frame.simps [of acc q])
  next
    case (Frame a l n)
    then show ?thesis using r 1(2) by (auto simp: epp_read_frame.simps [of acc q] rdn_ok)
  next
    case More
    show ?thesis
    proof (cases "length acc < ACC_CAP \<and> recv (ACC_CAP - length acc) q \<noteq> None")
      case False
      then show ?thesis using r(1) More 1(2)
        by (cases "recv (ACC_CAP - length acc) q") (auto simp: epp_read_frame.simps [of acc q] not_less)
    next
      case True
      then obtain got q' where g: "recv (ACC_CAP - length acc) q = Some (got, q')" by auto
      then have l: "length got \<le> ACC_CAP - length acc" "length got + length (concat q') = length (concat q)"
        by (auto simp: recv_def split: list.splits if_splits)
      have "\<not> ACC_CAP \<le> length acc" using True by simp
      moreover have "length (acc @ got) \<le> ACC_CAP" using l(1) conjunct1 [OF True] by simp
      ultimately show ?thesis using r(1) More g 1(1) [OF r(1) More _ g refl] l(2)
        by (simp add: epp_read_frame.simps [of acc q] add.assoc)
    qed
  qed
qed

lemma session_frames_total:
  assumes "length acc \<le> ACC_CAP"
  shows "\<exists>fs. session_frames acc q = Some fs"
  using assms
proof (induction "length acc + length (concat q)" arbitrary: acc q rule: less_induct)
  case less
  obtain res acc' q' where r: "epp_read_frame acc q (EPP_MAX_FRAME + 1) = Some (res, acc', q')" "length acc' \<le> ACC_CAP"
    "\<forall>x. res = Ok x \<longrightarrow> x \<noteq> [] \<longrightarrow> length acc' + length (concat q') < length acc + length (concat q)"
    using epp_read_frame_total [OF less.prems] by metis
  show ?case
  proof (cases "\<exists>x. res = Ok x \<and> x \<noteq> []")
    case True
    then obtain fs where "session_frames acc' q' = Some fs" using less r by blast
    then show ?thesis using True r(1) by (auto simp: session_frames.simps [of acc q])
  next
    case False
    then show ?thesis using r(1) by (cases res) (auto simp: session_frames.simps [of acc q])
  qed
qed

end
