(* ===== verification/EppProps.thy ===== *)
theory EppProps
  imports EppLife "HOL-Library.AList"
begin

text \<open>
  What holds of the registry daemon (\<open>eppd.c\<close>): of a frame, of a connection, of the sweep of the grace periods, and of every state it
  reaches. The invariants of the two locales before are used at the conditions of memory safety, of the sponsor of a domain and of
  well-formed objects. The witnesses run on a small store that is an association list.
\<close>


section \<open>Sessions\<close>

text \<open>The invariant of memory safety holds of every store; the registrar is the one of the session, a text of an array of 64 characters.\<close>

interpretation safe: epp_inv W "\<lambda>_. True" "cstr_of (take 63 c)" for W :: "'s world" and c
  by unfold_locales (auto simp: cfits_def cstr_of_no_nul intro: le_less_trans [OF length_cstr_of])

lemma session_clid: "session_ok sess \<Longrightarrow> cstr_of (take 63 (clid sess)) = clid sess"
  by (simp add: session_ok_def cfits_def cstr_of_id)

lemma triple_dispatch_safe: "session_ok sess \<Longrightarrow> triple (\<lambda>_. True) (epp_dispatch W sess x) (\<lambda>r. session_ok (fst r))"
  using safe.triple_dispatch [of sess "clid sess" W x] by (simp add: session_clid)

lemma triple_serve: "session_ok sess \<Longrightarrow> triple (\<lambda>_. True) (serve W caps i sess fs) (\<lambda>_. True)"
proof (induction fs arbitrary: i sess)
  case Nil
  show ?case by (rule tripleI, simp) (intro wpi, simp)
next
  case (Cons x fs)
  show ?case
    by (rule tripleI, simp only: serve.simps Let_def, (intro wpi tripleD [OF triple_dispatch_safe] tripleD [OF Cons.IH]; assumption?))
      (use Cons.prems in auto)
qed

lemma triple_session: "triple (\<lambda>_. True) (handle_session W caps q) (\<lambda>_. True)"
proof -
  obtain fs where fs: "session_frames [] q = Some fs" using session_frames_total [of "[]"] by auto
  have s: "session_ok session0" by (simp add: session_ok_def session0_def cfits_def)
  show ?thesis
    by (rule tripleI, unfold handle_session_def Let_def fs,
        (intro wpi tripleD [OF triple_serve [OF s]] tripleD [OF triple_access [of _ fs "\<lambda>_. True"]]; assumption?)) auto
qed

lemma pieces_nil: "pieces q \<Longrightarrow> concat q = [] \<Longrightarrow> q = []"
  by (cases q) (auto simp: pieces_def)

lemma session_frames_stream:
  assumes "pieces q" "acc @ concat q = concat (map epp_frame xs)" "length acc \<le> ACC_CAP" "list_all (\<lambda>x. x \<noteq> [] \<and> length x \<le> EPP_MAX_FRAME) xs"
  shows "session_frames acc q = Some xs"
  using assms
proof (induction xs arbitrary: acc q)
  case Nil
  then have "acc = []" "q = []" using pieces_nil by auto
  then show ?case by (simp add: session_frames.simps [of "[]"] epp_read_close)
next
  case (Cons x xs)
  obtain acc' q' where r: "epp_read_frame acc q (EPP_MAX_FRAME + 1) = Some (Ok x, acc', q')" "acc' @ concat q' = concat (map epp_frame xs)"
    "length acc' \<le> ACC_CAP" "pieces q'"
    using epp_read_frame_ok [of acc q x "concat (map epp_frame xs)"] Cons.prems by auto
  then have "session_frames acc' q' = Some xs" using Cons by auto
  then show ?case using r(1) Cons.prems by (simp add: session_frames.simps [of acc])
qed

section \<open>A small world\<close>

text \<open>An association list as the store; a scan finds the keys with the prefix in front of the star.\<close>

definition demo_world :: "(cstr \<times> cstr) list world" where
  "demo_world = \<lparr>v_get = map_of, v_set = (\<lambda>s k v. AList.update k v s), v_del = (\<lambda>s k. AList.delete k s),
     v_incr = (\<lambda>s k. AList.update k (dec (case map_of s k of None \<Rightarrow> 1 | Some v \<Rightarrow> nat (atoi v + 1))) s),
     v_keys = (\<lambda>s p. filter (\<lambda>k. take (length p - 1) k = butlast p) (map fst s)),
     net = (\<lambda>_. Up), clock = (\<lambda>_. 1700000000), entropy = (\<lambda>_. 7), getpid = 42\<rparr>"

definition demo_state :: "(cstr \<times> cstr) list \<Rightarrow> (cstr \<times> cstr) list eppd" where
  "demo_state s = \<lparr>db = s, trips = 0, times = 0, draws = 0, g_svtrid_counter = 0, g_roid_counter = 0, faults = {}\<rparr>"

lemma demo_ok: "valkey_ok demo_world" "\<not> lossy demo_world"
  by (simp_all add: valkey_ok_def lossy_def demo_world_def update_conv' delete_conv')

lemma demo_state_simps [simp]: "db (demo_state s) = s" "faults (demo_state s) = {}" "times (demo_state s) = 0"
  by (simp_all add: demo_state_def)

section \<open>Whatever a client sends\<close>

text \<open>
  C8: No client can make the daemon access memory outside of an array by what it sends, with two exceptions that are findings: the
  terminating byte of a hexadecimal text of the largest size and the text of the extensions of an \<open>info\<close> response. A connection runs to its
  end for every sequence of octets, split into TLS records in every way, for every store, every loss of answers of the server and
  every number of octets that each \<open>SSL_write\<close> takes.
\<close>

theorem epp_session_safe:
  assumes "faults s = {}"
  shows "faults (snd (run_state (handle_session W caps q) s)) \<subseteq> {HexEnd, ExtEnd}"
proof -
  have "wp (handle_session W caps q) (\<lambda>_ s'. good (\<lambda>_. True) s') s"
    using triple_session [of W caps q] assms by (simp add: triple_def good_def)
  then have "Wild \<notin> faults (snd (run_state (handle_session W caps q) s))" by (simp add: wp_def good_def split_def)
  then show ?thesis using fault.exhaust by blast
qed

lemma epp_session_safe_witness:
  "faults (snd (run_state (handle_session demo_world (\<lambda>_. [1000]) [[0, 0, 0, 7, 60], [33, 62]]) (demo_state []))) \<subseteq> {HexEnd, ExtEnd}"
  by (rule epp_session_safe) simp

text \<open>
  C23: The way TLS cuts the octets of a connection into records does not matter: if the records together are the frames of the client's
  commands, the loop over the connection sees exactly these commands in this order, and the whole connection is the one in which every
  frame comes in a record of its own.
\<close>

theorem epp_session_stream:
  assumes "pieces q" "concat q = concat (map epp_frame xs)" "list_all (\<lambda>x. x \<noteq> [] \<and> length x \<le> EPP_MAX_FRAME) xs"
  shows "session_frames [] q = Some xs \<and> handle_session W caps q = handle_session W caps (map epp_frame xs)"
proof -
  have "pieces (map epp_frame xs)" by (simp add: pieces_def epp_frame_def be32_def)
  then have f: "session_frames [] q = Some xs" "session_frames [] (map epp_frame xs) = Some xs"
    using assms by (intro session_frames_stream; simp)+
  show ?thesis unfolding handle_session_def f by simp
qed

lemma epp_session_stream_witness:
  "session_frames [] [[0, 0, 0], [6, 60, 62, 0, 0, 0, 5], [33]] = Some [[60, 62], [33]]"
proof -
  have "be32 6 = [0, 0, 0, 6]" "be32 5 = [0, 0, 0, 5]" by (code_simp; simp)+
  then show ?thesis
    using epp_session_stream [of "[[0, 0, 0], [6, 60, 62, 0, 0, 0, 5], [33]]" "[[60, 62], [33]]" demo_world "\<lambda>_. []"]
    by (simp add: pieces_def epp_frame_def EPP_MAX_FRAME_def)
qed

section \<open>Registrars\<close>

text \<open>The text of a child of the range of a frame, as an array of \<open>cap\<close> characters gets it.\<close>

definition frame_text :: "bytes \<Rightarrow> nat \<Rightarrow> nat \<Rightarrow> string \<Rightarrow> nat \<Rightarrow> cstr \<Rightarrow> bool" where
  "frame_text x s e tag cap v \<longleftrightarrow> (\<exists>cs ce np out n. xml_find_child x s e (str tag) = Some (Found (cs, ce, np)) \<and>
     xml_text_decode x cs ce (replicate cap 0) cap = Some (out, Ok n) \<and> v = cstr_of out)"

lemma triple_frame_text:
  assumes "e \<le> length x" "0 < cap"
  shows "triple J (get_text x s e tag cap) (\<lambda>r. \<forall>v. r = Some v \<longrightarrow> cfits cap v \<and> frame_text x s e tag cap v)"
proof -
  have c: "triple J (child x s e tag) (\<lambda>r. \<forall>y. r = Some y \<longrightarrow> child_bounds s e y \<and> xml_find_child x s e (str tag) = Some (Found y))"
  proof -
    obtain r where r: "xml_find_child x s e (str tag) = Some r" "\<forall>y. r = Found y \<longrightarrow> child_bounds s e y"
      using xml_find_child_ok [OF assms(1)] by blast
    show ?thesis by (rule tripleI, unfold child_def, rule wp_bind, rule tripleD [OF triple_access [of _ r "\<lambda>v. v = r"]])
        (use r in \<open>auto intro!: wpi split: found.splits\<close>)
  qed
  have t: "triple J (text_of x a b cap []) (\<lambda>t. cfits cap (fst t) \<and>
      (snd t \<longrightarrow> (\<exists>out n. xml_text_decode x a b (replicate cap 0) cap = Some (out, Ok n) \<and> fst t = cstr_of out)))" if b: "b \<le> length x" for a b
  proof -
    obtain out r where r: "xml_text_decode x a b (replicate cap 0) cap = Some (out, r)"
      using xml_text_decode_ok [OF b, of "replicate cap 0" cap a] assms(2) by auto
    have "triple J (text_of x a b cap []) (\<lambda>t. snd t \<longrightarrow> (\<exists>out n. xml_text_decode x a b (replicate cap 0) cap = Some (out, Ok n) \<and> fst t = cstr_of out))"
      by (rule tripleI, unfold text_of_def, rule wp_bind, rule tripleD [OF triple_access [of _ "(out, r)" "\<lambda>v. v = (out, r)"]])
        (use r in \<open>auto intro!: wpi split: cres.splits\<close>, cases r, auto)
    then show ?thesis using triple_text_of [OF b, of "[]" cap J a] assms(2) by (auto simp: triple_def wp_def split: prod.splits)
  qed
  show ?thesis
    by (rule tripleI, unfold get_text_def, (intro tripleD [OF c] tripleD [OF t] wp_bind wp_option wp_prod wp_ret; assumption?))
      (use assms in \<open>auto simp: child_bounds_def frame_text_def split: if_splits\<close>)
qed


lemma triple_login_text:
  assumes "q_e q \<le> length (xml q)"
  shows "triple J (epp_handle_login W sess q) (\<lambda>r. fst r = sess \<or>
    (\<exists>d v. J d \<and> v_get W d (registrar_key (clid (fst r))) = Some v \<and> v \<noteq> [] \<and>
       frame_text (xml q) (q_s q) (q_e q) ''clID'' 64 (clid (fst r)) \<and> frame_text (xml q) (q_s q) (q_e q) ''pw'' 256 (take 255 v)))"
proof -
  have v: "\<exists>d v. J d \<and> v_get W d k = Some v \<and> v \<noteq> [] \<and> p = take 255 v"
    if r: "r = None \<and> (lossy W \<or> 1000 < length k) \<or> (\<exists>d. J d \<and> r = map_option (take (256 - 1)) (v_get W d k))" "\<not> (r = None \<or> r = Some [] \<or> r \<noteq> Some p)"
    for r k p
  proof -
    obtain d where "J d" "Some p = map_option (take 255) (v_get W d k)" "p \<noteq> []" using r by auto
    then show ?thesis by (cases "v_get W d k") auto
  qed
  have c: "safe_strcpy [] c 64 = c" if "cfits 64 c" for c
    using that by (simp add: safe_strcpy_id cfits_def)
  have t: "triple J (req_text (xml q) (q_s q) (q_e q) ''clID'' 64)
      (\<lambda>r. \<forall>c. r = Some c \<longrightarrow> cfits 64 c \<and> frame_text (xml q) (q_s q) (q_e q) ''clID'' 64 c)"
    by (rule tripleI, unfold req_text_def, (intro tripleD [OF triple_frame_text] wp_bind wp_ret; assumption?)) 
      (use assms in \<open>auto split: option.splits if_splits\<close>)
  show ?thesis
  proof (rule tripleI, unfold epp_handle_login_def registrar_key_def [symmetric],
      (intro tripleD [OF t] tripleD [OF triple_frame_text] wpi; assumption?), goal_cases)
    case (6 s r s' c ra s'a pw rb s'b rc s'c)
    have k: "cfits 64 c" "frame_text (xml q) (q_s q) (q_e q) ''clID'' 64 c" "frame_text (xml q) (q_s q) (q_e q) ''pw'' 256 pw" using 6(3,4,6,7) by auto
    show ?case using v [OF 6(9,10)] k 6(11) unfolding c [OF k(1)] by auto
  qed (use assms in \<open>simp_all\<close>)
qed

text \<open>
  C12: While a connection has not logged in, no frame it sends changes the store in any way, whatever the frame is and whatever happens on the
  way to the server; and it becomes logged in only as a registrar for whom the store holds a password that is not empty, by an element of the frame
  with the name of the registrar and the first 255 characters of the password.
\<close>

theorem epp_login_required:
  assumes "\<not> logged_in sess" "Wild \<notin> faults s" "run_state (epp_dispatch W sess x) s = (r, s')"
  shows "db s' = db s \<and> (logged_in (fst r) \<longrightarrow> (\<exists>pw a b. v_get W (db s) (registrar_key (clid (fst r))) = Some pw \<and> pw \<noteq> [] \<and>
    frame_text x a b ''clID'' 64 (clid (fst r)) \<and> frame_text x a b ''pw'' 256 (take 255 pw)))"
proof -
  let ?J = "\<lambda>d. d = db s"
  let ?P = "\<lambda>r. logged_in (fst r) \<longrightarrow> (\<exists>pw a b. v_get W (db s) (registrar_key (clid (fst r))) = Some pw \<and> pw \<noteq> [] \<and>
    frame_text x a b ''clID'' 64 (clid (fst r)) \<and> frame_text x a b ''pw'' 256 (take 255 pw))"
  have "triple ?J (epp_dispatch W sess x) ?P"
    by (rule tripleI, unfold epp_dispatch_def, (intro wpi tripleD [OF triple_refused] tripleD [OF triple_login_text]; assumption?))
      (use assms(1) in \<open>auto simp: child_bounds_def cfits_def [of _ "[]"]\<close>)
  then have "wp (epp_dispatch W sess x) (\<lambda>r s'. good ?J s' \<and> ?P r) s" using assms(2) by (simp add: triple_def good_def)
  then show ?thesis using assms(3) by (simp add: wp_def good_def)
qed

lemma epp_login_required_witness:
  "db (snd (run_state (epp_dispatch demo_world session0 (str ''<epp><command><login><clID>a</clID><pw>b</pw></login></command></epp>''))
     (demo_state [(registrar_key (str ''a''), str ''c'')]))) = [(registrar_key (str ''a''), str ''c'')]"
proof -
  let ?m = "run_state (epp_dispatch demo_world session0 (str ''<epp><command><login><clID>a</clID><pw>b</pw></login></command></epp>''))
     (demo_state [(registrar_key (str ''a''), str ''c'')])"
  show ?thesis using epp_login_required [of session0 "demo_state _" _ _ "fst ?m" "snd ?m"] by (simp add: session0_def)
qed

text \<open>
  C5: A registrar never changes the domain of another registrar. Whatever frame a connection that is logged in as \<open>who\<close> sends, a domain whose
  sponsor is somebody else is still in the store behind it, and is as it was but for the three fields in which a request for a transfer is
  noted: its name servers, contacts, keys, dates, states, password and sponsor are the same. The assumption is that
  the server answers every command; see the findings for what happens otherwise.
\<close>

theorem epp_sponsor_only:
  assumes "valkey_ok W" "\<not> lossy W" "session_ok sess" "Wild \<notin> faults s"
    and "reads W (db s) (domain_key n) epp_domain_decode 4096 d" "foreign (d_clid d) (clid sess)"
    and "run_state (epp_dispatch W sess x) s = (r, s')"
  shows "\<exists>d'. reads W (db s') (domain_key n) epp_domain_decode 4096 d' \<and> transfer_only d d'"
proof -
  have "transfer_only d d" by (simp add: transfer_only_def)
  then show ?thesis
    using dispatch_keeps [OF sponsor_inv [OF assms(1,2,6), of n] _ assms(4,3,7)] assms(3,5) by (auto simp: session_ok_def)
qed

section \<open>Every reachable state\<close>

lemma tick_decodes: "valkey_ok W \<Longrightarrow> triple (domains_decode W) (epp_rgp_tick_one W (domain_key n)) (\<lambda>_. True)"
proof -
  assume W: "valkey_ok W"
  note i = decode_inv [OF W, of "[]"]
  have "epp_inv W (domains_decode W) []" by (rule i) (simp add: cfits_def)
  then have b: "epp_base W (domains_decode W)" by (simp add: epp_inv_def)
  show ?thesis
  proof (rule epp_base.triple_tick_one [OF b])
    show "domains_decode W (v_set W d (domain_key n) (blob_of (domain_items x)))"
      if "domains_decode W d" "domain_ok x" "length (tlv_enc (domain_items x)) < 4096" for d x
      using that decode_blob_of [OF that(2,3)] W unfolding domains_decode_def valkey_ok_def by simp
    show "domains_decode W (v_del W d (domain_key n))" if "domains_decode W d" for d
      using that W unfolding domains_decode_def valkey_ok_def by simp
  qed
qed

text \<open>
  C9: In every state that the daemon reaches, by frames on any number of connections in any order, new connections and the sweep, with the
  store answering or not, every domain object in the store decodes, no access was outside of an array but for the two findings, and the
  registrar of every connection fits its array.
\<close>

theorem epp_reachable_ok:
  assumes "(epp_step W)\<^sup>*\<^sup>* (s, c) (s', c')" "valkey_ok W" "faults s = {}" "domains_decode W (db s)" "\<forall>i. session_ok (c i)"
  shows "domains_decode W (db s') \<and> faults s' \<subseteq> {HexEnd, ExtEnd} \<and> (\<forall>i. session_ok (c' i))"
proof -
  have "Wild \<notin> faults s' \<and> domains_decode W (db s') \<and> (\<forall>i. session_ok (c' i))"
    using assms(1)
  proof (induction rule: rtranclp_induct2)
    case refl
    show ?case using assms by simp
  next
    case (step s1 c1 s2 c2)
    show ?case
    proof (rule epp_step_cases [OF step.hyps(2)], goal_cases)
      case (1 i)
      then show ?case using step.IH by (simp add: session_ok_def session0_def cfits_def)
    next
      case (2 i x r)
      have "epp_inv W (domains_decode W) (clid (c1 i))" using step.IH decode_inv [OF assms(2)] by (simp add: session_ok_def)
      from dispatch_keeps [OF this _ _ _ 2(2)] show ?case using step.IH 2(1) by simp
    next
      case (3 n)
      have "wp (epp_rgp_tick_one W (domain_key n)) (\<lambda>_ s'. good (domains_decode W) s') s1"
        using tick_decodes [OF assms(2), of n] step.IH by (simp add: triple_def good_def)
      then show ?case using 3 step.IH by (simp add: wp_def good_def)
    qed
  qed
  then show ?thesis using fault.exhaust by blast
qed

definition demo_domain :: epp_domain where
  "demo_domain = domain0\<lparr>d_clid := str ''a'', d_authinfo := str ''secret'', d_ns := [str ''ns.example''], d_exdate := 1800000000\<rparr>"

definition demo_session :: epp_session where
  "demo_session = \<lparr>clid = str ''b'', logged_in = True\<rparr>"

lemma demo_domain_reads:
  "reads demo_world [(domain_key n, blob_of (domain_items demo_domain))] (domain_key n) epp_domain_decode 4096 demo_domain"
proof -
  have "domain_ok demo_domain"
    by (simp add: demo_domain_def domain_ok_def domain0_def cfits_def cfits_list_def ds_list_def EPP_MAX_ARR_def rgp_of_def str_def)
  moreover have "length (tlv_enc (domain_items demo_domain)) < 4096"
    by (simp add: demo_domain_def domain_items_def domain0_def opt_rgp_def opt_str_def opt_u32_def be32_def str_def)
  ultimately show ?thesis using decode_blob_of by (simp add: reads_def demo_world_def)
qed

lemma demo_parties: "session_ok demo_session" "foreign (d_clid demo_domain) (clid demo_session)" "session_ok session0"
  "domains_decode demo_world []"
  by (simp_all add: demo_session_def session_ok_def cfits_def str_def foreign_def demo_domain_def session0_def domains_decode_def demo_world_def)

lemma epp_sponsor_only_witness:
  "\<exists>d'. reads demo_world (db (snd (run_state (epp_dispatch demo_world demo_session
       (str ''<epp><command><delete><domain:delete><domain:name>x.example</domain:name></domain:delete></delete></command></epp>''))
       (demo_state [(domain_key (str ''x.example''), blob_of (domain_items demo_domain))]))))
     (domain_key (str ''x.example'')) epp_domain_decode 4096 d' \<and> transfer_only demo_domain d'"
  by (rule epp_sponsor_only [OF demo_ok, where sess = demo_session, OF _ _ _ _ surjective_pairing])
    (simp_all add: demo_domain_reads demo_parties)

lemma epp_reachable_ok_witness:
  "domains_decode demo_world (db (snd (run_state (epp_dispatch demo_world session0 (str ''<epp><hello/></epp>'')) (demo_state []))))"
proof -
  have "epp_step demo_world (demo_state [], \<lambda>_. session0) (snd (run_state (epp_dispatch demo_world session0 (str ''<epp><hello/></epp>'')) (demo_state [])),
      (\<lambda>_. session0)(0 := fst (fst (run_state (epp_dispatch demo_world session0 (str ''<epp><hello/></epp>'')) (demo_state [])))))"
    by (rule epp_step.frame) (rule surjective_pairing)
  from epp_reachable_ok [OF r_into_rtranclp [of "epp_step demo_world", OF this] demo_ok(1)] show ?thesis
    by (simp add: demo_parties)
qed

section \<open>The sweep\<close>

lemma wp_any: "(\<And>r s'. Q r s') \<Longrightarrow> wp m Q s"
  by (simp add: wp_def split: prod.splits)

lemma wp_del_up:
  assumes "\<not> lossy W" "length k \<le> 300" "\<And>s'. db s' = v_del W (db s) k \<Longrightarrow> Q True s'"
  shows "wp (vk_del W k) Q s"
proof -
  have "vkc_encode [str ''DEL'', k] \<noteq> Err"
    using assms(2) length_dec_4 [of "length k"] length_dec_4 [of "Suc (Suc 0)"] length_dec_4 [of "Suc (Suc (Suc 0))"]
    by (simp add: vkc_encode_def crlf_def str_def)
  then show ?thesis
    unfolding vk_del_def vk_write_def trip_def using assms(1,3) by (intro wpi) (auto simp: lossy_def)
qed

lemma wp_get_up:
  assumes "\<not> lossy W" "length k \<le> 1000" "Q (map_option (take (n - 1)) (v_get W (db s) k)) (s\<lparr>trips := trips s + 1\<rparr>)"
  shows "wp (vk_get W k n) Q s"
  unfolding vk_get_def trip_def using assms vkc_encode_short [OF assms(2)] by (intro wpi) (auto simp: lossy_def)

lemma wp_reads_up:
  assumes "\<not> lossy W" "length k \<le> 1000" "reads W (db s) k dcd cap x" "Q (Have x) (s\<lparr>trips := trips s + 1\<rparr>)"
  shows "wp (get_obj W k dcd cap) Q s"
proof -
  obtain b where b: "v_get W (db s) k = Some b" "decode_blob dcd cap (take (VKC_BUF - 1) b) = Some (Ok x)"
    using assms(3) by (auto simp: reads_def)
  show ?thesis unfolding get_obj_def access_def
    by (intro wp_bind wp_get_up assms(1,2)) (simp add: b b(2) [simplified] wp_def assms(4) [simplified])
qed

text \<open>A domain whose redemption period is over, and a key that is not there.\<close>

definition overdue :: "'s world \<Rightarrow> cstr \<Rightarrow> 's \<Rightarrow> bool" where
  "overdue W k s \<longleftrightarrow> (\<exists>d. reads W s k epp_domain_decode 4096 d \<and> d_rgp_state d = EPP_RGP_REDEMPTION \<and> (\<forall>i. d_rgp_until d \<le> of_nat (clock W i)))"

definition gone :: "'s world \<Rightarrow> cstr \<Rightarrow> 's \<Rightarrow> bool" where
  "gone W k s \<longleftrightarrow> v_get W s k = None"

lemma tick_purges:
  assumes "valkey_ok W" "\<not> lossy W" "length k \<le> 300" "overdue W k (db s)"
  shows "wp (epp_rgp_tick_one W k) (\<lambda>_ s'. gone W k (db s')) s"
proof -
  obtain d where d: "reads W (db s) k epp_domain_decode 4096 d" "d_rgp_state d = EPP_RGP_REDEMPTION" "\<forall>i. d_rgp_until d \<le> of_nat (clock W i)"
    using assms(4) by (auto simp: overdue_def)
  have "wp (vk_del W k) (\<lambda>_. wp (ret ()) (\<lambda>_ s'. gone W k (db s'))) s'" for s'
    using assms(1) by (intro wp_del_up assms(2,3) wp_ret) (simp add: gone_def valkey_ok_def)
  then show ?thesis
    unfolding epp_rgp_tick_one_def time_u32_def time_now_def
    by (intro wp_bind wp_reads_up [OF assms(2) _ d(1)]) (use assms(3) d in \<open>auto simp: Let_def intro!: wp_bind wp_get wp_set wp_ret intro: wp_any\<close>)
qed

lemma other_base:
  assumes "valkey_ok W" "dom_key k"
  shows "epp_base W (overdue W k)" "epp_base W (gone W k)"
proof -
  have "k' \<noteq> k" if "\<not> dom_key k'" for k' using that assms(2) by auto
  then show "epp_base W (overdue W k)" "epp_base W (gone W k)"
    using assms(1) by (unfold_locales; auto simp: overdue_def gone_def reads_def valkey_ok_def)+
qed

lemma tick_other:
  assumes "valkey_ok W" "dom_key k" "k' \<noteq> k"
  shows "triple (overdue W k) (epp_rgp_tick_one W k') (\<lambda>_. True)" "triple (gone W k) (epp_rgp_tick_one W k') (\<lambda>_. True)"
  by (rule epp_base.triple_tick_one [OF other_base(1) [OF assms(1,2)]];
      use assms(1,3) in \<open>auto simp: overdue_def reads_set reads_del\<close>)
    (rule epp_base.triple_tick_one [OF other_base(2) [OF assms(1,2)]]; use assms(1,3) in \<open>auto simp: gone_def valkey_ok_def\<close>)

lemma tick_gone:
  assumes "\<not> lossy W" "length k \<le> 300" "gone W k (db s)"
  shows "wp (epp_rgp_tick_one W k) (\<lambda>_ s'. db s' = db s \<and> faults s' = faults s) s"
  unfolding epp_rgp_tick_one_def get_obj_def
  by (intro wp_bind wp_get_up assms(1)) (use assms(2,3) in \<open>auto simp: gone_def intro!: wp_ret\<close>)

lemma wp_conj: "wp m P s \<Longrightarrow> wp m Q s \<Longrightarrow> wp m (\<lambda>r s. P r s \<and> Q r s) s"
  by (simp add: wp_def split: prod.splits)

lemma wp_mono: "wp m P s \<Longrightarrow> (\<And>r s. P r s \<Longrightarrow> Q r s) \<Longrightarrow> wp m Q s"
  by (simp add: wp_def split: prod.splits)

lemma tick_safe: "Wild \<notin> faults s \<Longrightarrow> wp (epp_rgp_tick_one W k) (\<lambda>_ s'. Wild \<notin> faults s') s"
  using epp_base.triple_tick_one [of W "\<lambda>_. True" k] safe.epp_base_axioms
  by (auto simp: triple_def good_def)

lemma sweep_gone:
  assumes "valkey_ok W" "\<not> lossy W" "dom_key k" "length k \<le> 300" "gone W k (db s)" "Wild \<notin> faults s"
  shows "wp (tick_all W ks) (\<lambda>_ s'. gone W k (db s')) s"
  using assms(5,6)
proof (induction ks arbitrary: s)
  case Nil
  then show ?case by (simp add: wp_ret)
next
  case (Cons k' ks)
  have "wp (epp_rgp_tick_one W k') (\<lambda>_ s'. gone W k (db s')) s"
  proof (cases "k' = k")
    case True
    then show ?thesis using wp_mono [OF tick_gone [OF assms(2,4) Cons.prems(1)]] Cons.prems(1) by simp
  next
    case False
    have "wp (epp_rgp_tick_one W k') (\<lambda>_ s'. good (gone W k) s' \<and> True) s"
      using tick_other(2) [OF assms(1,3) False] Cons.prems by (simp add: triple_def good_def)
    then show ?thesis by (rule wp_mono) (simp add: good_def)
  qed
  from wp_conj [OF this tick_safe [OF Cons.prems(2)]] show ?case
    using Cons.IH by (auto intro!: wp_bind elim: wp_mono)
qed

lemma sweep_purges:
  assumes "valkey_ok W" "\<not> lossy W" "dom_key k" "length k \<le> 300" "overdue W k (db s)" "Wild \<notin> faults s" "k \<in> set ks"
  shows "wp (tick_all W ks) (\<lambda>_ s'. gone W k (db s')) s"
  using assms(5-7)
proof (induction ks arbitrary: s)
  case (Cons k' ks)
  show ?case
  proof (cases "k' = k")
    case True
    have "wp (epp_rgp_tick_one W k) (\<lambda>_ s'. gone W k (db s') \<and> Wild \<notin> faults s') s"
      by (intro wp_conj tick_purges tick_safe assms Cons.prems)
    then show ?thesis using True sweep_gone [OF assms(1-4)] by (auto intro!: wp_bind elim: wp_mono)
  next
    case False
    have "wp (epp_rgp_tick_one W k') (\<lambda>_ s'. overdue W k (db s') \<and> Wild \<notin> faults s') s"
      using tick_other(1) [OF assms(1,3) False] Cons.prems by (auto simp: triple_def good_def elim!: wp_mono)
    then show ?thesis using False Cons by (auto intro!: wp_bind elim: wp_mono)
  qed
qed simp

text \<open>
  C24: A deleted domain does not stay in the store forever: one sweep removes every domain whose redemption period is over, if the server
  answers and the key of the domain is one of the first 512 that the scan finds and has no more than 255 characters. The sweep looks at
  every domain in between and may change it, and it writes messages into poll queues; none of that saves the domain.
\<close>

theorem epp_sweep_purges:
  assumes "valkey_ok W" "\<not> lossy W" "Wild \<notin> faults s"
    and "reads W (db s) (domain_key n) epp_domain_decode 4096 d" "d_rgp_state d = EPP_RGP_REDEMPTION" "\<forall>i. d_rgp_until d \<le> of_nat (clock W i)"
    and "domain_key n \<in> set (take 512 (v_keys W (db s) (str ''epp:domain:*'')))" "length (domain_key n) \<le> 255"
  shows "v_get W (db (snd (run_state (epp_rgp_tick_scan W) s))) (domain_key n) = None"
proof -
  let ?ks = "map (take 255) (take 512 (v_keys W (db s) (str ''epp:domain:*'')))"
  have k: "domain_key n \<in> set ?ks" using assms(7,8) by (auto intro!: image_eqI [of _ _ "domain_key n"])
  have o: "overdue W (domain_key n) (db s)" using assms(4-6) by (auto simp: overdue_def)
  have "wp (tick_all W ?ks) (\<lambda>_ s'. gone W (domain_key n) (db s')) (s\<lparr>trips := trips s + 1\<rparr>)"
    using assms(3,8) k o by (intro sweep_purges assms(1,2)) auto
  then have "wp (epp_rgp_tick_scan W) (\<lambda>_ s'. gone W (domain_key n) (db s')) s"
    unfolding epp_rgp_tick_scan_def vk_list_keys_def trip_def using assms(2) by (intro wpi) (simp_all add: lossy_def)
  then show ?thesis by (simp add: wp_def gone_def split_def)
qed

definition demo_deleted :: epp_domain where
  "demo_deleted = demo_domain\<lparr>d_rgp_state := EPP_RGP_REDEMPTION, d_rgp_until := 1690000000\<rparr>"

lemma demo_deleted_reads:
  "reads demo_world [(domain_key n, blob_of (domain_items demo_deleted))] (domain_key n) epp_domain_decode 4096 demo_deleted"
proof -
  have "domain_ok demo_deleted"
    by (simp add: demo_deleted_def demo_domain_def domain_ok_def domain0_def cfits_def cfits_list_def ds_list_def EPP_MAX_ARR_def rgp_of_def str_def)
  moreover have "length (tlv_enc (domain_items demo_deleted)) < 4096"
    by (simp add: demo_deleted_def demo_domain_def domain_items_def domain0_def opt_rgp_def opt_str_def opt_u32_def be32_def str_def)
  ultimately show ?thesis using decode_blob_of by (simp add: reads_def demo_world_def)
qed

lemma epp_sweep_purges_witness:
  "v_get demo_world (db (snd (run_state (epp_rgp_tick_scan demo_world)
     (demo_state [(domain_key (str ''x.example''), blob_of (domain_items demo_deleted))])))) (domain_key (str ''x.example'')) = None"
proof (rule epp_sweep_purges [OF demo_ok, of _ _ demo_deleted])
  show "reads demo_world (db (demo_state [(domain_key (str ''x.example''), blob_of (domain_items demo_deleted))]))
      (domain_key (str ''x.example'')) epp_domain_decode 4096 demo_deleted"
    using demo_deleted_reads by simp
  show "\<forall>i. d_rgp_until demo_deleted \<le> of_nat (clock demo_world i)"
    by (simp add: demo_deleted_def demo_world_def)
  show "domain_key (str ''x.example'') \<in> set (take 512 (v_keys demo_world
      (db (demo_state [(domain_key (str ''x.example''), blob_of (domain_items demo_deleted))])) (str ''epp:domain:*'')))"
    by (simp add: demo_world_def domain_key_def snp_def str_def)
qed (simp_all add: demo_deleted_def domain_key_def snp_def str_def)

section \<open>Bounds\<close>



text \<open>The loop of the extensions.\<close>

lemma append_loop_off:
  "list_all (\<lambda>x. length x \<le> m) xs \<Longrightarrow> snd (append_loop cap (c, off) xs) \<le> off + length xs * m"
proof (induction xs arbitrary: c off)
  case (Cons x xs)
  then have "snd (append_loop cap (c', off + length x) xs) \<le> off + length x + length xs * m" for c' by simp
  from le_trans [OF this] show ?case using Cons.prems by (auto simp del: take_append)
qed simp

lemma append_loop_exact:
  "list_all (\<lambda>x. length x = m) xs \<Longrightarrow> off + (length xs - 1) * m < cap - 1 \<Longrightarrow>
   \<exists>c'. append_loop cap (c, off) (xs @ ys) = append_loop cap (c', off + length xs * m) ys"
proof (induction xs arbitrary: c off)
  case (Cons x xs)
  show ?case
  proof (cases xs)
    case Nil
    then show ?thesis using Cons.prems by (auto simp del: take_append)
  next
    case (Cons y zs)
    then have "off < cap - 1" "off + length x + (length xs - 1) * m < cap - 1" using Cons.prems by auto
    then show ?thesis using Cons.IH [of "off + length x" "take (cap - 1) (c @ x)"] Cons.prems by (auto simp del: take_append simp: add.assoc)
  qed
qed auto

lemma append_loop_stop: "cap - 1 \<le> off \<Longrightarrow> append_loop cap (c, off) xs = (c, off)"
  by (cases xs) auto

lemma length_dec_u16: "length (dec (unat (w :: u16))) \<le> 5"
proof -
  have "unat w div 10 < 10000" using unat_u16 [of w] by linarith
  then show ?thesis using length_dec_4 [of "unat w div 10"] by (simp add: dec.simps [of "unat w"])
qed

lemma length_dec_u8: "length (dec (unat (w :: u8))) \<le> 3"
proof -
  have "unat w div 10 div 10 < 10" using unat_u8 [of w] by linarith
  then show ?thesis by (simp add: dec.simps [of "unat w"] dec.simps [of "unat w div 10"] dec.simps [of "unat w div 10 div 10"])
qed

lemma length_ds_xml: "length (ds_xml e) = 157 + length (dec (unat (keytag e))) + length (dec (unat (alg e)))
    + length (dec (unat (digtype e))) + 2 * length (digest e)"
  by (simp add: ds_xml_def elem_def str_def)

lemma length_dec_step: "10 \<le> n \<Longrightarrow> length (dec n) = Suc (length (dec (n div 10)))"
  by (simp add: dec.simps [of n])

lemma length_ds_xml_le: "length (digest e) \<le> 68 \<Longrightarrow> length (ds_xml e) \<le> 304"
  using length_dec_u16 [of "keytag e"] length_dec_u8 [of "alg e"] length_dec_u8 [of "digtype e"] by (simp add: length_ds_xml)

lemma length_ds_xml_eq:
  assumes "10000 \<le> keytag e" "10 \<le> alg e" "alg e < 100" "digtype e < 10" "length (digest e) = 32"
  shows "length (ds_xml e) = 229"
proof -
  have k: "10000 \<le> unat (keytag e)" "10 \<le> unat (alg e)" "unat (alg e) < 100" "unat (digtype e) < 10"
    using assms by (simp_all add: word_le_nat_alt word_less_nat_alt)
  have one: "length (dec n) = 1" if "n < 10" for n using that by (simp add: dec.simps [of n])
  have "length (dec (unat (keytag e))) = 5"
  proof -
    define n where "n = unat (keytag e)"
    have "n < 65536" "10000 \<le> n" using k(1) by (simp_all add: n_def)
    then show ?thesis
      using length_dec_step [of n] length_dec_step [of "n div 10"] length_dec_step [of "n div 10 div 10"]
        length_dec_step [of "n div 10 div 10 div 10"] one [of "n div 10 div 10 div 10 div 10"]
      unfolding n_def [symmetric] by linarith
  qed
  moreover have "length (dec (unat (alg e))) = 2"
    using length_dec_step [of "unat (alg e)"] one [of "unat (alg e) div 10"] k(2,3) by linarith
  moreover have "length (dec (unat (digtype e))) = 1" using one k(4) by blast
  ultimately show ?thesis using assms(5) by (simp add: length_ds_xml)
qed

lemma ext_xml_faults:
  "faults (snd (run_state (ext_xml d) s)) =
     (if d_ds d \<noteq> [] \<and> 3000 < snd (append_loop 3000 (c, 65) (map ds_xml (d_ds d))) then insert ExtEnd (faults s) else faults s)"
proof -
  have o: "snd (append_loop cap (a, off) xs) = snd (append_loop cap (b, off) xs)" for cap a b off xs
    by (induction xs arbitrary: a b off) auto
  define start where "start = str ''<secDNS:infData'' @ attr ''xmlns:secDNS'' (urn ''secDNS-1.1'') @ str ''>''"
  have l: "length start = 65" by (simp add: start_def attr_def urn_def str_def)
  show ?thesis
    unfolding ext_xml_def Let_def start_def [symmetric] l using o [of 3000 c 65 "map ds_xml (d_ds d)" start]
    by (auto simp: fault_def State_Monad.update_def split_def not_le)
qed

text \<open>
  C36: The text of the extensions of an \<open>info\<close> response stays in its array of 3000 characters if the domain has at most nine DS records,
  whatever they are; with thirteen or more SHA-256 records with key tags of five digits and algorithms of two digits, which is fewer than the
  sixteen a domain may have, the closing tag is written behind its end.
\<close>

theorem epp_info_extension_bounds:
  assumes "domain_ok d"
  shows "(length (d_ds d) \<le> 9 \<longrightarrow> faults (snd (run_state (ext_xml d) s)) = faults s) \<and>
    (13 \<le> length (d_ds d) \<and> list_all (\<lambda>e. 10000 \<le> keytag e \<and> 10 \<le> alg e \<and> alg e < 100 \<and> digtype e < 10 \<and> length (digest e) = 32) (d_ds d) \<longrightarrow>
       ExtEnd \<in> faults (snd (run_state (ext_xml d) s)))"
proof (intro conjI impI; (elim conjE)?)
  assume l: "length (d_ds d) \<le> 9"
  have "list_all (\<lambda>e. length (digest e) \<le> 68) (d_ds d)" using assms by (simp add: domain_ok_def ds_list_def EPP_DS_MAX_DIGEST_def)
  then have "list_all (\<lambda>x. length x \<le> 304) (map ds_xml (d_ds d))" using length_ds_xml_le by (auto simp: list_all_iff)
  from append_loop_off [OF this, of 3000 "[]" 65] have "snd (append_loop 3000 ([], 65) (map ds_xml (d_ds d))) \<le> 65 + length (d_ds d) * 304" by simp
  then show "faults (snd (run_state (ext_xml d) s)) = faults s" using l by (simp add: ext_xml_faults [of d s "[]"])
next
  assume n: "13 \<le> length (d_ds d)"
    and l: "list_all (\<lambda>e. 10000 \<le> keytag e \<and> 10 \<le> alg e \<and> alg e < 100 \<and> digtype e < 10 \<and> length (digest e) = 32) (d_ds d)"
  have "list_all (\<lambda>x. length x = 229) (map ds_xml (take 13 (d_ds d)))"
    using l length_ds_xml_eq by (auto simp: list_all_iff dest!: in_set_takeD)
  from append_loop_exact [OF this, of 65 3000 "[]" "map ds_xml (drop 13 (d_ds d))"] n
  obtain c where "append_loop 3000 ([], 65) (map ds_xml (d_ds d)) = append_loop 3000 (c, 3042) (map ds_xml (drop 13 (d_ds d)))"
    by (auto simp: map_append [symmetric] simp del: map_append)
  then show "ExtEnd \<in> faults (snd (run_state (ext_xml d) s))" using n by (auto simp: ext_xml_faults [of d s "[]"] append_loop_stop)
qed

lemma epp_info_extension_bounds_witness:
  "ExtEnd \<in> faults (snd (run_state (ext_xml (demo_domain\<lparr>d_ds := replicate 13 \<lparr>keytag = 12345, alg = 13, digtype = 2, digest = replicate 32 7\<rparr>\<rparr>))
     (demo_state [])))"
proof -
  have "domain_ok (demo_domain\<lparr>d_ds := replicate 13 \<lparr>keytag = 12345, alg = 13, digtype = 2, digest = replicate 32 7\<rparr>\<rparr>)"
    by (simp add: demo_domain_def domain_ok_def domain0_def cfits_def cfits_list_def ds_list_def EPP_MAX_ARR_def EPP_DS_MAX_DIGEST_def rgp_of_def
        list_all_iff str_def)
  from epp_info_extension_bounds [OF this, of "demo_state []"] show ?thesis by (simp add: list_all_iff)
qed

section \<open>The poll queue\<close>

lemma wp_write_up:
  assumes "\<not> lossy W" "list_all (\<lambda>c. vkc_encode (vcmd_args c) \<noteq> Err) cmds"
    "\<And>s'. db s' = fold (vcmd_exec W) cmds (db s) \<Longrightarrow> times s' = times s \<Longrightarrow> Q True s'"
  shows "wp (vk_write W cmds) Q s"
  unfolding vk_write_def trip_def using assms by (intro wpi) (auto simp: lossy_def list_all_iff)

lemma vkc_encode_ok: "length k \<le> 160 \<Longrightarrow> length v \<le> 4096 \<Longrightarrow> vkc_encode [str ''SET'', k, v] \<noteq> Err"
  using length_dec_4 [of "length k"] length_dec_4 [of "length v"] length_dec_4 [of "Suc (Suc (Suc 0))"]
  by (simp add: vkc_encode_def crlf_def str_def)

lemma wp_incr_up:
  assumes "\<not> lossy W" "length k \<le> 160" "\<And>s'. db s' = v_incr W (db s) k \<Longrightarrow> times s' = times s \<Longrightarrow> Q 0 s'"
  shows "wp (vk_incr W k) Q s"
proof -
  have "vkc_encode [str ''INCR'', k] \<noteq> Err"
    using assms(2) length_dec_4 [of "length k"] length_dec_4 [of "Suc (Suc 0)"] length_dec_4 [of "Suc (Suc (Suc (Suc 0)))"]
    by (simp add: vkc_encode_def crlf_def str_def)
  then show ?thesis unfolding vk_incr_def using assms by (intro wp_bind wp_write_up wp_ret) auto
qed

lemma wp_put_up:
  assumes "\<not> lossy W" "length k \<le> 160" "poll_ok m" "length (tlv_enc (poll_items m)) < 2048"
    "\<And>s'. db s' = v_set W (db s) k (blob_of (poll_items m)) \<Longrightarrow> times s' = times s \<Longrightarrow> Q True s'"
  shows "wp (put_obj W k (epp_poll_encode m) 2048) Q s"
proof -
  define n where "n = 1 + length (tlv_enc (poll_items m))"
  obtain buf where e: "encode_items (poll_items m) (replicate 2048 0) 2048 = Some (buf, Ok n)" "n \<le> 2048"
    using pol.encode_fits [of 2048 "replicate 2048 0" m] assms(3,4) by (auto simp: n_def)
  have t: "hex_enc (take n buf) = blob_of (poll_items m)" using encode_items_blob [OF e(1)] by (simp add: blob_of_def)
  have l: "length (blob_of (poll_items m)) \<le> 4096" unfolding blob_of_def length_hex_enc using assms(4) by simp
  have "wp (vk_set W k (blob_of (poll_items m))) (\<lambda>_. wp (ret True) Q) s'" if "db s' = db s" "times s' = times s" for s'
    unfolding vk_set_def using assms(2,5) that vkc_encode_ok [OF assms(2) l] by (intro wp_write_up assms(1) wp_ret) auto
  then show ?thesis
    unfolding put_obj_def epp_poll_encode_def e(1) access_def
    by (auto simp: t fault_def intro!: wp_bind wp_update)
qed

lemma poll_items_size: "poll_ok m \<Longrightarrow> length (tlv_enc (poll_items m)) < 2048"
  by (auto simp: poll_ok_def poll_items_def cfits_def opt_str_def be32_def)

lemma wp_enqueue_up:
  assumes "valkey_ok W" "\<not> lossy W" "c \<noteq> []" "poll_ok m"
    "\<And>s' t. times s' = times s + 1 \<Longrightarrow>
      (\<forall>k. k \<noteq> pollseq_key c \<longrightarrow> v_get W (db s') k = (if k = poll_key c (str ''0'') then
         Some (blob_of (poll_items (m\<lparr>m_qdate := of_nat (clock W (times s))\<rparr>))) else v_get W (db s) k)) \<Longrightarrow> Q () s'"
  shows "wp (epp_poll_enqueue W c m) Q s"
proof -
  have z: "dec_int 0 = str ''0''" by (simp add: dec_int_def dec.simps str_def)
  have ok: "poll_ok (m\<lparr>m_qdate := t\<rparr>)" for t using assms(4) by (simp add: poll_ok_def)
  have l: "length (pollseq_key c) \<le> 160" "length (poll_key c n) \<le> 160" for n by (auto simp: pollseq_key_def poll_key_def snp_def)
  show ?thesis
    unfolding epp_poll_enqueue_def time_u32_def time_now_def using assms(3)
    by (simp, intro wp_bind wp_incr_up [OF assms(2) l(1)], simp add: z, intro wp_bind wp_get wp_set wp_ret wp_put_up [OF assms(2) l(2) ok poll_items_size [OF ok]])
      (use assms(1,5) in \<open>auto simp: valkey_ok_def\<close>)
qed

text \<open>
  C37: The poll queue of a registrar holds one message at a time: two messages that are put into it one after the other leave only the second
  in the store, because \<open>vk_incr\<close> gives 0 and not the number of the message, and both are stored under the number 0. The first message is not
  under any other key: apart from the counter and this key the store is as it was.
\<close>

theorem epp_poll_keeps_one:
  assumes "valkey_ok W" "\<not> lossy W" "c \<noteq> []" "poll_ok m1" "poll_ok m2" "k \<noteq> pollseq_key c"
  shows "v_get W (db (snd (run_state (do { epp_poll_enqueue W c m1; epp_poll_enqueue W c m2 }) s))) k =
    (if k = poll_key c (str ''0'') then Some (blob_of (poll_items (m2\<lparr>m_qdate := of_nat (clock W (times s + 1))\<rparr>))) else v_get W (db s) k)"
proof -
  have "wp (do { epp_poll_enqueue W c m1; epp_poll_enqueue W c m2 }) (\<lambda>_ s'. v_get W (db s') k =
    (if k = poll_key c (str ''0'') then Some (blob_of (poll_items (m2\<lparr>m_qdate := of_nat (clock W (times s + 1))\<rparr>))) else v_get W (db s) k)) s"
    by (intro wp_bind wp_enqueue_up [OF assms(1-3)] assms(4,5)) (use assms(6) in auto)
  then show ?thesis by (simp add: wp_def split_def)
qed

lemma epp_poll_keeps_one_witness:
  "v_get demo_world (db (snd (run_state (do { epp_poll_enqueue demo_world (str ''a'') (poll0\<lparr>m_msg := str ''first''\<rparr>);
     epp_poll_enqueue demo_world (str ''a'') (poll0\<lparr>m_msg := str ''second''\<rparr>) }) (demo_state [])))) (poll_key (str ''a'') (str ''1'')) = None"
proof -
  have "poll_ok (poll0\<lparr>m_msg := str ''first''\<rparr>)" "poll_ok (poll0\<lparr>m_msg := str ''second''\<rparr>)" by (simp_all add: poll_ok_def poll0_def cfits_def str_def)
  from epp_poll_keeps_one [OF demo_ok _ this, of "str ''a''" "poll_key (str ''a'') (str ''1'')" "demo_state []"]
  show ?thesis by (simp add: poll_key_def pollseq_key_def snp_def str_def demo_world_def)
qed

section \<open>The loop over name servers\<close>

text \<open>The rounds that the loop may make are enough: more of them change nothing, since every round starts behind the element before it.\<close>

lemma child_ret:
  assumes "e \<le> length x"
  shows "\<exists>r. child x s e tag = ret r \<and> (\<forall>y. r = Some y \<longrightarrow> child_bounds s e y)"
proof -
  obtain r where "xml_find_child x s e (str tag) = Some r" "\<forall>y. r = Found y \<longrightarrow> child_bounds s e y"
    using xml_find_child_ok [OF assms] by blast
  then show ?thesis by (cases r) (auto simp: child_def access_def)
qed

lemma parse_ns_loop_enough:
  assumes "lim \<le> length x" "lim - pos < n" "lim - pos < m"
  shows "parse_ns_loop W x n pos lim ns = parse_ns_loop W x m pos lim ns"
  using assms(2,3)
proof (induction n arbitrary: m pos ns)
  case (Suc n)
  obtain m' where m: "m = Suc m'" using Suc.prems by (cases m) auto
  obtain r where r: "child x pos lim ''domain:hostObj'' = (ret r :: ('a eppd, _) state)" "\<forall>y. r = Some y \<longrightarrow> child_bounds pos lim y"
    using child_ret [OF assms(1)] by blast
  obtain q where q: "child x pos lim ''domain:hostAttr'' = (ret q :: ('a eppd, _) state)" "\<forall>y. q = Some y \<longrightarrow> child_bounds pos lim y"
    using child_ret [OF assms(1)] by blast
  have step: "parse_ns_loop W x n np lim ns' = parse_ns_loop W x m' np lim ns'" if "pos < np" "np \<le> lim" for np ns'
    using that Suc.prems m by (intro Suc.IH) auto
  have u: "parse_ns_loop W x n (snd (snd y)) lim = parse_ns_loop W x m' (snd (snd y)) lim" if "child_bounds pos lim y" for y
    using that by (intro ext step) (auto simp: child_bounds_def split_def)
  show ?case
    unfolding m parse_ns_loop.simps r(1) q(1) Let_def using r(2) q(2) by (cases r; cases q) (simp_all add: split_def u cong: if_cong)
qed simp

end
