(* ===== verification/Spec2Isabelle.thy ===== *)
theory Spec2Isabelle
  imports Prelude CString Codec Names Compress Inet Tlv Types Canon Edns Cookie Resp Cache Dnssec Rollover Tsig Ixfr Secondary Xml Frame EppObj EppStore EppCmd EppInv
    EppGuard EppLife EppProps
begin

text \<open>
  Verification of simple-dns: an authoritative DNS server, a resolver and their satellites, written in C.

  \<^bold>\<open>The program and how its parts interact.\<close> Every daemon links \<open>src/dns_wire.c\<close>: strings and text encodings, names and their
  compression, records, TLV blobs, EDNS, canonical forms, and the client of the Valkey store. The daemons share nothing but that store.
  \<open>src/dns_server.c\<close> is the authoritative server: it answers from the keys \<open>zone:*\<close>, signs answers with keys that its rollover engine replaces,
  checks cookies and transaction signatures, and keeps secondaries up to date by transfers. \<open>src/resolverd.c\<close> is the resolver with its cache.
  \<open>src/eppd.c\<close> is the registry: it takes the commands of registrars as XML in length-prefixed frames over TLS, keeps domains, hosts, contacts and
  organisations as TLV blobs in the store, and publishes the delegations of domains where the server finds them. \<open>src/doqd.c\<close> relays DNS over QUIC to
  the server. \<open>src/mdnsd.c\<close>, \<open>src/certd.c\<close> and \<open>src/apid.c\<close> serve multicast DNS, certificates and the management interface.

  \<^bold>\<open>How C is modelled.\<close> An array is the list of its bytes and an access outside of it is \<open>None\<close>; a function that may also fail returns \<open>Err\<close> or
  \<open>Ok\<close> inside. So a theorem that a result is \<open>Some\<close> says that the code returns and is memory safe. Integers have their width where it matters.
  Loops are recursive functions: structural, with a measure, or partial functions whose return is a lemma. Sockets are lists of
  pieces that are cut in any way; what a server or a library answers is a parameter. The daemons that change shared state are step relations or
  computations of a state monad; one lock-protected section, or one command of the registry, is one step.

  \<^bold>\<open>The wire library\<close> (\<open>src/dns_wire.c\<close>).
  \<^item> \<open>Prelude\<close>: machine types, the memory model, reading and writing of buffers, and the lemmas on them that all theories share.
  \<^item> \<open>CString\<close>, \<open>Inet\<close>: the functions of the C library that the sources call on strings and addresses; \<open>strlower\<close>, \<open>safe_strcpy\<close>.
  \<^item> \<open>Codec\<close>: \<open>hex_enc\<close> to \<open>base32hex_dec\<close> and the big-endian accessors. Encoders and decoders are inverse (locale \<open>text_codec\<close>, interpreted three times).
  \<^item> \<open>Names\<close>: \<open>name_to_wire\<close>, \<open>name_from_wire\<close>, \<open>skip_name\<close>, \<open>txt_encode\<close>, \<open>nsec3_hash_raw\<close>. A relation says what name the octets of a packet spell;
    the reader never leaves the packet, returns the name that is spelled within its limits, and reads back what was written.
  \<^item> \<open>Compress\<close>: \<open>name_to_wire_c\<close> and \<open>append_rr\<close> over the context of a message. An invariant of the context makes every sequence of records readable.
  \<^item> \<open>Tlv\<close>: \<open>tlv_put\<close>, \<open>tlv_next\<close>, SVCB and ZONEMD rdata; the locale \<open>tlv_format\<close> is the contract that later codecs use.
  \<^item> \<open>Types\<close>, \<open>Canon\<close>, \<open>Edns\<close>: type names, serial arithmetic, type bitmaps; canonical order (locale \<open>cmp_order\<close>) and rdata; the OPT record.
  \<^item> \<open>Resp\<close>: the Valkey client, from the buffer to \<open>MULTI\<close>/\<open>EXEC\<close>; replies are framed correctly however the stream is cut, transactions are all or nothing.

  \<^bold>\<open>The server and the resolver.\<close>
  \<^item> \<open>Cookie\<close>: \<open>siphash24\<close> and server cookies.
  \<^item> \<open>Dnssec\<close>: DNSKEY, DS, CDS and RRSIG rdata, \<open>keytag\<close>, the signed answers at the apex.
  \<^item> \<open>Rollover\<close>: the engine that replaces keys, as steps of a state with the store; it refines a machine of phases, keys that sign are published, and a
    due rollover completes.
  \<^item> \<open>Tsig\<close>: \<open>tsig_find\<close>, \<open>tsig_verify\<close>, \<open>tsig_append\<close> and the chain of MACs of a transfer.
  \<^item> \<open>Ixfr\<close>, \<open>Secondary\<close>: the journal, the difference sequences of the primary, the reader \<open>xfr_pull\<close> of the secondary and its writes; a secondary
    catches up, and with a key only an unbroken chain of signed messages changes it.
  \<^item> \<open>Cache\<close>: the cache of the resolver over an explicit heap; it refines an LRU cache.

  \<^bold>\<open>The registry and DNS over QUIC.\<close>
  \<^item> \<open>Xml\<close>: \<open>xml_next_tag\<close> to \<open>xml_text_decode\<close>. The searches return inside their range for every input and read back rendered documents.
  \<^item> \<open>Frame\<close>: \<open>epp_read_frame\<close>, \<open>epp_write_frame\<close>; \<open>doq_handle_stream\<close> and \<open>dns_forward\<close>.
  \<^item> \<open>EppObj\<close>: the five kinds of objects. The locale \<open>epp_object\<close> is the contract of an encoder and its decoder, interpreted for all five.
  \<^item> \<open>EppStore\<close>, \<open>EppCmd\<close>: the state of \<open>eppd.c\<close>, round trips to the store, responses and delegations; every handler and \<open>epp_dispatch\<close>. \<open>faults\<close> collects
    accesses outside of arrays: \<open>HexEnd\<close> and \<open>ExtEnd\<close> are the two that the code can make (findings), \<open>Wild\<close> is every other.
  \<^item> \<open>EppInv\<close>, \<open>EppGuard\<close>: triples over the state monad and what commands keep. The locale \<open>epp_base\<close> assumes that a property of the store does not
    depend on other keys than those of domains; \<open>epp_inv\<close> adds what a registrar may write there. Their lemmas go through every handler.
  \<^item> \<open>EppLife\<close>, \<open>EppProps\<close>: the sweep, a connection, the steps of the daemon; and the theorems: memory safety of every connection, no change without a
    login, no change of another registrar's domain, every reachable state is well-formed, the sweep purges, independence of TLS records.

  \<^bold>\<open>Bounds and fuel.\<close> Fuel occurs in \<open>parse_ns_loop\<close> (one round more than there are octets; \<open>parse_ns_loop_enough\<close> shows that more changes nothing). The other
  loops are total functions or partial functions with a lemma that they return (\<open>xml_find_child_ok\<close>, \<open>session_frames_total\<close>).

  \<^bold>\<open>Assumptions.\<close> The Valkey server is a parameter; \<open>valkey_ok\<close> and the hypotheses of \<open>Rollover\<close> and \<open>Secondary\<close> say what \<open>SET\<close>, \<open>DEL\<close> and \<open>INCR\<close> do to a
  key. Round trips may be lost unless a theorem assumes otherwise (\<open>lossy\<close>). Hashes, HMACs and signatures of OpenSSL are functions, with the equations
  that a theorem needs as its hypotheses. The arrays of the registry hold zeros behind their strings, as \<open>memset\<close> leaves them.

  \<^bold>\<open>Not modelled, and why.\<close> Listeners, threads, TLS and QUIC set-up, timers, signals, logging, sandboxing and configuration at start are input and
  output around the modelled functions. Commands of the registry are atomic steps: the code takes its lock for every round trip only, so interleavings
  inside a command are not covered. Of the server, the lookup in the zone tables with views and policies, the parser of dynamic updates, the sender of
  full transfers and the keyspace watch are left out; of the resolver, iteration and validation: both are long functions over global tables,
  sockets and OpenSSL objects whose model would be mostly parameters. \<open>src/mdnsd.c\<close>, \<open>src/certd.c\<close>, \<open>src/apid.c\<close> and \<open>src/simple_dns.c\<close> are network and
  HTTP code around the library. \<open>src/object_graph.c\<close> is a vendored library.
\<close>

end
